(* ===== verification/Prelude.thy ===== *)
theory Prelude
  imports Main "HOL-Library.Word" "HOL-Library.Multiset"
begin

text \<open>
  Shared vocabulary of the development: bytes, the outcome of a C++ call, the state-and-error
  composition every component uses, the little-endian memory image of machine integers, and the
  generic lemmas on lists and words the component theories rest on.
\<close>

named_theorems exec_simps \<open>definitions unfolded to run a model on a concrete input\<close>
named_theorems bytes_simps \<open>facts about byte images of machine integers\<close>

section \<open>Bytes and outcomes\<close>

text \<open>
  A C++ \<open>char\<close> is an 8-bit value; where the source uses its sign (it is signed on the target,
  x86-64), the model reads it with \<open>sint\<close>. A \<open>std::string\<close> is a list of bytes.
\<close>

type_synonym byte = "8 word"
type_synonym bytes = "byte list"

text \<open>
  \<open>Fail\<close> is the source's \<open>return -1\<close>. \<open>Fault\<close> is what the source has no code for: a read past
  the end of a buffer or a wrong downcast (undefined behaviour), or a \<open>std::length_error\<close> or \<open>std::out_of_range\<close> that
  nothing catches.
\<close>

datatype fault = OutOfBounds | LengthError | OutOfRange | NullPointer | BadCast

datatype 'a res = Ok 'a | Fail | Fault fault

fun bind_res :: "'a res \<Rightarrow> ('a \<Rightarrow> 'b res) \<Rightarrow> 'b res" where
  "bind_res (Ok x) f = f x"
| "bind_res Fail f = Fail"
| "bind_res (Fault e) f = Fault e"

text \<open>
  A stateful call: \<open>None\<close> means that it does not return (a loop that never ends); otherwise the
  outcome and the state it leaves, which is there after an error too.
\<close>

type_synonym ('s, 'a) act = "'s \<Rightarrow> ('a res \<times> 's) option"

definition return_act :: "'a \<Rightarrow> ('s, 'a) act" where
  "return_act x s = Some (Ok x, s)"

definition fail_act :: "('s, 'a) act" where
  "fail_act s = Some (Fail, s)"

definition lift_res :: "'a res \<Rightarrow> ('s, 'a) act" where
  "lift_res r s = Some (r, s)"

definition modify_act :: "('s \<Rightarrow> 's) \<Rightarrow> ('s, unit) act" where
  "modify_act f s = Some (Ok (), f s)"

definition bind_act :: "('s, 'a) act \<Rightarrow> ('a \<Rightarrow> ('s, 'b) act) \<Rightarrow> ('s, 'b) act" where
  "bind_act m f s =
     (case m s of
        None \<Rightarrow> None
      | Some (Ok x, s') \<Rightarrow> f x s'
      | Some (Fail, s') \<Rightarrow> Some (Fail, s')
      | Some (Fault e, s') \<Rightarrow> Some (Fault e, s'))"

text \<open>A call whose \<open>-1\<close> the caller does not look at.\<close>

definition ignore_act :: "('s, 'a) act \<Rightarrow> ('s, unit) act" where
  "ignore_act m s =
     (case m s of
        None \<Rightarrow> None
      | Some (Ok x, s') \<Rightarrow> Some (Ok (), s')
      | Some (Fail, s') \<Rightarrow> Some (Ok (), s')
      | Some (Fault e, s') \<Rightarrow> Some (Fault e, s'))"

text \<open>A counted loop whose body may return early.\<close>

fun for_each_act :: "('b \<Rightarrow> ('s, unit) act) \<Rightarrow> 'b list \<Rightarrow> ('s, unit) act" where
  "for_each_act f [] = return_act ()"
| "for_each_act f (x # xs) = bind_act (f x) (\<lambda>_. for_each_act f xs)"

section \<open>Memory images of integers (little-endian)\<close>

fun le_nat :: "bytes \<Rightarrow> nat" where
  "le_nat [] = 0"
| "le_nat (b # bs) = unat b + 256 * le_nat bs"

fun nat_le :: "nat \<Rightarrow> nat \<Rightarrow> bytes" where
  "nat_le 0 x = []"
| "nat_le (Suc n) x = of_nat x # nat_le n (x div 256)"

definition mem_of :: "'a::len word \<Rightarrow> bytes" where
  "mem_of w = nat_le (LENGTH('a) div 8) (unat w)"

definition of_mem :: "bytes \<Rightarrow> 'a::len word" where
  "of_mem bs = of_nat (le_nat bs)"

text \<open>A string literal of the source as bytes.\<close>

definition str :: "string \<Rightarrow> bytes" where
  "str s = map of_char s"

text \<open>
  What a pointer into a \<open>std::string\<close> may read: its bytes and the terminating zero byte.
\<close>

definition peek :: "bytes \<Rightarrow> nat \<Rightarrow> byte res" where
  "peek buf p = (if p < length buf then Ok (buf ! p)
                 else if p = length buf then Ok 0 else Fault OutOfBounds)"

definition slice :: "bytes \<Rightarrow> nat \<Rightarrow> nat \<Rightarrow> bytes res" where
  "slice buf p n = (if p + n \<le> length buf + 1 then Ok (take n (drop p (buf @ [0])))
                    else Fault OutOfBounds)"

section \<open>Lemmas on outcomes and calls\<close>

lemma bind_res_eq_Ok: "bind_res r f = Ok y \<longleftrightarrow> (\<exists>x. r = Ok x \<and> f x = Ok y)"
  by (cases r) auto

lemma bind_res_eq_Fault:
  "bind_res r f = Fault e \<longleftrightarrow> r = Fault e \<or> (\<exists>x. r = Ok x \<and> f x = Fault e)"
  by (cases r) auto

lemma bind_act_Ok: "m s = Some (Ok x, s') \<Longrightarrow> bind_act m f s = f x s'"
  by (simp add: bind_act_def)

lemma bind_act_Fail: "m s = Some (Fail, s') \<Longrightarrow> bind_act m f s = Some (Fail, s')"
  by (simp add: bind_act_def)

lemma bind_act_Fault: "m s = Some (Fault e, s') \<Longrightarrow> bind_act m f s = Some (Fault e, s')"
  by (simp add: bind_act_def)

lemma bind_act_None: "m s = None \<Longrightarrow> bind_act m f s = None"
  by (simp add: bind_act_def)

lemma bind_act_eq_Ok:
  "bind_act m f s = Some (Ok y, t) \<longleftrightarrow> (\<exists>x s'. m s = Some (Ok x, s') \<and> f x s' = Some (Ok y, t))"
  by (auto simp: bind_act_def split: option.splits prod.splits res.splits)

lemma bind_act_simps [simp]:
  "bind_act (return_act x) f = f x"
  "bind_act fail_act f = fail_act"
  "bind_act (lift_res (Ok x)) f = f x"
  "bind_act (modify_act g) h s = h () (g s)"
  by (auto simp: bind_act_def return_act_def fail_act_def lift_res_def modify_act_def
      split: res.splits)

lemma bind_act_assoc: "bind_act (bind_act m f) g = bind_act m (\<lambda>x. bind_act (f x) g)"
  by (rule ext) (auto simp: bind_act_def split: option.splits prod.splits res.splits)

lemma ignore_act_eq_Ok:
  "ignore_act m s = Some (Ok (), t) \<longleftrightarrow> (\<exists>x. m s = Some (Ok x, t)) \<or> m s = Some (Fail, t)"
  by (auto simp: ignore_act_def split: option.splits prod.splits res.splits)

section \<open>Lemmas on memory images\<close>

lemma le_nat_bound: "le_nat bs < 256 ^ length bs"
proof (induction bs)
  case Nil
  then show ?case by simp
next
  case (Cons b bs)
  have "unat b < 256" using unsigned_less [of b, where ?'a = nat] by simp
  with Cons show ?case by simp
qed

lemma length_nat_le [simp]: "length (nat_le n x) = n"
  by (induction n arbitrary: x) auto

lemma nat_le_numeral [exec_simps]:
  "nat_le (numeral k) x = of_nat x # nat_le (pred_numeral k) (x div 256)"
  unfolding numeral_eq_Suc [of k] by (rule nat_le.simps(2))

lemma le_nat_nat_le: "le_nat (nat_le n x) = x mod 256 ^ n"
proof (induction n arbitrary: x)
  case 0
  then show ?case by simp
next
  case (Suc n)
  have "unat (of_nat x :: byte) = x mod 256" by (simp add: unat_of_nat)
  moreover have "x mod (256 * 256 ^ n) = 256 * (x div 256 mod 256 ^ n) + x mod 256"
    by (rule mod_mult2_eq)
  ultimately show ?case by (simp add: Suc)
qed

lemma nat_le_le_nat: "nat_le (length bs) (le_nat bs) = bs"
proof (induction bs)
  case Nil
  then show ?case by simp
next
  case (Cons b bs)
  have b: "unat b < 256" using unsigned_less [of b, where ?'a = nat] by simp
  have "(unat b + 256 * le_nat bs) div 256 = le_nat bs" using b by simp
  moreover have "(of_nat (unat b + 256 * le_nat bs) :: byte) = b"
  proof -
    have z: "(256 :: byte) = 0" by simp
    show ?thesis by (simp add: z)
  qed
  ultimately show ?case using Cons by simp
qed

lemma length_mem_of [simp]: "length (mem_of (w :: 'a::len word)) = LENGTH('a) div 8"
  by (simp add: mem_of_def)

lemma image_capacity:
  assumes "8 dvd LENGTH('a::len)"
  shows "(256 :: nat) ^ (LENGTH('a) div 8) = 2 ^ LENGTH('a)"
proof -
  have "(256 :: nat) ^ (LENGTH('a) div 8) = (2 ^ 8) ^ (LENGTH('a) div 8)" by simp
  also have "\<dots> = 2 ^ (8 * (LENGTH('a) div 8))" by (simp only: power_mult)
  finally show ?thesis using assms by simp
qed

lemma of_mem_mem_of [bytes_simps]:
  fixes w :: "'a::len word"
  assumes "8 dvd LENGTH('a)"
  shows "(of_mem (mem_of w) :: 'a word) = w"
proof -
  have "unat w < 2 ^ LENGTH('a)" by (rule unsigned_less)
  then show ?thesis
    using image_capacity [OF assms] by (simp add: of_mem_def mem_of_def le_nat_nat_le)
qed

lemma unat_of_mem:
  assumes "8 dvd LENGTH('a::len)" and "length bs \<le> LENGTH('a) div 8"
  shows "unat (of_mem bs :: 'a word) = le_nat bs"
proof -
  have "le_nat bs < 256 ^ length bs" by (rule le_nat_bound)
  also have "\<dots> \<le> 256 ^ (LENGTH('a) div 8)" using assms(2) by (intro power_increasing) auto
  finally have "le_nat bs < 2 ^ LENGTH('a)" using image_capacity [OF assms(1)] by simp
  then show ?thesis by (simp add: of_mem_def unat_of_nat)
qed

lemma mem_of_of_mem:
  assumes "8 dvd LENGTH('a::len)" and "length bs = LENGTH('a) div 8"
  shows "mem_of (of_mem bs :: 'a word) = bs"
  using assms nat_le_le_nat [of bs] unat_of_mem [OF assms(1), of bs]
  by (simp add: mem_of_def)

section \<open>Lemmas on buffers\<close>

lemma peek_in [simp]: "p < length buf \<Longrightarrow> peek buf p = Ok (buf ! p)"
  by (simp add: peek_def)

lemma slice_in: "p + n \<le> length buf \<Longrightarrow> slice buf p n = Ok (take n (drop p buf))"
  by (simp add: slice_def)

lemma slice_Fault_iff: "(\<exists>e. slice buf p n = Fault e) \<longleftrightarrow> length buf + 1 < p + n"
  by (auto simp: slice_def)

lemma slice_append: "slice (xs @ ys @ zs) (length xs) (length ys) = Ok ys"
  by (simp add: slice_in)

lemma drop_eq_Cons_split: "drop n xs = y # ys \<Longrightarrow> xs = take n xs @ y # ys"
  by (metis append_take_drop_id)

lemma length_str [simp]: "length (str s) = length s"
  by (simp add: str_def)

text \<open>A buffer \<open>b\<close> after \<open>x\<close> has been copied to its start.\<close>

definition overlay :: "bytes \<Rightarrow> bytes \<Rightarrow> bytes" where
  "overlay x b = x @ drop (length x) b"

lemma length_overlay: "length x \<le> length b \<Longrightarrow> length (overlay x b) = length b"
  by (simp add: overlay_def)

end
