(* ===== verification/Posix.thy ===== *)
theory Posix
  imports Prelude
begin

text \<open>
  The operating system as the code sees it. The kernel is not part of the repository, so its
  behaviour is an argument of the model: a socket carries the list of everything that will happen
  on it (segments that arrive, errors, periods of silence, room in the send buffer), and each
  system call answers from the front of that list as POSIX documents. Theorems quantify over the
  whole list, hence over every behaviour of the peer and of the kernel.
\<close>

unbundle bit_operations_syntax

datatype errno = EINTR | EAGAIN | ETIME | EBADF | EINVAL | EDEADLK | EBUSY | EPERM
  | EINPROGRESS | EADDRINUSE | EMFILE | ECONNRESET | EPIPE | EOTHER nat

text \<open>
  The answer of \<open>st_poll\<close> on one descriptor: it failed (the thread was interrupted), or it
  returned with the given \<open>revents\<close>; no bit set means the time ran out.
\<close>

datatype poll_ans = PollErr errno | PollRev "16 word"

definition ENOSYS :: errno where "ENOSYS = EOTHER 38"

definition POLLIN :: "16 word" where "POLLIN = 1"
definition POLLPRI :: "16 word" where "POLLPRI = 2"
definition POLLOUT :: "16 word" where "POLLOUT = 4"
definition POLLERR :: "16 word" where "POLLERR = 8"
definition POLLHUP :: "16 word" where "POLLHUP = 16"
definition POLLNVAL :: "16 word" where "POLLNVAL = 32"

text \<open>
  What happens on the receiving side: a segment (never empty) arrives, a \<open>read\<close> fails, or there is
  nothing to read until a wait on the descriptor is answered. When the list is used up the peer has
  closed (\<open>rx_closed\<close>: every further \<open>read\<close> returns 0) or stays silent (every further wait times
  out). On the sending side the kernel takes some bytes, fails, or is full; after that it takes
  everything.
\<close>

datatype rx_ev = Seg byte bytes | RErr errno | RQuiet poll_ans
datatype tx_ev = Room nat | WErr errno | WQuiet poll_ans

record sock =
  rx :: "rx_ev list"
  rx_closed :: bool
  tx :: "tx_ev list"
  sent :: bytes

datatype read_ans = Got bytes | RFail errno
datatype write_ans = Wrote nat | WFail errno

section \<open>System calls\<close>

fun sys_read :: "nat \<Rightarrow> sock \<Rightarrow> read_ans \<times> sock" where
  "sys_read n s =
     (if n = 0 then (Got [], s)
      else case rx s of
        [] \<Rightarrow> (if rx_closed s then Got [] else RFail EAGAIN, s)
      | Seg b bs # r \<Rightarrow>
          (Got (take n (b # bs)),
           s\<lparr>rx := (case drop n (b # bs) of [] \<Rightarrow> r | c # cs \<Rightarrow> Seg c cs # r)\<rparr>)
      | RErr e # r \<Rightarrow> (RFail e, s\<lparr>rx := r\<rparr>)
      | RQuiet a # r \<Rightarrow> (RFail EAGAIN, s))"

fun sys_write :: "bytes \<Rightarrow> sock \<Rightarrow> write_ans \<times> sock" where
  "sys_write bs s =
     (case tx s of
        [] \<Rightarrow> (Wrote (length bs), s\<lparr>sent := sent s @ bs\<rparr>)
      | Room k # r \<Rightarrow>
          (Wrote (min k (length bs)), s\<lparr>tx := r, sent := sent s @ take k bs\<rparr>)
      | WErr e # r \<Rightarrow> (WFail e, s\<lparr>tx := r\<rparr>)
      | WQuiet a # r \<Rightarrow> (WFail EAGAIN, s))"

text \<open>A wait for input or output on the descriptor: the answer \<open>st_poll\<close> gives.\<close>

fun poll_in :: "sock \<Rightarrow> poll_ans \<times> sock" where
  "poll_in s =
     (case rx s of
        [] \<Rightarrow> (PollRev (if rx_closed s then POLLIN else 0), s)
      | RQuiet a # r \<Rightarrow> (a, s\<lparr>rx := r\<rparr>)
      | _ \<Rightarrow> (PollRev POLLIN, s))"

fun poll_out :: "sock \<Rightarrow> poll_ans \<times> sock" where
  "poll_out s =
     (case tx s of
        WQuiet a # r \<Rightarrow> (a, s\<lparr>tx := r\<rparr>)
      | _ \<Rightarrow> (PollRev POLLOUT, s))"

section \<open>What is still to come\<close>

fun rx_bytes :: "rx_ev list \<Rightarrow> bytes" where
  "rx_bytes [] = []"
| "rx_bytes (Seg b bs # r) = b # bs @ rx_bytes r"
| "rx_bytes (_ # r) = rx_bytes r"

definition pending :: "sock \<Rightarrow> bytes" where
  "pending s = rx_bytes (rx s)"

text \<open>
  Events that only delay a transfer: data, an interrupted or a would-block call, and a silence that
  ends with the descriptor ready.
\<close>

fun wakes :: "poll_ans \<Rightarrow> bool" where
  "wakes (PollErr e) = False"
| "wakes (PollRev r) = (r \<noteq> 0 \<and> r AND POLLNVAL = 0)"

fun rx_benign :: "rx_ev \<Rightarrow> bool" where
  "rx_benign (Seg b bs) = True"
| "rx_benign (RErr e) = (e = EINTR \<or> e = EAGAIN)"
| "rx_benign (RQuiet a) = wakes a"

fun tx_benign :: "tx_ev \<Rightarrow> bool" where
  "tx_benign (Room k) = True"
| "tx_benign (WErr e) = (e = EINTR \<or> e = EAGAIN)"
| "tx_benign (WQuiet a) = wakes a"

definition rx_fine :: "sock \<Rightarrow> bool" where
  "rx_fine s \<longleftrightarrow> list_all rx_benign (rx s)"

definition tx_fine :: "sock \<Rightarrow> bool" where
  "tx_fine s \<longleftrightarrow> list_all tx_benign (tx s)"

definition rx_weight :: "sock \<Rightarrow> nat" where
  "rx_weight s = length (rx s) + length (pending s)"

section \<open>Lemmas\<close>

lemma sys_read_Got:
  "sys_read n s = (Got bs, s') \<Longrightarrow>
     pending s = bs @ pending s' \<and> length bs \<le> n \<and> tx s' = tx s \<and> sent s' = sent s
     \<and> rx_closed s' = rx_closed s"
  by (cases "rx s" rule: rx_bytes.cases)
     (auto simp: pending_def split: if_splits list.splits prod.splits
        intro: drop_eq_Cons_split)

lemma sys_read_RFail:
  "sys_read n s = (RFail e, s') \<Longrightarrow>
     pending s' = pending s \<and> tx s' = tx s \<and> sent s' = sent s \<and> rx_closed s' = rx_closed s"
  by (cases "rx s" rule: rx_bytes.cases)
     (auto simp: pending_def split: if_splits list.splits prod.splits)

lemma sys_read_Got_weight:
  "sys_read n s = (Got bs, s') \<Longrightarrow> bs \<noteq> [] \<Longrightarrow> rx_weight s' < rx_weight s"
  by (cases "rx s" rule: rx_bytes.cases)
     (auto simp: rx_weight_def pending_def split: if_splits list.splits prod.splits
       dest!: arg_cong [where f = length])

lemma sys_read_RFail_weight:
  "sys_read n s = (RFail e, s') \<Longrightarrow> e \<noteq> EAGAIN \<Longrightarrow> rx_weight s' < rx_weight s"
  by (cases "rx s" rule: rx_bytes.cases)
     (auto simp: rx_weight_def pending_def split: if_splits list.splits prod.splits)

lemma sys_read_RFail_weight_le:
  "sys_read n s = (RFail e, s') \<Longrightarrow> rx_weight s' \<le> rx_weight s"
  by (cases "rx s" rule: rx_bytes.cases)
     (auto simp: rx_weight_def pending_def split: if_splits list.splits prod.splits)

lemma poll_in_keeps:
  "poll_in s = (a, s') \<Longrightarrow> pending s' = pending s \<and> tx s' = tx s \<and> sent s' = sent s
     \<and> rx_closed s' = rx_closed s \<and> rx_weight s' \<le> rx_weight s"
  by (cases "rx s" rule: rx_bytes.cases) (auto simp: pending_def rx_weight_def)

lemma poll_out_keeps:
  "poll_out s = (a, s') \<Longrightarrow> rx s' = rx s \<and> sent s' = sent s \<and> rx_closed s' = rx_closed s
     \<and> length (tx s') \<le> length (tx s)"
  by (auto split: list.splits tx_ev.splits)

lemma sys_write_Wrote:
  "sys_write bs s = (Wrote k, s') \<Longrightarrow>
     k \<le> length bs \<and> sent s' = sent s @ take k bs \<and> rx s' = rx s \<and> rx_closed s' = rx_closed s"
  by (auto split: list.splits tx_ev.splits simp: min_def)

lemma sys_write_WFail:
  "sys_write bs s = (WFail e, s') \<Longrightarrow> sent s' = sent s \<and> rx s' = rx s \<and> rx_closed s' = rx_closed s"
  by (auto split: list.splits tx_ev.splits)

lemma sys_read_Got_Nil:
  "sys_read n s = (Got [], s') \<Longrightarrow> 0 < n \<Longrightarrow> rx s = [] \<and> rx_closed s \<and> s' = s"
  by (cases "rx s" rule: rx_bytes.cases) (auto split: if_splits)

lemma sys_read_fine: "sys_read n s = (a, s') \<Longrightarrow> rx_fine s \<Longrightarrow> rx_fine s'"
  by (cases "rx s" rule: rx_bytes.cases) (auto simp: rx_fine_def split: if_splits list.splits)

lemma poll_in_fine: "poll_in s = (a, s') \<Longrightarrow> rx_fine s \<Longrightarrow> rx_fine s'"
  by (cases "rx s" rule: rx_bytes.cases) (auto simp: rx_fine_def split: if_splits list.splits)

lemma sys_write_fine: "sys_write bs s = (a, s') \<Longrightarrow> tx_fine s \<Longrightarrow> tx_fine s'"
  by (auto simp: tx_fine_def split: list.splits tx_ev.splits)

lemma poll_out_fine: "poll_out s = (a, s') \<Longrightarrow> tx_fine s \<Longrightarrow> tx_fine s'"
  by (auto simp: tx_fine_def split: list.splits tx_ev.splits)

lemma sys_read_benign_error:
  "sys_read n s = (RFail e, s') \<Longrightarrow> rx_fine s \<Longrightarrow> e = EINTR \<or> e = EAGAIN"
  by (cases "rx s" rule: rx_bytes.cases) (auto simp: rx_fine_def split: if_splits)

lemma sys_write_benign_error:
  "sys_write bs s = (WFail e, s') \<Longrightarrow> tx_fine s \<Longrightarrow> e = EINTR \<or> e = EAGAIN"
  by (auto simp: tx_fine_def split: list.splits tx_ev.splits)

declare sys_read.simps [simp del] sys_write.simps [simp del]
  poll_in.simps [simp del] poll_out.simps [simp del]

lemmas posix_exec [exec_simps] = sys_read.simps sys_write.simps poll_in.simps poll_out.simps

end
