(* ===== verification/Conn.thy ===== *)
theory Conn
  imports Posix
begin

text \<open>
  The state the server keeps for one connection, and the plain data of the message layer:
  \<^verbatim>\<open>value_object.h\<close> (AMF values), \<open>Message_Header\<close> and the globals of \<^verbatim>\<open>io_message.cpp\<close>,
  the \<open>Client\<close> object of \<^verbatim>\<open>client.h\<close> and the buffer operations of \<^verbatim>\<open>io_buffer.cpp\<close>.
\<close>

section \<open>Values and headers\<close>

text \<open>
  A \<open>double\<close> is only moved and compared byte by byte, so it is its 64-bit pattern.
\<close>

type_synonym double_bits = "64 word"
type_synonym int32 = "32 word"

datatype Value_Object =
    Value_String bytes
  | Value_Num double_bits
  | Value_Len int32
  | Value_0x01 byte

text \<open>The bit pattern of a small whole \<open>double\<close>, for the literals of the source.\<close>

fun ilog2 :: "nat \<Rightarrow> nat" where
  "ilog2 n = (if n \<le> 1 then 0 else Suc (ilog2 (n div 2)))"

declare ilog2.simps [simp del]

definition double_of_nat :: "nat \<Rightarrow> double_bits" where
  "double_of_nat n =
     (if n = 0 then 0
      else of_nat ((1023 + ilog2 n) * 2 ^ 52 + (n - 2 ^ ilog2 n) * 2 ^ (52 - ilog2 n)))"

record Message_Header =
  header_length :: int32
  timestamp :: int32
  timestamp_delta :: int32
  message_length :: int32
  message_type :: byte
  stream_id :: int32

text \<open>The constructor and \<open>Message_Header::clear\<close> set every field to -1.\<close>

definition Message_Header_init :: Message_Header where
  "Message_Header_init = \<lparr>header_length = -1, timestamp = -1, timestamp_delta = -1,
     message_length = -1, message_type = -1, stream_id = -1\<rparr>"

definition Message_Header_clear :: "Message_Header \<Rightarrow> Message_Header" where
  "Message_Header_clear h = h\<lparr>header_length := -1, timestamp := -1, timestamp_delta := -1,
     message_length := -1, message_type := -1, stream_id := -1\<rparr>"

type_synonym amf_object = "(bytes \<times> Value_Object) list"

text \<open>The fields a received message fills in (\<open>IO_Message\<close>).\<close>

record message =
  command_name :: bytes
  transaction_id :: double_bits
  object :: amf_object

definition IO_Message_init :: message where
  "IO_Message_init = \<lparr>command_name = [], transaction_id = 0, object = []\<rparr>"

text \<open>\<open>unordered_map::insert\<close> keeps the entry that is already there.\<close>

definition object_insert :: "bytes \<Rightarrow> Value_Object \<Rightarrow> amf_object \<Rightarrow> amf_object" where
  "object_insert key v obj = (if key \<in> set (map fst obj) then obj else obj @ [(key, v)])"

section \<open>The state of a connection\<close>

text \<open>
  The \<open>Client\<close> object with its socket and buffer, the message being received, and the globals of
  \<^verbatim>\<open>io_message.cpp\<close>. \<open>av_bh_size\<close> and \<open>av_mh_size\<close> are the two locals of the publishing loop that
  \<open>recv_audio_video\<close> fills in by reference, also when it fails.
\<close>

record ctx =
  io_buffer :: bytes
  net :: sock
  chunk_size :: int
  cur :: message
  curr_csid :: int
  set_data_frame :: amf_object
  csid_header :: "int \<rightharpoonup> Message_Header"
  audio_video_buffer :: bytes
  av_bh_size :: nat
  av_mh_size :: nat

text \<open>
  \<open>csid_header[csid]\<close> on an \<open>unordered_map\<close>: a missing key is entered with a fresh header.
\<close>

definition csid_at :: "int \<Rightarrow> ctx \<Rightarrow> Message_Header" where
  "csid_at csid c = (case csid_header c csid of None \<Rightarrow> Message_Header_init | Some h \<Rightarrow> h)"

definition csid_touch :: "int \<Rightarrow> ctx \<Rightarrow> ctx" where
  "csid_touch csid c = c\<lparr>csid_header := (csid_header c)(csid \<mapsto> csid_at csid c)\<rparr>"

definition csid_update :: "int \<Rightarrow> (Message_Header \<Rightarrow> Message_Header) \<Rightarrow> ctx \<Rightarrow> ctx" where
  "csid_update csid f c = c\<lparr>csid_header := (csid_header c)(csid \<mapsto> f (csid_at csid c))\<rparr>"

section \<open>The buffer operations\<close>

text \<open>A C++ \<open>int\<close> or \<open>ssize_t\<close> converted to \<open>size_t\<close>.\<close>

definition as_size_t :: "int \<Rightarrow> nat" where
  "as_size_t i = nat (i mod 2 ^ 64)"

text \<open>\<open>data\<close> stands for the \<open>len\<close> bytes the pointer argument gives.\<close>

definition push_back :: "bytes \<Rightarrow> bytes \<Rightarrow> bytes" where
  "push_back data buffer = buffer @ data"

definition buffer_clear :: "bytes \<Rightarrow> bytes" where
  "buffer_clear buffer = []"

definition buffer_size :: "bytes \<Rightarrow> nat" where
  "buffer_size buffer = length buffer"

definition buffer_erase :: "nat \<Rightarrow> nat \<Rightarrow> bytes \<Rightarrow> bytes res" where
  "buffer_erase pos len buffer =
     (if length buffer < pos then Fault OutOfRange
      else Ok (take pos buffer @ drop (pos + len) buffer))"

fun find_from :: "byte \<Rightarrow> bytes \<Rightarrow> nat \<Rightarrow> nat option" where
  "find_from t [] i = None"
| "find_from t (b # bs) i = (if b = t then Some i else find_from t bs (Suc i))"

definition buffer_find :: "byte \<Rightarrow> nat \<Rightarrow> bytes \<Rightarrow> nat option" where
  "buffer_find target pos buffer = find_from target (drop pos buffer) pos"

text \<open>Appending to the buffer of the connection, and the destructor of a message.\<close>

definition put :: "bytes \<Rightarrow> ctx \<Rightarrow> ctx" where
  "put data c = c\<lparr>io_buffer := push_back data (io_buffer c)\<rparr>"

definition delete_message :: "ctx \<Rightarrow> ctx" where
  "delete_message c = c\<lparr>io_buffer := buffer_clear (io_buffer c)\<rparr>"

definition new_message :: "ctx \<Rightarrow> ctx" where
  "new_message c = c\<lparr>cur := IO_Message_init\<rparr>"

lemmas conn_exec [exec_simps] = push_back_def buffer_clear_def buffer_size_def buffer_erase_def
  put_def delete_message_def new_message_def csid_at_def csid_touch_def csid_update_def
  object_insert_def as_size_t_def Message_Header_init_def IO_Message_init_def

section \<open>Lemmas\<close>

lemma find_from_Some:
  "find_from t bs i = Some k \<Longrightarrow> i \<le> k \<and> k - i < length bs \<and> bs ! (k - i) = t
     \<and> (\<forall>j < k - i. bs ! j \<noteq> t)"
proof (induction t bs i rule: find_from.induct)
  case (2 t b bs i)
  show ?case
  proof (cases "b = t")
    case False
    with 2 have IH: "Suc i \<le> k" "k - Suc i < length bs" "bs ! (k - Suc i) = t"
      "\<forall>j < k - Suc i. bs ! j \<noteq> t" by auto
    then have k: "k - i = Suc (k - Suc i)" by simp
    show ?thesis using IH False unfolding k by (auto simp: less_Suc_eq_0_disj)
  qed (use 2 in auto)
qed simp

lemma find_from_None: "find_from t bs i = None \<longleftrightarrow> t \<notin> set bs"
  by (induction t bs i rule: find_from.induct) auto

lemma buffer_erase_last_header:
  "buffer_erase (length a) 1 (a @ h # b) = Ok (a @ b)"
  by (simp add: buffer_erase_def)

lemma csid_at_simps [simp]:
  "csid_at csid (csid_update csid f c) = f (csid_at csid c)"
  "csid_at csid (csid_touch csid c) = csid_at csid c"
  by (auto simp: csid_at_def csid_update_def csid_touch_def)

lemma csid_update_simps [simp]:
  "io_buffer (csid_update csid f c) = io_buffer c" "net (csid_update csid f c) = net c"
  "chunk_size (csid_update csid f c) = chunk_size c" "cur (csid_update csid f c) = cur c"
  "audio_video_buffer (csid_update csid f c) = audio_video_buffer c"
  "curr_csid (csid_update csid f c) = curr_csid c"
  "set_data_frame (csid_update csid f c) = set_data_frame c"
  "csid_touch csid (csid_update csid f c) = csid_update csid f c"
  by (simp_all add: csid_update_def csid_touch_def csid_at_def)

lemma as_size_t_nonneg: "0 \<le> i \<Longrightarrow> i < 2 ^ 64 \<Longrightarrow> as_size_t i = nat i"
  by (simp add: as_size_t_def)

lemma put_simps [simp]:
  "io_buffer (put bs c) = io_buffer c @ bs" "net (put bs c) = net c"
  "chunk_size (put bs c) = chunk_size c" "put xs (put ys c) = put (ys @ xs) c"
  "put [] c = c"
  by (simp_all add: put_def push_back_def)

end
