(* ===== verification/Stream_Interface.thy ===== *)
theory Stream_Interface
  imports Prelude
begin

text \<open>
  The two interfaces between the server and State Threads: a blocking reader that delivers the
  peer's bytes in order (what \<open>IO_Socket\<close> expects of \<open>st_read_fully\<close>) and a gathering writer (what
  it expects of \<open>st_writev\<close>). \<^verbatim>\<open>St_Io\<close> provides both; \<^verbatim>\<open>Io_Socket\<close> and the message layer
  prove their lemmas inside these locales.
\<close>

locale byte_reader =
  fixes rd :: "nat \<Rightarrow> 's \<Rightarrow> nat option \<times> bytes \<times> 's"
    and pend :: "'s \<Rightarrow> bytes"
    and fine :: "'s \<Rightarrow> bool"
    and closed :: "'s \<Rightarrow> bool"
  assumes rd_prefix: "rd n s = (r, bs, s') \<Longrightarrow> pend s = bs @ pend s'"
    and rd_count: "rd n s = (Some k, bs, s') \<Longrightarrow> k = length bs \<and> k \<le> n"
    and rd_short: "rd n s = (Some k, bs, s') \<Longrightarrow> k < n \<Longrightarrow> closed s \<and> pend s' = []"
    and rd_answers: "fine s \<Longrightarrow> n \<le> length (pend s) \<or> closed s \<Longrightarrow>
      \<exists>k bs s'. rd n s = (Some k, bs, s')"
    and rd_fine: "rd n s = (r, bs, s') \<Longrightarrow> fine s \<Longrightarrow> fine s'"
    and rd_closed: "rd n s = (r, bs, s') \<Longrightarrow> closed s' = closed s"
begin

lemma rd_complete:
  assumes "fine s" and "n \<le> length (pend s)"
  shows "\<exists>s'. rd n s = (Some n, take n (pend s), s') \<and> pend s' = drop n (pend s) \<and> fine s'
      \<and> closed s' = closed s"
proof -
  obtain k bs s' where r: "rd n s = (Some k, bs, s')" using rd_answers assms by blast
  have p: "pend s = bs @ pend s'" using rd_prefix r .
  have k: "k = length bs" "k \<le> n" using rd_count [OF r] by auto
  have "k = n" using rd_short [OF r] k p assms(2) by fastforce
  then show ?thesis using r p k rd_fine [OF r assms(1)] rd_closed [OF r] by auto
qed

lemma rd_eof:
  assumes "fine s" and "closed s" and "length (pend s) < n"
  shows "\<exists>s'. rd n s = (Some (length (pend s)), pend s, s') \<and> pend s' = [] \<and> fine s' \<and> closed s'"
proof -
  obtain k bs s' where r: "rd n s = (Some k, bs, s')" using rd_answers assms by blast
  have p: "pend s = bs @ pend s'" using rd_prefix r .
  have k: "k = length bs" "k \<le> n" using rd_count [OF r] by auto
  have "length bs \<le> length (pend s)" using p by simp
  then have "pend s' = []" using rd_short [OF r] k assms(3) by simp
  then show ?thesis using r p k rd_fine [OF r assms(1)] rd_closed [OF r] assms(2) by auto
qed

end

locale byte_writer =
  fixes wv :: "bytes list \<Rightarrow> 's \<Rightarrow> nat option \<times> 's"
    and out :: "'s \<Rightarrow> bytes"
    and ready :: "'s \<Rightarrow> bool"
  assumes wv_prefix: "wv iov s = (r, s') \<Longrightarrow> \<exists>k. out s' = out s @ take k (concat iov)"
    and wv_all: "wv iov s = (Some m, s') \<Longrightarrow>
      m = length (concat iov) \<and> out s' = out s @ concat iov"
    and wv_answers: "ready s \<Longrightarrow> \<exists>m s'. wv iov s = (Some m, s')"
    and wv_ready: "wv iov s = (r, s') \<Longrightarrow> ready s \<Longrightarrow> ready s'"
begin

lemma wv_complete:
  assumes "ready s"
  shows "\<exists>s'. wv iov s = (Some (length (concat iov)), s') \<and> out s' = out s @ concat iov \<and> ready s'"
  using wv_answers [OF assms, of iov] wv_all wv_ready assms by blast

end

text \<open>
  A receive buffer that is filled from a stream: \<open>need n\<close> reads until the buffer holds \<open>n\<close> bytes.
  \<open>IO_Socket\<close> provides two of them (the connection's buffer and the audio/video buffer) and the
  chunk reader is written against either; \<open>frame\<close> is the part of the state a read leaves alone.
\<close>

locale buffered_source =
  fixes need :: "nat \<Rightarrow> nat \<Rightarrow> ('c, nat) act"
    and buf :: "'c \<Rightarrow> bytes"
    and setb :: "bytes \<Rightarrow> 'c \<Rightarrow> 'c"
    and coming :: "'c \<Rightarrow> bytes"
    and steady :: "'c \<Rightarrow> bool"
    and frame :: "'c \<Rightarrow> 'd"
  assumes need_enough:
    "steady c \<Longrightarrow> length (buf c) < n \<Longrightarrow> n \<le> length (buf c) + length (coming c) \<Longrightarrow>
       \<exists>c'. need n k c = Some (Ok (n - length (buf c)), c')
         \<and> buf c' = buf c @ take (n - length (buf c)) (coming c)
         \<and> coming c' = drop (n - length (buf c)) (coming c)
         \<and> steady c' \<and> frame c' = frame c"
    and need_have: "n \<le> length (buf c) \<Longrightarrow> need n k c = Some (Ok k, c)"
    and buf_setb: "buf (setb b c) = b"
    and coming_setb: "coming (setb b c) = coming c"
    and steady_setb: "steady (setb b c) = steady c"
    and frame_setb: "frame (setb b c) = frame c"

end
