(* ===== verification/St_Io.thy ===== *)
theory St_Io
  imports Posix Stream_Interface
begin

text \<open>
  Reading and writing of State Threads, \<^verbatim>\<open>3rdpart/st-1.9/io.c\<close>: \<open>st_netfd_poll\<close>, \<open>st_read\<close>,
  \<open>st_readv_resid\<close>, \<open>st_read_fully\<close>, \<open>st_writev_resid\<close>, \<open>st_write\<close>, \<open>st_writev\<close>. A call that
  returns \<open>-1\<close> is \<open>Inl errno\<close> (or \<open>None\<close> where the source drops the error). The timeout argument
  only decides when \<open>st_poll\<close> gives up, so it is part of the answers the socket carries. Every loop
  is a terminating function: each round uses up an event of the socket.
\<close>

unbundle bit_operations_syntax

section \<open>Waiting\<close>

definition st_netfd_poll :: "16 word \<Rightarrow> sock \<Rightarrow> (errno + unit) \<times> sock" where
  "st_netfd_poll how s =
     (let (ans, s') = (if how = POLLIN then poll_in s else poll_out s)
      in (case ans of
            PollErr e \<Rightarrow> Inl e
          | PollRev revents \<Rightarrow>
              (if revents = 0 then Inl ETIME
               else if revents AND POLLNVAL \<noteq> 0 then Inl EBADF
               else Inr ()), s'))"

lemma poll_flags [simp]: "POLLOUT \<noteq> POLLIN" "POLLIN \<noteq> 0" "POLLOUT \<noteq> 0"
  "POLLIN AND POLLNVAL = 0" "POLLOUT AND POLLNVAL = 0"
  by (simp_all add: POLLIN_def POLLOUT_def POLLNVAL_def)

lemma poll_in_after_EAGAIN:
  assumes "sys_read n s = (RFail EAGAIN, s')" and "st_netfd_poll POLLIN s' = (Inr u, s'')"
  shows "rx_weight s'' < rx_weight s"
  using assms
  by (cases "rx s" rule: rx_bytes.cases)
     (auto simp: st_netfd_poll_def sys_read.simps poll_in.simps rx_weight_def pending_def Let_def
        split: if_splits list.splits prod.splits poll_ans.splits rx_ev.splits)

lemma poll_out_after_EAGAIN:
  assumes "sys_write bs s = (WFail EAGAIN, s')" and "st_netfd_poll POLLOUT s' = (Inr u, s'')"
  shows "length (tx s'') < length (tx s)"
  using assms
  by (auto simp: st_netfd_poll_def sys_write.simps poll_out.simps Let_def
        split: if_splits list.splits prod.splits poll_ans.splits tx_ev.splits)

lemma st_netfd_poll_in_keeps:
  "st_netfd_poll POLLIN s = (r, s') \<Longrightarrow> pending s' = pending s \<and> tx s' = tx s \<and> sent s' = sent s
     \<and> rx_closed s' = rx_closed s \<and> rx_weight s' \<le> rx_weight s"
  using poll_in_keeps [of s] by (auto simp: st_netfd_poll_def Let_def split: prod.splits)

lemma st_netfd_poll_out_keeps:
  "st_netfd_poll POLLOUT s = (r, s') \<Longrightarrow> rx s' = rx s \<and> sent s' = sent s
     \<and> rx_closed s' = rx_closed s \<and> length (tx s') \<le> length (tx s)"
  using poll_out_keeps [of s] by (auto simp: st_netfd_poll_def Let_def split: prod.splits)

section \<open>Reading\<close>

function st_read :: "nat \<Rightarrow> sock \<Rightarrow> (errno + bytes) \<times> sock" where
  "st_read n s =
     (case sys_read n s of
        (Got bs, s') \<Rightarrow> (Inr bs, s')
      | (RFail e, s') \<Rightarrow>
          if e = EINTR then st_read n s'
          else if e \<noteq> EAGAIN then (Inl e, s')
          else (case st_netfd_poll POLLIN s' of
                  (Inl e', s'') \<Rightarrow> (Inl e', s'')
                | (Inr _, s'') \<Rightarrow> st_read n s''))"
  by pat_completeness auto
termination
  by (relation "measure (\<lambda>(n, s). rx_weight s)")
     (auto dest: sys_read_RFail_weight intro: poll_in_after_EAGAIN dest!: sym [of "(_, _)"])

text \<open>
  The vectors of \<open>readv\<close> are the lengths still to fill; \<open>iov_advance\<close> is the inner loop that steps
  over the vectors a read filled.
\<close>

fun iov_advance :: "nat \<Rightarrow> nat list \<Rightarrow> nat \<times> nat list" where
  "iov_advance n [] = (n, [])"
| "iov_advance n (l # ls) =
     (if l \<le> n then (if n - l = 0 then (0, ls) else iov_advance (n - l) ls) else (n, l # ls))"

function st_readv_resid :: "nat list \<Rightarrow> bytes \<Rightarrow> sock \<Rightarrow> (errno + unit) \<times> bytes \<times> nat list \<times> sock"
where
  "st_readv_resid iov acc s =
     (if iov = [] then (Inr (), acc, [], s)
      else case sys_read (sum_list iov) s of
        (RFail e, s') \<Rightarrow>
          if e = EINTR then st_readv_resid iov acc s'
          else if e \<noteq> EAGAIN then (Inl e, acc, iov, s')
          else (case st_netfd_poll POLLIN s' of
                  (Inl e', s'') \<Rightarrow> (Inl e', acc, iov, s'')
                | (Inr _, s'') \<Rightarrow> st_readv_resid iov acc s'')
      | (Got bs, s') \<Rightarrow>
          if bs = [] then (Inr (), acc, iov, s')
          else (case iov_advance (length bs) iov of
                  (n, []) \<Rightarrow> (Inr (), acc @ bs, [], s')
                | (n, l # ls) \<Rightarrow>
                    (case st_netfd_poll POLLIN s' of
                       (Inl e', s'') \<Rightarrow> (Inl e', acc @ bs, (l - n) # ls, s'')
                     | (Inr _, s'') \<Rightarrow> st_readv_resid ((l - n) # ls) (acc @ bs) s'')))"
  by pat_completeness auto
termination
  by (relation "measure (\<lambda>(iov, acc, s). rx_weight s)")
     (auto dest: sys_read_RFail_weight intro: poll_in_after_EAGAIN dest!: sym [of "(_, _)"]
       dest: sys_read_Got_weight st_netfd_poll_in_keeps intro: le_less_trans)

definition st_read_resid :: "nat \<Rightarrow> sock \<Rightarrow> (errno + unit) \<times> bytes \<times> nat \<times> sock" where
  "st_read_resid resid s =
     (case st_readv_resid [resid] [] s of
        (rv, buf, iov, s') \<Rightarrow> (rv, buf, (case iov of [] \<Rightarrow> 0 | l # _ \<Rightarrow> l), s'))"

definition st_read_fully :: "nat \<Rightarrow> sock \<Rightarrow> nat option \<times> bytes \<times> sock" where
  "st_read_fully nbyte s =
     (case st_read_resid nbyte s of
        (Inr _, buf, resid, s') \<Rightarrow> (Some (nbyte - resid), buf, s')
      | (Inl e, buf, resid, s') \<Rightarrow> (None, buf, s'))"

declare st_read.simps [simp del] st_readv_resid.simps [simp del]

lemmas st_io_read_exec [exec_simps] =
  st_netfd_poll_def st_read.simps st_readv_resid.simps st_read_resid_def st_read_fully_def

section \<open>Writing\<close>

fun iov_advance_w :: "nat \<Rightarrow> bytes list \<Rightarrow> nat \<times> bytes list" where
  "iov_advance_w n [] = (n, [])"
| "iov_advance_w n (v # vs) =
     (if length v \<le> n
      then (if n - length v = 0 then (0, vs) else iov_advance_w (n - length v) vs)
      else (n, v # vs))"

lemma iov_advance_w_length: "snd (iov_advance_w n iov) = iov' \<Longrightarrow> length iov' \<le> length iov"
  by (induction n iov rule: iov_advance_w.induct) (auto split: if_splits)

lemma iov_advance_w_all: "iov \<noteq> [] \<Longrightarrow> iov_advance_w (length (concat iov)) iov = (m, iov')
    \<Longrightarrow> length iov' < length iov"
  using iov_advance_w_length [of "length (concat (tl iov))" "tl iov"]
  by (cases iov) (auto split: if_splits)

lemma st_writev_resid_progress:
  assumes "sys_write (concat iov) s = (Wrote k, s')" and "iov_advance_w k iov = (m, v # vs)"
    and "iov \<noteq> []" and "st_netfd_poll POLLOUT s' = (Inr u, s'')"
  shows "length (tx s'') + length (drop m v # vs) < length (tx s) + length iov"
proof -
  have le: "length (v # vs) \<le> length iov" using iov_advance_w_length [of k iov] assms(2) by simp
  have poll: "length (tx s'') \<le> length (tx s')"
    using st_netfd_poll_out_keeps [OF assms(4)] by simp
  show ?thesis
  proof (cases "tx s")
    case Nil
    with assms(1) have "k = length (concat iov)" and "tx s' = []"
      by (auto simp: sys_write.simps)
    with iov_advance_w_all [OF assms(3)] assms(2) poll Nil show ?thesis by fastforce
  next
    case (Cons e r)
    with assms(1) have "tx s' = r" by (auto simp: sys_write.simps split: tx_ev.splits)
    with le poll Cons show ?thesis by simp
  qed
qed

lemma sys_write_EINTR_progress:
  "sys_write bs s = (WFail EINTR, s') \<Longrightarrow> length (tx s') < length (tx s)"
  by (auto simp: sys_write.simps split: list.splits tx_ev.splits)

function st_writev_resid :: "bytes list \<Rightarrow> sock \<Rightarrow> (errno + unit) \<times> bytes list \<times> sock" where
  "st_writev_resid iov s =
     (if iov = [] then (Inr (), [], s)
      else case sys_write (concat iov) s of
        (WFail e, s') \<Rightarrow>
          if e = EINTR then st_writev_resid iov s'
          else if e \<noteq> EAGAIN then (Inl e, iov, s')
          else (case st_netfd_poll POLLOUT s' of
                  (Inl e', s'') \<Rightarrow> (Inl e', iov, s'')
                | (Inr _, s'') \<Rightarrow> st_writev_resid iov s'')
      | (Wrote k, s') \<Rightarrow>
          (case iov_advance_w k iov of
             (n, []) \<Rightarrow> (Inr (), [], s')
           | (n, v # vs) \<Rightarrow>
               (case st_netfd_poll POLLOUT s' of
                  (Inl e', s'') \<Rightarrow> (Inl e', drop n v # vs, s'')
                | (Inr _, s'') \<Rightarrow> st_writev_resid (drop n v # vs) s'')))"
  by pat_completeness auto
termination
  by (relation "measure (\<lambda>(iov, s). length (tx s) + length iov)")
     (auto dest!: sym [of "(_, _)"]
       dest: sys_write_EINTR_progress poll_out_after_EAGAIN st_writev_resid_progress)

declare st_writev_resid.simps [simp del]

definition st_write_resid :: "bytes \<Rightarrow> sock \<Rightarrow> (errno + unit) \<times> nat \<times> sock" where
  "st_write_resid buf s =
     (case st_writev_resid [buf] s of
        (rv, iov, s') \<Rightarrow> (rv, (case iov of [] \<Rightarrow> 0 | v # _ \<Rightarrow> length v), s'))"

definition st_write :: "bytes \<Rightarrow> sock \<Rightarrow> nat option \<times> sock" where
  "st_write buf s =
     (case st_write_resid buf s of
        (Inr _, resid, s') \<Rightarrow> (Some (length buf - resid), s')
      | (Inl e, resid, s') \<Rightarrow> (None, s'))"

text \<open>
  \<open>st_writev\<close>: \<open>tmp_iov\<close> holds the vectors still to send, so the source's \<open>nleft\<close> is the number of
  bytes in it; \<open>first\<close> says that \<open>tmp_iov\<close> is still the caller's array, \<open>alloc\<close> whether \<open>calloc\<close>
  succeeds when more than \<open>_LOCAL_MAXIOV\<close> vectors must be copied.
\<close>

definition LOCAL_MAXIOV :: nat where "LOCAL_MAXIOV = 16"

fun iov_skip :: "nat \<Rightarrow> bytes list \<Rightarrow> nat \<times> bytes list" where
  "iov_skip n [] = (n, [])"
| "iov_skip n (v # vs) = (if length v \<le> n then iov_skip (n - length v) vs else (n, v # vs))"

lemma sys_write_partial_progress:
  assumes "sys_write bs s = (Wrote k, s')" and "k \<noteq> length bs"
  shows "length (tx s') < length (tx s)"
  using assms by (auto simp: sys_write.simps split: list.splits tx_ev.splits)

function st_writev_loop :: "bool \<Rightarrow> bytes list \<Rightarrow> bytes list \<Rightarrow> bool \<Rightarrow> sock \<Rightarrow> nat option \<times> sock" where
  "st_writev_loop alloc iov tmp_iov first s =
     (let nbyte = length (concat iov); nleft = length (concat tmp_iov)
      in if nleft = 0 then (Some nbyte, s)
         else if length tmp_iov = 1
         then (case st_write (concat tmp_iov) s of
                 (r, s') \<Rightarrow> (if r = Some nleft then Some nbyte else None, s'))
         else case sys_write (concat tmp_iov) s of
           (WFail e, s') \<Rightarrow>
             if e = EINTR then st_writev_loop alloc iov tmp_iov first s'
             else if e \<noteq> EAGAIN then (None, s')
             else (case st_netfd_poll POLLOUT s' of
                     (Inl e', s'') \<Rightarrow> (None, s'')
                   | (Inr _, s'') \<Rightarrow> st_writev_loop alloc iov tmp_iov first s'')
         | (Wrote k, s') \<Rightarrow>
             if k = nleft then (Some nbyte, s')
             else (case iov_skip (nbyte - (nleft - k)) iov of
                     (n, rest) \<Rightarrow>
                       if first \<and> LOCAL_MAXIOV < length rest \<and> \<not> alloc then (None, s')
                       else (case st_netfd_poll POLLOUT s' of
                               (Inl e', s'') \<Rightarrow> (None, s'')
                             | (Inr _, s'') \<Rightarrow>
                                 st_writev_loop alloc iov (drop n (hd rest) # tl rest) False s'')))"
  by pat_completeness auto
termination
  by (relation "measure (\<lambda>(alloc, iov, tmp_iov, first, s). length (tx s))")
     (auto dest!: sym [of "(_, _)"]
       dest: sys_write_EINTR_progress poll_out_after_EAGAIN st_netfd_poll_out_keeps
       intro: le_less_trans sys_write_partial_progress)

declare st_writev_loop.simps [simp del]

definition st_writev :: "bool \<Rightarrow> bytes list \<Rightarrow> sock \<Rightarrow> nat option \<times> sock" where
  "st_writev alloc iov s = st_writev_loop alloc iov iov True s"

lemmas st_io_write_exec [exec_simps] =
  st_writev_resid.simps st_write_resid_def st_write_def st_writev_loop.simps st_writev_def
  LOCAL_MAXIOV_def

section \<open>What reading guarantees\<close>

text \<open>
  The paths through the loop of \<open>st_readv_resid\<close> as an inductive relation: facts about the loop are
  rule inductions over it.
\<close>

inductive readv_run ::
  "nat list \<Rightarrow> bytes \<Rightarrow> sock \<Rightarrow> (errno + unit) \<times> bytes \<times> nat list \<times> sock \<Rightarrow> bool"
where
  run_nil: "readv_run [] acc s (Inr (), acc, [], s)"
| run_retry: "sys_read (sum_list iov) s = (RFail e, s1) \<Longrightarrow>
    e = EINTR \<and> s2 = s1 \<or> e = EAGAIN \<and> st_netfd_poll POLLIN s1 = (Inr (), s2) \<Longrightarrow>
    readv_run iov acc s2 r \<Longrightarrow> readv_run iov acc s r"
| run_error: "sys_read (sum_list iov) s = (RFail e, s1) \<Longrightarrow>
    e \<noteq> EINTR \<and> e \<noteq> EAGAIN \<and> s2 = s1 \<and> e' = e
      \<or> e = EAGAIN \<and> st_netfd_poll POLLIN s1 = (Inl e', s2) \<Longrightarrow>
    readv_run iov acc s (Inl e', acc, iov, s2)"
| run_eof: "sys_read (sum_list iov) s = (Got [], s1) \<Longrightarrow>
    readv_run iov acc s (Inr (), acc, iov, s1)"
| run_filled: "sys_read (sum_list iov) s = (Got bs, s1) \<Longrightarrow> bs \<noteq> [] \<Longrightarrow>
    iov_advance (length bs) iov = (n, []) \<Longrightarrow>
    readv_run iov acc s (Inr (), acc @ bs, [], s1)"
| run_part_error: "sys_read (sum_list iov) s = (Got bs, s1) \<Longrightarrow> bs \<noteq> [] \<Longrightarrow>
    iov_advance (length bs) iov = (n, l # ls) \<Longrightarrow> st_netfd_poll POLLIN s1 = (Inl e', s2) \<Longrightarrow>
    readv_run iov acc s (Inl e', acc @ bs, (l - n) # ls, s2)"
| run_part: "sys_read (sum_list iov) s = (Got bs, s1) \<Longrightarrow> bs \<noteq> [] \<Longrightarrow>
    iov_advance (length bs) iov = (n, l # ls) \<Longrightarrow> st_netfd_poll POLLIN s1 = (Inr (), s2) \<Longrightarrow>
    readv_run ((l - n) # ls) (acc @ bs) s2 r \<Longrightarrow> readv_run iov acc s r"

lemma st_readv_resid_run: "readv_run iov acc s (st_readv_resid iov acc s)"
proof (induction iov acc s rule: st_readv_resid.induct)
  case (1 iov acc s)
  show ?case
    unfolding st_readv_resid.simps [of iov acc s]
    using "1.IH"
    by (auto intro: readv_run.intros split: prod.splits read_ans.splits sum.splits list.splits)
qed

lemma iov_advance_sum:
  "iov_advance n ls = (m, ls') \<Longrightarrow> n \<le> sum_list ls \<Longrightarrow>
     n + sum_list ls' = sum_list ls + m \<and> (\<forall>l r. ls' = l # r \<longrightarrow> m \<le> l) \<and> (ls' = [] \<longrightarrow> m = 0)"
proof (induction n ls rule: iov_advance.induct)
  case (2 n l ls)
  have "n - l \<le> sum_list ls" using "2.prems"(2) by simp
  with 2 show ?case by (auto split: if_splits)
qed simp

lemma readv_run_prefix:
  "readv_run iov acc s (rv, acc', iov', s') \<Longrightarrow>
     \<exists>new. acc' = acc @ new \<and> pending s = new @ pending s'
       \<and> length new + sum_list iov' = sum_list iov
       \<and> tx s' = tx s \<and> sent s' = sent s \<and> rx_closed s' = rx_closed s"
  by (induction iov acc s "(rv, acc', iov', s')" rule: readv_run.induct)
     (fastforce dest: sys_read_Got sys_read_RFail st_netfd_poll_in_keeps iov_advance_sum)+

lemma readv_run_eof:
  "readv_run iov acc s (Inr u, acc', iov', s') \<Longrightarrow> sum_list iov' = 0 \<or> rx s' = [] \<and> rx_closed s'"
  by (induction iov acc s "(Inr u :: errno + unit, acc', iov', s')" rule: readv_run.induct)
     (fastforce dest: sys_read_Got_Nil)+

lemma st_netfd_poll_in_fine:
  "st_netfd_poll POLLIN s = (r, s') \<Longrightarrow> rx_fine s \<Longrightarrow> rx_fine s'"
  using poll_in_fine [of s] by (auto simp: st_netfd_poll_def Let_def split: prod.splits)

lemma st_netfd_poll_in_wakes:
  assumes "rx_fine s" and "pending s \<noteq> [] \<or> rx_closed s"
  shows "fst (st_netfd_poll POLLIN s) = Inr ()"
  using assms
  by (cases "rx s" rule: rx_bytes.cases)
     (auto simp: st_netfd_poll_def poll_in.simps rx_fine_def pending_def
       split: poll_ans.splits)

lemma readv_run_fine: "readv_run iov acc s (rv, acc', iov', s') \<Longrightarrow> rx_fine s \<Longrightarrow> rx_fine s'"
  by (induction iov acc s "(rv, acc', iov', s')" rule: readv_run.induct)
     (auto dest: sys_read_fine st_netfd_poll_in_fine)

lemma sys_read_RFail_pos: "sys_read n s = (RFail e, s') \<Longrightarrow> 0 < n"
  by (auto simp: sys_read.simps split: if_splits)

lemma iov_advance_nonzero:
  "iov_advance n iov = (m, iov') \<Longrightarrow> 0 \<notin> set iov \<Longrightarrow>
     0 \<notin> set iov' \<and> (\<forall>l ls. iov' = l # ls \<longrightarrow> m < l)"
  by (induction n iov rule: iov_advance.induct) (auto split: if_splits intro: gr0I)

lemma part_poll_wakes:
  assumes "sys_read (sum_list iov) s = (Got bs, s1)" and "iov_advance (length bs) iov = (n, l # ls)"
    and "rx_fine s" and "0 \<notin> set iov" and "sum_list iov \<le> length (pending s) \<or> rx_closed s"
  shows "fst (st_netfd_poll POLLIN s1) = Inr ()"
    and "sum_list ((l - n) # ls) \<le> length (pending s1) \<or> rx_closed s1"
proof -
  have got: "pending s = bs @ pending s1" "length bs \<le> sum_list iov" "rx_closed s1 = rx_closed s"
    using sys_read_Got [OF assms(1)] by auto
  have sum: "length bs + sum_list (l # ls) = sum_list iov + n" and "n < l"
    using iov_advance_sum [OF assms(2) got(2)] iov_advance_nonzero [OF assms(2,4)] by auto
  then show left: "sum_list ((l - n) # ls) \<le> length (pending s1) \<or> rx_closed s1"
    using assms(5) got by auto
  with \<open>n < l\<close> have "pending s1 \<noteq> [] \<or> rx_closed s1" by auto
  then show "fst (st_netfd_poll POLLIN s1) = Inr ()"
    using st_netfd_poll_in_wakes sys_read_fine [OF assms(1,3)] by blast
qed

lemma readv_run_answers:
  "readv_run iov acc s (rv, acc', iov', s') \<Longrightarrow> rx_fine s \<Longrightarrow> 0 \<notin> set iov \<Longrightarrow>
     sum_list iov \<le> length (pending s) \<or> rx_closed s \<Longrightarrow> rv = Inr ()"
proof (induction iov acc s "(rv, acc', iov', s')" rule: readv_run.induct)
  case (run_retry iov s e s1 s2 acc)
  then show ?case
    using sys_read_RFail [OF run_retry(1)] sys_read_fine [OF run_retry(1)]
      st_netfd_poll_in_keeps [of s1 _ s2] st_netfd_poll_in_fine [of s1 _ s2] by auto
next
  case (run_error s e s1 e')
  then have "sum_list iov' \<noteq> 0" using sys_read_RFail_pos by fastforce
  then have "pending s1 \<noteq> [] \<or> rx_closed s1"
    using run_error sys_read_RFail [OF run_error(1)] by auto
  then have "fst (st_netfd_poll POLLIN s1) = Inr ()"
    using st_netfd_poll_in_wakes sys_read_fine [OF run_error(1)] run_error.prems by blast
  then show ?case
    using run_error sys_read_benign_error [OF run_error(1)] by auto
next
  case (run_part_error iov s bs s1 n l ls e' acc)
  then show ?case using part_poll_wakes(1) [OF run_part_error(1,3)] by simp
next
  case (run_part iov s bs s1 n l ls s2 acc)
  have "rx_fine s2"
    using sys_read_fine [OF run_part(1)] st_netfd_poll_in_fine [OF run_part(4)] run_part.prems by blast
  moreover have "0 \<notin> set ((l - n) # ls)"
    using iov_advance_nonzero [OF run_part(3)] run_part.prems by auto
  ultimately show ?case
    using run_part part_poll_wakes(2) [OF run_part(1,3)] st_netfd_poll_in_keeps [OF run_part(4)]
    by simp
qed simp_all

lemma st_read_fully_run:
  assumes "st_read_fully n s = (r, bs, s')"
  obtains rv iov where "readv_run [n] [] s (rv, bs, iov, s')"
    and "r = (case rv of Inr _ \<Rightarrow> Some (n - (case iov of [] \<Rightarrow> 0 | l # _ \<Rightarrow> l)) | Inl _ \<Rightarrow> None)"
    and "length bs + sum_list iov = n" and "length iov \<le> 1"
proof -
  obtain rv iov where run: "readv_run [n] [] s (rv, bs, iov, s')"
    and r: "r = (case rv of Inr _ \<Rightarrow> Some (n - (case iov of [] \<Rightarrow> 0 | l # _ \<Rightarrow> l)) | Inl _ \<Rightarrow> None)"
    using assms st_readv_resid_run [of "[n]" "[]" s]
    by (auto simp: st_read_fully_def st_read_resid_def split: prod.splits sum.splits)
  have "readv_run iov0 acc s0 (rv, bs, iov, s') \<Longrightarrow> length iov0 \<le> 1 \<Longrightarrow> length iov \<le> 1"
    for iov0 acc s0
    by (induction iov0 acc s0 "(rv, bs, iov, s')" rule: readv_run.induct)
       (auto simp: le_Suc_eq length_Suc_conv split: if_splits)
  with run have "length iov \<le> 1" by force
  with that run r show ?thesis using readv_run_prefix [OF run] by auto
qed

lemma st_read_fully_0: "st_read_fully 0 s = (Some 0, [], s)"
  by (simp add: st_read_fully_def st_read_resid_def st_readv_resid.simps [of "[0]" "[]" s]
      sys_read.simps)

lemma st_read_fully_answers:
  assumes "rx_fine s" and "n \<le> length (pending s) \<or> rx_closed s"
  shows "\<exists>k bs s'. st_read_fully n s = (Some k, bs, s')"
proof (cases "n = 0")
  case True
  then show ?thesis by (simp add: st_read_fully_0)
next
  case False
  obtain r bs s' where f: "st_read_fully n s = (r, bs, s')" by (metis prod_cases3)
  obtain rv iov where run: "readv_run [n] [] s (rv, bs, iov, s')"
    and r: "r = (case rv of Inr _ \<Rightarrow> Some (n - (case iov of [] \<Rightarrow> 0 | l # _ \<Rightarrow> l)) | Inl _ \<Rightarrow> None)"
    using st_read_fully_run [OF f] .
  have "rv = Inr ()" using readv_run_answers [OF run] assms False by simp
  with f r show ?thesis by auto
qed

lemma st_read_fully_run_ex:
  assumes "st_read_fully n s = (r, bs, s')"
  shows "\<exists>rv iov. readv_run [n] [] s (rv, bs, iov, s') \<and> length bs + sum_list iov = n
    \<and> (\<forall>k. r = Some k \<longrightarrow> rv = Inr () \<and> k = length bs)"
proof (rule st_read_fully_run [OF assms])
  fix rv iov
  assume run: "readv_run [n] [] s (rv, bs, iov, s')"
    and r: "r = (case rv of Inr _ \<Rightarrow> Some (n - (case iov of [] \<Rightarrow> 0 | l # _ \<Rightarrow> l)) | Inl _ \<Rightarrow> None)"
    and n: "length bs + sum_list iov = n" and iov: "length iov \<le> 1"
  have "sum_list iov = (case iov of [] \<Rightarrow> 0 | l # _ \<Rightarrow> l)"
    using iov by (auto simp: le_Suc_eq length_Suc_conv)
  with run r n show ?thesis
    by (intro exI [of _ rv] exI [of _ iov]) (auto split: sum.splits)
qed

lemma st_read_fully_prefix:
  assumes "st_read_fully n s = (r, bs, s')"
  shows "pending s = bs @ pending s'" and "tx s' = tx s" and "sent s' = sent s"
    and "rx_closed s' = rx_closed s" and "rx_fine s \<Longrightarrow> rx_fine s'"
proof -
  obtain rv iov where run: "readv_run [n] [] s (rv, bs, iov, s')"
    using st_read_fully_run_ex [OF assms] by blast
  from readv_run_prefix [OF run]
  show "pending s = bs @ pending s'" "tx s' = tx s" "sent s' = sent s"
    "rx_closed s' = rx_closed s" by auto
  show "rx_fine s \<Longrightarrow> rx_fine s'" using readv_run_fine [OF run] .
qed

interpretation st: byte_reader st_read_fully pending rx_fine rx_closed
proof (unfold_locales, goal_cases)
  case (1 n s r bs s')
  then show ?case by (rule st_read_fully_prefix)
next
  case (2 n s k bs s')
  then show ?case using st_read_fully_run_ex [OF 2] by auto
next
  case (3 n s k bs s')
  then obtain iov where run: "readv_run [n] [] s (Inr (), bs, iov, s')"
    and n: "length bs + sum_list iov = n" and k: "k = length bs"
    using st_read_fully_run_ex [OF 3(1)] by auto
  then have "\<not> sum_list iov = 0" using 3(2) by linarith
  then have "rx s' = [] \<and> rx_closed s'" using readv_run_eof [OF run] by argo
  then show ?case using st_read_fully_prefix(4) [OF 3(1)] by (auto simp: pending_def)
next
  case (4 s n)
  then show ?case by (rule st_read_fully_answers)
next
  case (5 n s r bs s')
  then show ?case by (rule st_read_fully_prefix(5))
next
  case (6 n s r bs s')
  then show ?case by (rule st_read_fully_prefix(4))
qed

section \<open>What writing guarantees\<close>

inductive writev_run :: "bytes list \<Rightarrow> sock \<Rightarrow> (errno + unit) \<times> bytes list \<times> sock \<Rightarrow> bool"
where
  wrun_nil: "writev_run [] s (Inr (), [], s)"
| wrun_retry: "sys_write (concat iov) s = (WFail e, s1) \<Longrightarrow>
    e = EINTR \<and> s2 = s1 \<or> e = EAGAIN \<and> st_netfd_poll POLLOUT s1 = (Inr (), s2) \<Longrightarrow>
    writev_run iov s2 r \<Longrightarrow> writev_run iov s r"
| wrun_error: "sys_write (concat iov) s = (WFail e, s1) \<Longrightarrow>
    e \<noteq> EINTR \<and> e \<noteq> EAGAIN \<and> s2 = s1 \<and> e' = e
      \<or> e = EAGAIN \<and> st_netfd_poll POLLOUT s1 = (Inl e', s2) \<Longrightarrow>
    writev_run iov s (Inl e', iov, s2)"
| wrun_done: "sys_write (concat iov) s = (Wrote k, s1) \<Longrightarrow> iov_advance_w k iov = (n, []) \<Longrightarrow>
    writev_run iov s (Inr (), [], s1)"
| wrun_part_error: "sys_write (concat iov) s = (Wrote k, s1) \<Longrightarrow>
    iov_advance_w k iov = (n, v # vs) \<Longrightarrow> st_netfd_poll POLLOUT s1 = (Inl e', s2) \<Longrightarrow>
    writev_run iov s (Inl e', drop n v # vs, s2)"
| wrun_part: "sys_write (concat iov) s = (Wrote k, s1) \<Longrightarrow>
    iov_advance_w k iov = (n, v # vs) \<Longrightarrow> st_netfd_poll POLLOUT s1 = (Inr (), s2) \<Longrightarrow>
    writev_run (drop n v # vs) s2 r \<Longrightarrow> writev_run iov s r"

lemma st_writev_resid_run: "writev_run iov s (st_writev_resid iov s)"
proof (induction iov s rule: st_writev_resid.induct)
  case (1 iov s)
  show ?case
    unfolding st_writev_resid.simps [of iov s]
    using "1.IH"
    by (auto intro: writev_run.intros split: prod.splits write_ans.splits sum.splits list.splits)
qed

lemma iov_advance_w_concat:
  "iov_advance_w k iov = (n, iov') \<Longrightarrow> k \<le> length (concat iov) \<Longrightarrow>
     drop k (concat iov) = drop n (concat iov') \<and> (iov' = [] \<longrightarrow> n = 0)
       \<and> (\<forall>v vs. iov' = v # vs \<longrightarrow> n \<le> length v)"
proof (induction k iov rule: iov_advance_w.induct)
  case (2 k v vs)
  have "k - length v \<le> length (concat vs)" using "2.prems"(2) by simp
  with 2 show ?case by (auto split: if_splits)
qed simp

lemma writev_run_prefix:
  "writev_run iov s (rv, iov', s') \<Longrightarrow>
     \<exists>k. sent s' = sent s @ take k (concat iov) \<and> concat iov' = drop k (concat iov)
       \<and> k \<le> length (concat iov) \<and> rx s' = rx s \<and> rx_closed s' = rx_closed s"
proof (induction iov s "(rv, iov', s')" rule: writev_run.induct)
  case (wrun_retry iov s e s1 s2)
  then show ?case
    using sys_write_WFail [OF wrun_retry(1)] st_netfd_poll_out_keeps [of s1 _ s2] by auto
next
  case (wrun_error s e s1 e')
  then show ?case
    using sys_write_WFail [OF wrun_error(1)] st_netfd_poll_out_keeps [of s1 _ s']
    by (auto intro: exI [of _ 0])
next
  case (wrun_done iov s k n)
  then show ?case
    using sys_write_Wrote [OF wrun_done(1)] iov_advance_w_concat [OF wrun_done(2)]
    by (auto intro!: exI [of _ k])
next
  case (wrun_part_error iov s k s1 n v vs e')
  then show ?case
    using sys_write_Wrote [OF wrun_part_error(1)] iov_advance_w_concat [OF wrun_part_error(2)]
      st_netfd_poll_out_keeps [OF wrun_part_error(3)]
    by (auto intro!: exI [of _ k])
next
  case (wrun_part iov s k s1 n v vs s2)
  have step: "sent s2 = sent s @ take k (concat iov)" "k \<le> length (concat iov)"
    "concat (drop n v # vs) = drop k (concat iov)" "rx s2 = rx s" "rx_closed s2 = rx_closed s"
    using sys_write_Wrote [OF wrun_part(1)] iov_advance_w_concat [OF wrun_part(2)]
      st_netfd_poll_out_keeps [OF wrun_part(3)] by auto
  from wrun_part(5) obtain j where
    "sent s' = sent s2 @ take j (concat (drop n v # vs))"
    "concat iov' = drop j (concat (drop n v # vs))"
    "j \<le> length (concat (drop n v # vs))" "rx s' = rx s2" "rx_closed s' = rx_closed s2" by blast
  with step show ?case
    by (auto intro!: exI [of _ "k + j"] simp: take_add add.commute [of j k])
qed (auto intro: exI [of _ 0])

lemma st_netfd_poll_out_fine:
  "st_netfd_poll POLLOUT s = (r, s') \<Longrightarrow> tx_fine s \<Longrightarrow> tx_fine s' \<and> r = Inr ()"
  by (auto simp: st_netfd_poll_def poll_out.simps tx_fine_def Let_def
      split: list.splits tx_ev.splits poll_ans.splits if_splits prod.splits)

lemma writev_run_fine:
  "writev_run iov s (rv, iov', s') \<Longrightarrow> tx_fine s \<Longrightarrow> tx_fine s' \<and> rv = Inr ()"
  by (induction iov s "(rv, iov', s')" rule: writev_run.induct)
     (auto dest: sys_write_fine st_netfd_poll_out_fine sys_write_benign_error)

lemma writev_run_Inr: "writev_run iov s (Inr u, iov', s') \<Longrightarrow> iov' = []"
  by (induction iov s "(Inr u :: errno + unit, iov', s')" rule: writev_run.induct) auto

lemma st_write_sent:
  assumes "st_write buf s = (r, s')"
  shows "\<exists>k. sent s' = sent s @ take k buf \<and> (\<forall>m. r = Some m \<longrightarrow> m = length buf \<and> m \<le> k)
     \<and> rx s' = rx s \<and> rx_closed s' = rx_closed s"
    and "tx_fine s \<Longrightarrow> tx_fine s' \<and> r = Some (length buf)"
proof -
  obtain rv iov where run: "writev_run [buf] s (rv, iov, s')"
    and r: "r = (case rv of Inr _ \<Rightarrow> Some (length buf - (case iov of [] \<Rightarrow> 0 | v # _ \<Rightarrow> length v))
                   | Inl _ \<Rightarrow> None)"
    using assms st_writev_resid_run [of "[buf]" s]
    by (auto simp: st_write_def st_write_resid_def split: prod.splits sum.splits)
  obtain k where k: "sent s' = sent s @ take k buf" "concat iov = drop k buf"
    "rx s' = rx s" "rx_closed s' = rx_closed s"
    using writev_run_prefix [OF run] by auto
  have nil: "iov = []" if "rv = Inr u" for u
    using writev_run_Inr run that by blast
  show "\<exists>k. sent s' = sent s @ take k buf \<and> (\<forall>m. r = Some m \<longrightarrow> m = length buf \<and> m \<le> k)
     \<and> rx s' = rx s \<and> rx_closed s' = rx_closed s"
    using k r nil by (intro exI [of _ k]) (auto split: sum.splits)
  show "tx_fine s' \<and> r = Some (length buf)" if "tx_fine s"
    using writev_run_fine [OF run that] r nil by auto
qed

inductive writev_loop_run ::
  "bool \<Rightarrow> bytes list \<Rightarrow> bytes list \<Rightarrow> bool \<Rightarrow> sock \<Rightarrow> nat option \<times> sock \<Rightarrow> bool"
where
  wl_empty: "concat tmp = [] \<Longrightarrow> writev_loop_run a iov tmp f s (Some (length (concat iov)), s)"
| wl_single: "st_write (concat tmp) s = (r, s1) \<Longrightarrow>
    writev_loop_run a iov tmp f s
      (if r = Some (length (concat tmp)) then Some (length (concat iov)) else None, s1)"
| wl_retry: "sys_write (concat tmp) s = (WFail e, s1) \<Longrightarrow>
    e = EINTR \<and> s2 = s1 \<or> e = EAGAIN \<and> st_netfd_poll POLLOUT s1 = (Inr (), s2) \<Longrightarrow>
    writev_loop_run a iov tmp f s2 r \<Longrightarrow> writev_loop_run a iov tmp f s r"
| wl_error: "sys_write (concat tmp) s = (WFail e, s1) \<Longrightarrow>
    e \<noteq> EINTR \<and> e \<noteq> EAGAIN \<and> s2 = s1
      \<or> e = EAGAIN \<and> st_netfd_poll POLLOUT s1 = (Inl e', s2) \<Longrightarrow>
    writev_loop_run a iov tmp f s (None, s2)"
| wl_full: "sys_write (concat tmp) s = (Wrote (length (concat tmp)), s1) \<Longrightarrow>
    writev_loop_run a iov tmp f s (Some (length (concat iov)), s1)"
| wl_part_error: "sys_write (concat tmp) s = (Wrote k, s1) \<Longrightarrow>
    \<not> a \<and> s2 = s1 \<or> st_netfd_poll POLLOUT s1 = (Inl e', s2) \<Longrightarrow>
    writev_loop_run a iov tmp f s (None, s2)"
| wl_part: "sys_write (concat tmp) s = (Wrote k, s1) \<Longrightarrow> k \<noteq> length (concat tmp) \<Longrightarrow>
    iov_skip (length (concat iov) - (length (concat tmp) - k)) iov = (n, rest) \<Longrightarrow>
    st_netfd_poll POLLOUT s1 = (Inr (), s2) \<Longrightarrow>
    writev_loop_run a iov (drop n (hd rest) # tl rest) False s2 r \<Longrightarrow>
    writev_loop_run a iov tmp f s r"

lemma st_writev_loop_run: "writev_loop_run a iov tmp f s (st_writev_loop a iov tmp f s)"
proof (induction a iov tmp f s rule: st_writev_loop.induct)
  case (1 a iov tmp f s)
  note unfold = st_writev_loop.simps [of a iov tmp f s] Let_def
  consider (empty) "concat tmp = []" | (single) "concat tmp \<noteq> []" "length tmp = 1"
    | (many) "concat tmp \<noteq> []" "length tmp \<noteq> 1" by blast
  then show ?case
  proof cases
    case empty
    then show ?thesis unfolding unfold by (auto intro: wl_empty simp del: concat_eq_Nil_conv)
  next
    case single
    obtain r s1 where w: "st_write (concat tmp) s = (r, s1)" by force
    show ?thesis unfolding unfold using single w wl_single [OF w, of a iov f]
      by (simp del: concat_eq_Nil_conv length_concat)
  next
    case many
    obtain ans s1 where w: "sys_write (concat tmp) s = (ans, s1)" by force
    obtain p s2 where poll: "st_netfd_poll POLLOUT s1 = (p, s2)" by force
    have nonempty: "length (concat tmp) \<noteq> 0" using many(1) by (simp del: concat_eq_Nil_conv)
    show ?thesis
    proof (cases ans)
      case (WFail e)
      show ?thesis unfolding unfold
        using many(2) nonempty w WFail poll
          "1.IH"(2) [OF refl refl nonempty many(2) w [symmetric] WFail]
          "1.IH"(3) [OF refl refl nonempty many(2) w [symmetric] WFail _ _ poll [symmetric]]
        by (auto intro: wl_retry wl_error split: sum.splits simp del: length_concat)
    next
      case (Wrote k)
      obtain n rest where skip:
        "iov_skip (length (concat iov) - (length (concat tmp) - k)) iov = (n, rest)" by force
      show ?thesis unfolding unfold
        using many(2) nonempty w Wrote poll skip
          "1.IH"(1) [OF refl refl nonempty many(2) w [symmetric] Wrote _ skip [symmetric]
            _ poll [symmetric]]
        by (auto intro: wl_full wl_part_error wl_part split: sum.splits simp del: length_concat)
    qed
  qed
qed

lemma iov_skip_concat:
  "iov_skip n iov = (m, rest) \<Longrightarrow> n < length (concat iov) \<Longrightarrow>
     concat (drop m (hd rest) # tl rest) = drop n (concat iov)"
proof (induction n iov rule: iov_skip.induct)
  case (2 n v vs)
  then show ?case by (cases "length v \<le> n") auto
qed simp

lemma writev_loop_run_sent:
  assumes "writev_loop_run a iov tmp f s (r, s')" and "concat tmp = drop j (concat iov)"
  shows "\<exists>k. sent s' = sent s @ take k (concat tmp)
     \<and> (\<forall>m. r = Some m \<longrightarrow> m = length (concat iov) \<and> length (concat tmp) \<le> k)"
  using assms
proof (induction a iov tmp f s "(r, s')" arbitrary: j rule: writev_loop_run.induct)
  case (wl_empty tmp a iov f)
  then show ?case by auto
next
  case (wl_single tmp s r1 a iov f)
  obtain k where k: "sent s' = sent s @ take k (concat tmp)"
    "\<And>m. r1 = Some m \<Longrightarrow> m \<le> k"
    using st_write_sent(1) [OF wl_single(1)] by blast
  have r: "r = (if r1 = Some (length (concat tmp)) then Some (length (concat iov)) else None)"
    using wl_single(2) by (simp only:)
  show ?case
    by (rule exI [of _ k], rule conjI [OF k(1)])
       (use r k(2) in \<open>cases "r1 = Some (length (concat tmp))"; simp del: length_concat\<close>)
next
  case (wl_retry tmp s e s1 s2 a iov f)
  then show ?case
    using sys_write_WFail [OF wl_retry(1)] st_netfd_poll_out_keeps [of s1 _ s2] by auto
next
  case (wl_error tmp s e s1 e' a iov f)
  then show ?case
    using sys_write_WFail [OF wl_error(1)] st_netfd_poll_out_keeps [of s1 _ s']
    by (auto intro: exI [of _ 0])
next
  case (wl_full tmp s a iov f)
  then show ?case
    using sys_write_Wrote [OF wl_full(1)] by (intro exI [of _ "length (concat tmp)"]) auto
next
  case (wl_part_error tmp s k s1 a e' iov f)
  then show ?case
    using sys_write_Wrote [OF wl_part_error(1)] st_netfd_poll_out_keeps [of s1 _ s'] by auto
next
  case (wl_part tmp s k s1 iov n rest s2 a f)
  have w: "sent s1 = sent s @ take k (concat tmp)" "k \<le> length (concat tmp)"
    using sys_write_Wrote [OF wl_part(1)] by auto
  have j: "length (concat tmp) = length (concat iov) - j" using wl_part.prems by simp
  have pos: "length (concat iov) - (length (concat tmp) - k) = j + k"
    and lt: "j + k < length (concat iov)"
    using j w(2) wl_part(2) by linarith+
  have tmp': "concat (drop n (hd rest) # tl rest) = drop (j + k) (concat iov)"
    using iov_skip_concat wl_part(3) pos lt by metis
  obtain i where i: "sent s' = sent s2 @ take i (concat (drop n (hd rest) # tl rest))"
    "\<forall>m. r = Some m \<longrightarrow> m = length (concat iov) \<and> length (concat (drop n (hd rest) # tl rest)) \<le> i"
    using wl_part(6) tmp' by blast
  have "concat (drop n (hd rest) # tl rest) = drop k (concat tmp)"
    using tmp' wl_part.prems by (metis drop_drop add.commute)
  then have "sent s' = sent s @ take (k + i) (concat tmp)"
    using i(1) w(1) st_netfd_poll_out_keeps [OF wl_part(4)] by (simp only: take_add append_assoc)
  moreover have "length (concat tmp) \<le> k + i" if "r = Some m" for m
  proof -
    have "length (drop (j + k) (concat iov)) \<le> i" using i(2) that unfolding tmp' by blast
    then show ?thesis using j lt by simp
  qed
  ultimately show ?case using i(2) by (intro exI [of _ "k + i"]) auto
qed

lemma writev_loop_run_fine:
  assumes "writev_loop_run a iov tmp f s (r, s')" and "tx_fine s"
  shows "tx_fine s' \<and> (a \<longrightarrow> r \<noteq> None)"
  using assms
proof (induction a iov tmp f s "(r, s')" rule: writev_loop_run.induct)
  case (wl_single tmp s r1 a iov f)
  then show ?case using st_write_sent(2) [OF wl_single(1)] by (auto simp del: length_concat)
next
  case (wl_retry tmp s e s1 s2 a iov f)
  then show ?case
    using sys_write_fine [OF wl_retry(1)] st_netfd_poll_out_fine [of s1 _ s2] by auto
next
  case (wl_error tmp s e s1 e' a iov f)
  then show ?case
    using sys_write_fine [OF wl_error(1)] sys_write_benign_error [OF wl_error(1)]
      st_netfd_poll_out_fine [of s1 _ s'] by auto
next
  case (wl_full tmp s a iov f)
  then show ?case using sys_write_fine [OF wl_full(1)] by auto
next
  case (wl_part_error tmp s k s1 a e' iov f)
  then show ?case
    using sys_write_fine [OF wl_part_error(1)] st_netfd_poll_out_fine [of s1 _ s'] by auto
next
  case (wl_part tmp s k s1 iov n rest s2 a f)
  then show ?case
    using sys_write_fine [OF wl_part(1)] st_netfd_poll_out_fine [OF wl_part(4)] by auto
qed auto

lemma st_writev_sent:
  assumes "st_writev a iov s = (r, s')"
  shows "\<exists>k. sent s' = sent s @ take k (concat iov)
     \<and> (\<forall>m. r = Some m \<longrightarrow> m = length (concat iov) \<and> m \<le> k)"
proof -
  have "writev_loop_run a iov iov True s (r, s')"
    using st_writev_loop_run [of a iov iov True s] assms by (simp add: st_writev_def)
  from writev_loop_run_sent [OF this, of 0] show ?thesis by auto
qed

lemma writev_loop_run_rx:
  "writev_loop_run a iov tmp f s (r, s') \<Longrightarrow> rx s' = rx s \<and> rx_closed s' = rx_closed s"
proof (induction a iov tmp f s "(r, s')" rule: writev_loop_run.induct)
  case (wl_single tmp s r1 a iov f)
  then show ?case using st_write_sent(1) [OF wl_single(1)] by auto
qed (auto dest!: sys_write_Wrote sys_write_WFail st_netfd_poll_out_keeps)

lemma st_writev_rx:
  "st_writev a iov s = (r, s') \<Longrightarrow> rx s' = rx s \<and> rx_closed s' = rx_closed s"
  using st_writev_loop_run [of a iov iov True s] writev_loop_run_rx [of a iov iov True s r s']
  by (simp add: st_writev_def)

interpretation st_out: byte_writer "st_writev True" sent tx_fine
proof (unfold_locales, goal_cases)
  case (1 iov s r s')
  then show ?case using st_writev_sent [OF 1] by blast
next
  case (2 iov s m s')
  then show ?case using st_writev_sent [OF 2] by auto
next
  case (3 s iov)
  obtain r s' where w: "st_writev True iov s = (r, s')" by force
  then have "writev_loop_run True iov iov True s (r, s')"
    using st_writev_loop_run [of True iov iov True s] by (simp add: st_writev_def)
  with w show ?case using writev_loop_run_fine 3 by fastforce
next
  case (4 iov s r s')
  then have "writev_loop_run True iov iov True s (r, s')"
    using st_writev_loop_run [of True iov iov True s] by (simp add: st_writev_def)
  with 4 show ?case using writev_loop_run_fine by blast
qed

end
