(* ===== verification/Util.thy ===== *)
theory Util
  imports Prelude
begin

text \<open>
  The byte-order routines of \<^verbatim>\<open>util.cpp\<close>. A \<open>char *\<close> argument is \<open>None\<close> for the null
  pointer and \<open>Some\<close> of the memory it points at otherwise; a routine returns the C result and the
  destination memory. The seven routines share one contract, the locale \<open>byte_swap\<close>: what a client
  relies on (the bytes come out reversed, the rest of the destination is untouched, a second swap
  restores the input) is proved once there.
\<close>

type_synonym ptr = "bytes option"

section \<open>The routines\<close>

definition be2se_2bytes :: "ptr \<Rightarrow> ptr \<Rightarrow> int \<times> ptr" where
  "be2se_2bytes src dst =
     (case (src, dst) of
        (Some s, Some d) \<Rightarrow> (0, Some (d[1 := s ! 0, 0 := s ! 1]))
      | _ \<Rightarrow> (-1, dst))"

definition be2se_4bytes :: "ptr \<Rightarrow> ptr \<Rightarrow> int \<times> ptr" where
  "be2se_4bytes src dst =
     (case (src, dst) of
        (Some s, Some d) \<Rightarrow> (0, Some (d[3 := s ! 0, 2 := s ! 1, 1 := s ! 2, 0 := s ! 3]))
      | _ \<Rightarrow> (-1, dst))"

definition be2se_8bytes :: "ptr \<Rightarrow> ptr \<Rightarrow> int \<times> ptr" where
  "be2se_8bytes src dst =
     (case (src, dst) of
        (Some s, Some d) \<Rightarrow>
          (0, Some (d[7 := s ! 0, 6 := s ! 1, 5 := s ! 2, 4 := s ! 3,
                      3 := s ! 4, 2 := s ! 5, 1 := s ! 6, 0 := s ! 7]))
      | _ \<Rightarrow> (-1, dst))"

definition se2be_2bytes :: "ptr \<Rightarrow> ptr \<Rightarrow> int \<times> ptr" where
  "se2be_2bytes src dst =
     (case (src, dst) of
        (Some s, Some d) \<Rightarrow> (0, Some (d[0 := s ! 1, 1 := s ! 0]))
      | _ \<Rightarrow> (-1, dst))"

definition se2be_3bytes :: "ptr \<Rightarrow> ptr \<Rightarrow> int \<times> ptr" where
  "se2be_3bytes src dst =
     (case (src, dst) of
        (Some s, Some d) \<Rightarrow> (0, Some (d[0 := s ! 2, 1 := s ! 1, 2 := s ! 0]))
      | _ \<Rightarrow> (-1, dst))"

definition se2be_4bytes :: "ptr \<Rightarrow> ptr \<Rightarrow> int \<times> ptr" where
  "se2be_4bytes src dst =
     (case (src, dst) of
        (Some s, Some d) \<Rightarrow> (0, Some (d[0 := s ! 3, 1 := s ! 2, 2 := s ! 1, 3 := s ! 0]))
      | _ \<Rightarrow> (-1, dst))"

definition se2be_8bytes :: "ptr \<Rightarrow> ptr \<Rightarrow> int \<times> ptr" where
  "se2be_8bytes src dst =
     (case (src, dst) of
        (Some s, Some d) \<Rightarrow>
          (0, Some (d[0 := s ! 7, 1 := s ! 6, 2 := s ! 5, 3 := s ! 4,
                      4 := s ! 3, 5 := s ! 2, 6 := s ! 1, 7 := s ! 0]))
      | _ \<Rightarrow> (-1, dst))"

section \<open>The contract of a byte-order routine\<close>

locale byte_swap =
  fixes width :: nat and swap :: "ptr \<Rightarrow> ptr \<Rightarrow> int \<times> ptr"
  assumes swap_reverses:
    "width \<le> length s \<Longrightarrow> width \<le> length d \<Longrightarrow>
       swap (Some s) (Some d) = (0, Some (rev (take width s) @ drop width d))"
    and swap_null_src: "swap None d' = (-1, d')"
    and swap_null_dst: "swap s' None = (-1, None)"
begin

lemma swap_twice:
  assumes "length s = width" and "length d = width" and "length e = width"
  shows "\<exists>t. swap (Some s) (Some d) = (0, Some t) \<and> swap (Some t) (Some e) = (0, Some s)"
  using assms swap_reverses [of s d] swap_reverses [of "rev s" e] by simp

lemma swap_fails_iff:
  assumes "\<And>s. src = Some s \<Longrightarrow> width \<le> length s" and "\<And>d. dst = Some d \<Longrightarrow> width \<le> length d"
  shows "fst (swap src dst) = -1 \<longleftrightarrow> src = None \<or> dst = None"
  using assms swap_reverses swap_null_src swap_null_dst by (cases src; cases dst) auto

lemma swap_word:
  fixes w :: "'a::len word"
  assumes "8 dvd LENGTH('a)" and "width = LENGTH('a) div 8" and "length d = width"
  shows "\<exists>t. swap (Some (rev (mem_of w))) (Some d) = (0, Some t) \<and> of_mem t = w"
  using assms swap_reverses [of "rev (mem_of w)" d] of_mem_mem_of [of w] by simp

end

text \<open>
  A list with at least \<open>n\<close> elements, for a numeral \<open>n\<close>, as a list of named elements and a rest:
  what the element-wise assignments of the routines need.
\<close>

lemma numeral_le_length:
  "numeral k \<le> length xs \<longleftrightarrow> (\<exists>y ys. xs = y # ys \<and> pred_numeral k \<le> length ys)"
  by (cases xs) (auto simp: numeral_eq_Suc)

lemmas swap_defs =
  be2se_2bytes_def be2se_4bytes_def be2se_8bytes_def
  se2be_2bytes_def se2be_3bytes_def se2be_4bytes_def se2be_8bytes_def

lemma eight_le_length:
  assumes "8 \<le> length (xs :: 'a list)"
  obtains a b c d e f g h ys where "xs = a # b # c # d # e # f # g # h # ys"
  using assms by (auto simp: numeral_le_length Suc_le_length_iff)

lemma four_le_length:
  assumes "4 \<le> length (xs :: 'a list)"
  obtains a b c d ys where "xs = a # b # c # d # ys"
  using assms by (auto simp: numeral_le_length Suc_le_length_iff)

lemma three_le_length:
  assumes "3 \<le> length (xs :: 'a list)"
  obtains a b c ys where "xs = a # b # c # ys"
  using assms by (auto simp: numeral_le_length Suc_le_length_iff)

lemma two_le_length:
  assumes "2 \<le> length (xs :: 'a list)"
  obtains a b ys where "xs = a # b # ys"
  using assms by (auto simp: numeral_le_length Suc_le_length_iff)

interpretation be2: byte_swap 2 be2se_2bytes
  by unfold_locales
    (auto simp: swap_defs split: option.splits elim!: two_le_length)

interpretation se2: byte_swap 2 se2be_2bytes
  by unfold_locales
    (auto simp: swap_defs split: option.splits elim!: two_le_length)

interpretation se3: byte_swap 3 se2be_3bytes
  by unfold_locales
    (auto simp: swap_defs split: option.splits elim!: three_le_length)

interpretation be4: byte_swap 4 be2se_4bytes
  by unfold_locales
    (auto simp: swap_defs split: option.splits elim!: four_le_length)

interpretation se4: byte_swap 4 se2be_4bytes
  by unfold_locales
    (auto simp: swap_defs split: option.splits elim!: four_le_length)

interpretation be8: byte_swap 8 be2se_8bytes
  by unfold_locales
    (auto simp: swap_defs split: option.splits elim!: eight_le_length)

interpretation se8: byte_swap 8 se2be_8bytes
  by unfold_locales
    (auto simp: swap_defs split: option.splits elim!: eight_le_length)

end
