(* ===== verification/Io_Socket.thy ===== *)
theory Io_Socket
  imports Conn St_Io Util
begin

text \<open>
  \<open>IO_Socket\<close> of \<^verbatim>\<open>io_socket.cpp\<close>. The out-parameter \<open>nread\<close> is the value a call returns; it
  keeps the caller's value when nothing is read. The two \<open>_cycle\<close> routines share their loop, a
  partial function: \<open>None\<close> is the loop that never ends.
\<close>

definition SOCKET_READ_SIZE :: nat where "SOCKET_READ_SIZE = 4096"

text \<open>
  \<open>IO_Socket::read\<close> passes the \<^emph>\<open>address\<close> \<open>nread\<close> as the number of bytes to append (the source
  lacks a dereference); \<open>nread_addr\<close> is that address.
\<close>

definition IO_Socket_read :: "nat \<Rightarrow> (ctx, nat) act" where
  "IO_Socket_read nread_addr c =
     (case st_read SOCKET_READ_SIZE (net c) of
        (Inl e, s) \<Rightarrow> Some (Fail, c\<lparr>net := s\<rparr>)
      | (Inr bs, s) \<Rightarrow>
          (if bs = [] then Some (Fail, c\<lparr>net := s\<rparr>)
           else if nread_addr \<le> SOCKET_READ_SIZE
           then Some (Ok (length bs), put (take nread_addr
                  (bs @ replicate (SOCKET_READ_SIZE - length bs) 0)) (c\<lparr>net := s\<rparr>))
           else Some (Fault OutOfBounds, c\<lparr>net := s\<rparr>)))"

definition read_nbytes :: "nat \<Rightarrow> nat \<Rightarrow> (ctx, nat) act" where
  "read_nbytes nbytes nread c =
     (if buffer_size (io_buffer c) < nbytes
      then (case st_read_fully (nbytes - buffer_size (io_buffer c)) (net c) of
              (r, bs, s) \<Rightarrow>
                (if r = Some (nbytes - buffer_size (io_buffer c))
                 then Some (Ok (nbytes - buffer_size (io_buffer c)), put bs (c\<lparr>net := s\<rparr>))
                 else Some (Fail, c\<lparr>net := s\<rparr>)))
      else Some (Ok nread, c))"

definition put_av :: "bytes \<Rightarrow> ctx \<Rightarrow> ctx" where
  "put_av data c = c\<lparr>audio_video_buffer := audio_video_buffer c @ data\<rparr>"

definition read_nbytes_av :: "nat \<Rightarrow> nat \<Rightarrow> (ctx, nat) act" where
  "read_nbytes_av nbytes nread c =
     (if length (audio_video_buffer c) < nbytes
      then (case st_read_fully (nbytes - length (audio_video_buffer c)) (net c) of
              (r, bs, s) \<Rightarrow>
                (if r = Some (nbytes - length (audio_video_buffer c))
                 then Some (Ok (nbytes - length (audio_video_buffer c)), put_av bs (c\<lparr>net := s\<rparr>))
                 else Some (Fail, c\<lparr>net := s\<rparr>)))
      else Some (Ok nread, c))"

partial_function (option) read_cycle_loop ::
  "(nat \<Rightarrow> 's \<Rightarrow> nat option \<times> bytes \<times> 's) \<Rightarrow> nat \<Rightarrow> nat \<Rightarrow> bytes \<Rightarrow> 's
     \<Rightarrow> ((nat \<times> bytes) option \<times> 's) option"
where
  "read_cycle_loop rd nbytes nread buffer s =
     (if nread < nbytes
      then (case rd (nbytes - nread) s of (r, bs, s') \<Rightarrow>
              (case r of
                 None \<Rightarrow> Some (None, s')
               | Some n_read \<Rightarrow>
                   (if nread + n_read < nbytes
                    then read_cycle_loop rd nbytes (nread + n_read) (buffer @ bs) s'
                    else Some (Some (nread + n_read, buffer @ bs), s'))))
      else Some (Some (nread, buffer), s))"

definition read_nbytes_cycle :: "nat \<Rightarrow> nat \<Rightarrow> (ctx, nat) act" where
  "read_nbytes_cycle nbytes nread c =
     (if buffer_size (io_buffer c) < nbytes
      then (case read_cycle_loop st_read_fully (nbytes - buffer_size (io_buffer c)) 0 [] (net c) of
              None \<Rightarrow> None
            | Some (None, s) \<Rightarrow> Some (Fail, c\<lparr>net := s\<rparr>)
            | Some (Some (n, bs), s) \<Rightarrow> Some (Ok n, put bs (c\<lparr>net := s\<rparr>)))
      else Some (Ok nread, c))"

definition read_nbytes_cycle_av :: "nat \<Rightarrow> nat \<Rightarrow> (ctx, nat) act" where
  "read_nbytes_cycle_av nbytes nread c =
     (if length (audio_video_buffer c) < nbytes
      then (case read_cycle_loop st_read_fully (nbytes - length (audio_video_buffer c)) 0 []
                   (net c) of
              None \<Rightarrow> None
            | Some (None, s) \<Rightarrow> Some (Fail, c\<lparr>net := s\<rparr>)
            | Some (Some (n, bs), s) \<Rightarrow> Some (Ok n, put_av bs (c\<lparr>net := s\<rparr>)))
      else Some (Ok nread, c))"

definition IO_Socket_write :: "bytes \<Rightarrow> (ctx, nat) act" where
  "IO_Socket_write buffer c =
     (case st_write buffer (net c) of
        (r, s) \<Rightarrow> (if r = Some (length buffer) then Some (Ok (length buffer), c\<lparr>net := s\<rparr>)
                   else Some (Fail, c\<lparr>net := s\<rparr>)))"

text \<open>A null \<open>iov\<close> is \<open>None\<close>.\<close>

definition IO_Socket_writev :: "bytes list option \<Rightarrow> (ctx, nat) act" where
  "IO_Socket_writev iov c =
     (case iov of
        None \<Rightarrow> Some (Fail, c)
      | Some vs \<Rightarrow>
          (case st_writev True vs (net c) of
             (None, s) \<Rightarrow> Some (Fail, c\<lparr>net := s\<rparr>)
           | (Some n, s) \<Rightarrow> Some (Ok n, c\<lparr>net := s\<rparr>)))"

lemmas io_socket_exec [exec_simps] =
  SOCKET_READ_SIZE_def IO_Socket_read_def read_nbytes_def read_nbytes_av_def put_av_def
  read_nbytes_cycle_def read_nbytes_cycle_av_def IO_Socket_write_def IO_Socket_writev_def

section \<open>The reading loop over any reader\<close>

context byte_reader
begin

lemma cycle_step:
  assumes "nread < nbytes" and "rd (nbytes - nread) s = (Some k, bs, s')"
  shows "read_cycle_loop rd nbytes nread buf s =
    (if k < nbytes - nread then read_cycle_loop rd nbytes (nread + k) (buf @ bs) s'
     else Some (Some (nbytes, buf @ bs), s'))"
  using assms rd_count [OF assms(2)] by (auto simp: read_cycle_loop.simps [of rd nbytes nread])

lemma cycle_enough:
  assumes "fine s" and "0 < n" and "n \<le> length (pend s)"
  shows "\<exists>s'. rd n s = (Some n, take n (pend s), s')
    \<and> read_cycle_loop rd n 0 [] s = Some (Some (n, take n (pend s)), s')
    \<and> pend s' = drop n (pend s) \<and> fine s'"
proof -
  obtain s' where r: "rd (n - 0) s = (Some n, take n (pend s), s')"
    and s': "pend s' = drop n (pend s)" "fine s'"
    using rd_complete [OF assms(1,3)] by auto
  with cycle_step [of 0 n s n] assms(2) show ?thesis by simp
qed

text \<open>
  A loop that returns has read exactly what was asked for, whatever the peer and the kernel do.
\<close>

lemma cycle_exact:
  assumes "read_cycle_loop rd n k buf s = Some (Some (m, bs), s')" and "k \<le> n"
  shows "\<exists>new. bs = buf @ new \<and> pend s = new @ pend s' \<and> m = n \<and> length new = n - k
    \<and> closed s' = closed s \<and> (fine s \<longrightarrow> fine s')"
proof (rule read_cycle_loop.raw_induct [where P = "\<lambda>rd' n k buf s r. rd' = rd \<longrightarrow> k \<le> n \<longrightarrow>
    (\<forall>m bs s'. r = (Some (m, bs), s') \<longrightarrow>
      (\<exists>new. bs = buf @ new \<and> pend s = new @ pend s' \<and> m = n \<and> length new = n - k
        \<and> closed s' = closed s \<and> (fine s \<longrightarrow> fine s')))", OF _ assms(1), rule_format, OF _ refl assms(2) refl],
    goal_cases)
  case (1 f rd' nbytes nread buf s r m bs s')
  show ?case
  proof (cases "nread < nbytes")
    case False
    with 1 show ?thesis by auto
  next
    case True
    obtain q xs t where q: "rd (nbytes - nread) s = (q, xs, t)" by (metis prod_cases3)
    with True 1 obtain i where i: "q = Some i" by (cases q) auto
    have c: "i = length xs" "i \<le> nbytes - nread" using rd_count q i by auto
    have p: "pend s = xs @ pend t" "closed t = closed s" "fine s \<Longrightarrow> fine t"
      using rd_prefix [OF q] rd_closed [OF q] rd_fine [OF q] by auto
    show ?thesis
    proof (cases "nread + i < nbytes")
      case False
      with True 1 q i c p show ?thesis by (auto intro!: exI [of _ xs])
    next
      case less: True
      with True 1 q i have "f rd nbytes (nread + i) (buf @ xs) t = Some r" by simp
      from 1(1) [OF this] less 1 obtain new where
        "bs = (buf @ xs) @ new" "pend t = new @ pend s'" "m = nbytes"
        "length new = nbytes - (nread + i)" "closed s' = closed t" "fine t \<longrightarrow> fine s'" by auto
      with c p less show ?thesis by (intro exI [of _ "xs @ new"]) auto
    qed
  qed
qed

text \<open>
  When the peer has closed before sending enough, the loop asks for the missing bytes forever.
\<close>

lemma cycle_hangs:
  assumes "fine s" and "closed s" and "length (pend s) < n"
  shows "read_cycle_loop rd n 0 [] s = None"
proof (rule ccontr)
  assume "read_cycle_loop rd n 0 [] s \<noteq> None"
  then obtain r where r: "read_cycle_loop rd n 0 [] s = Some r" by blast
  have False
  proof (rule read_cycle_loop.raw_induct [where P = "\<lambda>rd' n k buf s r.
      rd' = rd \<longrightarrow> fine s \<longrightarrow> closed s \<longrightarrow> \<not> k + length (pend s) < n", OF _ r, rule_format,
      OF _ refl assms(1,2), THEN notE], goal_cases)
    case (1 f rd' nbytes nread buf s r)
    show ?case
    proof
      assume less: "nread + length (pend s) < nbytes"
      then have "length (pend s) < nbytes - nread" by simp
      then obtain t where t: "rd (nbytes - nread) s = (Some (length (pend s)), pend s, t)"
        "pend t = []" "fine t" "closed t"
        using rd_eof 1 by blast
      with 1 less have "f rd nbytes (nread + length (pend s)) (buf @ pend s) t = Some r" by simp
      from 1(1) [OF this refl t(3,4)] t(2) less show False by simp
    qed
  next
    case 2
    show ?case using assms(3) by simp
  qed
  then show False .
qed

text \<open>While the peer has not closed, the loop always returns.\<close>

lemma cycle_open_returns:
  assumes "\<not> closed s"
  shows "\<exists>r. read_cycle_loop rd n k buf s = Some r"
proof (cases "k < n")
  case False
  then show ?thesis by (simp add: read_cycle_loop.simps)
next
  case True
  obtain q xs t where q: "rd (n - k) s = (q, xs, t)" by (metis prod_cases3)
  show ?thesis
  proof (cases q)
    case None
    with True q show ?thesis by (simp add: read_cycle_loop.simps [of rd n k])
  next
    case (Some i)
    with q have "i = n - k" using rd_short rd_count assms by (metis le_neq_implies_less)
    with True q Some show ?thesis by (simp add: cycle_step)
  qed
qed

end

section \<open>The two receive buffers\<close>

definition frame_io :: "ctx \<Rightarrow> ctx" where
  "frame_io c = c\<lparr>io_buffer := [], net := (net c)\<lparr>rx := []\<rparr>\<rparr>"

definition frame_av :: "ctx \<Rightarrow> ctx" where
  "frame_av c = c\<lparr>audio_video_buffer := [], net := (net c)\<lparr>rx := []\<rparr>\<rparr>"

definition set_io_buffer :: "bytes \<Rightarrow> ctx \<Rightarrow> ctx" where
  "set_io_buffer b c = c\<lparr>io_buffer := b\<rparr>"

definition set_av_buffer :: "bytes \<Rightarrow> ctx \<Rightarrow> ctx" where
  "set_av_buffer b c = c\<lparr>audio_video_buffer := b\<rparr>"

lemma sock_frame:
  "(s' :: sock)\<lparr>rx := []\<rparr> = s\<lparr>rx := []\<rparr> \<longleftrightarrow>
     rx_closed s' = rx_closed s \<and> tx s' = tx s \<and> sent s' = sent s"
  by (cases s; cases s') auto

lemma frame_io_iff:
  "frame_io d = frame_io c \<longleftrightarrow>
     chunk_size d = chunk_size c \<and> cur d = cur c \<and> curr_csid d = curr_csid c
     \<and> set_data_frame d = set_data_frame c \<and> csid_header d = csid_header c
     \<and> audio_video_buffer d = audio_video_buffer c \<and> av_bh_size d = av_bh_size c
     \<and> av_mh_size d = av_mh_size c \<and> rx_closed (net d) = rx_closed (net c)
     \<and> tx (net d) = tx (net c) \<and> sent (net d) = sent (net c)"
  by (cases c; cases d) (auto simp: frame_io_def sock_frame)

lemma frame_av_iff:
  "frame_av d = frame_av c \<longleftrightarrow>
     chunk_size d = chunk_size c \<and> cur d = cur c \<and> curr_csid d = curr_csid c
     \<and> set_data_frame d = set_data_frame c \<and> csid_header d = csid_header c
     \<and> io_buffer d = io_buffer c \<and> av_bh_size d = av_bh_size c
     \<and> av_mh_size d = av_mh_size c \<and> rx_closed (net d) = rx_closed (net c)
     \<and> tx (net d) = tx (net c) \<and> sent (net d) = sent (net c)"
  by (cases c; cases d) (auto simp: frame_av_def sock_frame)

lemma read_nbytes_cycle_enough:
  assumes "rx_fine (net c)" and "length (io_buffer c) < n"
    and "n \<le> length (io_buffer c) + length (pending (net c))"
  shows "\<exists>s. read_nbytes_cycle n k c = Some (Ok (n - length (io_buffer c)),
        put (take (n - length (io_buffer c)) (pending (net c))) (c\<lparr>net := s\<rparr>))
      \<and> pending s = drop (n - length (io_buffer c)) (pending (net c)) \<and> rx_fine s
      \<and> s\<lparr>rx := []\<rparr> = (net c)\<lparr>rx := []\<rparr>"
proof -
  let ?n = "n - length (io_buffer c)"
  have "0 < ?n" "?n \<le> length (pending (net c))" using assms(2,3) by simp_all
  from st.cycle_enough [OF assms(1) this] obtain s where s:
    "st_read_fully ?n (net c) = (Some ?n, take ?n (pending (net c)), s)"
    "read_cycle_loop st_read_fully ?n 0 [] (net c) = Some (Some (?n, take ?n (pending (net c))), s)"
    "pending s = drop ?n (pending (net c))" "rx_fine s" by blast
  then show ?thesis
    using assms(2) st_read_fully_prefix [OF s(1)]
    by (intro exI [of _ s]) (simp add: read_nbytes_cycle_def buffer_size_def sock_frame)
qed

lemma read_nbytes_cycle_av_enough:
  assumes "rx_fine (net c)" and "length (audio_video_buffer c) < n"
    and "n \<le> length (audio_video_buffer c) + length (pending (net c))"
  shows "\<exists>s. read_nbytes_cycle_av n k c = Some (Ok (n - length (audio_video_buffer c)),
        put_av (take (n - length (audio_video_buffer c)) (pending (net c))) (c\<lparr>net := s\<rparr>))
      \<and> pending s = drop (n - length (audio_video_buffer c)) (pending (net c)) \<and> rx_fine s
      \<and> s\<lparr>rx := []\<rparr> = (net c)\<lparr>rx := []\<rparr>"
proof -
  let ?n = "n - length (audio_video_buffer c)"
  have "0 < ?n" "?n \<le> length (pending (net c))" using assms(2,3) by simp_all
  from st.cycle_enough [OF assms(1) this] obtain s where s:
    "st_read_fully ?n (net c) = (Some ?n, take ?n (pending (net c)), s)"
    "read_cycle_loop st_read_fully ?n 0 [] (net c) = Some (Some (?n, take ?n (pending (net c))), s)"
    "pending s = drop ?n (pending (net c))" "rx_fine s" by blast
  then show ?thesis
    using assms(2) st_read_fully_prefix [OF s(1)]
    by (intro exI [of _ s]) (simp add: read_nbytes_cycle_av_def sock_frame)
qed

interpretation io: buffered_source read_nbytes_cycle io_buffer set_io_buffer
  "\<lambda>c. pending (net c)" "\<lambda>c. rx_fine (net c)" frame_io
proof (unfold_locales, goal_cases)
  case (1 c n k)
  from read_nbytes_cycle_enough [OF this, of k] show ?case
    by (auto simp: frame_io_def put_def push_back_def)
qed (auto simp: read_nbytes_cycle_def buffer_size_def set_io_buffer_def frame_io_def)

interpretation av: buffered_source read_nbytes_cycle_av audio_video_buffer set_av_buffer
  "\<lambda>c. pending (net c)" "\<lambda>c. rx_fine (net c)" frame_av
proof (unfold_locales, goal_cases)
  case (1 c n k)
  from read_nbytes_cycle_av_enough [OF this, of k] show ?case
    by (auto simp: frame_av_def put_av_def)
qed (auto simp: read_nbytes_cycle_av_def set_av_buffer_def frame_av_def)

end
