(* ===== verification/Chunk.thy ===== *)
theory Chunk
  imports Io_Socket
begin

text \<open>
  The RTMP chunk stream of \<^verbatim>\<open>io_message.cpp\<close>: basic and message headers, the header writer,
  \<open>write_message\<close> (which splits a message into chunks) and the loop that puts a message together
  again. The abstract wire format is \<open>chunked\<close>; sending implements it and the receiving loop
  inverts it.
\<close>

unbundle bit_operations_syntax

section \<open>Reading headers\<close>

definition peek_act :: "(ctx \<Rightarrow> bytes) \<Rightarrow> nat \<Rightarrow> (ctx, byte) act" where
  "peek_act buf p c = lift_res (peek (buf c) p) c"

definition read_basic_header :: "(ctx, int \<times> int \<times> nat) act" where
  "read_basic_header =
     bind_act (read_nbytes_cycle 1 0) (\<lambda>nread.
     bind_act (peek_act io_buffer 0) (\<lambda>bh.
       let fmt = uint (signed_drop_bit 6 bh AND 3); csid = uint (bh AND 0x3F)
       in if csid \<le> 1
          then if csid = 0
               then bind_act (read_nbytes 2 nread) (\<lambda>_.
                    bind_act (peek_act io_buffer 1) (\<lambda>b1.
                    return_act (fmt, 64 + sint b1, 2)))
               else if csid = 1
               then bind_act (read_nbytes 3 nread) (\<lambda>_.
                    bind_act (peek_act io_buffer 1) (\<lambda>b1.
                    bind_act (peek_act io_buffer 2) (\<lambda>b2.
                    return_act (fmt, 64 + sint b1 + sint b2 * 256, 3))))
               else fail_act
          else return_act (fmt, csid, 1)))"

definition mh_size_array :: "nat list" where
  "mh_size_array = [11, 7, 3, 0]"

text \<open>Three big-endian bytes at \<open>p\<close> stored into an \<open>int\<close>, and the two four-byte forms.\<close>

definition int24_at :: "bytes \<Rightarrow> nat \<Rightarrow> int32" where
  "int24_at b p = of_mem [b ! (p + 2), b ! (p + 1), b ! p, 0]"

definition be32_at :: "bytes \<Rightarrow> nat \<Rightarrow> int32" where
  "be32_at b p = of_mem [b ! (p + 3), b ! (p + 2), b ! (p + 1), b ! p]"

definition le32_at :: "bytes \<Rightarrow> nat \<Rightarrow> int32" where
  "le32_at b p = of_mem [b ! p, b ! (p + 1), b ! (p + 2), b ! (p + 3)]"

text \<open>
  \<open>read_message_header\<close> keeps the message length in \<open>csid_header\<close>; timestamp, type and stream id are
  locals that are only logged (they are returned here for that reason).
\<close>

definition read_message_header ::
  "int \<Rightarrow> int \<Rightarrow> nat \<Rightarrow> (ctx, nat \<times> int32 \<times> byte \<times> int32) act"
where
  "read_message_header fmt csid bh_size =
     (let mh_size = mh_size_array ! nat fmt; nbytes = bh_size + mh_size
      in bind_act (read_nbytes_cycle nbytes 0) (\<lambda>nread c.
           let b = io_buffer c;
               ts = (if fmt = 0 then int24_at b bh_size else 0);
               delta0 = (if 0 < fmt \<and> fmt \<le> 2 then int24_at b bh_size else 0);
               delta = (if 0 < fmt \<and> sint delta0 \<ge> 0xFFFFFF then 0xFFFFFF else delta0);
               c1 = (if fmt \<le> 1
                     then csid_update csid (\<lambda>h. h\<lparr>message_length := int24_at b (bh_size + 3)\<rparr>) c
                     else c);
               mtype = (if fmt \<le> 1 then b ! (bh_size + 6) else 0);
               sid = (if fmt < 1 then le32_at b (bh_size + 7) else 0)
           in if delta = 0xFFFFFF
              then bind_act (read_nbytes_cycle (nbytes + 4) nread) (\<lambda>_ c2.
                     let delta' = be32_at (io_buffer c2) (bh_size + mh_size)
                     in Some (Ok (mh_size + 4, ts + delta', mtype, sid), c2)) c1
              else Some (Ok (mh_size, ts + delta, mtype, sid), c1)))"

section \<open>Reading audio and video headers\<close>

definition set_curr_csid :: "int \<Rightarrow> (ctx, unit) act" where
  "set_curr_csid i = modify_act (\<lambda>c. c\<lparr>curr_csid := i\<rparr>)"

definition set_bh_size :: "nat \<Rightarrow> (ctx, unit) act" where
  "set_bh_size n = modify_act (\<lambda>c. c\<lparr>av_bh_size := n\<rparr>)"

definition set_mh_size :: "nat \<Rightarrow> (ctx, unit) act" where
  "set_mh_size n = modify_act (\<lambda>c. c\<lparr>av_mh_size := n\<rparr>)"

definition read_audio_video_basic_header :: "(ctx, int) act" where
  "read_audio_video_basic_header =
     bind_act (set_bh_size 1) (\<lambda>_.
     bind_act (read_nbytes_cycle_av 1 0) (\<lambda>nread.
     bind_act (peek_act audio_video_buffer 0) (\<lambda>bh.
       let fmt = uint (signed_drop_bit 6 bh AND 3); csid = uint (bh AND 0x3F)
       in bind_act (set_curr_csid csid) (\<lambda>_.
          if csid \<le> 1
          then if csid = 0
               then bind_act (read_nbytes_av 2 nread) (\<lambda>_.
                    bind_act (peek_act audio_video_buffer 1) (\<lambda>b1.
                    bind_act (set_curr_csid (64 + sint b1)) (\<lambda>_.
                    bind_act (set_bh_size 2) (\<lambda>_. return_act fmt))))
               else if csid = 1
               then bind_act (read_nbytes_av 3 nread) (\<lambda>_.
                    bind_act (peek_act audio_video_buffer 1) (\<lambda>b1.
                    bind_act (peek_act audio_video_buffer 2) (\<lambda>b2.
                    bind_act (set_curr_csid (64 + sint b1 + sint b2 * 256)) (\<lambda>_.
                    bind_act (set_bh_size 3) (\<lambda>_. return_act fmt)))))
               else fail_act
          else return_act fmt))))"

text \<open>The stores of the header fields, in the order of the source.\<close>

definition av_header_fields :: "int \<Rightarrow> bytes \<Rightarrow> nat \<Rightarrow> Message_Header \<Rightarrow> Message_Header" where
  "av_header_fields fmt b p h =
     (let h1 = (if fmt = 0 then h\<lparr>timestamp := int24_at b p\<rparr>
                else h\<lparr>timestamp_delta := int24_at b p\<rparr>);
          h2 = (if fmt = 0 then h1\<lparr>timestamp_delta := timestamp h1\<rparr> else h1);
          h3 = (if 0 < fmt \<and> sint (timestamp_delta h2) \<ge> 0xFFFFFF
                then h2\<lparr>timestamp_delta := 0xFFFFFF\<rparr> else h2);
          h4 = (if fmt \<le> 1 then h3\<lparr>message_length := int24_at b (p + 3),
                                    message_type := b ! (p + 6)\<rparr> else h3)
      in if fmt < 1 then h4\<lparr>stream_id := le32_at b (p + 7)\<rparr> else h4)"

definition add_delta :: "Message_Header \<Rightarrow> Message_Header" where
  "add_delta h = h\<lparr>timestamp := timestamp h + timestamp_delta h\<rparr>"

definition read_audio_video_message_header :: "int \<Rightarrow> int \<Rightarrow> nat \<Rightarrow> (ctx, unit) act" where
  "read_audio_video_message_header fmt csid bh_size =
     (let mh_size = mh_size_array ! nat fmt; nbytes = bh_size + mh_size
      in bind_act (set_mh_size mh_size) (\<lambda>_.
         bind_act (read_nbytes_cycle_av nbytes 0) (\<lambda>nread c.
           if fmt = 3
           then (if csid_header c csid = None then Some (Fail, c)
                 else Some (Ok (), csid_update csid add_delta c))
           else
             (let c1 = csid_update csid (av_header_fields fmt (audio_video_buffer c) bh_size) c
              in if timestamp_delta (csid_at csid c1) = 0xFFFFFF
                 then bind_act (read_nbytes_cycle_av (nbytes + 4) nread) (\<lambda>_ c2.
                        let d = be32_at (audio_video_buffer c2) (bh_size + mh_size)
                        in bind_act (set_mh_size (mh_size + 4)) (\<lambda>_ c3.
                             Some (Ok (), csid_update csid
                               (\<lambda>h. add_delta (h\<lparr>timestamp_delta := d\<rparr>)) c3)) c2) c1
                 else Some (Ok (), csid_update csid add_delta c1)))))"

section \<open>Putting a message together\<close>

text \<open>
  The loop of \<open>ConnectMessage::read_payload\<close> and \<open>recv_audio_video_payload\<close>; the two differ only in
  the buffer. Each further chunk is read with its one-byte header, which is then erased.
\<close>

partial_function (option) payload_loop ::
  "(nat \<Rightarrow> nat \<Rightarrow> ('c, nat) act) \<Rightarrow> ('c \<Rightarrow> bytes) \<Rightarrow> (bytes \<Rightarrow> 'c \<Rightarrow> 'c)
     \<Rightarrow> int \<Rightarrow> int \<Rightarrow> int \<Rightarrow> 'c \<Rightarrow> (unit res \<times> 'c) option"
where
  "payload_loop need getb setb mlen cs nread c =
     (if nread < mlen
      then
        (let n_bytes = (if nread > 0
                        then (if mlen - nread \<le> cs then mlen - nread + 1
                              else cs + 1)
                        else (if mlen - nread \<le> cs then mlen - nread else cs))
         in case need (as_size_t (n_bytes + int (length (getb c)))) 0 c of
              None \<Rightarrow> None
            | Some (Fail, c') \<Rightarrow> Some (Fail, c')
            | Some (Fault e, c') \<Rightarrow> Some (Fault e, c')
            | Some (Ok temp, c') \<Rightarrow>
                (if nread > 0
                 then (case buffer_erase
                              (as_size_t (int (length (getb c')) - 1 - (int temp - 1))) 1 (getb c') of
                         Ok b \<Rightarrow> payload_loop need getb setb mlen cs
                                   (nread + (int temp - 1)) (setb b c')
                       | Fail \<Rightarrow> Some (Fail, c')
                       | Fault e \<Rightarrow> Some (Fault e, c'))
                 else payload_loop need getb setb mlen cs (nread + int temp) c'))
      else Some (Ok (), c))"

text \<open>
  The wire format a message has after its first header: pieces of at most \<open>cs\<close> bytes, each but the
  first behind a one-byte header \<open>h\<close> (format 3).
\<close>

function fmt3_tail :: "byte \<Rightarrow> nat \<Rightarrow> bytes \<Rightarrow> bytes" where
  "fmt3_tail h cs p =
     (if p = [] \<or> cs = 0 then [] else h # take cs p @ fmt3_tail h cs (drop cs p))"
  by pat_completeness auto
termination by (relation "measure (\<lambda>(h, cs, p). length p)") auto

declare fmt3_tail.simps [simp del]

definition chunked :: "byte \<Rightarrow> nat \<Rightarrow> bytes \<Rightarrow> bytes" where
  "chunked h cs p = take cs p @ fmt3_tail h cs (drop cs p)"

lemma fmt3_tail_Nil [simp]: "fmt3_tail h cs [] = []"
  by (simp add: fmt3_tail.simps)

lemma fmt3_tail_step:
  "p \<noteq> [] \<Longrightarrow> 0 < cs \<Longrightarrow> fmt3_tail h cs p = h # take cs p @ fmt3_tail h cs (drop cs p)"
  by (simp add: fmt3_tail.simps [of h cs p])

lemma chunked_short: "length p \<le> cs \<Longrightarrow> chunked h cs p = p"
  by (simp add: chunked_def)

context buffered_source
begin

lemma loop_done: "m \<le> nread \<Longrightarrow> payload_loop need buf setb m cs nread c = Some (Ok (), c)"
  by (simp add: payload_loop.simps [of need buf setb m cs nread c])

lemma loop_first:
  assumes "steady c" and "0 < k" and "k \<le> length (coming c)"
    and "int k = (if m \<le> cs then m else cs)" and "length (buf c) + k < 2 ^ 64"
  shows "\<exists>c'. payload_loop need buf setb m cs 0 c = payload_loop need buf setb m cs (int k) c'
    \<and> buf c' = buf c @ take k (coming c) \<and> coming c' = drop k (coming c) \<and> steady c'
    \<and> frame c' = frame c"
proof -
  have n: "as_size_t (int k + int (length (buf c))) = k + length (buf c)"
    using assms(5) by (simp add: as_size_t_def)
  have "length (buf c) < k + length (buf c)"
    "k + length (buf c) \<le> length (buf c) + length (coming c)" using assms(2,3) by simp_all
  from need_enough [OF assms(1) this, of 0] obtain c' where c':
    "need (k + length (buf c)) 0 c = Some (Ok k, c')" "buf c' = buf c @ take k (coming c)"
    "coming c' = drop k (coming c)" "steady c'" "frame c' = frame c" by auto
  have m: "0 < m" using assms(2,4) by (simp split: if_splits)
  have nb: "(if m - 0 \<le> cs then m - 0 else cs) = int k" using assms(4) by simp
  have "payload_loop need buf setb m cs 0 c = payload_loop need buf setb m cs (int k) c'"
    unfolding payload_loop.simps [of need buf setb m cs 0 c] Let_def
    using m by (simp add: nb [simplified] n c'(1))
  with c' show ?thesis by auto
qed

lemma loop_next:
  assumes "steady c" and "0 < nread" and "coming c = h # bs @ r" and "bs \<noteq> []"
    and "int (length bs) = (if m - nread \<le> cs then m - nread else cs)"
    and "length (buf c) + length bs + 1 < 2 ^ 64"
  shows "\<exists>c'. payload_loop need buf setb m cs nread c
      = payload_loop need buf setb m cs (nread + int (length bs)) c'
    \<and> buf c' = buf c @ bs \<and> coming c' = r \<and> steady c' \<and> frame c' = frame c"
proof -
  let ?k = "length bs + 1"
  have n: "as_size_t (int ?k + int (length (buf c))) = ?k + length (buf c)"
    using assms(6) by (simp add: as_size_t_def)
  have "length (buf c) < ?k + length (buf c)"
    "?k + length (buf c) \<le> length (buf c) + length (coming c)" using assms(3) by simp_all
  from need_enough [OF assms(1) this, of 0] obtain c' where c':
    "need (?k + length (buf c)) 0 c = Some (Ok ?k, c')" "buf c' = buf c @ h # bs"
    "coming c' = r" "steady c'" "frame c' = frame c" by (auto simp: assms(3))
  have "0 < int (length bs)" using assms(4) by simp
  then have m: "nread < m" unfolding assms(5) by (simp split: if_splits)
  have nb: "(if m - nread \<le> cs then m - nread + 1 else cs + 1) = int ?k"
    using assms(5) by simp
  have ix: "as_size_t (int (length (buf c')) - 1 - (int ?k - 1)) = length (buf c)"
    using assms(6) c'(2) by (simp add: as_size_t_def)
  have ar: "nread + (int ?k - 1) = nread + int (length bs)" by simp
  have er: "buffer_erase (length (buf c)) 1 (buf c') = Ok (buf c @ bs)"
    unfolding c'(2) by (rule buffer_erase_last_header)
  have "payload_loop need buf setb m cs nread c
      = payload_loop need buf setb m cs (nread + int (length bs)) (setb (buf c @ bs) c')"
    unfolding payload_loop.simps [of need buf setb m cs nread c] Let_def
    by (simp only: m assms(2) if_True nb n c'(1) option.case prod.case res.case ix er ar)
  with c' show ?thesis
    by (intro exI [of _ "setb (buf c @ bs) c'"])
       (simp add: buf_setb coming_setb steady_setb frame_setb)
qed

lemma loop_tail:
  assumes "steady c" and "0 < nread" and "0 < cs" and "coming c = fmt3_tail h cs q @ rest"
    and "length (buf c) + length q + 1 < 2 ^ 64"
  shows "\<exists>c'. payload_loop need buf setb (nread + int (length q)) (int cs) nread c = Some (Ok (), c')
    \<and> buf c' = buf c @ q \<and> coming c' = rest \<and> steady c' \<and> frame c' = frame c"
  using assms
proof (induction h cs q arbitrary: c nread rule: fmt3_tail.induct)
  case (1 h cs q)
  show ?case
  proof (cases "q = []")
    case True
    with 1 show ?thesis by (simp add: loop_done)
  next
    case False
    let ?b = "take cs q" and ?r = "fmt3_tail h cs (drop cs q) @ rest"
    let ?m = "nread + int (length q)"
    have com: "coming c = h # ?b @ ?r" using 1(5) False 1(4) by (simp add: fmt3_tail_step)
    have len: "int (length ?b) = (if ?m - nread \<le> int cs then ?m - nread else int cs)" by simp
    have sz: "length (buf c) + length ?b + 1 < 2 ^ 64" using 1(6) by simp
    have ne: "?b \<noteq> []" using False 1(4) by simp
    from loop_next [OF 1(2,3) com ne len sz] obtain c' where c':
      "payload_loop need buf setb ?m (int cs) nread c
        = payload_loop need buf setb ?m (int cs) (nread + int (length ?b)) c'"
      "buf c' = buf c @ ?b" "coming c' = ?r" "steady c'" "frame c' = frame c" by blast
    have "\<not> (q = [] \<or> cs = 0)" using False 1(4) by simp
    moreover have "0 < nread + int (length ?b)" using 1(3) by simp
    moreover have "length (buf c') + length (drop cs q) + 1 < 2 ^ 64" using 1(6) c'(2) by simp
    ultimately obtain c'' where c'':
      "payload_loop need buf setb (nread + int (length ?b) + int (length (drop cs q))) (int cs)
         (nread + int (length ?b)) c' = Some (Ok (), c'')"
      "buf c'' = buf c' @ drop cs q" "coming c'' = rest" "steady c''" "frame c'' = frame c'"
      using 1(1) [OF _ c'(4) _ 1(4) c'(3)] by blast
    have m: "nread + int (length ?b) + int (length (drop cs q)) = ?m" by simp
    show ?thesis using c'(2-5) c''(2-5) c'(1) c''(1) [unfolded m]
      by (intro exI [of _ c'']) simp
  qed
qed

text \<open>The loop inverts \<open>chunked\<close>, whatever the byte in front of the later chunks is.\<close>

theorem loop_unchunks:
  assumes "steady c" and "0 < cs" and "coming c = chunked h cs p @ rest"
    and "length (buf c) + length p + 1 < 2 ^ 64"
  shows "\<exists>c'. payload_loop need buf setb (int (length p)) (int cs) 0 c = Some (Ok (), c')
    \<and> buf c' = buf c @ p \<and> coming c' = rest \<and> steady c' \<and> frame c' = frame c"
proof (cases "p = []")
  case True
  with assms show ?thesis by (simp add: loop_done chunked_def)
next
  case False
  let ?k = "length (take cs p)"
  have "0 < ?k" "?k \<le> length (coming c)"
    "int ?k = (if int (length p) \<le> int cs then int (length p) else int cs)"
    "length (buf c) + ?k < 2 ^ 64"
    using assms False by (auto simp: chunked_def)
  moreover have "take ?k (coming c) = take cs p"
    "drop ?k (coming c) = fmt3_tail h cs (drop cs p) @ rest"
    by (simp_all add: assms(3) chunked_def min_def)
  ultimately obtain c' where c':
    "payload_loop need buf setb (int (length p)) (int cs) 0 c
      = payload_loop need buf setb (int (length p)) (int cs) (int ?k) c'"
    "buf c' = buf c @ take cs p" "coming c' = fmt3_tail h cs (drop cs p) @ rest" "steady c'"
    "frame c' = frame c" using loop_first [OF assms(1)] by metis
  have "length (buf c') + length (drop cs p) + 1 < 2 ^ 64" using assms(4) c'(2) by simp
  moreover have "0 < int ?k" using False assms(2) by simp
  ultimately obtain c'' where c'':
    "payload_loop need buf setb (int ?k + int (length (drop cs p))) (int cs) (int ?k) c'
       = Some (Ok (), c'')"
    "buf c'' = buf c' @ drop cs p" "coming c'' = rest" "steady c''" "frame c'' = frame c'"
    using loop_tail [OF c'(4) _ assms(2) c'(3)] by blast
  have m: "int ?k + int (length (drop cs p)) = int (length p)" by simp
  show ?thesis using c'(2-5) c''(2-5) c'(1) c''(1) [unfolded m] by (intro exI [of _ c'']) simp
qed

end

section \<open>Writing headers\<close>

text \<open>
  The pattern \<open>char dst[n] = {0}; if (swap(src, dst) == -1) return -1; io_buffer->push_back(dst, n)\<close>.
\<close>

definition emit_swapped :: "(ptr \<Rightarrow> ptr \<Rightarrow> int \<times> ptr) \<Rightarrow> nat \<Rightarrow> bytes \<Rightarrow> (ctx, unit) act" where
  "emit_swapped swap n src c =
     (case swap (Some src) (Some (replicate n 0)) of
        (r, dst) \<Rightarrow>
          (if r = -1 then Some (Fail, c)
           else case dst of None \<Rightarrow> Some (Fault NullPointer, c)
                          | Some d \<Rightarrow> Some (Ok (), put (take n d) c)))"

definition basic_header_bytes :: "int \<Rightarrow> int \<Rightarrow> bytes" where
  "basic_header_bytes fmt csid =
     (if 2 \<le> csid \<and> csid \<le> 63 then [push_bit 6 (of_int fmt) OR of_int csid]
      else if csid \<le> 319 then [push_bit 6 (of_int fmt) AND 0xC0, of_int (csid - 64)]
      else (push_bit 6 (of_int fmt) OR 1) # mem_of (of_int (csid - 64) :: 16 word))"

definition write_header ::
  "int \<Rightarrow> int \<Rightarrow> int32 \<Rightarrow> int32 \<Rightarrow> byte \<Rightarrow> int32 \<Rightarrow> (ctx, unit) act"
where
  "write_header fmt csid ts mlen mtype sid =
     bind_act (modify_act (put (basic_header_bytes fmt csid))) (\<lambda>_.
       let mh_size = mh_size_array ! nat fmt;
           extendedstamp = (0 < mh_size \<and> sint ts > 0xffffff)
       in bind_act
            (if 0 < mh_size
             then bind_act (if sint ts > 0xffffff
                            then emit_swapped se2be_3bytes 3 (mem_of (0xffffff :: int32))
                            else emit_swapped se2be_3bytes 3 (mem_of ts)) (\<lambda>_.
                  bind_act (if 7 \<le> mh_size
                            then bind_act (emit_swapped se2be_3bytes 3 (mem_of mlen)) (\<lambda>_.
                                 modify_act (put [mtype]))
                            else return_act ()) (\<lambda>_.
                  if 7 < mh_size then modify_act (put (mem_of sid)) else return_act ()))
             else return_act ()) (\<lambda>_.
          if extendedstamp then emit_swapped se2be_4bytes 4 (mem_of ts) else return_act ()))"

text \<open>What the RTMP specification asks for: big-endian 24-bit fields, a little-endian stream id.\<close>

definition be24 :: "int32 \<Rightarrow> bytes" where
  "be24 w = rev (take 3 (mem_of w))"

definition header_bytes ::
  "int \<Rightarrow> int \<Rightarrow> int32 \<Rightarrow> int32 \<Rightarrow> byte \<Rightarrow> int32 \<Rightarrow> bytes"
where
  "header_bytes fmt csid ts mlen mtype sid =
     basic_header_bytes fmt csid
     @ (if fmt \<le> 2 then be24 (if sint ts > 0xffffff then 0xffffff else ts) else [])
     @ (if fmt \<le> 1 then be24 mlen @ [mtype] else [])
     @ (if fmt = 0 then mem_of sid else [])
     @ (if fmt \<le> 2 \<and> sint ts > 0xffffff then rev (mem_of ts) else [])"

context byte_swap
begin

lemma emit:
  assumes "width \<le> length src"
  shows "emit_swapped swap width src = modify_act (put (rev (take width src)))"
  using swap_reverses [OF assms, of "replicate width 0"] assms
  by (auto simp: emit_swapped_def modify_act_def fun_eq_iff)

end

lemma modify_put [simp]:
  "bind_act (modify_act (put a)) (\<lambda>_. modify_act (put b)) = modify_act (put (a @ b))"
  "bind_act (modify_act (put a)) (\<lambda>_. bind_act (modify_act (put b)) f)
     = bind_act (modify_act (put (a @ b))) f"
  by (auto simp: fun_eq_iff modify_act_def bind_act_def)

lemma modify_put_return [simp]:
  "bind_act (modify_act g) (\<lambda>_. return_act ()) = modify_act g"
  "bind_act (modify_act g) return_act = modify_act g"
  by (auto simp: fun_eq_iff modify_act_def bind_act_def return_act_def)

lemma fmt_cases:
  assumes "0 \<le> (fmt :: int)" and "fmt \<le> 3"
  obtains "fmt = 0" | "fmt = 1" | "fmt = 2" | "fmt = 3"
  using assms by linarith

lemma emit_int [simp]:
  "emit_swapped se2be_2bytes 2 (mem_of (v :: 16 word)) = modify_act (put (rev (mem_of v)))"
  "emit_swapped se2be_3bytes 3 (mem_of (w :: int32)) = modify_act (put (be24 w))"
  "emit_swapped se2be_4bytes 4 (mem_of (w :: int32)) = modify_act (put (rev (mem_of w)))"
  "emit_swapped se2be_8bytes 8 (mem_of (d :: 64 word)) = modify_act (put (rev (mem_of d)))"
  by (simp_all add: se2.emit se3.emit se4.emit se8.emit be24_def)

lemma mh_size_nth [simp]:
  "mh_size_array ! 0 = 11" "mh_size_array ! nat 1 = 7" "mh_size_array ! nat 2 = 3"
  "mh_size_array ! nat 3 = 0"
  by (simp_all add: mh_size_array_def numeral_2_eq_2 numeral_3_eq_3)

lemma write_header_put:
  assumes "0 \<le> fmt" and "fmt \<le> 3"
  shows "write_header fmt csid ts mlen mtype sid
    = modify_act (put (header_bytes fmt csid ts mlen mtype sid))"
  using assms
  by (cases rule: fmt_cases)
     (simp_all add: write_header_def header_bytes_def bind_act_assoc Let_def
        del: nat_numeral nat_1)

section \<open>Sending a message\<close>

definition fmt3_header :: "int \<Rightarrow> byte" where
  "fmt3_header csid = 0xC0 OR of_int csid"

text \<open>
  The loop of \<open>write_message\<close> over the buffer \<open>b\<close> with a header of \<open>hs\<close> bytes: \<open>tps\<close> is
  \<open>totol_payload_send\<close> and \<open>len\<close> the length in \<open>iov[1]\<close>.
\<close>

partial_function (option) write_loop ::
  "bytes \<Rightarrow> nat \<Rightarrow> int \<Rightarrow> nat \<Rightarrow> int \<Rightarrow> nat \<Rightarrow> ctx \<Rightarrow> (unit res \<times> ctx) option"
where
  "write_loop b hs csid cs tps len c =
     (if int hs + tps < int (length b)
      then
        (case IO_Socket_writev
                (Some [if tps = 0 then take hs b else [fmt3_header csid],
                       take len (drop (nat (int hs + tps)) b)]) c of
           None \<Rightarrow> None
         | Some (Fail, c') \<Rightarrow> Some (Fail, c')
         | Some (Fault e, c') \<Rightarrow> Some (Fault e, c')
         | Some (Ok nwrite, c') \<Rightarrow>
             (let tps' = tps + (if tps = 0 then int nwrite - int hs else int nwrite - 1);
                  left = as_size_t (int (length b) - int hs - tps')
              in write_loop b hs csid cs tps' (if left < cs then left else cs) c'))
      else Some (Ok (), c))"

definition write_message ::
  "(ctx, unit) act \<Rightarrow> int \<Rightarrow> int \<Rightarrow> int32 \<Rightarrow> int32 \<Rightarrow> byte \<Rightarrow> int32 \<Rightarrow> (ctx, unit) act"
where
  "write_message write_payload fmt csid ts mlen mtype sid =
     bind_act (write_header fmt csid ts mlen mtype sid) (\<lambda>_ c1.
       bind_act write_payload (\<lambda>_ c2.
         let header_size = buffer_size (io_buffer c1);
             message_size = buffer_size (io_buffer c2);
             cs = as_size_t (chunk_size c2)
         in write_loop (io_buffer c2) header_size csid cs 0
              (if message_size - header_size < cs then message_size - header_size else cs) c2) c1)"

text \<open>\<open>c'\<close> is \<open>c\<close> after \<open>bs\<close> went out; nothing else of the connection has changed.\<close>

definition sends :: "bytes \<Rightarrow> ctx \<Rightarrow> ctx \<Rightarrow> bool" where
  "sends bs c c' \<longleftrightarrow>
     (\<exists>s. c' = c\<lparr>net := s\<rparr> \<and> sent s = sent (net c) @ bs \<and> tx_fine s
        \<and> rx s = rx (net c) \<and> rx_closed s = rx_closed (net c))"

lemma sends_trans: "sends a c d \<Longrightarrow> sends b d e \<Longrightarrow> sends (a @ b) c e"
  by (auto simp: sends_def)

lemma sends_refl: "tx_fine (net c) \<Longrightarrow> sends [] c c"
  unfolding sends_def by (rule exI [of _ "net c"]) simp

lemma sends_fine: "sends bs c c' \<Longrightarrow> tx_fine (net c')"
  by (auto simp: sends_def)

lemma IO_Socket_writev_complete:
  assumes "tx_fine (net c)"
  shows "\<exists>c'. IO_Socket_writev (Some vs) c = Some (Ok (length (concat vs)), c')
    \<and> sends (concat vs) c c'"
proof -
  obtain s where s: "st_writev True vs (net c) = (Some (length (concat vs)), s)"
    "sent s = sent (net c) @ concat vs" "tx_fine s"
    using st_out.wv_complete [OF assms] by blast
  have "sends (concat vs) c (c\<lparr>net := s\<rparr>)"
    unfolding sends_def using s(2,3) st_writev_rx [OF s(1)] by (intro exI [of _ s]) simp
  with s(1) show ?thesis
    by (intro exI [of _ "c\<lparr>net := s\<rparr>"]) (simp add: IO_Socket_writev_def)
qed

lemma write_loop_done:
  "int (length b) \<le> int hs + tps \<Longrightarrow> write_loop b hs csid cs tps len c = Some (Ok (), c)"
  by (simp add: write_loop.simps [of b hs csid cs tps len c])

lemma write_loop_step:
  assumes "tx_fine (net c)" and "0 < k" and "hs + t + k \<le> length b" and "length b < 2 ^ 64"
    and "bs = take k (drop (hs + t) b)"
    and "left = length b - hs - (t + k)" and "hb = (if t = 0 then take hs b else [fmt3_header csid])"
  shows "\<exists>c'. write_loop b hs csid cs (int t) k c
      = write_loop b hs csid cs (int (t + k)) (if left < cs then left else cs) c'
    \<and> sends (hb @ bs) c c'"
proof -
  have bs: "length bs = k" using assms(3,5) by simp
  have hb: "length hb = (if t = 0 then hs else 1)" using assms(3,7) by simp
  obtain c' where c': "IO_Socket_writev (Some [hb, bs]) c = Some (Ok (length hb + k), c')"
    "sends (hb @ bs) c c'"
    using IO_Socket_writev_complete [OF assms(1), of "[hb, bs]"] bs by auto
  have tot: "int t + (if int t = 0 then int (length hb + k) - int hs else int (length hb + k) - 1)
    = int (t + k)" using hb by simp
  have left: "as_size_t (int (length b) - int hs - int (t + k)) = left"
    using assms(3,4,6) by (simp add: as_size_t_def)
  have go: "int hs + int t < int (length b)" using assms(2,3) by simp
  have iov: "[if int t = 0 then take hs b else [fmt3_header csid],
      take k (drop (nat (int hs + int t)) b)] = [hb, bs]"
    using assms(5,7) by (simp add: nat_int_add)
  show ?thesis using c'
    unfolding write_loop.simps [of b hs csid cs "int t" k c]
    by (simp only: go if_True iov option.case prod.case res.case Let_def tot left) blast
qed

lemma write_loop_tail:
  assumes "tx_fine (net c)" and "0 < t" and "0 < cs" and "hs + t \<le> length b" and "length b < 2 ^ 64"
    and "q = drop (hs + t) b"
  shows "\<exists>c'. write_loop b hs csid cs (int t) (min (length q) cs) c = Some (Ok (), c')
    \<and> sends (fmt3_tail (fmt3_header csid) cs q) c c'"
  using assms
proof (induction "fmt3_header csid" cs q arbitrary: c t rule: fmt3_tail.induct)
  case (1 cs q)
  show ?case
  proof (cases "q = []")
    case True
    with 1 show ?thesis using sends_refl [of c] by (simp add: write_loop_done)
  next
    case False
    let ?k = "min (length q) cs" and ?h = "fmt3_header csid"
    have k: "0 < ?k" "hs + t + ?k \<le> length b" using False 1 by auto
    have q: "take cs q = take ?k (drop (hs + t) b)" using 1(7) by (simp add: min_def)
    have hb: "[?h] = (if t = 0 then take hs b else [fmt3_header csid])" using 1(3) by simp
    obtain c' where c': "write_loop b hs csid cs (int t) ?k c
        = write_loop b hs csid cs (int (t + ?k))
            (if length b - hs - (t + ?k) < cs then length b - hs - (t + ?k) else cs) c'"
      "sends ([?h] @ take cs q) c c'"
      using write_loop_step [OF 1(2) k 1(6) q refl hb] by blast
    have d: "drop cs q = drop (hs + (t + ?k)) b"
      using 1(7) by (cases "length q \<le> cs") (auto simp: min_def ac_simps)
    have l: "(if length b - hs - (t + ?k) < cs then length b - hs - (t + ?k) else cs)
      = min (length (drop cs q)) cs" unfolding d by (simp add: min_def)
    obtain c'' where c'': "write_loop b hs csid cs (int (t + ?k)) (min (length (drop cs q)) cs) c'
        = Some (Ok (), c'')" "sends (fmt3_tail ?h cs (drop cs q)) c' c''"
      using 1(1) [of c' "t + ?k"] sends_fine [OF c'(2)] False 1(4,6) k d by auto
    show ?thesis
      using c'(1) [unfolded l] c''(1) sends_trans [OF c'(2) c''(2)] False 1(4)
      by (intro exI [of _ c'']) (simp add: fmt3_tail_step)
  qed
qed

text \<open>A message of any length goes out as its header and the chunked payload.\<close>

lemma write_loop_sends:
  assumes "tx_fine (net c)" and "0 < cs" and "p \<noteq> []" and "length (h @ p) < 2 ^ 64"
  shows "\<exists>c'. write_loop (h @ p) (length h) csid cs 0 (if length p < cs then length p else cs) c
      = Some (Ok (), c') \<and> sends (h @ chunked (fmt3_header csid) cs p) c c'"
proof -
  let ?k = "min (length p) cs" and ?hs = "length h" and ?b = "h @ p"
  have k: "0 < ?k" "?hs + 0 + ?k \<le> length ?b" using assms by auto
  have q: "take cs p = take ?k (drop (?hs + 0) ?b)" by (simp add: min_def)
  have hb: "h = (if (0::nat) = 0 then take ?hs ?b else [fmt3_header csid])" by simp
  obtain c' where c': "write_loop ?b ?hs csid cs (int 0) ?k c
      = write_loop ?b ?hs csid cs (int (0 + ?k))
          (if length ?b - ?hs - (0 + ?k) < cs then length ?b - ?hs - (0 + ?k) else cs) c'"
    "sends (h @ take cs p) c c'"
    using write_loop_step [OF assms(1) k assms(4) q refl hb] by blast
  have d: "drop cs p = drop (?hs + ?k) ?b" by (simp add: min_def)
  have l: "(if length ?b - ?hs - (0 + ?k) < cs then length ?b - ?hs - (0 + ?k) else cs)
    = min (length (drop cs p)) cs" by (simp add: min_def)
  obtain c'' where c'': "write_loop ?b ?hs csid cs (int ?k) (min (length (drop cs p)) cs) c'
      = Some (Ok (), c'')" "sends (fmt3_tail (fmt3_header csid) cs (drop cs p)) c' c''"
    using write_loop_tail [OF sends_fine [OF c'(2)] k(1) assms(2) _ assms(4) d] k(2) by auto
  have m: "(if length p < cs then length p else cs) = ?k" by (simp add: min_def)
  have "write_loop ?b ?hs csid cs 0 (if length p < cs then length p else cs) c = Some (Ok (), c'')"
    using c'(1) c''(1) unfolding l m by simp
  then show ?thesis using sends_trans [OF c'(2) c''(2)]
    by (intro exI [of _ c'']) (simp add: chunked_def)
qed

text \<open>
  The contract of a \<open>write_payload\<close>: it appends \<open>payload\<close> to the buffer and succeeds. Every message
  class that sends a fixed layout satisfies it.
\<close>

locale payload_writer =
  fixes wp :: "(ctx, unit) act" and payload :: bytes
  assumes writes: "wp = modify_act (put payload)"
begin

lemma write_message_sends:
  assumes "tx_fine (net c)" and "0 < chunk_size c" and "chunk_size c < 2 ^ 31"
    and "0 \<le> fmt" and "fmt \<le> 3" and "payload \<noteq> []"
    and "length (io_buffer c @ header_bytes fmt csid ts mlen mtype sid @ payload) < 2 ^ 64"
  shows "\<exists>c'. write_message wp fmt csid ts mlen mtype sid c = Some (Ok (), c')
    \<and> sends (io_buffer c @ header_bytes fmt csid ts mlen mtype sid
         @ chunked (fmt3_header csid) (nat (chunk_size c)) payload)
       (put (header_bytes fmt csid ts mlen mtype sid @ payload) c) c'"
proof -
  let ?h = "header_bytes fmt csid ts mlen mtype sid" and ?cs = "nat (chunk_size c)"
  let ?d = "put (?h @ payload) c"
  have cs: "as_size_t (chunk_size c) = ?cs" using assms(2,3) by (simp add: as_size_t_def)
  have "tx_fine (net ?d)" "0 < ?cs" "length ((io_buffer c @ ?h) @ payload) < 2 ^ 64"
    using assms by simp_all
  from write_loop_sends [OF this(1,2) assms(6) this(3), of csid] obtain c' where
    "write_loop ((io_buffer c @ ?h) @ payload) (length (io_buffer c @ ?h)) csid ?cs 0
      (if length payload < ?cs then length payload else ?cs) ?d = Some (Ok (), c')"
    "sends ((io_buffer c @ ?h) @ chunked (fmt3_header csid) ?cs payload) ?d c'" by blast
  moreover have "write_message wp fmt csid ts mlen mtype sid c
      = write_loop ((io_buffer c @ ?h) @ payload) (length (io_buffer c @ ?h)) csid ?cs 0
      (if length payload < ?cs then length payload else ?cs) ?d"
    using assms(4,5) cs
    by (simp add: write_message_def write_header_put writes buffer_size_def Let_def)
  ultimately show ?thesis by auto
qed

end

section \<open>Receiving a message\<close>

definition recv_message ::
  "(int \<Rightarrow> nat \<Rightarrow> nat \<Rightarrow> int \<Rightarrow> int \<Rightarrow> (ctx, unit) act) \<Rightarrow> (ctx, unit) act"
where
  "recv_message read_payload =
     bind_act read_basic_header (\<lambda>(fmt, csid, bh_size).
     bind_act (read_message_header fmt csid bh_size) (\<lambda>(mh_size, _) c.
       read_payload csid bh_size mh_size (sint (message_length (csid_at csid c))) (chunk_size c)
         (csid_touch csid c)))"

text \<open>The defaults of \<open>IO_Message\<close>.\<close>

definition IO_Message_read_payload :: "int \<Rightarrow> nat \<Rightarrow> nat \<Rightarrow> int \<Rightarrow> int \<Rightarrow> (ctx, unit) act" where
  "IO_Message_read_payload csid bh_size mh_size mlen cs = return_act ()"

definition IO_Message_write_payload :: "(ctx, unit) act" where
  "IO_Message_write_payload = return_act ()"

definition get_command :: "ctx \<Rightarrow> bytes" where
  "get_command c = command_name (cur c)"

definition copy :: "bytes \<Rightarrow> 64 word \<Rightarrow> (ctx, unit) act" where
  "copy command_name1 transaction_id1 =
     modify_act (\<lambda>c. c\<lparr>cur := (cur c)\<lparr>command_name := command_name1,
                                     transaction_id := transaction_id1\<rparr>\<rparr>)"

text \<open>
  \<open>common_print\<close> only logs, but it takes every value that is not a \<open>Value_Num\<close> for a
  \<open>Value_String\<close>.
\<close>

fun printable :: "Value_Object \<Rightarrow> bool" where
  "printable (Value_Num d) = True"
| "printable (Value_String s) = True"
| "printable _ = False"

definition common_print :: "(ctx, unit) act" where
  "common_print c =
     (if list_all (\<lambda>(k, v). printable v) (object (cur c)) then Some (Ok (), c)
      else Some (Fault BadCast, c))"

definition recv_audio_video_payload :: "int \<Rightarrow> (ctx, unit) act" where
  "recv_audio_video_payload csid c =
     payload_loop read_nbytes_cycle_av audio_video_buffer set_av_buffer
       (sint (message_length (csid_at csid c))) (chunk_size c) 0 (csid_touch csid c)"

definition recv_audio_video :: "(ctx, unit) act" where
  "recv_audio_video =
     bind_act read_audio_video_basic_header (\<lambda>fmt c1.
       bind_act (read_audio_video_message_header fmt (curr_csid c1) (av_bh_size c1)) (\<lambda>_ c2.
         recv_audio_video_payload (curr_csid c2) (csid_touch (curr_csid c2) c2)) c1)"

section \<open>Header round trip\<close>

lemma basic_header_bits:
  assumes "k < 64" and "f < 4"
  shows "(push_bit 6 (of_nat f) OR of_nat k) AND (0x3F :: byte) = of_nat k"
    and "signed_drop_bit 6 (push_bit 6 (of_nat f) OR of_nat k) AND (3 :: byte) = of_nat f"
proof -
  have hi: "i < n" if "bit (m :: nat) i" "m < 2 ^ n" for m i n
  proof (rule ccontr)
    assume "\<not> i < n"
    then have "(2 :: nat) ^ n \<le> 2 ^ i" by (intro power_increasing) auto
    with that(2) have "m < 2 ^ i" by (rule less_le_trans)
    with that(1) show False by (simp add: bit_iff_odd)
  qed
  have k: "bit k i \<Longrightarrow> i < 6" and f: "bit f i \<Longrightarrow> i < 2" for i
    using hi [of k i 6] hi [of f i 2] assms by simp_all
  have m: "(0x3F :: byte) = mask 6" "(3 :: byte) = mask 2"
    by (simp_all add: mask_eq_exp_minus_1)
  show "(push_bit 6 (of_nat f) OR of_nat k) AND (0x3F :: byte) = of_nat k"
    unfolding m by (rule bit_eqI) (auto simp: bit_simps not_less dest: k)
  show "signed_drop_bit 6 (push_bit 6 (of_nat f) OR of_nat k) AND (3 :: byte) = of_nat f"
    unfolding m by (rule bit_eqI) (auto simp: bit_simps not_less dest: k f)
qed

lemma basic_header_one:
  assumes "2 \<le> csid" and "csid \<le> 63" and "0 \<le> fmt" and "fmt \<le> 3"
  obtains b where "basic_header_bytes fmt csid = [b]" and "uint (b AND 0x3F) = csid"
    and "uint (signed_drop_bit 6 b AND 3) = fmt"
proof
  let ?b = "push_bit 6 (of_nat (nat fmt)) OR of_nat (nat csid) :: byte"
  show "basic_header_bytes fmt csid = [?b]" using assms by (simp add: basic_header_bytes_def)
  have "nat csid < 64" "nat fmt < 4" using assms by auto
  note b = basic_header_bits [OF this]
  have u: "uint (of_nat k :: byte) = int k" if "k < 64" for k
    using that by (simp add: unsigned_of_nat take_bit_eq_mod)
  show "uint (?b AND 0x3F) = csid" unfolding b using assms by (subst u) auto
  show "uint (signed_drop_bit 6 ?b AND 3) = fmt" unfolding b using assms by (subst u) auto
qed

lemma mem_of_int32:
  "mem_of (w :: int32) = [of_nat (unat w), of_nat (unat w div 256), of_nat (unat w div 65536),
     of_nat (unat w div 16777216)]"
  by (simp add: mem_of_def nat_le_numeral flip: div_mult2_eq)

lemma mem_of_24:
  assumes "unat (w :: int32) < 2 ^ 24"
  shows "take 3 (mem_of w) @ [0] = mem_of w"
  using assms by (simp add: mem_of_int32)

lemma int24_at_be24:
  assumes "unat w < 2 ^ 24"
  shows "int24_at (a @ be24 w @ z) (length a) = w"
proof -
  obtain x y v u where w: "mem_of w = [x, y, v, u]" by (simp add: mem_of_int32)
  then have "[x, y, v, 0] = mem_of w" using mem_of_24 [OF assms] by simp
  with w show ?thesis
    using of_mem_mem_of [of w] by (simp add: int24_at_def be24_def nth_append)
qed

lemma le32_at_mem_of: "le32_at (a @ mem_of w @ z) (length a) = w"
proof -
  obtain x y v u where w: "mem_of w = [x, y, v, u]" by (simp add: mem_of_int32)
  then show ?thesis using of_mem_mem_of [of w] by (simp add: le32_at_def nth_append)
qed

lemma length_be24 [simp]: "length (be24 w) = 3"
  by (simp add: be24_def)

lemma read_basic_header_one:
  assumes "rx_fine (net c)" and "io_buffer c = []"
    and "pending (net c) = basic_header_bytes fmt csid @ rest"
    and "2 \<le> csid" and "csid \<le> 63" and "0 \<le> fmt" and "fmt \<le> 3"
  shows "\<exists>c'. read_basic_header c = Some (Ok (fmt, csid, 1), c')
    \<and> io_buffer c' = basic_header_bytes fmt csid \<and> pending (net c') = rest \<and> rx_fine (net c')
    \<and> frame_io c' = frame_io c"
proof -
  obtain b where b: "basic_header_bytes fmt csid = [b]" "uint (b AND 0x3F) = csid"
    "uint (signed_drop_bit 6 b AND 3) = fmt"
    using basic_header_one assms(4-7) by metis
  obtain c' where c': "read_nbytes_cycle 1 0 c = Some (Ok 1, c')" "io_buffer c' = [b]"
    "pending (net c') = rest" "rx_fine (net c')" "frame_io c' = frame_io c"
    using io.need_enough [OF assms(1), of 1 0] assms(2,3) b(1) by auto
  have "peek_act io_buffer 0 c' = Some (Ok b, c')" by (simp add: peek_act_def lift_res_def c'(2))
  then have "read_basic_header c = Some (Ok (fmt, csid, 1), c')"
    using b(2,3) assms(4)
    by (simp add: read_basic_header_def bind_act_def c'(1) Let_def return_act_def
        del: One_nat_def)
  with c' b(1) show ?thesis by (intro exI [of _ c']) simp
qed

lemma read_message_header_0:
  assumes "rx_fine (net c)" and "io_buffer c = [b]"
    and "pending (net c) = be24 ts @ be24 mlen @ mtype # mem_of sid @ rest"
    and "unat ts < 2 ^ 24" and "unat mlen < 2 ^ 24"
  shows "\<exists>d. read_message_header 0 csid 1 c
      = Some (Ok (11, ts, mtype, sid), csid_update csid (\<lambda>h. h\<lparr>message_length := mlen\<rparr>) d)
    \<and> io_buffer d = b # be24 ts @ be24 mlen @ mtype # mem_of sid \<and> pending (net d) = rest
    \<and> rx_fine (net d) \<and> frame_io d = frame_io c"
proof -
  let ?h = "be24 ts @ be24 mlen @ mtype # mem_of sid"
  obtain d where d: "read_nbytes_cycle 12 0 c = Some (Ok 11, d)" "io_buffer d = b # ?h"
    "pending (net d) = rest" "rx_fine (net d)" "frame_io d = frame_io c"
    using io.need_enough [OF assms(1), of 12 0] assms(2,3) by auto
  have f: "int24_at (io_buffer d) 1 = ts" "int24_at (io_buffer d) 4 = mlen"
    "io_buffer d ! 7 = mtype" "le32_at (io_buffer d) 8 = sid"
    using int24_at_be24 [OF assms(4), of "[b]"] int24_at_be24 [OF assms(5), of "b # be24 ts"]
      le32_at_mem_of [of "b # be24 ts @ be24 mlen @ [mtype]" sid "[]"]
    by (simp_all add: d(2) nth_append)
  have "read_message_header 0 csid 1 c
      = Some (Ok (11, ts, mtype, sid), csid_update csid (\<lambda>h. h\<lparr>message_length := mlen\<rparr>) d)"
    unfolding read_message_header_def Let_def
    by (simp add: bind_act_def d(1) f del: One_nat_def)
  with d show ?thesis by blast
qed

lemma sint_small:
  assumes "unat (w :: int32) < 2 ^ 24"
  shows "sint w = int (unat w)"
proof -
  have "int (unat w) < int (2 ^ 24)" using assms by (simp only: of_nat_less_iff)
  then have "uint w < 2 ^ 31" by simp
  moreover have "- (2 ^ 31) \<le> uint w" by (rule order_trans [of _ 0]) simp_all
  ultimately show ?thesis by (simp add: sint_uint signed_take_bit_int_eq_self)
qed

text \<open>
  A peer that receives what \<open>write_header\<close> produced (format 0, one-byte basic header, no extended
  timestamp) hands the right length and chunk stream to \<open>read_payload\<close>.
\<close>

lemma recv_message_header:
  assumes "rx_fine (net c)" and "io_buffer c = []"
    and "pending (net c) = header_bytes 0 csid ts mlen mtype sid @ rest"
    and "2 \<le> csid" and "csid \<le> 63" and "unat ts < 2 ^ 24" and "unat mlen < 2 ^ 24"
  shows "\<exists>d. recv_message rp c = rp csid 1 11 (int (unat mlen)) (chunk_size c)
        (csid_update csid (\<lambda>h. h\<lparr>message_length := mlen\<rparr>) d)
    \<and> io_buffer d = header_bytes 0 csid ts mlen mtype sid \<and> pending (net d) = rest
    \<and> rx_fine (net d) \<and> frame_io d = frame_io c"
proof -
  have "int (unat ts) < int (2 ^ 24)" using assms(6) by (simp only: of_nat_less_iff)
  then have ts: "\<not> 0xffffff < sint ts" unfolding sint_small [OF assms(6)] by simp
  let ?r = "be24 ts @ be24 mlen @ mtype # mem_of sid @ rest"
  have p: "pending (net c) = basic_header_bytes 0 csid @ ?r"
    using assms(3) ts by (simp add: header_bytes_def)
  obtain b where b: "basic_header_bytes 0 csid = [b]" 
    by (rule basic_header_one [OF assms(4,5), of 0]) auto
  obtain c1 where c1: "read_basic_header c = Some (Ok (0, csid, 1), c1)" "io_buffer c1 = [b]"
    "pending (net c1) = ?r" "rx_fine (net c1)" "frame_io c1 = frame_io c"
    using read_basic_header_one [OF assms(1,2) p assms(4,5)] b by auto
  obtain d where d: "read_message_header 0 csid 1 c1
      = Some (Ok (11, ts, mtype, sid), csid_update csid (\<lambda>h. h\<lparr>message_length := mlen\<rparr>) d)"
    "io_buffer d = b # be24 ts @ be24 mlen @ mtype # mem_of sid" "pending (net d) = rest"
    "rx_fine (net d)" "frame_io d = frame_io c1"
    using read_message_header_0 [OF c1(4,2,3) assms(6,7)] by blast
  have cs: "chunk_size d = chunk_size c" "frame_io d = frame_io c"
    using d(5) c1(5) by (simp_all add: frame_io_iff)
  have "recv_message rp c = rp csid 1 11 (int (unat mlen)) (chunk_size c)
        (csid_update csid (\<lambda>h. h\<lparr>message_length := mlen\<rparr>) d)"
    using sint_small [OF assms(7)]
    by (simp add: recv_message_def bind_act_def c1(1) d(1) cs(1) del: One_nat_def)
  moreover have "io_buffer d = header_bytes 0 csid ts mlen mtype sid"
    using d(2) b ts by (simp add: header_bytes_def)
  ultimately show ?thesis using d(3,4) cs(2) by blast
qed

end
