(* ===== verification/Amf.thy ===== *)
theory Amf
  imports Chunk
begin

text \<open>
  AMF0 objects in \<^verbatim>\<open>io_message.cpp\<close>: \<open>write_object\<close>, \<open>get_payload_size\<close> and \<open>read_object\<close>. The
  abstract encoding is \<open>amf_objects\<close>; the writer appends it, the size routine measures it and the
  reader inverts it.
\<close>

section \<open>Writing objects\<close>

text \<open>
  \<open>int16_t len = s.size()\<close>, its two bytes, then \<open>push_back(s.c_str(), (size_t)len)\<close>: a length of
  32768 or more is negative here and the append throws.
\<close>

definition emit_string :: "bytes \<Rightarrow> (ctx, unit) act" where
  "emit_string s =
     (let len = of_nat (length s) :: 16 word
      in bind_act (emit_swapped se2be_2bytes 2 (mem_of len)) (\<lambda>_.
         if sint len < 0 then lift_res (Fault LengthError)
         else modify_act (put (take (nat (sint len)) s))))"

fun write_value :: "Value_Object \<Rightarrow> (ctx, unit) act" where
  "write_value (Value_String s) = bind_act (modify_act (put [0x02])) (\<lambda>_. emit_string s)"
| "write_value (Value_Num d) =
     bind_act (modify_act (put [0x00])) (\<lambda>_. emit_swapped se2be_8bytes 8 (mem_of d))"
| "write_value (Value_Len l) =
     bind_act (modify_act (put [0x08])) (\<lambda>_. emit_swapped se2be_4bytes 4 (mem_of l))"
| "write_value (Value_0x01 b) = fail_act"

definition write_end :: "(ctx, unit) act" where
  "write_end =
     bind_act (emit_swapped se2be_2bytes 2 (mem_of (0 :: 16 word))) (\<lambda>_. modify_act (put [0x09]))"

definition write_members :: "amf_object \<Rightarrow> (ctx, unit) act" where
  "write_members =
     for_each_act (\<lambda>(key, v). bind_act (emit_string key) (\<lambda>_. write_value v))"

definition write_one :: "amf_object \<Rightarrow> (ctx, unit) act" where
  "write_one kvs =
     bind_act (modify_act (put [0x03])) (\<lambda>_. bind_act (write_members kvs) (\<lambda>_. write_end))"

definition write_object :: "amf_object list \<Rightarrow> (ctx, unit) act" where
  "write_object vec =
     (if length vec = 0 then modify_act (put [0x05])
      else bind_act (for_each_act write_one vec) (\<lambda>_.
           if 1 < length vec then write_end else return_act ()))"

section \<open>The size of a payload\<close>

text \<open>The sizes are far below 2 to the 31st, so the source's \<open>int\<close> is an unbounded one here.\<close>

fun value_size :: "Value_Object \<Rightarrow> int option" where
  "value_size (Value_String s) = Some (2 + int (length s))"
| "value_size (Value_Num d) = Some 8"
| "value_size (Value_Len l) = Some 4"
| "value_size (Value_0x01 b) = None"

fun members_size :: "amf_object \<Rightarrow> int \<Rightarrow> int option" where
  "members_size [] n = Some n"
| "members_size ((key, v) # kvs) n =
     (case value_size v of
        None \<Rightarrow> None
      | Some k \<Rightarrow> members_size kvs (n + 2 + int (length key) + 1 + k))"

fun objects_size :: "amf_object list \<Rightarrow> int \<Rightarrow> int option" where
  "objects_size [] n = Some n"
| "objects_size (kvs # vec) n =
     (case members_size kvs (n + 1) of None \<Rightarrow> None | Some m \<Rightarrow> objects_size vec (m + 3))"

definition get_payload_size :: "bytes \<Rightarrow> amf_object list \<Rightarrow> int" where
  "get_payload_size command vec =
     (case objects_size vec (3 + int (length command) + 9) of
        None \<Rightarrow> -1
      | Some n \<Rightarrow> (if 1 < length vec then n + 3 else n))"

section \<open>Reading objects\<close>

text \<open>
  \<open>p + n > end || swap(p, dst) == -1\<close>: a bounds check and a byte-order routine; \<open>Ok\<close> of the bytes
  in \<open>dst\<close>.
\<close>

definition fetch :: "(ptr \<Rightarrow> ptr \<Rightarrow> int \<times> ptr) \<Rightarrow> nat \<Rightarrow> bytes \<Rightarrow> nat \<Rightarrow> bytes res" where
  "fetch swap n b p =
     (if length b < p + n then Fail
      else case swap (Some (take n (drop p b))) (Some (replicate n 0)) of
             (r, dst) \<Rightarrow> (if r = -1 then Fail
                          else case dst of None \<Rightarrow> Fault NullPointer | Some d \<Rightarrow> Ok d))"

text \<open>\<open>p < end && *p == m\<close>\<close>

definition marker_at :: "bytes \<Rightarrow> nat \<Rightarrow> byte \<Rightarrow> bool" where
  "marker_at b p m \<longleftrightarrow> p < length b \<and> b ! p = m"

context byte_swap
begin

lemma fetch_eq:
  "fetch swap width b p = (if length b < p + width then Fail else Ok (rev (take width (drop p b))))"
  using swap_reverses [of "take width (drop p b)" "replicate width 0"]
  by (auto simp: fetch_def not_less)

end

text \<open>The value behind a key, at \<open>q\<close>: the value and the position after it.\<close>

definition read_value :: "bytes \<Rightarrow> nat \<Rightarrow> (Value_Object \<times> nat) res" where
  "read_value b q =
     (if marker_at b q 0x00
      then bind_res (fetch be2se_8bytes 8 b (q + 1)) (\<lambda>d. Ok (Value_Num (of_mem d), q + 9))
      else if marker_at b q 0x02
      then bind_res (fetch be2se_2bytes 2 b (q + 1)) (\<lambda>d.
             let len_str = unat (of_mem d :: 16 word)
             in if len_str \<le> 0 then Fail
                else if length b < q + 3 + len_str then Fail
                else Ok (Value_String (take len_str (drop (q + 3) b)), q + 3 + len_str))
      else if marker_at b q 0x01
      then bind_res (peek b (q + 1)) (\<lambda>v. Ok (Value_0x01 v, q + 2))
      else Fail)"

lemma read_value_pos: "read_value b q = Ok (v, q') \<Longrightarrow> q < length b \<and> q < q'"
  by (auto simp: read_value_def marker_at_def bind_res_eq_Ok Let_def split: if_splits)

function read_object_loop :: "bytes \<Rightarrow> nat \<Rightarrow> amf_object \<Rightarrow> unit res \<times> amf_object" where
  "read_object_loop b p obj =
     (if p < length b
      then
        (case fetch be2se_2bytes 2 b p of
           Fail \<Rightarrow> (Fail, obj)
         | Fault e \<Rightarrow> (Fault e, obj)
         | Ok l \<Rightarrow>
             (let len = sint (of_mem l :: 16 word)
              in if len = 0
                 then
                   (if marker_at b (p + 2) 0x09
                    then
                      (if length b \<le> p + 3 then (Ok (), obj)
                       else case fetch be2se_2bytes 2 b (p + 3) of
                              Fail \<Rightarrow> (Fail, obj)
                            | Fault e \<Rightarrow> (Fault e, obj)
                            | Ok f \<Rightarrow>
                                (if (of_mem f :: 16 word) = 0 then (Ok (), obj)
                                 else if marker_at b (p + 5) 0x03
                                 then read_object_loop b (p + 6) obj
                                 else (Fail, obj)))
                    else (Fail, obj))
                 else if int (length b) < int (p + 2) + len then (Fail, obj)
                 else if len < 0 then (Fault LengthError, obj)
                 else
                   (let key = take (nat len) (drop (p + 2) b)
                    in case read_value b (p + 2 + nat len) of
                         Fail \<Rightarrow> (Fail, obj)
                       | Fault e \<Rightarrow> (Fault e, obj)
                       | Ok (v, q) \<Rightarrow> read_object_loop b q (object_insert key v obj))))
      else (Fail, obj))"
  by pat_completeness auto
termination
  by (relation "measure (\<lambda>(b, p, obj). length b - p)")
     (auto simp: marker_at_def dest!: read_value_pos)

declare read_object_loop.simps [simp del]

definition read_object :: "nat \<Rightarrow> (ctx, unit) act" where
  "read_object p c =
     (case read_object_loop (io_buffer c) p (object (cur c)) of
        (r, obj) \<Rightarrow> Some (r, c\<lparr>cur := (cur c)\<lparr>object := obj\<rparr>\<rparr>))"

lemmas amf_exec [exec_simps] = emit_string_def write_end_def write_members_def write_one_def
  write_object_def get_payload_size_def fetch_def marker_at_def read_object_loop.simps
  read_object_def read_value_def swap_defs

section \<open>The encoding\<close>

definition amf_string :: "bytes \<Rightarrow> bytes" where
  "amf_string s = rev (mem_of (of_nat (length s) :: 16 word)) @ s"

fun amf_value :: "Value_Object \<Rightarrow> bytes" where
  "amf_value (Value_String s) = 0x02 # amf_string s"
| "amf_value (Value_Num d) = 0x00 # rev (mem_of d)"
| "amf_value (Value_Len l) = 0x08 # rev (mem_of l)"
| "amf_value (Value_0x01 b) = [0x01, b]"

definition amf_members :: "amf_object \<Rightarrow> bytes" where
  "amf_members kvs = concat (map (\<lambda>(key, v). amf_string key @ amf_value v) kvs)"

definition amf_end :: bytes where "amf_end = [0, 0, 0x09]"

definition amf_one :: "amf_object \<Rightarrow> bytes" where
  "amf_one kvs = 0x03 # amf_members kvs @ amf_end"

definition amf_objects :: "amf_object list \<Rightarrow> bytes" where
  "amf_objects vec =
     (if vec = [] then [0x05]
      else concat (map amf_one vec) @ (if 1 < length vec then amf_end else []))"

text \<open>What \<open>write_object\<close> accepts: no boolean values, no string of 32768 bytes or more.\<close>

fun writable_value :: "Value_Object \<Rightarrow> bool" where
  "writable_value (Value_String s) = (length s < 2 ^ 15)"
| "writable_value (Value_0x01 b) = False"
| "writable_value _ = True"

definition writable :: "amf_object \<Rightarrow> bool" where
  "writable kvs \<longleftrightarrow> list_all (\<lambda>(key, v). length key < 2 ^ 15 \<and> writable_value v) kvs"

section \<open>Writing is the encoding\<close>

lemma int16_of_length:
  assumes "n < 2 ^ 15"
  shows "sint (of_nat n :: 16 word) = int n" and "unat (of_nat n :: 16 word) = n"
proof -
  have u: "uint (of_nat n :: 16 word) = int n"
    using assms by (simp add: unsigned_of_nat take_bit_eq_mod)
  have "- (2 ^ 15) \<le> int n" by (rule order_trans [of _ 0]) simp_all
  then show "sint (of_nat n :: 16 word) = int n"
    using assms by (simp add: sint_uint u signed_take_bit_int_eq_self)
  show "unat (of_nat n :: 16 word) = n"
    using assms by (simp add: unsigned_of_nat take_bit_eq_mod)
qed

lemma emit_string_put: "length s < 2 ^ 15 \<Longrightarrow> emit_string s = modify_act (put (amf_string s))"
  by (simp add: emit_string_def amf_string_def Let_def int16_of_length(1))

lemma emit_string_long:
  assumes "2 ^ 15 \<le> length s" and "length s < 2 ^ 16"
  shows "\<exists>c'. emit_string s c = Some (Fault LengthError, c')"
proof -
  have "uint (of_nat (length s) :: 16 word) = int (length s)"
    using assms(2) by (simp add: unsigned_of_nat take_bit_eq_mod)
  moreover have "int (length s) - 2 ^ 16 < 0" using assms(2) by simp
  moreover have "signed_take_bit 15 (int (length s)) = int (length s) - 2 ^ 16"
  proof -
    have "(int (length s) + 2 ^ 15) mod 2 ^ 16 = (int (length s) - 2 ^ 15 + 2 ^ 16) mod 2 ^ 16"
      by (simp add: add.commute)
    also have "\<dots> = int (length s) - 2 ^ 15"
      unfolding mod_add_self2 using assms by (simp add: mod_pos_pos_trivial)
    finally show ?thesis by (simp add: signed_take_bit_eq_take_bit_shift take_bit_eq_mod)
  qed
  ultimately have "sint (of_nat (length s) :: 16 word) < 0" by (simp add: sint_uint)
  then show ?thesis
    by (simp add: emit_string_def Let_def bind_act_def modify_act_def lift_res_def)
qed

lemma write_value_put: "writable_value v \<Longrightarrow> write_value v = modify_act (put (amf_value v))"
  by (cases v) (simp_all add: emit_string_put)

lemma for_each_put:
  assumes "\<And>x. x \<in> set xs \<Longrightarrow> f x = modify_act (put (g x))"
  shows "for_each_act f xs = modify_act (put (concat (map g xs)))"
  using assms
proof (induction xs)
  case Nil
  then show ?case by (simp add: fun_eq_iff return_act_def modify_act_def)
qed simp

lemma write_members_put:
  assumes "writable kvs"
  shows "write_members kvs = modify_act (put (amf_members kvs))"
proof -
  have "bind_act (emit_string key) (\<lambda>_. write_value v)
      = modify_act (put (amf_string key @ amf_value v))" if "(key, v) \<in> set kvs" for key v
    using assms that by (auto simp: writable_def list_all_iff emit_string_put write_value_put)
  then show ?thesis
    unfolding write_members_def amf_members_def by (intro for_each_put) auto
qed

lemma write_end_put: "write_end = modify_act (put amf_end)"
  unfolding write_end_def emit_int modify_put
  by (simp add: amf_end_def mem_of_def nat_le_numeral)

lemma write_one_put: "writable kvs \<Longrightarrow> write_one kvs = modify_act (put (amf_one kvs))"
  by (simp add: write_one_def amf_one_def write_members_put write_end_put)

lemma write_object_put:
  assumes "list_all writable vec"
  shows "write_object vec = modify_act (put (amf_objects vec))"
  using assms for_each_put [of vec write_one amf_one]
  by (auto simp: write_object_def amf_objects_def list_all_iff write_one_put write_end_put)

section \<open>The size routine measures the encoding\<close>

lemma length_amf_string [simp]: "length (amf_string s) = 2 + length s"
  by (simp add: amf_string_def)

lemma value_size_eq:
  "writable_value v \<Longrightarrow> value_size v = Some (int (length (amf_value v)) - 1)"
  by (cases v) simp_all

lemma members_size_eq: "writable kvs \<Longrightarrow> members_size kvs n = Some (n + int (length (amf_members kvs)))"
  by (induction kvs n rule: members_size.induct)
     (auto simp: writable_def amf_members_def value_size_eq)

lemma objects_size_eq:
  "list_all writable vec \<Longrightarrow>
     objects_size vec n = Some (n + int (length (concat (map amf_one vec))))"
proof (induction vec n rule: objects_size.induct)
  case (2 kvs vec n)
  then show ?case
    by (simp add: members_size_eq amf_one_def amf_end_def del: length_concat)
qed simp

lemma get_payload_size_eq:
  assumes "list_all writable vec" and "vec \<noteq> []"
  shows "get_payload_size command vec = int (12 + length command + length (amf_objects vec))"
  using assms
  by (simp add: get_payload_size_def objects_size_eq amf_objects_def amf_end_def del: length_concat)

section \<open>Reading inverts the encoding\<close>

text \<open>What \<open>read_object\<close> understands: it knows no marker 8 and refuses empty strings.\<close>

fun readable_value :: "Value_Object \<Rightarrow> bool" where
  "readable_value (Value_String s) = (s \<noteq> [] \<and> length s < 2 ^ 16)"
| "readable_value (Value_Len l) = False"
| "readable_value _ = True"

definition readable :: "amf_object \<Rightarrow> bool" where
  "readable kvs \<longleftrightarrow>
     list_all (\<lambda>(key, v). key \<noteq> [] \<and> length key < 2 ^ 15 \<and> readable_value v) kvs"

lemma marker_at_append: "p = length a \<Longrightarrow> marker_at (a @ x # z) p m \<longleftrightarrow> x = m"
  by (simp add: marker_at_def)

lemma fetch_append:
  "p = length a \<Longrightarrow> fetch be2se_2bytes 2 (a @ rev (mem_of (w :: 16 word)) @ z) p = Ok (mem_of w)"
  "p = length a \<Longrightarrow> fetch be2se_8bytes 8 (a @ rev (mem_of (d :: 64 word)) @ z) p = Ok (mem_of d)"
  by (simp_all add: be2.fetch_eq be8.fetch_eq)

lemma unat16: "n < 2 ^ 16 \<Longrightarrow> unat (of_nat n :: 16 word) = n"
  by (simp add: unsigned_of_nat take_bit_eq_mod)

lemmas of_mem_words [simp] =
  of_mem_mem_of [where ?'a = 16, simplified] of_mem_mem_of [where ?'a = 64, simplified]
  of_mem_mem_of [where ?'a = 32, simplified]

lemma read_value_amf:
  assumes "readable_value v"
  shows "read_value (a @ amf_value v @ z) (length a) = Ok (v, length a + length (amf_value v))"
proof (cases v)
  case (Value_String s)
  let ?n = "of_nat (length s) :: 16 word"
  have n: "unat ?n = length s" "s \<noteq> []" using assms Value_String by (auto intro: unat16)
  have b: "a @ amf_value v @ z = (a @ [0x02]) @ rev (mem_of ?n) @ s @ z"
    by (simp add: Value_String amf_string_def)
  have f: "fetch be2se_2bytes 2 ((a @ [0x02]) @ rev (mem_of ?n) @ s @ z) (length a + 1)
    = Ok (mem_of ?n)" by (rule fetch_append) simp
  show ?thesis
    unfolding b read_value_def f using n by (simp add: marker_at_def Value_String Let_def)
next
  case (Value_Num d)
  have f: "fetch be2se_8bytes 8 ((a @ [0x00]) @ rev (mem_of d) @ z) (length a + 1) = Ok (mem_of d)"
    by (rule fetch_append) simp
  have b: "a @ amf_value v @ z = (a @ [0x00]) @ rev (mem_of d) @ z" by (simp add: Value_Num)
  show ?thesis unfolding b read_value_def f by (simp add: marker_at_def Value_Num)
next
  case (Value_0x01 y)
  then show ?thesis by (simp add: read_value_def marker_at_def nth_append)
qed (use assms in simp)

lemma read_member:
  assumes "key \<noteq> []" and "length key < 2 ^ 15" and "readable_value v"
    and "b = a @ (amf_string key @ amf_value v) @ z"
  shows "read_object_loop b (length a) obj
    = read_object_loop b (length a + length (amf_string key @ amf_value v)) (object_insert key v obj)"
proof -
  let ?w = "of_nat (length key) :: 16 word" and ?p = "length a"
  have f: "fetch be2se_2bytes 2 b ?p = Ok (mem_of ?w)"
    using fetch_append(1) [of ?p a ?w] by (simp add: assms(4) amf_string_def)
  have len: "sint (of_mem (mem_of ?w) :: 16 word) = int (length key)" "int (length key) \<noteq> 0"
    using int16_of_length(1) [OF assms(2)] assms(1) by simp_all
  have k: "take (length key) (drop (?p + 2) b) = key" by (simp add: assms(4) amf_string_def)
  have lt: "?p < length b" "\<not> int (length b) < int (?p + 2) + int (length key)"
    "\<not> int (length key) < 0"
    by (simp_all add: assms(4) amf_string_def)
  have v: "read_value b (?p + 2 + length key)
    = Ok (v, ?p + length (amf_string key @ amf_value v))"
    using read_value_amf [OF assms(3), of "a @ amf_string key" z] by (simp add: assms(4) ac_simps)
  show ?thesis
    unfolding read_object_loop.simps [of b ?p obj]
    by (simp only: f lt len res.case prod.case Let_def if_True if_False k nat_int v)
qed

lemma read_members:
  assumes "readable kvs" and "b = a @ amf_members kvs @ z"
  shows "read_object_loop b (length a) obj
    = read_object_loop b (length (a @ amf_members kvs))
        (foldl (\<lambda>o' (key, v). object_insert key v o') obj kvs)"
  using assms
proof (induction kvs arbitrary: a obj)
  case Nil
  then show ?case by (simp add: amf_members_def)
next
  case (Cons kv kvs)
  obtain key v where kv: "kv = (key, v)" by (cases kv)
  let ?m = "amf_string key @ amf_value v"
  have r: "key \<noteq> []" "length key < 2 ^ 15" "readable_value v" "readable kvs"
    using Cons(2) by (auto simp: readable_def kv)
  have b: "b = a @ ?m @ amf_members kvs @ z" "b = (a @ ?m) @ amf_members kvs @ z"
    using Cons(3) by (simp_all add: amf_members_def kv)
  show ?case
    using read_member [OF r(1-3) b(1), of obj] Cons(1) [OF r(4) b(2), of "object_insert key v obj"]
    by (simp add: kv amf_members_def)
qed

lemma read_end: "b = a @ amf_end \<Longrightarrow> read_object_loop b (length a) obj = (Ok (), obj)"
  by (subst read_object_loop.simps)
     (simp add: amf_end_def be2.fetch_eq of_mem_def marker_at_def nth_append)

lemma foldl_object_insert:
  assumes "distinct (map fst (obj @ kvs))"
  shows "foldl (\<lambda>o' (key, v). object_insert key v o') obj kvs = obj @ kvs"
  using assms
proof (induction kvs arbitrary: obj)
  case (Cons kv kvs)
  then show ?case using Cons(1) [of "obj @ [kv]"]
    by (cases kv) (auto simp: object_insert_def)
qed simp

lemma read_object_amf:
  assumes "readable kvs" and "distinct (map fst kvs)"
    and "io_buffer c = a @ amf_members kvs @ amf_end" and "object (cur c) = []"
  shows "read_object (length a) c = Some (Ok (), c\<lparr>cur := (cur c)\<lparr>object := kvs\<rparr>\<rparr>)"
proof -
  have b: "io_buffer c = (a @ amf_members kvs) @ amf_end" using assms(3) by simp
  have "read_object_loop (io_buffer c) (length a) [] = (Ok (), kvs)"
    unfolding read_members [OF assms(1,3)] read_end [OF b]
    using foldl_object_insert [of "[]" kvs] assms(2) by simp
  then show ?thesis by (simp add: read_object_def assms(4))
qed

text \<open>On any input whatever, the reader ends and never reads outside the buffer.\<close>

lemma read_value_faults: "read_value b q \<noteq> Fault e"
  by (auto simp: read_value_def marker_at_def peek_def Let_def bind_res_eq_Fault
      be2.fetch_eq be8.fetch_eq split: if_splits)

lemma read_object_loop_faults:
  "fst (read_object_loop b p obj) = Fault e \<Longrightarrow> e = LengthError"
proof (induction "length b - p" arbitrary: p obj rule: less_induct)
  case less
  have IH: "fst (read_object_loop b q o') = Fault e \<Longrightarrow> p < length b \<Longrightarrow> p < q \<Longrightarrow> e = LengthError"
    for q o' using less(1) [of q o'] by simp
  from less(2) show ?case
    by (subst (asm) read_object_loop.simps)
       (auto simp: be2.fetch_eq Let_def marker_at_def read_value_faults
         split: if_splits res.splits dest!: read_value_pos elim!: IH)
qed

end
