(* ===== verification/Messages.thy ===== *)
theory Messages
  imports Amf
begin

text \<open>
  The message classes of \<^verbatim>\<open>all_kinds_of_messages.cpp\<close>. A class that sends overrides
  \<open>write_payload\<close>; a class that receives overrides \<open>read_payload\<close>. The members a constructor stores
  are arguments here. Every sending class is an interpretation of \<open>payload_writer\<close>, which gives what
  it puts on the wire.
\<close>

section \<open>Messages the server sends\<close>

datatype MESSAGE_OBJECT_TYPE =
  CONNECT_APP_RESPONSE | ON_BW_DONE | PULL_ONSTATUS1 | PULL_ONSTATUS2 | PULL_ONSTATUS3

definition Set_Window_Size_write_payload :: "int32 \<Rightarrow> (ctx, unit) act" where
  "Set_Window_Size_write_payload window_size = emit_swapped se2be_4bytes 4 (mem_of window_size)"

definition Set_Peer_Bandwidth_write_payload :: "int32 \<Rightarrow> byte \<Rightarrow> (ctx, unit) act" where
  "Set_Peer_Bandwidth_write_payload bandwidth limit_type =
     bind_act (emit_swapped se2be_4bytes 4 (mem_of bandwidth)) (\<lambda>_. modify_act (put [limit_type]))"

abbreviation vstr :: "string \<Rightarrow> Value_Object" where
  "vstr s \<equiv> Value_String (str s)"

definition Send_Object_Message_init :: "MESSAGE_OBJECT_TYPE \<Rightarrow> amf_object list" where
  "Send_Object_Message_init type =
     (if type = ON_BW_DONE then []
      else if type = PULL_ONSTATUS3 then [[(str ''code'', vstr ''NetStream.Data.Start'')]]
      else if type = CONNECT_APP_RESPONSE
      then [[(str ''fmsVer'', vstr ''FMS/3,5,3,888''),
             (str ''capabilities'', Value_Num (double_of_nat 127)),
             (str ''mode'', Value_Num (double_of_nat 1))],
            [(str ''level'', vstr ''status''),
             (str ''code'', vstr ''NetConnection.Connect.Success''),
             (str ''description'', vstr ''Connection succeeded''),
             (str ''objectEncoding'', Value_Num (double_of_nat 0)),
             (str ''data'', Value_Len 2028717191),
             (str ''version'', vstr ''3,5,3,888''),
             (str ''server'', vstr ''srs(simple rtmp server)''),
             (str ''srs_url'', vstr ''https://github.com/winlinvip/simple-rtmp-server''),
             (str ''srs_version'', vstr ''0.1'')]]
      else [])"

text \<open>A string and a number in front of a payload, as the source writes them inline.\<close>

definition put_string_command :: "bytes \<Rightarrow> double_bits \<Rightarrow> (ctx, unit) act" where
  "put_string_command command tid =
     bind_act (modify_act (put [0x02])) (\<lambda>_.
     bind_act (emit_string command) (\<lambda>_.
     bind_act (modify_act (put [0x00])) (\<lambda>_.
     emit_swapped se2be_8bytes 8 (mem_of tid))))"

text \<open>
  \<open>Send_Object_Message::write_payload\<close> repeats the body of \<open>write_object\<close> after its command.
\<close>

definition Send_Object_Message_write_payload ::
  "bytes \<Rightarrow> double_bits \<Rightarrow> MESSAGE_OBJECT_TYPE \<Rightarrow> (ctx, unit) act"
where
  "Send_Object_Message_write_payload command tid type =
     bind_act (put_string_command command tid) (\<lambda>_.
     write_object (Send_Object_Message_init type))"

definition Send_Object_Message_get_payload_size :: "bytes \<Rightarrow> MESSAGE_OBJECT_TYPE \<Rightarrow> int" where
  "Send_Object_Message_get_payload_size command type =
     (if type = ON_BW_DONE then 3 + int (length command) + 9 + 1
      else get_payload_size command (Send_Object_Message_init type))"

text \<open>
  The variant with a literal length: \<open>src_len\<close> is written and that many bytes of the literal.
\<close>

definition put_command :: "16 word \<Rightarrow> string \<Rightarrow> double_bits \<Rightarrow> (ctx, unit) act" where
  "put_command src_len command tid =
     bind_act (modify_act (put [0x02])) (\<lambda>_.
     bind_act (emit_swapped se2be_2bytes 2 (mem_of src_len)) (\<lambda>_.
     bind_act (modify_act (put (take (unat src_len) (str command)))) (\<lambda>_.
     bind_act (modify_act (put [0x00])) (\<lambda>_.
     emit_swapped se2be_8bytes 8 (mem_of tid)))))"

definition ReleaseStreamResponse_write_payload :: "double_bits \<Rightarrow> (ctx, unit) act" where
  "ReleaseStreamResponse_write_payload tid =
     bind_act (put_command 7 ''_result'' tid) (\<lambda>_.
     bind_act (modify_act (put [0x05])) (\<lambda>_. modify_act (put [0x06])))"

definition SetChunkSize_write_payload :: "int32 \<Rightarrow> (ctx, unit) act" where
  "SetChunkSize_write_payload cs = emit_swapped se2be_4bytes 4 (mem_of cs)"

definition FCPublishResponse_write_payload :: "double_bits \<Rightarrow> (ctx, unit) act" where
  "FCPublishResponse_write_payload tid =
     bind_act (put_command 7 ''_result'' tid) (\<lambda>_.
     bind_act (modify_act (put [0x05])) (\<lambda>_. modify_act (put [0x06])))"

definition CreateStreamResponse_write_payload :: "double_bits \<Rightarrow> double_bits \<Rightarrow> (ctx, unit) act" where
  "CreateStreamResponse_write_payload tid sid =
     bind_act (put_command 7 ''_result'' tid) (\<lambda>_.
     bind_act (modify_act (put [0x05])) (\<lambda>_.
     bind_act (modify_act (put [0x00])) (\<lambda>_.
     emit_swapped se2be_8bytes 8 (mem_of sid))))"

definition OnFCPublish_init :: "amf_object list" where
  "OnFCPublish_init =
     [[(str ''code'', vstr ''NetStream.Publish.Start''),
       (str ''description'', vstr ''Started publishing stream.'')]]"

definition OnFCPublish_write_payload :: "double_bits \<Rightarrow> (ctx, unit) act" where
  "OnFCPublish_write_payload tid =
     bind_act (put_command 11 ''onFCPublish'' tid) (\<lambda>_.
     bind_act (modify_act (put [0x05])) (\<lambda>_. write_object OnFCPublish_init))"

text \<open>The base class measures with its own \<open>command_name\<close>, which a sending message never sets.\<close>

definition OnFCPublish_get_payload_size :: int where
  "OnFCPublish_get_payload_size = get_payload_size [] OnFCPublish_init"

definition OnStatus_init :: "amf_object list" where
  "OnStatus_init =
     [[(str ''level'', vstr ''status''),
       (str ''code'', vstr ''NetStream.Publish.Start''),
       (str ''description'', vstr ''Started publishing stream.''),
       (str ''clientid'', vstr ''ASAICiss'')]]"

definition OnStatus_write_payload :: "double_bits \<Rightarrow> (ctx, unit) act" where
  "OnStatus_write_payload tid =
     bind_act (put_command 8 ''onStatus'' tid) (\<lambda>_.
     bind_act (modify_act (put [0x05])) (\<lambda>_. write_object OnStatus_init))"

definition OnStatus_get_payload_size :: int where
  "OnStatus_get_payload_size = get_payload_size [] OnStatus_init"

definition SrcPCUCStreamBegin_write_payload :: "(ctx, unit) act" where
  "SrcPCUCStreamBegin_write_payload =
     bind_act (modify_act (put (mem_of (0 :: 16 word)))) (\<lambda>_.
     emit_swapped se2be_4bytes 4 (mem_of (1 :: int32)))"

text \<open>A type other than the two leaves \<open>value\<close> as it was, so the last string is repeated.\<close>

definition PullStreamOnStatus_init :: "MESSAGE_OBJECT_TYPE \<Rightarrow> amf_object list" where
  "PullStreamOnStatus_init type =
     (let value1 = ''status'';
          value2 = (if type = PULL_ONSTATUS1 then ''NetStream.Play.Reset''
                    else if type = PULL_ONSTATUS2 then ''NetStream.Play.Start'' else value1);
          value3 = (if type = PULL_ONSTATUS1 then ''Playing and resetting stream.''
                    else if type = PULL_ONSTATUS2 then ''Started playing stream.'' else value2)
      in [[(str ''level'', vstr value1), (str ''code'', vstr value2),
           (str ''description'', vstr value3), (str ''details'', vstr ''stream''),
           (str ''clientid'', vstr ''ASAICiss'')]])"

definition PullStreamOnStatus_write_payload ::
  "bytes \<Rightarrow> double_bits \<Rightarrow> MESSAGE_OBJECT_TYPE \<Rightarrow> (ctx, unit) act"
where
  "PullStreamOnStatus_write_payload command tid type =
     bind_act (put_string_command command tid) (\<lambda>_.
     bind_act (modify_act (put [0x05])) (\<lambda>_.
     bind_act (for_each_act write_one (PullStreamOnStatus_init type)) (\<lambda>_.
     if 1 < length (PullStreamOnStatus_init type) then write_end else return_act ())))"

definition RtmpSampleAccess_write_payload :: "(ctx, unit) act" where
  "RtmpSampleAccess_write_payload =
     bind_act (modify_act (put [0x02])) (\<lambda>_.
     bind_act (emit_string (str ''|RtmpSampleAccess'')) (\<lambda>_.
     bind_act (modify_act (put [0x01])) (\<lambda>_.
     bind_act (modify_act (put [0])) (\<lambda>_.
     bind_act (modify_act (put [0x01])) (\<lambda>_. modify_act (put [0]))))))"

definition PullStreamOnStatus3_write_payload :: "(ctx, unit) act" where
  "PullStreamOnStatus3_write_payload =
     bind_act (modify_act (put [0x02])) (\<lambda>_.
     bind_act (emit_string (str ''onStatus'')) (\<lambda>_.
     bind_act (modify_act (put [0x03])) (\<lambda>_.
     bind_act (emit_string (str ''code'')) (\<lambda>_.
     bind_act (modify_act (put [0x02])) (\<lambda>_.
     bind_act (emit_string (str ''NetStream.Data.Start'')) (\<lambda>_.
     bind_act (modify_act (put (mem_of (0 :: 16 word)))) (\<lambda>_.
     modify_act (put [0x09]))))))))"

text \<open>
  \<open>OnMetaData\<close> appends a \<open>server\<close> entry to the global \<open>set_data_frame\<close> and sends that. It writes
  booleans, which \<open>write_object\<close> does not, and refuses \<open>Value_Len\<close>.
\<close>

fun OnMetaData_write_value :: "Value_Object \<Rightarrow> (ctx, unit) act" where
  "OnMetaData_write_value (Value_String s) =
     bind_act (modify_act (put [0x02])) (\<lambda>_. emit_string s)"
| "OnMetaData_write_value (Value_Num d) =
     bind_act (modify_act (put [0x00])) (\<lambda>_. emit_swapped se2be_8bytes 8 (mem_of d))"
| "OnMetaData_write_value (Value_0x01 b) =
     bind_act (modify_act (put [0x01])) (\<lambda>_. modify_act (put [b]))"
| "OnMetaData_write_value (Value_Len l) = fail_act"

definition OnMetaData_server :: "bytes \<times> Value_Object" where
  "OnMetaData_server = (str ''server'', vstr ''srs(simple rtmp server)0.1'')"

definition OnMetaData_write_payload :: "bytes \<Rightarrow> (ctx, unit) act" where
  "OnMetaData_write_payload command =
     bind_act (modify_act (put [0x02])) (\<lambda>_.
     bind_act (emit_swapped se2be_2bytes 2 (mem_of (of_nat (length command) :: 64 word))) (\<lambda>_.
     bind_act (modify_act (put command)) (\<lambda>_.
     bind_act (modify_act (\<lambda>c. c\<lparr>set_data_frame := set_data_frame c @ [OnMetaData_server]\<rparr>)) (\<lambda>_.
     bind_act (modify_act (put [0x03])) (\<lambda>_ c.
     bind_act (for_each_act (\<lambda>(key, v). bind_act (emit_string key) (\<lambda>_. OnMetaData_write_value v))
                 (set_data_frame c)) (\<lambda>_. write_end) c)))))"

section \<open>Messages the server receives\<close>

text \<open>\<open>p >= end || *p++ != m\<close> returns \<open>-1\<close>; the position moves on.\<close>

definition expect :: "bytes \<Rightarrow> nat \<Rightarrow> byte \<Rightarrow> nat res" where
  "expect b p m = (if marker_at b p m then Ok (p + 1) else Fail)"

text \<open>
  A string: a checked 16-bit length that must be positive, then \<open>append(p, len)\<close>, which nothing
  checks against the end of the buffer.
\<close>

definition read_string :: "bytes \<Rightarrow> nat \<Rightarrow> (bytes \<times> nat) res" where
  "read_string b p =
     bind_res (fetch be2se_2bytes 2 b p) (\<lambda>l.
       let len = sint (of_mem l :: 16 word)
       in if len \<le> 0 then Fail
          else bind_res (slice b (p + 2) (nat len)) (\<lambda>s. Ok (s, p + 2 + nat len)))"

text \<open>The string marker, the command name, the number marker and the transaction id.\<close>

definition read_command :: "bytes \<Rightarrow> nat \<Rightarrow> (bytes \<times> 64 word \<times> nat) res" where
  "read_command b p0 =
     bind_res (expect b p0 0x02) (\<lambda>p1.
     bind_res (read_string b p1) (\<lambda>(command, p2).
     bind_res (expect b p2 0x00) (\<lambda>p3.
     bind_res (fetch be2se_8bytes 8 b p3) (\<lambda>d. Ok (command, of_mem d, p3 + 8)))))"

definition ConnectMessage_read_payload :: "int \<Rightarrow> nat \<Rightarrow> nat \<Rightarrow> int \<Rightarrow> int \<Rightarrow> (ctx, unit) act" where
  "ConnectMessage_read_payload csid bh_size mh_size mlen cs =
     bind_act (payload_loop read_nbytes_cycle io_buffer set_io_buffer mlen cs 0) (\<lambda>_ c.
       bind_act (lift_res (read_command (io_buffer c) (bh_size + mh_size))) (\<lambda>(command, tid, p).
       bind_act (lift_res (expect (io_buffer c) p 0x03)) (\<lambda>p'.
       bind_act (read_object p') (\<lambda>_. copy command tid))) c)"

text \<open>
  \<open>nbytes = bh_size + mh_size + message_length\<close> and the read of that many bytes, the way of all the
  other classes: the payload must come in one chunk.
\<close>

definition read_all :: "nat \<Rightarrow> nat \<Rightarrow> int \<Rightarrow> (ctx, nat) act" where
  "read_all bh_size mh_size mlen =
     read_nbytes_cycle (as_size_t (int bh_size + int mh_size + mlen)) 0"

definition read_null_command :: "int \<Rightarrow> nat \<Rightarrow> nat \<Rightarrow> int \<Rightarrow> int \<Rightarrow> (ctx, unit) act" where
  "read_null_command csid bh_size mh_size mlen cs =
     bind_act (read_all bh_size mh_size mlen) (\<lambda>_ c.
       bind_act (lift_res (read_command (io_buffer c) (bh_size + mh_size))) (\<lambda>(command, tid, p).
       bind_act (lift_res (expect (io_buffer c) p 0x05)) (\<lambda>_. copy command tid)) c)"

definition ReleaseStream_read_payload :: "int \<Rightarrow> nat \<Rightarrow> nat \<Rightarrow> int \<Rightarrow> int \<Rightarrow> (ctx, unit) act" where
  "ReleaseStream_read_payload = read_null_command"

definition FCPublish_read_payload :: "int \<Rightarrow> nat \<Rightarrow> nat \<Rightarrow> int \<Rightarrow> int \<Rightarrow> (ctx, unit) act" where
  "FCPublish_read_payload = read_null_command"

definition CreateStream_read_payload :: "int \<Rightarrow> nat \<Rightarrow> nat \<Rightarrow> int \<Rightarrow> int \<Rightarrow> (ctx, unit) act" where
  "CreateStream_read_payload = read_null_command"

definition CheckBW_read_payload :: "int \<Rightarrow> nat \<Rightarrow> nat \<Rightarrow> int \<Rightarrow> int \<Rightarrow> (ctx, unit) act" where
  "CheckBW_read_payload csid bh_size mh_size mlen cs =
     bind_act (read_all bh_size mh_size mlen) (\<lambda>_. return_act ())"

definition UnknownMessage_read_payload :: "int \<Rightarrow> nat \<Rightarrow> nat \<Rightarrow> int \<Rightarrow> int \<Rightarrow> (ctx, unit) act" where
  "UnknownMessage_read_payload csid bh_size mh_size mlen cs =
     bind_act (read_all bh_size mh_size mlen) (\<lambda>_. return_act ())"

text \<open>\<open>Publish\<close> asks for an empty stream name and drops what it has read.\<close>

definition Publish_parse :: "bytes \<Rightarrow> nat \<Rightarrow> unit res" where
  "Publish_parse b p0 =
     bind_res (read_command b p0) (\<lambda>(command, tid, p1).
     bind_res (expect b p1 0x05) (\<lambda>p2.
     bind_res (expect b p2 0x02) (\<lambda>p3.
     bind_res (fetch be2se_2bytes 2 b p3) (\<lambda>l.
       if (of_mem l :: 16 word) \<noteq> 0 then Fail
       else bind_res (expect b (p3 + 2) 0x02) (\<lambda>p4.
            bind_res (read_string b p4) (\<lambda>_. Ok ()))))))"

definition Publish_read_payload :: "int \<Rightarrow> nat \<Rightarrow> nat \<Rightarrow> int \<Rightarrow> int \<Rightarrow> (ctx, unit) act" where
  "Publish_read_payload csid bh_size mh_size mlen cs =
     bind_act (read_all bh_size mh_size mlen) (\<lambda>_ c.
       lift_res (Publish_parse (io_buffer c) (bh_size + mh_size)) c)"

text \<open>
  The entries of \<open>@setDataFrame\<close>: what has been read before an error stays in the global vector.
\<close>

fun set_data_frame_loop :: "nat \<Rightarrow> bytes \<Rightarrow> nat \<Rightarrow> amf_object \<Rightarrow> unit res \<times> amf_object" where
  "set_data_frame_loop 0 b p frames = (Ok (), frames)"
| "set_data_frame_loop (Suc n) b p frames =
     (case read_string b p of
        Fail \<Rightarrow> (Fail, frames)
      | Fault e \<Rightarrow> (Fault e, frames)
      | Ok (key, q) \<Rightarrow>
          (if length b \<le> q then (Fail, frames)
           else if b ! q = 0x00
           then (case fetch be2se_8bytes 8 b (q + 1) of
                   Fail \<Rightarrow> (Fail, frames)
                 | Fault e \<Rightarrow> (Fault e, frames)
                 | Ok d \<Rightarrow> set_data_frame_loop n b (q + 9) (frames @ [(key, Value_Num (of_mem d))]))
           else if b ! q = 0x01
           then (if length b \<le> q + 1 then (Fail, frames)
                 else set_data_frame_loop n b (q + 2) (frames @ [(key, Value_0x01 (b ! (q + 1)))]))
           else if b ! q = 0x02
           then (case read_string b (q + 1) of
                   Fail \<Rightarrow> (Fail, frames)
                 | Fault e \<Rightarrow> (Fault e, frames)
                 | Ok (s, r) \<Rightarrow> set_data_frame_loop n b r (frames @ [(key, Value_String s)]))
           else (Fail, frames)))"

definition SetDataFrame_parse :: "bytes \<Rightarrow> nat \<Rightarrow> (nat \<times> nat) res" where
  "SetDataFrame_parse b p0 =
     bind_res (expect b p0 0x02) (\<lambda>p1.
     bind_res (read_string b p1) (\<lambda>(command, p2).
     bind_res (expect b p2 0x02) (\<lambda>p3.
     bind_res (read_string b p3) (\<lambda>(content, p4).
     bind_res (expect b p4 0x08) (\<lambda>p5.
     bind_res (fetch be2se_4bytes 4 b p5) (\<lambda>d.
       let count = sint (of_mem d :: int32)
       in if count \<le> 0 then Fail else Ok (nat count, p5 + 4)))))))"

definition SetDataFrame_read_payload :: "int \<Rightarrow> nat \<Rightarrow> nat \<Rightarrow> int \<Rightarrow> int \<Rightarrow> (ctx, unit) act" where
  "SetDataFrame_read_payload csid bh_size mh_size mlen cs =
     bind_act (read_all bh_size mh_size mlen) (\<lambda>_ c.
       bind_act (lift_res (SetDataFrame_parse (io_buffer c) (bh_size + mh_size))) (\<lambda>(count, p) c.
         (case set_data_frame_loop count (io_buffer c) p (set_data_frame c) of
            (r, frames) \<Rightarrow> Some (r, c\<lparr>set_data_frame := frames\<rparr>))) c)"

definition GetStreamLength_read_payload :: "int \<Rightarrow> nat \<Rightarrow> nat \<Rightarrow> int \<Rightarrow> int \<Rightarrow> (ctx, unit) act" where
  "GetStreamLength_read_payload = read_null_command"

definition PlayCommandMessage_read_payload ::
  "int \<Rightarrow> nat \<Rightarrow> nat \<Rightarrow> int \<Rightarrow> int \<Rightarrow> (ctx, unit) act"
where
  "PlayCommandMessage_read_payload = read_null_command"

text \<open>The length is returned as it is, so that -1 also means a chunk stream nobody announced.\<close>

definition read_header_get_payloadLength :: "(ctx, int) act" where
  "read_header_get_payloadLength =
     bind_act read_basic_header (\<lambda>(fmt, csid, bh_size).
     bind_act (read_message_header fmt csid bh_size) (\<lambda>_ c.
       Some (Ok (sint (message_length (csid_at csid c))), csid_touch csid c)))"

section \<open>What the sending classes put on the wire\<close>

definition amf_command :: "bytes \<Rightarrow> double_bits \<Rightarrow> bytes" where
  "amf_command command tid = 0x02 # amf_string command @ 0x00 # rev (mem_of tid)"

lemma put_string_command_put:
  "length command < 2 ^ 15 \<Longrightarrow>
     put_string_command command tid = modify_act (put (amf_command command tid))"
  by (simp add: put_string_command_def amf_command_def emit_string_put)

lemma put_command_put:
  assumes "src_len = of_nat (length command)" and "length command < 2 ^ 15"
  shows "put_command src_len command tid = modify_act (put (amf_command (str command) tid))"
  using assms(2)
  by (simp add: put_command_def amf_command_def amf_string_def assms(1) unat16)

lemma str_command_lengths:
  "put_command 7 ''_result'' tid = modify_act (put (amf_command (str ''_result'') tid))"
  "put_command 11 ''onFCPublish'' tid = modify_act (put (amf_command (str ''onFCPublish'') tid))"
  "put_command 8 ''onStatus'' tid = modify_act (put (amf_command (str ''onStatus'') tid))"
  by (simp_all add: put_command_put)

lemma length_amf_command [simp]: "length (amf_command command tid) = 12 + length command"
  by (simp add: amf_command_def)

lemma writable_init:
  "list_all writable (Send_Object_Message_init type)" "list_all writable OnFCPublish_init"
  "list_all writable OnStatus_init" "list_all writable (PullStreamOnStatus_init type)"
  by (simp_all add: Send_Object_Message_init_def OnFCPublish_init_def OnStatus_init_def
      PullStreamOnStatus_init_def writable_def Let_def)

definition Send_Object_bytes :: "bytes \<Rightarrow> double_bits \<Rightarrow> MESSAGE_OBJECT_TYPE \<Rightarrow> bytes" where
  "Send_Object_bytes command tid type =
     amf_command command tid @ amf_objects (Send_Object_Message_init type)"

definition ReleaseStreamResponse_bytes :: "double_bits \<Rightarrow> bytes" where
  "ReleaseStreamResponse_bytes tid = amf_command (str ''_result'') tid @ [0x05, 0x06]"

definition CreateStreamResponse_bytes :: "double_bits \<Rightarrow> double_bits \<Rightarrow> bytes" where
  "CreateStreamResponse_bytes tid sid =
     amf_command (str ''_result'') tid @ [0x05, 0x00] @ rev (mem_of sid)"

definition OnFCPublish_bytes :: "double_bits \<Rightarrow> bytes" where
  "OnFCPublish_bytes tid =
     amf_command (str ''onFCPublish'') tid @ 0x05 # amf_objects OnFCPublish_init"

definition OnStatus_bytes :: "double_bits \<Rightarrow> bytes" where
  "OnStatus_bytes tid = amf_command (str ''onStatus'') tid @ 0x05 # amf_objects OnStatus_init"

definition StreamBegin_bytes :: bytes where
  "StreamBegin_bytes = [0, 0, 0, 0, 0, 1]"

definition PullStreamOnStatus_bytes ::
  "bytes \<Rightarrow> double_bits \<Rightarrow> MESSAGE_OBJECT_TYPE \<Rightarrow> bytes"
where
  "PullStreamOnStatus_bytes command tid type =
     amf_command command tid @ 0x05 # amf_objects (PullStreamOnStatus_init type)"

definition RtmpSampleAccess_bytes :: bytes where
  "RtmpSampleAccess_bytes = 0x02 # amf_string (str ''|RtmpSampleAccess'') @ [0x01, 0, 0x01, 0]"

definition PullStreamOnStatus3_bytes :: bytes where
  "PullStreamOnStatus3_bytes =
     0x02 # amf_string (str ''onStatus'')
       @ amf_one [(str ''code'', vstr ''NetStream.Data.Start'')]"

interpretation window: payload_writer "Set_Window_Size_write_payload w" "rev (mem_of w)" for w
  by unfold_locales (simp add: Set_Window_Size_write_payload_def)

interpretation bandwidth: payload_writer "Set_Peer_Bandwidth_write_payload w l"
  "rev (mem_of w) @ [l]" for w l
  by unfold_locales (simp add: Set_Peer_Bandwidth_write_payload_def)

interpretation release: payload_writer "ReleaseStreamResponse_write_payload tid"
  "ReleaseStreamResponse_bytes tid" for tid
  by unfold_locales
    (simp add: ReleaseStreamResponse_write_payload_def ReleaseStreamResponse_bytes_def
      str_command_lengths)

interpretation chunk: payload_writer "SetChunkSize_write_payload w" "rev (mem_of w)" for w
  by unfold_locales (simp add: SetChunkSize_write_payload_def)

interpretation fcpublish: payload_writer "FCPublishResponse_write_payload tid"
  "ReleaseStreamResponse_bytes tid" for tid
  by unfold_locales
    (simp add: FCPublishResponse_write_payload_def ReleaseStreamResponse_bytes_def
      str_command_lengths)

interpretation create: payload_writer "CreateStreamResponse_write_payload tid sid"
  "CreateStreamResponse_bytes tid sid" for tid sid
  by unfold_locales
    (simp add: CreateStreamResponse_write_payload_def CreateStreamResponse_bytes_def
      str_command_lengths)

interpretation onfcpublish: payload_writer "OnFCPublish_write_payload tid"
  "OnFCPublish_bytes tid" for tid
  by unfold_locales
    (simp add: OnFCPublish_write_payload_def OnFCPublish_bytes_def str_command_lengths
      write_object_put [OF writable_init(2)])

interpretation onstatus: payload_writer "OnStatus_write_payload tid" "OnStatus_bytes tid" for tid
  by unfold_locales
    (simp add: OnStatus_write_payload_def OnStatus_bytes_def str_command_lengths
      write_object_put [OF writable_init(3)])

interpretation begin_stream: payload_writer SrcPCUCStreamBegin_write_payload StreamBegin_bytes
proof (unfold_locales, goal_cases)
  case 1
  show ?case
    unfolding SrcPCUCStreamBegin_write_payload_def emit_int modify_put
    by (simp add: StreamBegin_bytes_def mem_of_def nat_le_numeral)
qed

interpretation sample: payload_writer RtmpSampleAccess_write_payload RtmpSampleAccess_bytes
  by unfold_locales
    (simp add: RtmpSampleAccess_write_payload_def RtmpSampleAccess_bytes_def emit_string_put)

interpretation onstatus3: payload_writer PullStreamOnStatus3_write_payload PullStreamOnStatus3_bytes
proof (unfold_locales, goal_cases)
  case 1
  have "mem_of (0 :: 16 word) = [0, 0]" by (simp add: mem_of_def nat_le_numeral)
  then show ?case
    by (simp add: PullStreamOnStatus3_write_payload_def PullStreamOnStatus3_bytes_def
        emit_string_put amf_one_def amf_members_def amf_end_def)
qed

text \<open>Classes whose command is an argument write it whole up to 32767 bytes.\<close>

lemma Send_Object_put:
  "length command < 2 ^ 15 \<Longrightarrow>
     Send_Object_Message_write_payload command tid type
       = modify_act (put (Send_Object_bytes command tid type))"
  by (simp add: Send_Object_Message_write_payload_def Send_Object_bytes_def
      put_string_command_put write_object_put [OF writable_init(1)])

lemma PullStreamOnStatus_put:
  assumes "length command < 2 ^ 15"
  shows "PullStreamOnStatus_write_payload command tid type
    = modify_act (put (PullStreamOnStatus_bytes command tid type))"
proof -
  have "PullStreamOnStatus_init type \<noteq> []" by (simp add: PullStreamOnStatus_init_def Let_def)
  then have "bind_act (for_each_act write_one (PullStreamOnStatus_init type)) (\<lambda>_.
     if 1 < length (PullStreamOnStatus_init type) then write_end else return_act ())
     = write_object (PullStreamOnStatus_init type)" by (simp add: write_object_def)
  then show ?thesis
    using assms write_object_put [OF writable_init(4) [of type]]
    by (simp add: PullStreamOnStatus_write_payload_def PullStreamOnStatus_bytes_def
        put_string_command_put)
qed

interpretation result: payload_writer "Send_Object_Message_write_payload (str ''_result'') tid type"
  "Send_Object_bytes (str ''_result'') tid type" for tid type
  by unfold_locales (simp add: Send_Object_put)

interpretation bwdone: payload_writer "Send_Object_Message_write_payload (str ''onBWDone'') tid type"
  "Send_Object_bytes (str ''onBWDone'') tid type" for tid type
  by unfold_locales (simp add: Send_Object_put)

interpretation pullstatus: payload_writer "PullStreamOnStatus_write_payload (str ''onStatus'') tid type"
  "PullStreamOnStatus_bytes (str ''onStatus'') tid type" for tid type
  by unfold_locales (simp add: PullStreamOnStatus_put)

section \<open>What the receiving classes read\<close>

lemma slice_mid: "p = length a \<Longrightarrow> slice (a @ s @ z) p (length s) = Ok s"
  by (simp add: slice_append)

lemma read_string_amf:
  assumes "s \<noteq> []" and "length s < 2 ^ 15" and "p = length a"
  shows "read_string (a @ amf_string s @ z) p = Ok (s, p + 2 + length s)"
proof -
  let ?w = "of_nat (length s) :: 16 word"
  have f: "fetch be2se_2bytes 2 (a @ amf_string s @ z) p = Ok (mem_of ?w)"
    using fetch_append(1) [OF assms(3), of ?w] by (simp add: amf_string_def)
  have l: "slice (a @ amf_string s @ z) (p + 2) (length s) = Ok s"
    using slice_mid [of "p + 2" "a @ rev (mem_of ?w)" s z] assms(3) by (simp add: amf_string_def)
  show ?thesis
    using assms(1) int16_of_length(1) [OF assms(2)] l by (simp add: read_string_def f Let_def)
qed

lemma expect_append: "p = length a \<Longrightarrow> expect (a @ m # z) p m = Ok (p + 1)"
  by (simp add: expect_def marker_at_append)

lemma read_command_amf:
  assumes "command \<noteq> []" and "length command < 2 ^ 15"
  shows "read_command (a @ amf_command command tid @ z) (length a)
    = Ok (command, tid, length a + length (amf_command command tid))"
proof -
  let ?b = "a @ amf_command command tid @ z"
  have e1: "expect ?b (length a) 0x02 = Ok (length a + 1)"
    using expect_append [of "length a" a] by (simp add: amf_command_def)
  have s: "read_string ?b (length a + 1) = Ok (command, length a + 1 + 2 + length command)"
    using read_string_amf [OF assms, of "length a + 1" "a @ [0x02]"] by (simp add: amf_command_def)
  have e2: "expect ?b (length a + 1 + 2 + length command) 0x00
    = Ok (length a + 1 + 2 + length command + 1)"
    using expect_append [of "length a + 1 + 2 + length command" "a @ 0x02 # amf_string command"]
    by (simp add: amf_command_def)
  have d: "fetch be2se_8bytes 8 ?b (length a + 1 + 2 + length command + 1) = Ok (mem_of tid)"
    using fetch_append(2) [of "length a + 1 + 2 + length command + 1"
        "a @ 0x02 # amf_string command @ [0x00]" tid z]
    by (simp add: amf_command_def)
  show ?thesis by (simp only: read_command_def e1 s e2 d bind_res.simps prod.case) simp
qed

text \<open>
  A command without arguments that arrives whole (in the buffer already or still in the socket) is
  taken apart into its name and transaction id.
\<close>

lemma read_null_command_amf:
  assumes "rx_fine (net c)" and "io_buffer c = h" and "length h = bh + mh"
    and "pending (net c) = amf_command command tid @ 0x05 # z @ rest"
    and "command \<noteq> []" and "length command < 2 ^ 15"
    and "mlen = int (length (amf_command command tid @ 0x05 # z))" and "bh + mh + nat mlen < 2 ^ 64"
  shows "\<exists>d. read_null_command csid bh mh mlen cs c
      = Some (Ok (), d\<lparr>cur := (cur d)\<lparr>command_name := command, transaction_id := tid\<rparr>\<rparr>)
    \<and> io_buffer d = h @ amf_command command tid @ 0x05 # z \<and> pending (net d) = rest
    \<and> rx_fine (net d) \<and> frame_io d = frame_io c"
proof -
  let ?p = "amf_command command tid @ 0x05 # z"
  have n: "as_size_t (int bh + int mh + mlen) = length h + length ?p"
    using assms(3,7,8) by (simp add: as_size_t_def)
  obtain d where d: "read_nbytes_cycle (length h + length ?p) 0 c = Some (Ok (length ?p), d)"
    "io_buffer d = h @ ?p" "pending (net d) = rest" "rx_fine (net d)" "frame_io d = frame_io c"
    using io.need_enough [OF assms(1), of "length h + length ?p" 0] assms(2,4) by auto
  have r: "read_command (io_buffer d) (bh + mh)
    = Ok (command, tid, length h + length (amf_command command tid))"
    using read_command_amf [OF assms(5,6), of h tid "0x05 # z"] d(2) assms(3) by simp
  have e: "expect (io_buffer d) (length h + length (amf_command command tid)) 0x05
    = Ok (length h + length (amf_command command tid) + 1)"
    using expect_append [of _ "h @ amf_command command tid" "0x05" z] d(2) by simp
  have "read_null_command csid bh mh mlen cs c
      = Some (Ok (), d\<lparr>cur := (cur d)\<lparr>command_name := command, transaction_id := tid\<rparr>\<rparr>)"
    unfolding read_null_command_def read_all_def n
    by (simp only: bind_act_def d(1) r e lift_res_def option.case prod.case res.case copy_def
        modify_act_def)
  with d show ?thesis by (intro exI [of _ d]) simp
qed

text \<open>The \<open>connect\<close> message, in as many chunks as its length asks for.\<close>

definition connect_bytes :: "bytes \<Rightarrow> double_bits \<Rightarrow> amf_object \<Rightarrow> bytes" where
  "connect_bytes command tid kvs = amf_command command tid @ amf_one kvs"

lemma ConnectMessage_read_payload_amf:
  assumes "rx_fine (net c)" and "io_buffer c = h" and "length h = bh + mh" and "0 < cs"
    and "pending (net c) = chunked f3 cs (connect_bytes command tid kvs) @ rest"
    and "command \<noteq> []" and "length command < 2 ^ 15" and "readable kvs"
    and "distinct (map fst kvs)" and "object (cur c) = []"
    and "length h + length (connect_bytes command tid kvs) + 1 < 2 ^ 64"
  shows "\<exists>d. ConnectMessage_read_payload csid bh mh
        (int (length (connect_bytes command tid kvs))) (int cs) c
      = Some (Ok (), d\<lparr>cur := \<lparr>command_name = command, transaction_id = tid, object = kvs\<rparr>\<rparr>)
    \<and> io_buffer d = h @ connect_bytes command tid kvs \<and> pending (net d) = rest
    \<and> rx_fine (net d) \<and> frame_io d = frame_io c"
proof -
  let ?p = "connect_bytes command tid kvs" and ?n = "length (amf_command command tid)"
  have sz: "length (io_buffer c) + length ?p + 1 < 2 ^ 64" using assms(2,11) by simp
  obtain d where d: "payload_loop read_nbytes_cycle io_buffer set_io_buffer (int (length ?p)) (int cs) 0 c
      = Some (Ok (), d)" "io_buffer d = h @ ?p" "pending (net d) = rest" "rx_fine (net d)"
    "frame_io d = frame_io c"
    using io.loop_unchunks [OF assms(1,4,5) sz] assms(2) by auto
  have r: "read_command (io_buffer d) (bh + mh) = Ok (command, tid, length h + ?n)"
    using read_command_amf [OF assms(6,7), of h tid] d(2) assms(3) by (simp add: connect_bytes_def)
  have e: "expect (io_buffer d) (length h + ?n) 0x03 = Ok (length h + ?n + 1)"
    using expect_append [of _ "h @ amf_command command tid"] d(2)
    by (simp add: connect_bytes_def amf_one_def)
  let ?a = "h @ amf_command command tid @ [0x03]"
  have b: "io_buffer d = ?a @ amf_members kvs @ amf_end"
    using d(2) by (simp add: connect_bytes_def amf_one_def)
  have o: "object (cur d) = []" using d(5) assms(10) by (simp add: frame_io_iff)
  have ob: "read_object (length h + ?n + 1) d = Some (Ok (), d\<lparr>cur := (cur d)\<lparr>object := kvs\<rparr>\<rparr>)"
    using read_object_amf [OF assms(8,9) b o] by (simp add: ac_simps)
  have "ConnectMessage_read_payload csid bh mh (int (length ?p)) (int cs) c
      = Some (Ok (), d\<lparr>cur := \<lparr>command_name = command, transaction_id = tid, object = kvs\<rparr>\<rparr>)"
    unfolding ConnectMessage_read_payload_def
    by (simp only: bind_act_def d(1) r e ob lift_res_def option.case prod.case res.case copy_def
        modify_act_def) simp
  with d show ?thesis by (intro exI [of _ d]) simp
qed

text \<open>The command name of a message is copied without looking at the end of the buffer.\<close>

lemma read_command_overruns:
  assumes "0 < n" and "n < 2 ^ 15" and "length name + 1 < n"
  shows "read_command (a @ 0x02 # rev (mem_of (of_nat n :: 16 word)) @ name) (length a) = Fault OutOfBounds"
proof -
  let ?b = "a @ 0x02 # rev (mem_of (of_nat n :: 16 word)) @ name"
  have "fetch be2se_2bytes 2 ?b (length a + 1) = Ok (mem_of (of_nat n :: 16 word))"
    using fetch_append(1) [of "length a + 1" "a @ [0x02]" "of_nat n" name] by simp
  moreover have "slice ?b (length a + 1 + 2) n = Fault OutOfBounds" using assms(3) by (simp add: slice_def)
  ultimately show ?thesis using int16_of_length(1) [OF assms(2)] assms(1)
    by (simp add: read_command_def expect_append [of _ a "0x02"] read_string_def of_mem_mem_of)
qed

end
