(* ===== verification/Client.thy ===== *)
theory Client
  imports Messages
begin

text \<open>
  The life of one connection: the handshake of \<^verbatim>\<open>rtmp_protocol.cpp\<close> and
  \<open>Client::process_thread\<close> of \<^verbatim>\<open>client.cpp\<close>. The calls whose result the source does not look at
  are wrapped in \<open>ignore_act\<close>. The relay of audio and video to a player works on the header and the
  buffer the publisher left, which are arguments of it.
\<close>

section \<open>Handshake and connect\<close>

text \<open>A new \<open>Client\<close> on an accepted socket, and one on a socket with given input.\<close>

definition Client_init :: "sock \<Rightarrow> ctx" where
  "Client_init s = \<lparr>io_buffer = [], net = s, chunk_size = 128, cur = IO_Message_init,
     curr_csid = 0, set_data_frame = [], csid_header = Map.empty, audio_video_buffer = [],
     av_bh_size = 0, av_mh_size = 0\<rparr>"

definition conn_of :: "bytes \<Rightarrow> ctx" where
  "conn_of bs = Client_init \<lparr>rx = (case bs of [] \<Rightarrow> [] | b # r \<Rightarrow> [Seg b r]), rx_closed = False,
     tx = [], sent = []\<rparr>"

definition clear_buffer :: "(ctx, unit) act" where
  "clear_buffer = modify_act (\<lambda>c. c\<lparr>io_buffer := buffer_clear (io_buffer c)\<rparr>)"

definition handshake :: "(ctx, unit) act" where
  "handshake =
     bind_act (read_nbytes 1537 0) (\<lambda>nread.
     bind_act (peek_act io_buffer 0) (\<lambda>p.
       if p \<noteq> 0x03 then fail_act
       else bind_act (IO_Socket_write (0x03 # replicate 3072 0)) (\<lambda>_.
            bind_act (read_nbytes (1537 + 1536) nread) (\<lambda>_. clear_buffer))))"

partial_function (option) recv_connect_message ::
  "(int \<Rightarrow> nat \<Rightarrow> nat \<Rightarrow> int \<Rightarrow> int \<Rightarrow> (ctx, unit) act) \<Rightarrow> ctx \<Rightarrow> (unit res \<times> ctx) option"
where
  "recv_connect_message read_payload c =
     (case recv_message read_payload c of
        None \<Rightarrow> None
      | Some (Fail, c') \<Rightarrow> Some (Fail, c')
      | Some (Fault e, c') \<Rightarrow> Some (Fault e, c')
      | Some (Ok u, c') \<Rightarrow>
          (if get_command c' = str ''connect''
           then Some (Ok (), c'\<lparr>io_buffer := buffer_clear (io_buffer c')\<rparr>)
           else recv_connect_message read_payload c'))"

section \<open>The sequence of messages\<close>

text \<open>\<open>new\<close>, the calls on the message, \<open>delete\<close> (which clears the buffer).\<close>

definition with_message :: "(ctx, unit) act \<Rightarrow> (ctx, unit) act" where
  "with_message m =
     bind_act (modify_act new_message) (\<lambda>_. bind_act m (\<lambda>_. modify_act delete_message))"

definition connect_phase :: "(ctx, unit) act" where
  "connect_phase =
     bind_act handshake (\<lambda>_.
     bind_act (with_message
       (bind_act (recv_message ConnectMessage_read_payload) (\<lambda>_. common_print))) (\<lambda>_.
     bind_act (with_message
       (write_message (Set_Window_Size_write_payload 2500000) 0 2 0 4 5 0)) (\<lambda>_.
     bind_act (with_message
       (write_message (Set_Peer_Bandwidth_write_payload 2500000 2) 0 2 0 5 6 0)) (\<lambda>_.
     bind_act (with_message
       (write_message (Send_Object_Message_write_payload (str ''_result'') (double_of_nat 1)
            CONNECT_APP_RESPONSE) 0 3 0
          (of_int (Send_Object_Message_get_payload_size (str ''_result'') CONNECT_APP_RESPONSE))
          20 0)) (\<lambda>_.
     with_message
       (write_message (Send_Object_Message_write_payload (str ''onBWDone'') (double_of_nat 0)
            ON_BW_DONE) 0 3 0
          (of_int (Send_Object_Message_get_payload_size (str ''onBWDone'') ON_BW_DONE))
          20 0))))))"

text \<open>
  A payload length of 4 means a player; anything else a publisher, whose header bytes are put back
  into the buffer.
\<close>

datatype flow = Pull_flow | Push_flow

definition identify_phase :: "(ctx, flow) act" where
  "identify_phase c =
     (case read_header_get_payloadLength (new_message c) of
        None \<Rightarrow> None
      | Some (Fault e, c') \<Rightarrow> Some (Fault e, c')
      | Some (Fail, c') \<Rightarrow> Some (Fail, delete_message c')
      | Some (Ok ret, c') \<Rightarrow>
          (if ret = -1 then Some (Fail, delete_message c')
           else if ret = 4
           then bind_act (read_nbytes_cycle 4 0) (\<lambda>_.
                bind_act clear_buffer (\<lambda>_. return_act Pull_flow)) (delete_message c')
           else Some (Ok Push_flow, put (io_buffer c') (delete_message c'))))"

definition set_chunk_size :: "int \<Rightarrow> (ctx, unit) act" where
  "set_chunk_size n = modify_act (\<lambda>c. c\<lparr>chunk_size := n\<rparr>)"

definition recv_print :: "(int \<Rightarrow> nat \<Rightarrow> nat \<Rightarrow> int \<Rightarrow> int \<Rightarrow> (ctx, unit) act) \<Rightarrow> (ctx, unit) act" where
  "recv_print rp =
     with_message (bind_act (ignore_act (recv_message rp)) (\<lambda>_. common_print))"

definition recv_drop :: "(int \<Rightarrow> nat \<Rightarrow> nat \<Rightarrow> int \<Rightarrow> int \<Rightarrow> (ctx, unit) act) \<Rightarrow> (ctx, unit) act" where
  "recv_drop rp = with_message (ignore_act (recv_message rp))"

definition send_ignore ::
  "(ctx, unit) act \<Rightarrow> int \<Rightarrow> int32 \<Rightarrow> byte \<Rightarrow> int32 \<Rightarrow> (ctx, unit) act"
where
  "send_ignore wp csid mlen mtype sid =
     with_message (ignore_act (write_message wp 0 csid 0 mlen mtype sid))"

definition send_chunk_size :: "(ctx, unit) act" where
  "send_chunk_size =
     with_message
       (bind_act (ignore_act (write_message (SetChunkSize_write_payload 4096) 0 2 0 4 1 0)) (\<lambda>_.
        set_chunk_size 4096))"

text \<open>Up to the wait for \<open>set_data_frame\<close>.\<close>

definition pull_setup :: "(ctx, unit) act" where
  "pull_setup =
     bind_act (recv_print CreateStream_read_payload) (\<lambda>_.
     bind_act (send_ignore (CreateStreamResponse_write_payload (double_of_nat 2) (double_of_nat 1))
       3 29 20 0) (\<lambda>_.
     bind_act (recv_drop CheckBW_read_payload) (\<lambda>_.
     bind_act (recv_print GetStreamLength_read_payload) (\<lambda>_.
     bind_act (recv_print PlayCommandMessage_read_payload) (\<lambda>_.
     bind_act (recv_drop UnknownMessage_read_payload) (\<lambda>_.
     bind_act send_chunk_size (\<lambda>_.
     bind_act (send_ignore SrcPCUCStreamBegin_write_payload 2 6 4 0) (\<lambda>_.
     bind_act (send_ignore (PullStreamOnStatus_write_payload (str ''onStatus'') (double_of_nat 0)
       PULL_ONSTATUS1) 5 154 20 1) (\<lambda>_.
     bind_act (send_ignore (PullStreamOnStatus_write_payload (str ''onStatus'') (double_of_nat 0)
       PULL_ONSTATUS2) 5 148 20 1) (\<lambda>_.
     bind_act (send_ignore RtmpSampleAccess_write_payload 5 24 18 1) (\<lambda>_.
     send_ignore PullStreamOnStatus3_write_payload 5 44 18 1)))))))))))"

text \<open>After the wait.\<close>

definition pull_metadata :: "(ctx, unit) act" where
  "pull_metadata = send_ignore (OnMetaData_write_payload (str ''onMetaData'')) 4 395 18 1"

definition push_setup :: "(ctx, unit) act" where
  "push_setup =
     bind_act (recv_print ReleaseStream_read_payload) (\<lambda>_.
     bind_act (send_ignore (ReleaseStreamResponse_write_payload (double_of_nat 2)) 3 21 20 0) (\<lambda>_.
     bind_act send_chunk_size (\<lambda>_.
     bind_act (recv_print FCPublish_read_payload) (\<lambda>_.
     bind_act (send_ignore (FCPublishResponse_write_payload (double_of_nat 3)) 3 21 20 0) (\<lambda>_.
     bind_act (recv_print CreateStream_read_payload) (\<lambda>_.
     bind_act (send_ignore (CreateStreamResponse_write_payload (double_of_nat 4) (double_of_nat 1))
       3 29 20 0) (\<lambda>_.
     bind_act (recv_drop CheckBW_read_payload) (\<lambda>_.
     bind_act (recv_drop UnknownMessage_read_payload) (\<lambda>_.
     bind_act (recv_drop Publish_read_payload) (\<lambda>_.
     bind_act (send_ignore (OnFCPublish_write_payload (double_of_nat 0)) 3 102 20 0) (\<lambda>_.
     bind_act (send_ignore (OnStatus_write_payload (double_of_nat 0)) 3 136 20 1) (\<lambda>_.
     recv_drop SetDataFrame_read_payload))))))))))))"

text \<open>
  One round of the publishing loop up to the yield: the buffer holds the message, and
  \<open>header_length\<close> says where its payload starts. After the yield the buffer is cleared.
\<close>

definition push_round :: "(ctx, unit) act" where
  "push_round =
     bind_act (set_bh_size 0) (\<lambda>_.
     bind_act (set_mh_size 0) (\<lambda>_.
     bind_act (ignore_act recv_audio_video) (\<lambda>_ c.
       Some (Ok (), csid_update (curr_csid c)
               (\<lambda>h. h\<lparr>header_length := of_nat (av_bh_size c + av_mh_size c)\<rparr>) c))))"

definition push_clear :: "(ctx, unit) act" where
  "push_clear = modify_act (\<lambda>c. c\<lparr>audio_video_buffer := []\<rparr>)"

text \<open>The whole thread up to the point where it only relays.\<close>

definition process_setup :: "(ctx, unit) act" where
  "process_setup =
     bind_act connect_phase (\<lambda>_.
     bind_act identify_phase (\<lambda>f.
     case f of Pull_flow \<Rightarrow> pull_setup | Push_flow \<Rightarrow> push_setup))"

section \<open>The relay\<close>

definition send_csid :: "byte \<Rightarrow> byte" where
  "send_csid mtype = (if mtype = 0x08 then 7 else if mtype = 0x09 then 6 else 0)"

definition relay_header :: "Message_Header \<Rightarrow> bytes" where
  "relay_header h =
     (let ts = timestamp h;
          tb = mem_of ts; lb = mem_of (message_length h); sb = mem_of (stream_id h)
      in [send_csid (message_type h)]
         @ (if sint ts \<ge> 0xFFFFFF then [0xff, 0xff, 0xff] else [tb ! 2, tb ! 1, tb ! 0])
         @ [lb ! 2, lb ! 1, lb ! 0, message_type h, sb ! 0, sb ! 1, sb ! 2, sb ! 3]
         @ (if sint ts \<ge> 0xFFFFFF then [tb ! 3, tb ! 2, tb ! 1, tb ! 0] else []))"

text \<open>
  The inner loop over the published buffer \<open>av\<close>: \<open>tps\<close> is \<open>totol_payload_send\<close>, \<open>len\<close> the length in
  \<open>iov[1]\<close>. The first write is counted with 12 header bytes whatever the header's length is.
\<close>

partial_function (option) relay_loop ::
  "Message_Header \<Rightarrow> bytes \<Rightarrow> int \<Rightarrow> int \<Rightarrow> ctx \<Rightarrow> (unit res \<times> ctx) option"
where
  "relay_loop h av tps len c =
     (let pos = sint (header_length h) + tps
      in if pos < int (length av)
         then
           (if pos < 0 \<or> len < 0 \<or> int (length av) + 1 < pos + len then Some (Fault OutOfBounds, c)
            else
              (case IO_Socket_writev
                      (Some [if tps = 0 then relay_header h
                             else [0xC0 OR send_csid (message_type h)],
                             take (nat len) (drop (nat pos) (av @ [0]))]) c of
                 None \<Rightarrow> None
               | Some (Fail, c') \<Rightarrow> Some (Fail, c')
               | Some (Fault e, c') \<Rightarrow> Some (Fault e, c')
               | Some (Ok nwrite, c') \<Rightarrow>
                   (let tps' = tps + (if tps = 0 then int nwrite - 12 else int nwrite - 1);
                        left = sint (message_length h) - tps'
                    in relay_loop h av tps' (if left < chunk_size c' then left else chunk_size c')
                         c')))
         else Some (Ok (), c))"

definition relay :: "Message_Header \<Rightarrow> bytes \<Rightarrow> (ctx, unit) act" where
  "relay h av c =
     relay_loop h av 0
       (if sint (message_length h) < chunk_size c then sint (message_length h) else chunk_size c) c"

section \<open>Declared lengths\<close>

text \<open>
  The lengths \<open>process_thread\<close> passes to \<open>write_message\<close> are literals; each is the length of the
  payload the class really writes.
\<close>

lemmas payload_defs = Send_Object_bytes_def ReleaseStreamResponse_bytes_def
  CreateStreamResponse_bytes_def OnFCPublish_bytes_def OnStatus_bytes_def StreamBegin_bytes_def
  PullStreamOnStatus_bytes_def RtmpSampleAccess_bytes_def PullStreamOnStatus3_bytes_def
  amf_objects_def amf_one_def amf_members_def amf_end_def Send_Object_Message_init_def
  OnFCPublish_init_def OnStatus_init_def PullStreamOnStatus_init_def Let_def

lemma literal_lengths:
  "length (ReleaseStreamResponse_bytes tid) = 21"
  "length (CreateStreamResponse_bytes tid sid) = 29"
  "length (OnFCPublish_bytes tid) = 102"
  "length (OnStatus_bytes tid) = 136"
  "length StreamBegin_bytes = 6"
  "length (PullStreamOnStatus_bytes (str ''onStatus'') tid PULL_ONSTATUS1) = 154"
  "length (PullStreamOnStatus_bytes (str ''onStatus'') tid PULL_ONSTATUS2) = 148"
  "length RtmpSampleAccess_bytes = 24"
  "length PullStreamOnStatus3_bytes = 44"
  by (simp_all add: payload_defs)

lemma computed_lengths:
  "Send_Object_Message_get_payload_size command type
     = int (length (Send_Object_bytes command tid type))"
  if "type = ON_BW_DONE \<or> type = CONNECT_APP_RESPONSE \<or> type = PULL_ONSTATUS3"
proof (cases "type = ON_BW_DONE")
  case True
  then show ?thesis
    by (simp add: Send_Object_Message_get_payload_size_def Send_Object_bytes_def amf_objects_def
        Send_Object_Message_init_def)
next
  case False
  then have "Send_Object_Message_init type \<noteq> []" using that
    by (auto simp: Send_Object_Message_init_def)
  with False show ?thesis
    using get_payload_size_eq [OF writable_init(1), of type command]
    by (simp add: Send_Object_Message_get_payload_size_def Send_Object_bytes_def)
qed

section \<open>Conversations\<close>

text \<open>A connection with nothing in its buffer, on which reading and writing do not fail.\<close>

definition idle :: "ctx \<Rightarrow> bool" where
  "idle c \<longleftrightarrow> rx_fine (net c) \<and> tx_fine (net c) \<and> io_buffer c = []"

text \<open>A message as the server sends it, in chunks of \<open>cs\<close> bytes.\<close>

definition message_bytes ::
  "nat \<Rightarrow> int \<Rightarrow> int32 \<Rightarrow> byte \<Rightarrow> int32 \<Rightarrow> bytes \<Rightarrow> bytes"
where
  "message_bytes cs csid ts mtype sid payload =
     header_bytes 0 csid ts (of_nat (length payload)) mtype sid
     @ chunked (fmt3_header csid) cs payload"

lemma pending_rx: "rx s' = rx s \<Longrightarrow> pending s' = pending s"
  by (simp add: pending_def)

lemma rx_fine_rx: "rx s' = rx s \<Longrightarrow> rx_fine s' = rx_fine s"
  by (simp add: rx_fine_def)

lemma length_basic_header: "length (basic_header_bytes fmt csid) \<le> 3"
  by (simp add: basic_header_bytes_def)

lemma length_header_bytes: "length (header_bytes fmt csid ts mlen mtype sid) \<le> 18"
  using length_basic_header [of fmt csid] by (auto simp: header_bytes_def)

lemma conn_of_simps [simp]:
  "pending (net (conn_of bs)) = bs" "sent (net (conn_of bs)) = []" "idle (conn_of bs)"
  "rx_fine (net (conn_of bs))" "tx_fine (net (conn_of bs))" "io_buffer (conn_of bs) = []"
  "chunk_size (conn_of bs) = 128" "rx_closed (net (conn_of bs)) = False"
  by (cases bs; simp add: conn_of_def Client_init_def pending_def idle_def rx_fine_def tx_fine_def)+

subsection \<open>Handshake\<close>

lemma read_nbytes_exact:
  assumes "rx_fine (net c)" and "length (io_buffer c) < n"
    and "pending (net c) = bs @ rest" and "length bs = n - length (io_buffer c)"
  shows "\<exists>s. read_nbytes n k c = Some (Ok (length bs), put bs (c\<lparr>net := s\<rparr>))
    \<and> pending s = rest \<and> rx_fine s \<and> tx s = tx (net c) \<and> sent s = sent (net c)"
proof -
  obtain s where s: "st_read_fully (length bs) (net c) = (Some (length bs), bs, s)"
    "pending s = rest" "rx_fine s"
    using st.rd_complete [OF assms(1), of "length bs"] assms(3) by auto
  then show ?thesis
    using assms(2,4) st_read_fully_prefix [OF s(1)]
    by (intro exI [of _ s]) (auto simp: read_nbytes_def buffer_size_def)
qed

lemma IO_Socket_write_complete:
  assumes "tx_fine (net c)"
  shows "\<exists>c'. IO_Socket_write bs c = Some (Ok (length bs), c') \<and> sends bs c c'"
proof -
  obtain r s where w: "st_write bs (net c) = (r, s)" by force
  obtain k where k: "sent s = sent (net c) @ take k bs" "\<forall>m. r = Some m \<longrightarrow> m = length bs \<and> m \<le> k"
    "rx s = rx (net c)" "rx_closed s = rx_closed (net c)"
    using st_write_sent(1) [OF w] by blast
  have r: "tx_fine s" "r = Some (length bs)" using st_write_sent(2) [OF w assms] by auto
  have "take k bs = bs" using k(2) r(2) by simp
  then have "sends bs c (c\<lparr>net := s\<rparr>)"
    unfolding sends_def using k(1,3,4) r(1) by (intro exI [of _ s]) simp
  with w r show ?thesis by (intro exI [of _ "c\<lparr>net := s\<rparr>"]) (simp add: IO_Socket_write_def)
qed

definition handshake_reply :: bytes where
  "handshake_reply = 0x03 # replicate 3072 0"

lemma handshake_ok:
  assumes "idle c" and "pending (net c) = 0x03 # c1 @ c2 @ rest"
    and "length c1 = 1536" and "length c2 = 1536"
  shows "\<exists>s. handshake c = Some (Ok (), c\<lparr>net := s\<rparr>) \<and> pending s = rest \<and> rx_fine s \<and> tx_fine s
    \<and> sent s = sent (net c) @ handshake_reply"
proof -
  have p: "pending (net c) = (0x03 # c1) @ c2 @ rest" using assms(2) by simp
  obtain s where s: "read_nbytes 1537 0 c = Some (Ok 1537, put (0x03 # c1) (c\<lparr>net := s\<rparr>))"
    "pending s = c2 @ rest" "rx_fine s" "tx s = tx (net c)" "sent s = sent (net c)"
    using read_nbytes_exact [OF _ _ p, of 1537 0] assms(1,3) by (auto simp: idle_def)
  let ?d = "put (0x03 # c1) (c\<lparr>net := s\<rparr>)"
  have "tx_fine (net ?d)" using assms(1) s(4) by (simp add: idle_def tx_fine_def)
  then obtain e where e: "IO_Socket_write handshake_reply ?d = Some (Ok (length handshake_reply), e)"
    "sends handshake_reply ?d e" using IO_Socket_write_complete by blast
  then obtain u where u: "e = ?d\<lparr>net := u\<rparr>" "sent u = sent (net c) @ handshake_reply" "tx_fine u" "rx u = rx s"
    using s(5) by (auto simp: sends_def)
  have "pending (net e) = c2 @ rest" "rx_fine (net e)" "io_buffer e = 0x03 # c1"
    using pending_rx [OF u(4)] rx_fine_rx [OF u(4)] s u(1) assms(1) by (simp_all add: idle_def)
  then obtain s' where s': "read_nbytes 3073 1537 e = Some (Ok 1536, put c2 (e\<lparr>net := s'\<rparr>))"
    "pending s' = rest" "rx_fine s'" "tx s' = tx (net e)" "sent s' = sent (net e)"
    using read_nbytes_exact [of e 3073 c2 rest 1537] assms(3,4) by auto
  have b: "io_buffer c = []" using assms(1) by (simp add: idle_def)
  then have "(put c2 (e\<lparr>net := s'\<rparr>))\<lparr>io_buffer := []\<rparr> = c\<lparr>net := s'\<rparr>"
    by (cases c) (simp add: u(1) put_def push_back_def)
  then have "handshake c = Some (Ok (), c\<lparr>net := s'\<rparr>)"
    using e(1) s'(1) b unfolding handshake_reply_def
    by (simp add: handshake_def bind_act_def s(1) peek_act_def lift_res_def put_def push_back_def
        clear_buffer_def modify_act_def buffer_clear_def)
  then show ?thesis using s' u by (intro exI [of _ s']) (simp add: tx_fine_def)
qed

lemma handshake_refuses:
  assumes "idle c" and "pending (net c) = b # c1 @ rest" and "length c1 = 1536" and "b \<noteq> 0x03"
  shows "\<exists>c'. handshake c = Some (Fail, c') \<and> sent (net c') = sent (net c)"
proof -
  have p: "pending (net c) = (b # c1) @ rest" using assms(2) by simp
  obtain s where s: "read_nbytes 1537 0 c = Some (Ok 1537, put (b # c1) (c\<lparr>net := s\<rparr>))"
    "sent s = sent (net c)"
    using read_nbytes_exact [OF _ _ p, of 1537 0] assms(1,3) by (auto simp: idle_def)
  then show ?thesis using assms(1,4)
    by (simp add: handshake_def bind_act_def peek_act_def lift_res_def put_def push_back_def
        idle_def fail_act_def)
qed

subsection \<open>Receiving\<close>

definition printable_object :: "amf_object \<Rightarrow> bool" where
  "printable_object kvs \<longleftrightarrow> list_all (\<lambda>(k, v). printable v) kvs"

lemma unat_of_nat_24: "n < 2 ^ 24 \<Longrightarrow> unat (of_nat n :: int32) = n"
  by (simp add: unsigned_of_nat take_bit_eq_mod)

subsection \<open>The connect phase\<close>

definition connect_reply :: "nat \<Rightarrow> bytes" where
  "connect_reply cs =
     message_bytes cs 2 0 5 0 (rev (mem_of (2500000 :: int32)))
     @ message_bytes cs 2 0 6 0 (rev (mem_of (2500000 :: int32)) @ [2])
     @ message_bytes cs 3 0 20 0
         (Send_Object_bytes (str ''_result'') (double_of_nat 1) CONNECT_APP_RESPONSE)
     @ message_bytes cs 3 0 20 0
         (Send_Object_bytes (str ''onBWDone'') (double_of_nat 0) ON_BW_DONE)"

lemma Send_Object_sizes:
  "length (Send_Object_bytes (str ''_result'') tid CONNECT_APP_RESPONSE) < 2 ^ 31"
  "length (Send_Object_bytes (str ''onBWDone'') tid ON_BW_DONE) < 2 ^ 31"
  "Send_Object_bytes command tid type \<noteq> []"
  by (simp_all add: payload_defs amf_command_def)

section \<open>What the relay sends\<close>

definition relay_fmt3 :: "Message_Header \<Rightarrow> byte" where
  "relay_fmt3 h = 0xC0 OR send_csid (message_type h)"

text \<open>The buffer \<open>av\<close> holds one whole message: \<open>header_length\<close> bytes of header, then the payload.\<close>

definition holds_message :: "Message_Header \<Rightarrow> bytes \<Rightarrow> bytes \<Rightarrow> bool" where
  "holds_message h av p \<longleftrightarrow>
     0 \<le> sint (header_length h) \<and> int (length av) = sint (header_length h) + int (length p)
     \<and> drop (nat (sint (header_length h))) av = p \<and> sint (message_length h) = int (length p)"

lemma length_relay_header:
  "length (relay_header h) = (if sint (timestamp h) \<ge> 0xFFFFFF then 16 else 12)"
  by (simp add: relay_header_def Let_def)

lemma relay_loop_done:
  assumes "holds_message h av p" and "int (length p) \<le> tps"
  shows "relay_loop h av tps len c = Some (Ok (), c)"
proof -
  have "\<not> sint (header_length h) + tps < int (length av)"
    using assms by (simp add: holds_message_def)
  then show ?thesis by (simp add: relay_loop.simps [of h av tps len c] Let_def)
qed

lemma relay_loop_step:
  assumes "tx_fine (net c)" and "holds_message h av p" and "0 < k" and "t + k \<le> length p"
    and "hb = (if t = 0 then relay_header h else [relay_fmt3 h])"
    and "t' = t + k + (if t = 0 then length (relay_header h) - 12 else 0)"
    and "left = int (length p) - int t'"
  shows "\<exists>c'. relay_loop h av (int t) (int k) c
      = relay_loop h av (int t') (if left < chunk_size c then left else chunk_size c) c'
    \<and> sends (hb @ take k (drop t p)) c c'"
proof -
  let ?H = "sint (header_length h)" and ?bs = "take k (drop t p)"
  have H: "0 \<le> ?H" "int (length av) = ?H + int (length p)" "drop (nat ?H) av = p"
    "sint (message_length h) = int (length p)" using assms(2) by (simp_all add: holds_message_def)
  have bs: "length ?bs = k" using assms(4) by simp
  have n: "nat (?H + int t) = nat ?H + t" using H(1) by (simp add: nat_add_distrib)
  have le: "nat ?H + t + k \<le> length av" using H(1,2) assms(4) by linarith
  have d: "take (nat (int k)) (drop (nat (?H + int t)) (av @ [0])) = ?bs"
  proof -
    have "take k (drop (nat ?H + t) (av @ [0])) = take k (drop (nat ?H + t) av)"
      using le by simp
    also have "\<dots> = ?bs" using H(3) by (metis add.commute drop_drop)
    finally show ?thesis unfolding n by simp
  qed
  obtain c' where c': "IO_Socket_writev (Some [hb, ?bs]) c = Some (Ok (length hb + k), c')"
    "sends (hb @ ?bs) c c'"
    using IO_Socket_writev_complete [OF assms(1), of "[hb, ?bs]"] bs by auto
  have cs: "chunk_size c' = chunk_size c" using c'(2) by (auto simp: sends_def)
  have i: "[if int t = 0 then relay_header h else [0xC0 OR send_csid (message_type h)], ?bs]
    = [hb, ?bs]" using assms(5) by (simp add: relay_fmt3_def)
  have tp: "int t + (if int t = 0 then int (length hb + k) - 12 else int (length hb + k) - 1) = int t'"
    using assms(5,6) by (simp add: length_relay_header)
  have g: "?H + int t < int (length av)"
    "\<not> (?H + int t < 0 \<or> int k < 0 \<or> int (length av) + 1 < ?H + int t + int k)"
    using H(1,2) assms(3,4) by linarith+
  show ?thesis using c'
    unfolding relay_loop.simps [of h av "int t" "int k" c] Let_def
    by (simp only: g if_True if_False d i option.case prod.case res.case tp cs H(4) assms(7)) blast
qed

lemma left_min:
  assumes "m \<le> n"
  shows "(if int n - int m < int cs then int n - int m else int cs) = int (min (n - m) cs)"
  using assms by (cases "n - m < cs") auto

lemma relay_loop_tail:
  assumes "tx_fine (net c)" and "holds_message h av p" and "chunk_size c = int cs" and "0 < cs"
    and "0 < t" and "t \<le> length p" and "q = drop t p"
  shows "\<exists>c'. relay_loop h av (int t) (int (min (length q) cs)) c = Some (Ok (), c')
    \<and> sends (fmt3_tail (relay_fmt3 h) cs q) c c'"
  using assms
proof (induction "relay_fmt3 h" cs q arbitrary: c t rule: fmt3_tail.induct)
  case (1 cs q)
  show ?case
  proof (cases "q = []")
    case True
    then have "int (length p) \<le> int t" using 1(8) by simp
    with 1 True show ?thesis using sends_refl [of c] by (simp add: relay_loop_done)
  next
    case False
    let ?k = "min (length q) cs" and ?f = "relay_fmt3 h"
    let ?l = "int (length p) - int (t + ?k)"
    have k: "0 < ?k" "t + ?k \<le> length p" using False 1 by auto
    have q: "take cs q = take ?k (drop t p)" using 1(8) by (simp add: min_def)
    have hb: "[?f] = (if t = 0 then relay_header h else [relay_fmt3 h])"
      "t + ?k = t + ?k + (if t = 0 then length (relay_header h) - 12 else 0)" using 1(6) by simp_all
    obtain c' where c': "relay_loop h av (int t) (int ?k) c
        = relay_loop h av (int (t + ?k)) (if ?l < int cs then ?l else int cs) c'"
      "sends ([?f] @ take cs q) c c'"
      using relay_loop_step [OF 1(2,3) k hb refl] unfolding q 1(4) by blast
    have d: "drop cs q = drop (t + ?k) p"
      using 1(8) by (cases "length q \<le> cs") (auto simp: min_def ac_simps)
    have l: "(if ?l < int cs then ?l else int cs) = int (min (length (drop cs q)) cs)"
      unfolding d length_drop by (rule left_min [OF k(2)])
    have cs: "tx_fine (net c')" "chunk_size c' = int cs"
      using c'(2) 1(4) by (auto simp: sends_def)
    have ne: "\<not> (q = [] \<or> cs = 0)" "0 < t + ?k" using False 1(5,6) by simp_all
    obtain c'' where c'': "relay_loop h av (int (t + ?k)) (int (min (length (drop cs q)) cs)) c'
        = Some (Ok (), c'')" "sends (fmt3_tail ?f cs (drop cs q)) c' c''"
      using 1(1) [OF ne(1) cs(1) 1(3) cs(2) 1(5) ne(2) k(2) d] by blast
    show ?thesis
      using c'(1) [unfolded l] c''(1) sends_trans [OF c'(2) c''(2)] False 1(5)
      by (intro exI [of _ c'']) (simp add: fmt3_tail_step)
  qed
qed

text \<open>
  The relay in general: with a 12-byte header the payload goes out whole; with a 16-byte header the
  four bytes after the first chunk are skipped.
\<close>

lemma relay_sends:
  assumes "tx_fine (net c)" and "holds_message h av p" and "chunk_size c = int cs" and "0 < cs"
    and "p \<noteq> []"
  shows "\<exists>c'. relay h av c = Some (Ok (), c')
    \<and> sends (relay_header h @ take cs p
        @ fmt3_tail (relay_fmt3 h) cs (drop (cs + (length (relay_header h) - 12)) p)) c c'"
proof -
  let ?k = "min (length p) cs" and ?x = "length (relay_header h) - 12"
  let ?l = "int (length p) - int (?k + ?x)"
  have k: "0 < ?k" "0 + ?k \<le> length p" using assms by auto
  have q: "take cs p = take ?k (drop 0 p)" by (simp add: min_def)
  have hb: "relay_header h = (if (0::nat) = 0 then relay_header h else [relay_fmt3 h])"
    "?k + ?x = 0 + ?k + (if (0::nat) = 0 then length (relay_header h) - 12 else 0)" by simp_all
  obtain c' where c': "relay_loop h av (int 0) (int ?k) c
      = relay_loop h av (int (?k + ?x)) (if ?l < int cs then ?l else int cs) c'"
    "sends (relay_header h @ take cs p) c c'"
    using relay_loop_step [OF assms(1,2) k hb refl] unfolding q assms(3) by blast
  have r: "relay h av c = relay_loop h av (int 0) (int ?k) c"
    using assms(2,3) by (auto simp: relay_def holds_message_def min_def)
  show ?thesis
  proof (cases "?k + ?x \<le> length p")
    case True
    let ?q = "drop (?k + ?x) p"
    have d: "drop (cs + ?x) p = ?q" using True by (cases "length p \<le> cs") (auto simp: min_def)
    have l: "(if ?l < int cs then ?l else int cs) = int (min (length ?q) cs)"
      unfolding length_drop by (rule left_min [OF True])
    have cs: "tx_fine (net c')" "chunk_size c' = int cs" "0 < ?k + ?x"
      using c'(2) assms(3) k(1) by (auto simp: sends_def)
    obtain c'' where "relay_loop h av (int (?k + ?x)) (int (min (length ?q) cs)) c'
        = Some (Ok (), c'')" "sends (fmt3_tail (relay_fmt3 h) cs ?q) c' c''"
      using relay_loop_tail [OF cs(1) assms(2) cs(2) assms(4) cs(3) True refl] by blast
    with c' r l d show ?thesis using sends_trans [OF c'(2)] by (intro exI [of _ c'']) simp
  next
    case False
    then have "relay_loop h av (int (?k + ?x)) (if ?l < int cs then ?l else int cs) c'
      = Some (Ok (), c')" by (intro relay_loop_done [OF assms(2)]) simp
    moreover have "drop (cs + ?x) p = []" using False by (auto simp: min_def split: if_splits)
    ultimately show ?thesis using c' r by (intro exI [of _ c']) simp
  qed
qed

lemma relay_header_12:
  assumes "sint (timestamp h) < 0xFFFFFF"
  shows "relay_header h = send_csid (message_type h) # be24 (timestamp h) @ be24 (message_length h)
    @ message_type h # mem_of (stream_id h)"
proof -
  have m: "\<exists>x y v u. mem_of (w :: int32) = [x, y, v, u]" for w by (simp add: mem_of_int32)
  obtain t0 t1 t2 t3 where t: "mem_of (timestamp h) = [t0, t1, t2, t3]" using m by blast
  obtain l0 l1 l2 l3 where l: "mem_of (message_length h) = [l0, l1, l2, l3]" using m by blast
  obtain s0 s1 s2 s3 where s: "mem_of (stream_id h) = [s0, s1, s2, s3]" using m by blast
  show ?thesis
    using assms by (simp add: relay_header_def Let_def t l s be24_def numeral_2_eq_2 numeral_3_eq_3)
qed

text \<open>In the two-byte form the id is 64 plus a signed byte, so the ids 192 to 319 are decoded as 256 less.\<close>

lemma two_byte_csid_signed:
  assumes "rx_fine (net c)" and "io_buffer c = []" and "pending (net c) = [0x00, b] @ rest"
  shows "\<exists>c'. read_basic_header c = Some (Ok (0, 64 + sint b, 2), c')
    \<and> (0x80 \<le> b \<longrightarrow> 64 + sint b = (64 + uint b) - 256)"
proof -
  obtain c1 where c1: "read_nbytes_cycle 1 0 c = Some (Ok 1, c1)" "io_buffer c1 = [0x00]"
    "pending (net c1) = b # rest" "rx_fine (net c1)"
    using io.need_enough [OF assms(1), of 1 0] assms(2,3) by auto
  obtain s where s: "read_nbytes 2 1 c1 = Some (Ok (length [b]), put [b] (c1\<lparr>net := s\<rparr>))"
    using read_nbytes_exact [OF c1(4), of 2 "[b]" rest 1] c1(2,3) by auto
  let ?d = "put [b] (c1\<lparr>net := s\<rparr>)"
  have "io_buffer ?d = [0x00, b]" using c1(2) by (simp add: put_def push_back_def)
  then have p: "peek_act io_buffer 1 ?d = Some (Ok b, ?d)" "peek_act io_buffer 0 c1 = Some (Ok 0x00, c1)"
    using c1(2) by (simp_all add: peek_act_def lift_res_def)
  have "read_basic_header c = Some (Ok (0, 64 + sint b, 2), ?d)"
    using c1(1) s p by (simp add: read_basic_header_def bind_act_def Let_def return_act_def del: One_nat_def)
  moreover have "0x80 \<le> b \<longrightarrow> 64 + sint b = (64 + uint b) - 256"
  proof
    assume "0x80 \<le> b"
    then have "128 \<le> uint b" "uint b < 256" using uint_lt2p [of b] by (simp_all add: word_le_def)
    then have "sint b = uint b - 256"
      by (simp add: sint_uint signed_take_bit_eq_take_bit_minus bit_iff_odd take_bit_eq_mod)
         presburger
    then show "64 + sint b = (64 + uint b) - 256" by simp
  qed
  ultimately show ?thesis by blast
qed

end
