(* ===== verification/Publish.thy ===== *)
theory Publish
  imports Client "HOL-Library.Sublist"
begin

text \<open>
  What the publishing loop makes of an audio or video message: the header is decoded into the entry
  of its chunk stream, the payload is put together from its chunks, and the buffer holds the header
  followed by the payload. Composed with the relay this gives what a player gets of a published
  message.
\<close>

section \<open>The header fields\<close>

text \<open>The fields of the chunk stream after a header of each format.\<close>

definition av_fields :: "int \<Rightarrow> int32 \<Rightarrow> int32 \<Rightarrow> byte \<Rightarrow> int32 \<Rightarrow> Message_Header \<Rightarrow> Message_Header" where
  "av_fields fmt ts mlen mtype sid h =
     (if fmt = 0 then h\<lparr>timestamp := ts + ts, timestamp_delta := ts, message_length := mlen,
                        message_type := mtype, stream_id := sid\<rparr>
      else if fmt = 1 then h\<lparr>timestamp := timestamp h + ts, timestamp_delta := ts,
                             message_length := mlen, message_type := mtype\<rparr>
      else if fmt = 2 then h\<lparr>timestamp := timestamp h + ts, timestamp_delta := ts\<rparr>
      else h\<lparr>timestamp := timestamp h + timestamp_delta h\<rparr>)"

definition same_globals :: "ctx \<Rightarrow> ctx \<Rightarrow> bool" where
  "same_globals c c' \<longleftrightarrow> chunk_size c' = chunk_size c \<and> io_buffer c' = io_buffer c
     \<and> set_data_frame c' = set_data_frame c \<and> tx (net c') = tx (net c) \<and> sent (net c') = sent (net c)"

lemma frame_av_globals: "frame_av d = frame_av c \<Longrightarrow> same_globals c d \<and> csid_header d = csid_header c
    \<and> curr_csid d = curr_csid c \<and> av_bh_size d = av_bh_size c \<and> av_mh_size d = av_mh_size c"
  by (simp add: frame_av_iff same_globals_def)

lemma ts_plain:
  assumes "unat (ts :: int32) < 0xFFFFFF"
  shows "sint ts < 0xFFFFFF" and "ts \<noteq> 0xFFFFFF" and "unat ts < 2 ^ 24"
proof -
  show u: "unat ts < 2 ^ 24" using assms by simp
  have "int (unat ts) < int 0xFFFFFF" using assms by (simp only: of_nat_less_iff)
  then show "sint ts < 0xFFFFFF" unfolding sint_small [OF u] by simp
  show "ts \<noteq> 0xFFFFFF" using assms by auto
qed

lemma av_basic_header:
  assumes "rx_fine (net c)" and "audio_video_buffer c = []"
    and "pending (net c) = basic_header_bytes fmt csid @ rest"
    and "2 \<le> csid" and "csid \<le> 63" and "0 \<le> fmt" and "fmt \<le> 3"
  shows "\<exists>c'. read_audio_video_basic_header c = Some (Ok fmt, c') \<and> curr_csid c' = csid
    \<and> av_bh_size c' = 1 \<and> audio_video_buffer c' = basic_header_bytes fmt csid
    \<and> pending (net c') = rest \<and> rx_fine (net c') \<and> csid_header c' = csid_header c \<and> same_globals c c'"
proof -
  obtain b where b: "basic_header_bytes fmt csid = [b]" "uint (b AND 0x3F) = csid"
    "uint (signed_drop_bit 6 b AND 3) = fmt"
    using basic_header_one assms(4-7) by metis
  let ?c = "c\<lparr>av_bh_size := 1\<rparr>"
  obtain d where d: "read_nbytes_cycle_av 1 0 ?c = Some (Ok 1, d)" "audio_video_buffer d = [b]"
    "pending (net d) = rest" "rx_fine (net d)" "frame_av d = frame_av ?c"
    using av.need_enough [of ?c 1 0] assms(1-3) b(1) by auto
  have "peek_act audio_video_buffer 0 d = Some (Ok b, d)" by (simp add: peek_act_def lift_res_def d(2))
  then have "read_audio_video_basic_header c = Some (Ok fmt, d\<lparr>curr_csid := csid\<rparr>)"
    using b(2,3) assms(4) d(1)
    by (simp add: read_audio_video_basic_header_def set_bh_size_def set_curr_csid_def modify_act_def
        bind_act_def Let_def return_act_def del: One_nat_def)
  then show ?thesis using d b(1) frame_av_globals [OF d(5)]
    by (intro exI [of _ "d\<lparr>curr_csid := csid\<rparr>"]) (simp add: same_globals_def)
qed

lemma av_fields_0:
  assumes "unat ts < 0xFFFFFF" and "unat mlen < 2 ^ 24"
  shows "add_delta (av_header_fields 0 (b # be24 ts @ be24 mlen @ mtype # mem_of sid) 1 h)
      = av_fields 0 ts mlen mtype sid h"
    and "timestamp_delta (av_header_fields 0 (b # be24 ts @ be24 mlen @ mtype # mem_of sid) 1 h) = ts"
proof -
  let ?b = "b # be24 ts @ be24 mlen @ mtype # mem_of sid"
  have f: "int24_at ?b 1 = ts" "int24_at ?b 4 = mlen" "?b ! 7 = mtype" "le32_at ?b 8 = sid"
    using int24_at_be24 [of ts "[b]"] int24_at_be24 [OF assms(2), of "b # be24 ts"] ts_plain [OF assms(1)]
      le32_at_mem_of [of "b # be24 ts @ be24 mlen @ [mtype]" sid "[]"]
    by (simp_all add: nth_append)
  show "add_delta (av_header_fields 0 ?b 1 h) = av_fields 0 ts mlen mtype sid h"
    "timestamp_delta (av_header_fields 0 ?b 1 h) = ts"
    by (cases h; simp add: av_header_fields_def av_fields_def add_delta_def Let_def f nth_append del: One_nat_def)+
qed

lemma av_fields_1:
  assumes "unat ts < 0xFFFFFF" and "unat mlen < 2 ^ 24"
  shows "add_delta (av_header_fields 1 (b # be24 ts @ be24 mlen @ [mtype]) 1 h)
      = av_fields 1 ts mlen mtype sid h"
    and "timestamp_delta (av_header_fields 1 (b # be24 ts @ be24 mlen @ [mtype]) 1 h) = ts"
proof -
  let ?b = "b # be24 ts @ be24 mlen @ [mtype]"
  have f: "int24_at ?b 1 = ts" "int24_at ?b 4 = mlen" "?b ! 7 = mtype"
    using int24_at_be24 [of ts "[b]"] int24_at_be24 [OF assms(2), of "b # be24 ts"] ts_plain [OF assms(1)]
    by (simp_all add: nth_append)
  show "add_delta (av_header_fields 1 ?b 1 h) = av_fields 1 ts mlen mtype sid h"
    "timestamp_delta (av_header_fields 1 ?b 1 h) = ts"
    using ts_plain [OF assms(1)]
    by (cases h; simp add: av_header_fields_def av_fields_def add_delta_def Let_def f nth_append del: One_nat_def)+
qed

lemma av_fields_2:
  assumes "unat ts < 0xFFFFFF"
  shows "add_delta (av_header_fields 2 (b # be24 ts) 1 h) = av_fields 2 ts mlen mtype sid h"
    and "timestamp_delta (av_header_fields 2 (b # be24 ts) 1 h) = ts"
  using int24_at_be24 [of ts "[b]" "[]"] ts_plain [OF assms]
  by (simp_all add: av_header_fields_def av_fields_def add_delta_def Let_def)

text \<open>The bytes of a message header behind the basic header, timestamp below 0xFFFFFF.\<close>

definition av_tail :: "int \<Rightarrow> int32 \<Rightarrow> int32 \<Rightarrow> byte \<Rightarrow> int32 \<Rightarrow> bytes" where
  "av_tail fmt ts mlen mtype sid =
     (if fmt = 0 then be24 ts @ be24 mlen @ mtype # mem_of sid
      else if fmt = 1 then be24 ts @ be24 mlen @ [mtype]
      else if fmt = 2 then be24 ts else [])"

lemma header_bytes_tail:
  assumes "unat ts < 0xFFFFFF" and "0 \<le> fmt" and "fmt \<le> 3"
  shows "header_bytes fmt csid ts mlen mtype sid = basic_header_bytes fmt csid @ av_tail fmt ts mlen mtype sid"
  using ts_plain [OF assms(1)] assms(2,3) by (auto simp: header_bytes_def av_tail_def)

lemma length_av_tail:
  assumes "0 \<le> fmt" and "fmt \<le> 3"
  shows "length (av_tail fmt ts mlen mtype sid) = mh_size_array ! nat fmt"
  by (rule fmt_cases [OF assms]) (simp_all add: av_tail_def mh_size_array_def)

lemma length_av_tail_le: "length (av_tail fmt ts mlen mtype sid) \<le> 11"
  by (simp add: av_tail_def)

lemma av_message_header:
  assumes "rx_fine (net c)" and "audio_video_buffer c = [b]"
    and "pending (net c) = av_tail fmt ts mlen mtype sid @ rest"
    and "unat ts < 0xFFFFFF" and "unat mlen < 2 ^ 24" and "0 \<le> fmt" and "fmt \<le> 3"
    and "fmt = 3 \<longrightarrow> csid_header c csid \<noteq> None"
  shows "\<exists>d. read_audio_video_message_header fmt csid 1 c
      = Some (Ok (), csid_update csid (av_fields fmt ts mlen mtype sid) d)
    \<and> audio_video_buffer d = b # av_tail fmt ts mlen mtype sid \<and> pending (net d) = rest
    \<and> rx_fine (net d) \<and> av_mh_size d = length (av_tail fmt ts mlen mtype sid) \<and> av_bh_size d = av_bh_size c
    \<and> csid_header d = csid_header c \<and> curr_csid d = curr_csid c \<and> same_globals c d"
proof -
  let ?t = "av_tail fmt ts mlen mtype sid" and ?n = "length (av_tail fmt ts mlen mtype sid)"
  let ?c = "c\<lparr>av_mh_size := ?n\<rparr>"
  have "\<exists>k d. read_nbytes_cycle_av (1 + ?n) 0 ?c = Some (Ok k, d) \<and> audio_video_buffer d = b # ?t
    \<and> pending (net d) = rest \<and> rx_fine (net d) \<and> frame_av d = frame_av ?c"
  proof (cases "fmt = 3")
    case True
    then show ?thesis using av.need_have [of "1 + ?n" ?c 0] assms(1-3) by (simp add: av_tail_def)
  next
    case False
    then have "0 < ?n" unfolding length_av_tail [OF assms(6,7)]
      by (rule_tac fmt_cases [OF assms(6,7)]) (simp_all add: mh_size_array_def)
    then show ?thesis using av.need_enough [of ?c "1 + ?n" 0] assms(1-3) by auto
  qed
  then obtain k d where d: "read_nbytes_cycle_av (1 + ?n) 0 ?c = Some (Ok k, d)"
    "audio_video_buffer d = b # ?t" "pending (net d) = rest" "rx_fine (net d)" "frame_av d = frame_av ?c"
    by blast
  note g = frame_av_globals [OF d(5)]
  have f: "add_delta (av_header_fields fmt (b # ?t) 1 h) = av_fields fmt ts mlen mtype sid h"
    "timestamp_delta (av_header_fields fmt (b # ?t) 1 h) \<noteq> 0xFFFFFF" if "fmt \<noteq> 3" for h
    using av_fields_0 [OF assms(4,5)] av_fields_1 [OF assms(4,5)] av_fields_2 [OF assms(4)]
      ts_plain(2) [OF assms(4)] fmt_cases [OF assms(6,7)] that by (auto simp: av_tail_def)
  have "read_audio_video_message_header fmt csid 1 c
      = Some (Ok (), csid_update csid (av_fields fmt ts mlen mtype sid) d)"
  proof (cases "fmt = 3")
    case True
    have "av_fields 3 ts mlen mtype sid = add_delta" by (auto simp: av_fields_def add_delta_def)
    then show ?thesis using True assms(8) d(1) g length_av_tail [OF assms(6,7), of ts mlen mtype sid]
      by (simp add: read_audio_video_message_header_def set_mh_size_def modify_act_def bind_act_def Let_def)
  next
    case False
    then show ?thesis using d(1,2) f [OF False] length_av_tail [OF assms(6,7), of ts mlen mtype sid]
      by (simp add: read_audio_video_message_header_def set_mh_size_def modify_act_def bind_act_def Let_def
          csid_update_def csid_at_def del: One_nat_def)
  qed
  then show ?thesis using d g by (intro exI [of _ d]) (simp add: same_globals_def)
qed

section \<open>A whole message\<close>

lemma csid_touch_update [simp]: "csid_touch k (csid_update k f c) = csid_update k f c"
  by (simp add: csid_touch_def csid_update_def csid_at_def)

lemma csid_at_update [simp]: "csid_at k (csid_update k f c) = f (csid_at k c)"
  by (simp add: csid_update_def csid_at_def)

lemma csid_update_av [simp]:
  "av_bh_size (csid_update k f c) = av_bh_size c" "av_mh_size (csid_update k f c) = av_mh_size c"
  "same_globals d (csid_update k f c) = same_globals d c"
  "csid_header (csid_update k f c) = (csid_header c)(k \<mapsto> f (csid_at k c))"
  by (simp_all add: csid_update_def same_globals_def)

lemma same_globals_trans: "same_globals a b \<Longrightarrow> same_globals b c \<Longrightarrow> same_globals a c"
  by (simp add: same_globals_def)

text \<open>What is asked of a message on the wire: header format, sizes and timestamps without extension.\<close>

definition av_sane :: "int \<Rightarrow> int \<Rightarrow> int32 \<Rightarrow> int32 \<Rightarrow> byte \<Rightarrow> int32 \<Rightarrow> bytes \<Rightarrow> ctx \<Rightarrow> bool" where
  "av_sane fmt csid ts mlen mtype sid p c \<longleftrightarrow>
     0 \<le> fmt \<and> fmt \<le> 3 \<and> 2 \<le> csid \<and> csid \<le> 63 \<and> unat ts < 0xFFFFFF \<and> unat mlen < 2 ^ 24
     \<and> (fmt = 3 \<longrightarrow> csid_header c csid \<noteq> None)
     \<and> message_length (av_fields fmt ts mlen mtype sid (csid_at csid c)) = of_nat (length p)
     \<and> length p < 2 ^ 24"

lemma recv_audio_video_ok:
  assumes "rx_fine (net c)" and "audio_video_buffer c = []" and "chunk_size c = int cs" and "0 < cs"
    and "av_sane fmt csid ts mlen mtype sid p c"
    and "pending (net c) = header_bytes fmt csid ts mlen mtype sid @ chunked f3 cs p @ rest"
  shows "\<exists>c'. recv_audio_video c = Some (Ok (), c')
    \<and> audio_video_buffer c' = header_bytes fmt csid ts mlen mtype sid @ p
    \<and> pending (net c') = rest \<and> rx_fine (net c') \<and> curr_csid c' = csid
    \<and> csid_header c' = (csid_header c)(csid \<mapsto> av_fields fmt ts mlen mtype sid (csid_at csid c))
    \<and> av_bh_size c' + av_mh_size c' = length (header_bytes fmt csid ts mlen mtype sid) \<and> same_globals c c'"
proof -
  let ?t = "av_tail fmt ts mlen mtype sid"
  have w: "0 \<le> fmt" "fmt \<le> 3" "2 \<le> csid" "csid \<le> 63" "unat ts < 0xFFFFFF" "unat mlen < 2 ^ 24"
    "fmt = 3 \<longrightarrow> csid_header c csid \<noteq> None" "length p < 2 ^ 24"
    "message_length (av_fields fmt ts mlen mtype sid (csid_at csid c)) = of_nat (length p)"
    using assms(5) by (simp_all add: av_sane_def)
  note h = header_bytes_tail [OF w(5,1,2), of csid mlen mtype sid]
  obtain b where b: "basic_header_bytes fmt csid = [b]" using basic_header_one [OF w(3,4,1,2)] by metis
  obtain c1 where c1: "read_audio_video_basic_header c = Some (Ok fmt, c1)" "curr_csid c1 = csid"
    "av_bh_size c1 = 1" "audio_video_buffer c1 = [b]" "pending (net c1) = ?t @ chunked f3 cs p @ rest"
    "rx_fine (net c1)" "csid_header c1 = csid_header c" "same_globals c c1"
    using av_basic_header [OF assms(1,2) _ w(3,4,1,2)] assms(6) h b by auto
  obtain d where d: "read_audio_video_message_header fmt csid 1 c1
      = Some (Ok (), csid_update csid (av_fields fmt ts mlen mtype sid) d)"
    "audio_video_buffer d = b # ?t" "pending (net d) = chunked f3 cs p @ rest" "rx_fine (net d)"
    "av_mh_size d = length ?t" "av_bh_size d = 1" "csid_header d = csid_header c" "curr_csid d = csid"
    "same_globals c1 d"
    using av_message_header [OF c1(6,4,5) w(5,6,1,2), of csid] w(7) c1(2,3,7) by auto
  let ?e = "csid_update csid (av_fields fmt ts mlen mtype sid) d"
  have g: "same_globals c ?e" using same_globals_trans [OF c1(8) d(9)] by simp
  have at: "csid_at csid d = csid_at csid c" using d(7) by (simp add: csid_at_def)
  have len: "sint (message_length (csid_at csid ?e)) = int (length p)"
    using sint_small [of "of_nat (length p)"] unat_of_nat_24 [OF w(8)] w(8,9) at by simp
  have "length (audio_video_buffer ?e) + length p + 1 < 2 ^ 64"
    using w(8) length_av_tail_le [of fmt ts mlen mtype sid] d(2) by simp
  from av.loop_unchunks [of ?e cs f3 p rest, OF _ assms(4) _ this] obtain c' where c':
    "payload_loop read_nbytes_cycle_av audio_video_buffer set_av_buffer (int (length p)) (int cs) 0 ?e = Some (Ok (), c')"
    "audio_video_buffer c' = (b # ?t) @ p" "pending (net c') = rest" "rx_fine (net c')" "frame_av c' = frame_av ?e"
    using d(2-4) by auto
  have "recv_audio_video c = Some (Ok (), c')"
    using c1(1-3) d(1,8) c'(1) len g assms(3)
    by (simp add: recv_audio_video_def bind_act_def recv_audio_video_payload_def same_globals_def del: One_nat_def)
  moreover note frame_av_globals [OF c'(5)]
  ultimately show ?thesis using c' d b h g at same_globals_trans [of c ?e c']
    by (intro exI [of _ c']) simp
qed

section \<open>One round of the publishing loop\<close>

record avmsg =
  m_fmt :: int
  m_csid :: int
  m_ts :: int32
  m_len :: int32
  m_type :: byte
  m_sid :: int32
  m_f3 :: byte
  m_payload :: bytes

definition av_head :: "avmsg \<Rightarrow> bytes" where
  "av_head m = header_bytes (m_fmt m) (m_csid m) (m_ts m) (m_len m) (m_type m) (m_sid m)"

definition av_wire :: "nat \<Rightarrow> avmsg \<Rightarrow> bytes" where
  "av_wire cs m = av_head m @ chunked (m_f3 m) cs (m_payload m)"

text \<open>The entry of the chunk stream when the message has been received, with \<open>header_length\<close>.\<close>

definition av_entry :: "avmsg \<Rightarrow> Message_Header \<Rightarrow> Message_Header" where
  "av_entry m h = (av_fields (m_fmt m) (m_ts m) (m_len m) (m_type m) (m_sid m) h)
     \<lparr>header_length := of_nat (length (av_head m))\<rparr>"

definition av_ok :: "avmsg \<Rightarrow> ctx \<Rightarrow> bool" where
  "av_ok m = av_sane (m_fmt m) (m_csid m) (m_ts m) (m_len m) (m_type m) (m_sid m) (m_payload m)"

lemma length_av_head:
  assumes "av_ok m c"
  shows "length (av_head m) \<le> 18"
  by (simp add: av_head_def length_header_bytes)

lemma sint_le18: "n \<le> 18 \<Longrightarrow> sint (of_nat n :: int32) = int n"
  using sint_small [of "of_nat n"] unat_of_nat_24 [of n] by simp

lemma av_entry_holds:
  assumes "av_ok m c"
  shows "holds_message (av_entry m (csid_at (m_csid m) c)) (av_head m @ m_payload m) (m_payload m)"
proof -
  have l: "length (m_payload m) < 2 ^ 24" "message_length (av_fields (m_fmt m) (m_ts m) (m_len m) (m_type m)
      (m_sid m) (csid_at (m_csid m) c)) = of_nat (length (m_payload m))"
    using assms by (simp_all add: av_ok_def av_sane_def)
  have "sint (of_nat (length (m_payload m)) :: int32) = int (length (m_payload m))"
    using sint_small [of "of_nat (length (m_payload m))"] unat_of_nat_24 [OF l(1)] l(1) by simp
  then show ?thesis using l(2) sint_le18 [OF length_av_head [OF assms]]
    by (simp add: holds_message_def av_entry_def)
qed

lemma push_round_ok:
  assumes "rx_fine (net c)" and "audio_video_buffer c = []" and "chunk_size c = int cs" and "0 < cs"
    and "av_ok m c" and "pending (net c) = av_wire cs m @ rest"
  shows "\<exists>c'. push_round c = Some (Ok (), c') \<and> audio_video_buffer c' = av_head m @ m_payload m
    \<and> pending (net c') = rest \<and> rx_fine (net c') \<and> curr_csid c' = m_csid m
    \<and> csid_header c' = (csid_header c)(m_csid m \<mapsto> av_entry m (csid_at (m_csid m) c)) \<and> same_globals c c'"
proof -
  let ?c = "c\<lparr>av_bh_size := 0, av_mh_size := 0\<rparr>"
  have at: "csid_at k ?c = csid_at k c" for k by (simp add: csid_at_def)
  have "av_ok m ?c" using assms(5) by (simp add: av_ok_def av_sane_def at)
  then obtain d where d: "recv_audio_video ?c = Some (Ok (), d)" "audio_video_buffer d = av_head m @ m_payload m"
    "pending (net d) = rest" "rx_fine (net d)" "curr_csid d = m_csid m"
    "csid_header d = (csid_header c)(m_csid m \<mapsto> av_fields (m_fmt m) (m_ts m) (m_len m) (m_type m) (m_sid m)
        (csid_at (m_csid m) c))"
    "av_bh_size d + av_mh_size d = length (av_head m)" "same_globals c d"
    using recv_audio_video_ok [of ?c cs "m_fmt m" "m_csid m" "m_ts m" "m_len m" "m_type m" "m_sid m"
        "m_payload m" "m_f3 m" rest] assms(1-4,6)
    by (auto simp: av_ok_def av_wire_def av_head_def at same_globals_def)
  let ?d = "csid_update (m_csid m) (\<lambda>h. h\<lparr>header_length := of_nat (length (av_head m))\<rparr>) d"
  have "push_round c = Some (Ok (), ?d)"
    using d(1,5,7) by (simp add: push_round_def set_bh_size_def set_mh_size_def modify_act_def bind_act_def
        ignore_act_def del: of_nat_add)
  then show ?thesis using d by (intro exI [of _ ?d]) (simp add: av_entry_def csid_at_def)
qed

section \<open>The room: a publisher and a player\<close>

text \<open>
  The two loops of \<open>process_thread\<close> share the globals, here those in the publisher's context, and run
  from yield to yield. While nothing arrives the publisher stays in its first read. \<open>ptr\<close> is whether \<open>consumers.begin()->second\<close> is set. A step is a round of the
  publisher up to \<open>st_usleep(0)\<close>, the rest of the round (the buffer is cleared), or a round of the
  player's loop. Messages are taken to arrive whole, and the player's socket takes what is written;
  \<open>seen\<close> and \<open>told\<close> record which messages were published and which of them were relayed.
\<close>

datatype phase = Receiving | Published

record room =
  pub :: ctx
  ply :: ctx
  ptr :: bool
  phase :: phase
  seen :: "(Message_Header \<times> bytes) list"
  told :: "(Message_Header \<times> bytes) list"

definition current_header :: "ctx \<Rightarrow> Message_Header" where
  "current_header c = csid_at (curr_csid c) c"

inductive room_step :: "room \<Rightarrow> room \<Rightarrow> bool" where
  publish: "\<lbrakk>phase r = Receiving; pending (net (pub r)) \<noteq> []; push_round (pub r) = Some (Ok (), c)\<rbrakk> \<Longrightarrow>
    room_step r (r\<lparr>pub := c, ptr := True, phase := Published,
      seen := seen r @ [(current_header c, drop (nat (sint (header_length (current_header c)))) (audio_video_buffer c))]\<rparr>)"
| clear: "\<lbrakk>phase r = Published; push_clear (pub r) = Some (Ok (), c)\<rbrakk> \<Longrightarrow>
    room_step r (r\<lparr>pub := c, phase := Receiving\<rparr>)"
| wait: "\<not> ptr r \<Longrightarrow> room_step r r"
| deliver: "\<lbrakk>ptr r; relay (current_header (pub r)) (audio_video_buffer (pub r)) (ply r) = Some (Ok (), q)\<rbrakk> \<Longrightarrow>
    room_step r (r\<lparr>ply := q, ptr := False,
      told := (if phase r = Published then told r @ [last (seen r)] else told r)\<rparr>)"

inductive room_run :: "room \<Rightarrow> room \<Rightarrow> bool" for r0 where
  run_start: "room_run r0 r0"
| run_step: "room_run r0 r \<Longrightarrow> room_step r r' \<Longrightarrow> room_run r0 r'"

inductive_cases room_stepE: "room_step r r'"

text \<open>What the player gets of one message.\<close>

definition relayed :: "nat \<Rightarrow> Message_Header \<times> bytes \<Rightarrow> bytes" where
  "relayed cs = (\<lambda>(h, p). if p = [] then [] else relay_header h @ take cs p
     @ fmt3_tail (relay_fmt3 h) cs (drop (cs + (length (relay_header h) - 12)) p))"

fun stream_ok :: "ctx \<Rightarrow> avmsg list \<Rightarrow> bool" where
  "stream_ok c [] = True"
| "stream_ok c (m # ms) = (av_ok m c \<and> stream_ok (csid_update (m_csid m) (av_entry m) c) ms)"

fun entries :: "ctx \<Rightarrow> avmsg list \<Rightarrow> (Message_Header \<times> bytes) list" where
  "entries c [] = []"
| "entries c (m # ms) = (av_entry m (csid_at (m_csid m) c), m_payload m)
     # entries (csid_update (m_csid m) (av_entry m) c) ms"

lemma stream_cong:
  "csid_header d = csid_header c \<Longrightarrow> stream_ok d ms = stream_ok c ms \<and> entries d ms = entries c ms"
proof (induction ms arbitrary: c d)
  case (Cons m ms)
  have at: "csid_at k d = csid_at k c" for k using Cons.prems by (simp add: csid_at_def)
  then show ?case using Cons.prems Cons.IH [of "csid_update (m_csid m) (av_entry m) d" "csid_update (m_csid m) (av_entry m) c"]
    by (simp add: av_ok_def av_sane_def)
qed simp

definition room_inv :: "nat \<Rightarrow> nat \<Rightarrow> (Message_Header \<times> bytes) list \<Rightarrow> bytes \<Rightarrow> room \<Rightarrow> bool" where
  "room_inv cs pcs all s0 r \<longleftrightarrow>
     rx_fine (net (pub r)) \<and> chunk_size (pub r) = int cs \<and> tx_fine (net (ply r)) \<and> chunk_size (ply r) = int pcs
     \<and> (\<exists>ms. pending (net (pub r)) = concat (map (av_wire cs) ms) \<and> stream_ok (pub r) ms
          \<and> all = seen r @ entries (pub r) ms)
     \<and> (phase r = Receiving \<longrightarrow> audio_video_buffer (pub r) = [])
     \<and> (phase r = Published \<longrightarrow> (\<exists>sn p. seen r = sn @ [(current_header (pub r), p)]
          \<and> holds_message (current_header (pub r)) (audio_video_buffer (pub r)) p
          \<and> (ptr r \<longrightarrow> subseq (told r) sn)))
     \<and> (ptr r \<longrightarrow> 0 \<le> sint (header_length (current_header (pub r))))
     \<and> subseq (told r) (seen r)
     \<and> sent (net (ply r)) = s0 @ concat (map (relayed pcs) (told r))"

lemma relay_whole:
  assumes "tx_fine (net q)" and "holds_message h av p" and "chunk_size q = int cs" and "0 < cs"
  shows "\<exists>q'. relay h av q = Some (Ok (), q') \<and> sends (relayed cs (h, p)) q q'"
proof (cases "p = []")
  case True
  then show ?thesis using relay_loop_done [OF assms(2), of 0] assms(1)
    by (auto simp: relay_def relayed_def sends_def intro: exI [of _ "net q"])
next
  case False
  then show ?thesis using relay_sends [OF assms(1-4)] by (simp add: relayed_def)
qed

lemma relay_nothing:
  assumes "0 \<le> sint (header_length h)"
  shows "relay h [] q = Some (Ok (), q)"
  using assms by (simp add: relay_def relay_loop.simps Let_def)

lemma room_publish:
  assumes "room_inv cs pcs all s0 r" and "0 < cs" and "phase r = Receiving" and "pending (net (pub r)) \<noteq> []"
    and "push_round (pub r) = Some (Ok (), c)"
  shows "room_inv cs pcs all s0 (r\<lparr>pub := c, ptr := True, phase := Published,
      seen := seen r @ [(current_header c, drop (nat (sint (header_length (current_header c)))) (audio_video_buffer c))]\<rparr>)"
proof -
  note i = assms(1) [unfolded room_inv_def]
  obtain ms where ms: "pending (net (pub r)) = concat (map (av_wire cs) ms)" "stream_ok (pub r) ms"
    "all = seen r @ entries (pub r) ms" using i by blast
  then obtain m ns where m: "ms = m # ns" using assms(4) by (cases ms) auto
  have ok: "av_ok m (pub r)" using ms(2) m by simp
  let ?h = "av_entry m (csid_at (m_csid m) (pub r))"
  have pre: "rx_fine (net (pub r))" "audio_video_buffer (pub r) = []" "chunk_size (pub r) = int cs"
    "pending (net (pub r)) = av_wire cs m @ concat (map (av_wire cs) ns)"
    using i assms(3) ms(1) m by auto
  have c: "audio_video_buffer c = av_head m @ m_payload m" "pending (net c) = concat (map (av_wire cs) ns)"
    "rx_fine (net c)" "curr_csid c = m_csid m" "csid_header c = (csid_header (pub r))(m_csid m \<mapsto> ?h)"
    "same_globals (pub r) c"
    using push_round_ok [OF pre(1-3) assms(2) ok pre(4)] assms(5) by auto
  have h: "current_header c = ?h" using c(4,5) by (simp add: current_header_def csid_at_def)
  note hm = av_entry_holds [OF ok]
  have s: "stream_ok c ns" "entries (pub r) ms = (?h, m_payload m) # entries c ns"
    using stream_cong [of c "csid_update (m_csid m) (av_entry m) (pub r)" ns] ms(2) m c(5) by simp_all
  have "drop (nat (sint (header_length ?h))) (audio_video_buffer c) = m_payload m"
    "0 \<le> sint (header_length ?h)" using hm c(1) by (simp_all add: holds_message_def)
  then show ?thesis unfolding room_inv_def using i c s h hm ms(3)
    by (auto simp: same_globals_def intro!: exI [of _ ns])
qed

lemma room_deliver:
  assumes "room_inv cs pcs all s0 r" and "0 < pcs" and "ptr r"
    and "relay (current_header (pub r)) (audio_video_buffer (pub r)) (ply r) = Some (Ok (), q)"
  shows "room_inv cs pcs all s0 (r\<lparr>ply := q, ptr := False,
      told := (if phase r = Published then told r @ [last (seen r)] else told r)\<rparr>)"
proof -
  note i = assms(1) [unfolded room_inv_def]
  show ?thesis
  proof (cases "phase r = Published")
    case True
    then obtain sn p where sn: "seen r = sn @ [(current_header (pub r), p)]" "subseq (told r) sn"
      "holds_message (current_header (pub r)) (audio_video_buffer (pub r)) p" using i assms(3) by blast
    have "sends (relayed pcs (current_header (pub r), p)) (ply r) q"
      using relay_whole [OF _ sn(3) _ assms(2), of "ply r"] i assms(4) by auto
    then have q: "tx_fine (net q)" "chunk_size q = int pcs"
      "sent (net q) = sent (net (ply r)) @ relayed pcs (current_header (pub r), p)"
      using i by (auto simp: sends_def)
    have "subseq (told r @ [(current_header (pub r), p)]) (seen r)"
      unfolding sn(1) by (rule list_emb_append_mono [OF sn(2)]) simp
    then show ?thesis unfolding room_inv_def using i q sn True by simp
  next
    case False
    then have "audio_video_buffer (pub r) = []" using i by (cases "phase r") auto
    then have "q = ply r" using relay_nothing [of "current_header (pub r)" "ply r"] i assms(3,4) by simp
    then show ?thesis unfolding room_inv_def using i False by simp
  qed
qed

lemma room_step_inv:
  assumes "room_step r r'" and "room_inv cs pcs all s0 r" and "0 < cs" and "0 < pcs"
  shows "room_inv cs pcs all s0 r'"
  using assms(1)
proof (cases rule: room_step.cases)
  case (publish c)
  then show ?thesis using room_publish [OF assms(2,3)] by blast
next
  case (clear c)
  then have c: "c = (pub r)\<lparr>audio_video_buffer := []\<rparr>" by (simp add: push_clear_def modify_act_def)
  have "csid_header c = csid_header (pub r)" "current_header c = current_header (pub r)"
    by (simp_all add: c current_header_def csid_at_def)
  then show ?thesis using assms(2) clear stream_cong [of c "pub r"] unfolding room_inv_def
    by (simp add: c)
next
  case wait
  then show ?thesis using assms(2) by simp
next
  case (deliver q)
  then show ?thesis using room_deliver [OF assms(2,4)] by blast
qed

lemma room_run_inv:
  "room_run r0 r \<Longrightarrow> room_inv cs pcs all s0 r0 \<Longrightarrow> 0 < cs \<Longrightarrow> 0 < pcs \<Longrightarrow> room_inv cs pcs all s0 r"
  by (induction rule: room_run.induct) (auto intro: room_step_inv)

text \<open>A publisher whose messages are on the wire and a player that has joined.\<close>

definition room_start :: "ctx \<Rightarrow> ctx \<Rightarrow> room" where
  "room_start c q = \<lparr>pub = c, ply = q, ptr = False, phase = Receiving, seen = [], told = []\<rparr>"

lemma room_start_inv:
  assumes "rx_fine (net c)" and "chunk_size c = int cs" and "audio_video_buffer c = []"
    and "pending (net c) = concat (map (av_wire cs) ms)" and "stream_ok c ms"
    and "tx_fine (net q)" and "chunk_size q = int pcs"
  shows "room_inv cs pcs (entries c ms) (sent (net q)) (room_start c q)"
  using assms by (auto simp: room_inv_def room_start_def)

section \<open>The schedule that loses nothing, and the one that overruns\<close>

lemma room_run_trans: "room_run r0 r \<Longrightarrow> room_step r r1 \<Longrightarrow> room_step r1 r2 \<Longrightarrow> room_step r2 r3 \<Longrightarrow> room_run r0 r3"
  by (meson run_step)

lemma lockstep:
  assumes "room_inv cs pcs all s0 r" and "0 < cs" and "0 < pcs" and "phase r = Receiving"
    and "told r = seen r" and "room_run r0 r"
  shows "\<exists>r'. room_run r0 r' \<and> seen r' = all \<and> told r' = all"
proof -
  obtain ms where "pending (net (pub r)) = concat (map (av_wire cs) ms)" "stream_ok (pub r) ms"
    "all = seen r @ entries (pub r) ms" using assms(1) unfolding room_inv_def by blast
  then show ?thesis using assms(1,4-6)
  proof (induction ms arbitrary: r)
    case (Cons m ms)
    let ?cs = "concat (map (av_wire cs) ms)"
    have pre: "rx_fine (net (pub r))" "audio_video_buffer (pub r) = []" "chunk_size (pub r) = int cs" "av_ok m (pub r)"
      "pending (net (pub r)) = av_wire cs m @ ?cs" using Cons.prems by (auto simp: room_inv_def)
    obtain c where c: "push_round (pub r) = Some (Ok (), c)" "audio_video_buffer c = av_head m @ m_payload m"
      "curr_csid c = m_csid m" "pending (net c) = ?cs"
      "csid_header c = (csid_header (pub r))(m_csid m \<mapsto> av_entry m (csid_at (m_csid m) (pub r)))"
      using push_round_ok [OF pre(1-3) assms(2) pre(4,5)] by blast
    let ?h = "av_entry m (csid_at (m_csid m) (pub r))"
    have h: "current_header c = ?h" using c(3,5) by (simp add: current_header_def csid_at_def)
    have hm: "holds_message ?h (audio_video_buffer c) (m_payload m)" using av_entry_holds [OF pre(4)] c(2) by simp
    have ne: "pending (net (pub r)) \<noteq> []" using pre(5)
      by (auto simp: av_wire_def av_head_def header_bytes_def basic_header_bytes_def)
    let ?r1 = "r\<lparr>pub := c, ptr := True, phase := Published,
      seen := seen r @ [(current_header c, drop (nat (sint (header_length (current_header c)))) (audio_video_buffer c))]\<rparr>"
    have s1: "room_step r ?r1" by (rule publish [OF Cons.prems(5) ne c(1)])
    obtain q where q: "relay (current_header c) (audio_video_buffer c) (ply r) = Some (Ok (), q)"
      using relay_whole [OF _ hm _ assms(3), of "ply r"] h Cons.prems(4) by (auto simp: room_inv_def)
    let ?r2 = "?r1\<lparr>ply := q, ptr := False, told := told r @ [last (seen ?r1)]\<rparr>"
    have s2: "room_step ?r1 ?r2" using deliver [of ?r1 q] q by simp
    let ?r3 = "?r2\<lparr>pub := c\<lparr>audio_video_buffer := []\<rparr>, phase := Receiving\<rparr>"
    have s3: "room_step ?r2 ?r3" using clear [of ?r2 "c\<lparr>audio_video_buffer := []\<rparr>"]
      by (simp add: push_clear_def modify_act_def)
    have e: "drop (nat (sint (header_length ?h))) (audio_video_buffer c) = m_payload m"
      using hm by (simp add: holds_message_def)
    have inv3: "room_inv cs pcs all s0 ?r3"
      by (intro room_step_inv [OF s3] room_step_inv [OF s2] room_step_inv [OF s1] Cons.prems(4) assms(2,3))
    have "stream_ok (pub ?r3) ms" "entries (pub r) (m # ms) = (?h, m_payload m) # entries (pub ?r3) ms"
      using stream_cong [of "c\<lparr>audio_video_buffer := []\<rparr>" "csid_update (m_csid m) (av_entry m) (pub r)" ms]
        Cons.prems(2) c(5) by simp_all
    then show ?case using Cons.IH [of ?r3] Cons.prems(3,6) inv3 c(4) h e
        room_run_trans [OF Cons.prems(7) s1 s2 s3] by simp
  qed auto
qed

text \<open>
  When the player's turn comes while the publisher is still receiving the next message (the pointer
  of the last one was not taken), the payload is not all there and the loop reads past the buffer.
\<close>

lemma relay_overrun:
  assumes "0 \<le> sint (header_length h)" and "sint (header_length h) < int (length av)"
    and "int (length av) + 1 < sint (header_length h) + min (sint (message_length h)) (chunk_size c)"
  shows "relay h av c = Some (Fault OutOfBounds, c)"
  using assms by (simp add: relay_def relay_loop.simps Let_def min_def split: if_splits)

text \<open>In every interleaving the player gets a subsequence of what was published.\<close>

lemma player_gets_subsequence:
  assumes "rx_fine (net c)" and "chunk_size c = int cs" and "0 < cs" and "audio_video_buffer c = []"
    and "pending (net c) = concat (map (av_wire cs) ms)" and "stream_ok c ms"
    and "tx_fine (net q)" and "chunk_size q = int pcs" and "0 < pcs"
    and "room_run (room_start c q) r"
  shows "\<exists>ds. subseq ds (entries c ms) \<and> sent (net (ply r)) = sent (net q) @ concat (map (relayed pcs) ds)"
proof -
  have "room_inv cs pcs (entries c ms) (sent (net q)) r"
    by (rule room_run_inv [OF assms(10) room_start_inv [OF assms(1,2,4-8)] assms(3,9)])
  then have t: "subseq (told r) (seen r)" "\<exists>ms'. entries c ms = seen r @ entries (pub r) ms'"
    "sent (net (ply r)) = sent (net q) @ concat (map (relayed pcs) (told r))"
    by (auto simp: room_inv_def)
  then have "subseq (told r) (entries c ms)" by auto
  with t(3) show ?thesis by blast
qed

end
