(* ===== verification/Slow_Player.thy ===== *)
theory Slow_Player
  imports Publish
begin

text \<open>
  The relay of \<^verbatim>\<open>client.cpp\<close> once more, for a player that is slow: when the send buffer of its connection is full the
  write of a chunk blocks, other threads run, and the loop goes on with what the globals are by then. \<open>w i\<close> is the chunk
  stream entry and the buffer the loop finds at its round \<open>i\<close>; \<open>pos\<close> is the distance from the start of the buffer, which is
  taken to stay where it is in memory, and the chunk on its way is taken to be sent as it was.
\<close>

partial_function (option) relay_rounds ::
  "(nat \<Rightarrow> Message_Header \<times> bytes) \<Rightarrow> nat \<Rightarrow> int \<Rightarrow> int \<Rightarrow> int \<Rightarrow> ctx \<Rightarrow> (unit res \<times> ctx) option"
where
  "relay_rounds w i pos tps len c =
     (let h = fst (w i); av = snd (w i); h' = fst (w (Suc i))
      in if pos < int (length av)
         then
           (if pos < 0 \<or> len < 0 \<or> int (length av) + 1 < pos + len then Some (Fault OutOfBounds, c)
            else
              (case IO_Socket_writev
                      (Some [if pos = sint (header_length h) then relay_header h else [0xC0 OR send_csid (message_type h)],
                             take (nat len) (drop (nat pos) (av @ [0]))]) c of
                 None \<Rightarrow> None
               | Some (Fail, c') \<Rightarrow> Some (Fail, c')
               | Some (Fault e, c') \<Rightarrow> Some (Fault e, c')
               | Some (Ok nwrite, c') \<Rightarrow>
                   (let tps' = tps + (if pos = sint (header_length h') then int nwrite - 12 else int nwrite - 1);
                        left = sint (message_length h') - tps'
                    in relay_rounds w (Suc i) (sint (header_length h') + tps') tps'
                         (if left < chunk_size c' then left else chunk_size c') c')))
         else Some (Ok (), c))"

definition relay_slow :: "(nat \<Rightarrow> Message_Header \<times> bytes) \<Rightarrow> (ctx, unit) act" where
  "relay_slow w c =
     (let h = fst (w 0)
      in relay_rounds w 0 (sint (header_length h)) 0
           (if sint (message_length h) < chunk_size c then sint (message_length h) else chunk_size c) c)"

section \<open>When nothing changes\<close>

text \<open>With the same entry and buffer in every round this is the loop of theory \<open>Client\<close>.\<close>

lemma relay_rounds_loop:
  assumes "relay_rounds w i pos tps len c = Some r"
  shows "pos = sint (header_length h) + tps \<longrightarrow> (\<forall>j \<ge> i. w j = (h, av)) \<longrightarrow> relay_loop h av tps len c = Some r"
proof (rule relay_rounds.raw_induct [OF _ assms,
      where P = "\<lambda>w i pos tps len c r. pos = sint (header_length h) + tps \<longrightarrow> (\<forall>j \<ge> i. w j = (h, av)) \<longrightarrow> relay_loop h av tps len c = Some r"],
    intro impI, goal_cases)
  case (1 f w i pos tps len c r)
  have w: "w i = (h, av)" "w (Suc i) = (h, av)" "\<forall>j \<ge> Suc i. w j = (h, av)" using 1(4) by auto
  note again = 1(1) [THEN mp, OF _ refl, THEN mp, OF _ w(3)]
  show ?case using 1(2) unfolding relay_loop.simps [of h av tps len c] w 1(3) Let_def fst_conv snd_conv
    by (auto split: if_splits option.splits res.splits intro!: again)
qed

lemma relay_loop_rounds:
  assumes "relay_loop h av tps len c = Some r"
  shows "(\<forall>j \<ge> i. w j = (h, av)) \<longrightarrow> relay_rounds w i (sint (header_length h) + tps) tps len c = Some r"
proof (rule relay_loop.raw_induct [OF _ assms,
      where P = "\<lambda>h av tps len c r. \<forall>i. (\<forall>j \<ge> i. w j = (h, av)) \<longrightarrow> relay_rounds w i (sint (header_length h) + tps) tps len c = Some r", THEN spec],
    intro allI impI, goal_cases)
  case (1 f h av tps len c r i)
  have w: "w i = (h, av)" "w (Suc i) = (h, av)" "\<forall>j \<ge> Suc i. w j = (h, av)" using 1(3) by auto
  note again = 1(1) [THEN spec, THEN mp, OF _ w(3)]
  show ?case using 1(2) unfolding relay_rounds.simps [of w i _ tps len c] w Let_def fst_conv snd_conv
    by (auto split: if_splits option.splits res.splits intro!: again)
qed

lemma rounds_eq_loop:
  assumes "\<forall>j \<ge> i. w j = (h, av)"
  shows "relay_rounds w i (sint (header_length h) + tps) tps len c = relay_loop h av tps len c"
proof (cases "relay_loop h av tps len c")
  case None
  then show ?thesis using relay_rounds_loop [of w i _ tps len c _ h av] assms by (cases "relay_rounds w i (sint (header_length h) + tps) tps len c") auto
next
  case (Some r)
  then show ?thesis using relay_loop_rounds [OF Some] assms by simp
qed

lemma slow_relay_eq: "\<forall>j. w j = (h, av) \<Longrightarrow> relay_slow w c = relay h av c"
  using rounds_eq_loop [of 0 w h av 0] by (simp add: relay_slow_def relay_def)

section \<open>When the next message comes in between\<close>

lemma first_round:
  assumes "tx_fine (net c)" and "w 0 = (h, av)" and "holds_message h av p" and "chunk_size c = int cs" and "0 < cs" and "cs < length p"
    and "sint (timestamp h) < 0xFFFFFF" and "fst (w 1) = h'" and "header_length h' = header_length h"
    and "left = sint (message_length h') - int cs"
  shows "\<exists>c'. relay_slow w c = relay_rounds w 1 (sint (header_length h') + int cs) (int cs) (if left < int cs then left else int cs) c'
    \<and> sends (relay_header h @ take cs p) c c'"
proof -
  let ?H = "sint (header_length h)"
  have H: "0 \<le> ?H" "int (length av) = ?H + int (length p)" "drop (nat ?H) av = p" "sint (message_length h) = int (length p)"
    using assms(3) by (simp_all add: holds_message_def)
  have le: "nat ?H + cs \<le> length av" using H(1,2) assms(6) by linarith
  have d: "take (nat (int cs)) (drop (nat ?H) (av @ [0])) = take cs p" using le H(3) by auto
  have hl: "length (relay_header h) = 12" using assms(7) by (simp add: length_relay_header)
  obtain c' where c': "IO_Socket_writev (Some [relay_header h, take cs p]) c = Some (Ok (12 + cs), c')"
    "sends (relay_header h @ take cs p) c c'"
    using IO_Socket_writev_complete [OF assms(1), of "[relay_header h, take cs p]"] hl assms(6) by auto
  have cs: "chunk_size c' = int cs" using c'(2) assms(4) by (auto simp: sends_def)
  have len: "(if sint (message_length h) < chunk_size c then sint (message_length h) else chunk_size c) = int cs"
    using H(4) assms(4,6) by simp
  have g: "?H < int (length av)" "\<not> (?H < 0 \<or> int cs < 0 \<or> int (length av) + 1 < ?H + int cs)"
    using H(1,2) assms(6) by linarith+
  have one: "fst (w (Suc 0)) = h'" using assms(8) by simp
  have n: "(0 :: int) + (int (12 + cs) - 12) = int cs" by simp
  have "relay_slow w c = relay_rounds w (Suc 0) (sint (header_length h') + int cs) (int cs) (if left < int cs then left else int cs) c'"
    unfolding relay_slow_def Let_def assms(2) fst_conv len relay_rounds.simps [of w 0 ?H 0 "int cs" c] snd_conv one
    by (simp only: g if_True if_False refl d c'(1) option.case prod.case res.case assms(9) n cs assms(10))
  then show ?thesis using c'(2) by auto
qed

text \<open>The buffer was cleared: the rest of the message is not sent.\<close>

lemma slow_player_cut:
  assumes "tx_fine (net c)" and "w 0 = (h, av)" and "holds_message h av p" and "chunk_size c = int cs" and "0 < cs" and "cs < length p"
    and "sint (timestamp h) < 0xFFFFFF" and "w 1 = (h, [])"
  shows "\<exists>c'. relay_slow w c = Some (Ok (), c') \<and> sends (relay_header h @ take cs p) c c'"
proof -
  have f: "fst (w 1) = h" using assms(8) by simp
  obtain l c' where c': "relay_slow w c = relay_rounds w 1 (sint (header_length h) + int cs) (int cs) l c'"
    "sends (relay_header h @ take cs p) c c'"
    using first_round [OF assms(1-7) f refl refl] by blast
  have "\<not> sint (header_length h) + int cs < 0" using assms(3) by (simp add: holds_message_def)
  then have "relay_rounds w 1 (sint (header_length h) + int cs) (int cs) l c' = Some (Ok (), c')"
    using assms(8) by (simp add: relay_rounds.simps [of w "Suc 0"] Let_def)
  with c' show ?thesis by auto
qed

text \<open>The next message is in the buffer: its end is sent as the end of the one before.\<close>

lemma slow_player_mixes:
  assumes "tx_fine (net c)" and "w 0 = (h, av)" and "holds_message h av p" and "chunk_size c = int cs" and "0 < cs" and "cs < length p"
    and "sint (timestamp h) < 0xFFFFFF" and "\<forall>i \<ge> 1. w i = (h', av')" and "holds_message h' av' p'" and "header_length h' = header_length h"
  shows "\<exists>c'. relay_slow w c = Some (Ok (), c') \<and> sends (relay_header h @ take cs p @ fmt3_tail (relay_fmt3 h') cs (drop cs p')) c c'"
proof -
  have f: "fst (w 1) = h'" using assms(8) by simp
  have m: "sint (message_length h') = int (length p')" using assms(9) by (simp add: holds_message_def)
  let ?l = "int (length p') - int cs"
  obtain c' where c': "relay_slow w c = relay_loop h' av' (int cs) (if ?l < int cs then ?l else int cs) c'"
    "sends (relay_header h @ take cs p) c c'"
    using first_round [OF assms(1-7) f assms(10) refl] unfolding m rounds_eq_loop [OF assms(8)] by blast
  have t: "tx_fine (net c')" "chunk_size c' = int cs" using c'(2) assms(4) by (auto simp: sends_def)
  show ?thesis
  proof (cases "cs \<le> length p'")
    case True
    have l: "(if ?l < int cs then ?l else int cs) = int (min (length (drop cs p')) cs)"
      unfolding length_drop by (rule left_min [OF True])
    obtain c'' where "relay_loop h' av' (int cs) (int (min (length (drop cs p')) cs)) c' = Some (Ok (), c'')"
      "sends (fmt3_tail (relay_fmt3 h') cs (drop cs p')) c' c''"
      using relay_loop_tail [OF t(1) assms(9) t(2) assms(5,5) True refl] by blast
    then show ?thesis using c' l sends_trans [OF c'(2)] by (intro exI [of _ c'']) simp
  next
    case False
    then have "relay_loop h' av' (int cs) (if ?l < int cs then ?l else int cs) c' = Some (Ok (), c')"
      by (intro relay_loop_done [OF assms(9)]) simp
    then show ?thesis using c' False by (intro exI [of _ c']) simp
  qed
qed

end
