(* ===== verification/Fileio.thy ===== *)
theory Fileio
  imports St_Io
begin

text \<open>
  File input of \<^verbatim>\<open>3rdpart/st-1.9/extensions/stx_fileio.c\<close>: a child process reads the file, so that no thread of the parent
  is blocked by the disk. The parent writes commands to one pipe and reads lengths and data from another. A round of the
  child answers one command. The file is what \<^verbatim>\<open>read\<close> gives at an offset, \<open>None\<close> for an error. As a result, \<open>None\<close> is an
  access data_pipe of bounds.
\<close>

section \<open>The child\<close>

definition FILEREADER_MAX_READ :: nat where
  "FILEREADER_MAX_READ = 1024"

text \<open>A command, as the bytes of \<^verbatim>\<open>file_reader_cb_t\<close>.\<close>

definition cb_bytes :: "int \<Rightarrow> int \<Rightarrow> bytes" where
  "cb_bytes off nbytes = mem_of (of_int off :: 64 word) @ mem_of (of_int nbytes :: 64 word)"

definition long_at :: "nat \<Rightarrow> bytes \<Rightarrow> int" where
  "long_at i b = sint (of_mem (take 8 (drop i b)) :: 64 word)"

text \<open>\<open>r_pos\<close> is the variable \<^verbatim>\<open>pos\<close>, \<open>r_offset\<close> the offset of the open file, which the child inherits.\<close>

record reader =
  r_pos :: int
  r_offset :: int
  r_done :: bool

text \<open>The descriptor data: the bytes in the control pipe, the parent's end of the other pipe, and the child.\<close>

record fileio =
  control_pipe :: bytes
  data_pipe :: sock
  file_child :: reader

text \<open>What is written to a pipe is one run of bytes to its reader.\<close>

definition pipe_write :: "bytes \<Rightarrow> sock \<Rightarrow> sock" where
  "pipe_write bs s = s\<lparr>rx := (case rx_bytes (rx s) @ bs of [] \<Rightarrow> [] | c # cs \<Rightarrow> [Seg c cs])\<rparr>"

definition reader_exit :: "fileio \<Rightarrow> fileio" where
  "reader_exit s = s\<lparr>data_pipe := (data_pipe s)\<lparr>rx_closed := True\<rparr>, file_child := (file_child s)\<lparr>r_done := True\<rparr>\<rparr>"

definition reader_seek :: "int \<Rightarrow> reader \<Rightarrow> reader option" where
  "reader_seek off r = (if r_pos r = off then Some r else if off < 0 then None else Some (r\<lparr>r_pos := off, r_offset := off\<rparr>))"

definition reader_round :: "(int \<Rightarrow> nat \<Rightarrow> bytes option) \<Rightarrow> fileio \<Rightarrow> fileio option" where
  "reader_round file s =
     (if r_done (file_child s) \<or> control_pipe s = [] then Some s
      else if length (control_pipe s) < 16 then Some (reader_exit (s\<lparr>control_pipe := []\<rparr>))
      else (let off = long_at 0 (control_pipe s); nbytes = long_at 8 (control_pipe s); s = s\<lparr>control_pipe := drop 16 (control_pipe s)\<rparr>
            in if nbytes \<le> 0 then Some (reader_exit s)
               else case reader_seek off (file_child s) of
                 None \<Rightarrow> Some (reader_exit s)
               | Some r \<Rightarrow>
                   (case file (r_offset r) (nat nbytes) of
                      None \<Rightarrow> Some (reader_exit s)
                    | Some d \<Rightarrow>
                        (if FILEREADER_MAX_READ < length d then None
                         else Some (s\<lparr>file_child := r\<lparr>r_pos := r_pos r + int (length d), r_offset := r_offset r + int (length d)\<rparr>,
                                       data_pipe := pipe_write d (pipe_write (mem_of (of_nat (length d) :: 64 word)) (data_pipe s))\<rparr>)))))"

fun reader_rounds :: "(int \<Rightarrow> nat \<Rightarrow> bytes option) \<Rightarrow> nat \<Rightarrow> fileio \<Rightarrow> fileio option" where
  "reader_rounds file 0 s = Some s"
| "reader_rounds file (Suc k) s = Option.bind (reader_round file s) (reader_rounds file k)"

text \<open>
  Starting the child: whether the pipes and the process can be made, and whether the file is open (\<^verbatim>\<open>fd\<close> is not -1, otherwise
  the child exits at once); the offset is that of the file.
\<close>

definition file_reader :: "bool \<Rightarrow> bool \<Rightarrow> int \<Rightarrow> int \<Rightarrow> fileio option" where
  "file_reader pipes_ok fork_ok fd offset =
     (if \<not> pipes_ok \<or> \<not> fork_ok then None
      else Some (let s = \<lparr>control_pipe = [], data_pipe = \<lparr>rx = [], rx_closed = False, tx = [], sent = []\<rparr>,
                          file_child = \<lparr>r_pos = 0, r_offset = offset, r_done = False\<rparr>\<rparr>
                 in if fd = -1 then reader_exit s else s))"

section \<open>The parent\<close>

text \<open>
  \<open>new\<close> is what \<open>file_reader\<close> gives, \<open>mem\<close> whether memory and descriptor objects are there; neither is checked by the code.
\<close>

definition get_fileio_data :: "fileio option \<Rightarrow> bool \<Rightarrow> fileio option \<Rightarrow> fileio option option" where
  "get_fileio_data new mem dat =
     (case dat of
        Some s \<Rightarrow> Some (Some s)
      | None \<Rightarrow> (case new of None \<Rightarrow> Some None | Some s \<Rightarrow> if mem then Some (Some s) else None))"

definition fileio_data_destructor :: "fileio \<Rightarrow> fileio" where
  "fileio_data_destructor s = s\<lparr>control_pipe := control_pipe s @ cb_bytes 0 0\<rparr>"

text \<open>
  A read of \<open>n\<close> bytes: the value returned, and the bytes put in the caller's buffer. \<open>k\<close> is the number of commands the child
  answers before the time of the first \<^verbatim>\<open>st_read\<close> is over.
\<close>

definition read_answer :: "int \<Rightarrow> sock \<Rightarrow> (int \<times> bytes) \<times> sock" where
  "read_answer n o1 =
     (case st_read 8 o1 of
        (Inl e, o2) \<Rightarrow> ((-1, []), o2)
      | (Inr x, o2) \<Rightarrow>
          (let ret = long_at 0 (overlay x (mem_of (-1 :: 64 word)))
           in if length x = 8 \<and> 0 < ret \<and> ret \<le> n
              then (case st_read (nat ret) o2 of
                      (Inl e, o3) \<Rightarrow> ((-1, []), o3)
                    | (Inr y, o3) \<Rightarrow> ((int (length y), y), o3))
              else ((ret, []), o2)))"

definition file_read :: "(int \<Rightarrow> nat \<Rightarrow> bytes option) \<Rightarrow> nat \<Rightarrow> int \<Rightarrow> int \<Rightarrow> fileio \<Rightarrow> ((int \<times> bytes) \<times> fileio) option" where
  "file_read file k off n s =
     map_option (\<lambda>s. let (r, o1) = read_answer n (data_pipe s) in (r, s\<lparr>data_pipe := o1\<rparr>))
       (reader_rounds file k (s\<lparr>control_pipe := control_pipe s @ cb_bytes off n\<rparr>))"

definition stx_file_read ::
  "(int \<Rightarrow> nat \<Rightarrow> bytes option) \<Rightarrow> fileio option \<Rightarrow> bool \<Rightarrow> nat \<Rightarrow> int \<Rightarrow> int \<Rightarrow> fileio option \<Rightarrow> ((int \<times> bytes) \<times> fileio option) option"
where
  "stx_file_read file new mem k off n dat =
     Option.bind (get_fileio_data new mem dat) (\<lambda>dat.
       case dat of
         None \<Rightarrow> Some ((-1, []), None)
       | Some s \<Rightarrow> map_option (\<lambda>(r, s). (r, Some s)) (file_read file k off n s))"

section \<open>Reading is reading at an offset\<close>

definition regular :: "bytes \<Rightarrow> int \<Rightarrow> nat \<Rightarrow> bytes option" where
  "regular content off n = Some (take n (drop (nat off) content))"

text \<open>Child and parent agree: nothing is on the way, and the child knows where the file is.\<close>

definition in_step :: "fileio \<Rightarrow> bool" where
  "in_step s \<longleftrightarrow> control_pipe s = [] \<and> rx (data_pipe s) = [] \<and> \<not> rx_closed (data_pipe s) \<and> \<not> r_done (file_child s)
     \<and> r_pos (file_child s) = r_offset (file_child s) \<and> 0 \<le> r_pos (file_child s)"

lemma sint_long: "- (2 ^ 63) \<le> x \<Longrightarrow> x < 2 ^ 63 \<Longrightarrow> sint (of_int x :: 64 word) = x"
  by (simp add: sint_sbintrunc' signed_take_bit_int_eq_self_iff)

lemma long_at_cb:
  assumes "- (2 ^ 63) \<le> off" and "off < 2 ^ 63" and "- (2 ^ 63) \<le> n" and "n < 2 ^ 63"
  shows "long_at 0 (cb_bytes off n @ r) = off" and "long_at 8 (cb_bytes off n @ r) = n"
  using assms by (simp_all add: long_at_def cb_bytes_def of_mem_mem_of sint_long)

lemma length_cb [simp]: "length (cb_bytes off n) = 16"
  by (simp add: cb_bytes_def)

lemma long_at_length: "length d < 2 ^ 63 \<Longrightarrow> long_at 0 (mem_of (of_nat (length d) :: 64 word) @ r) = int (length d)"
  by (simp add: long_at_def of_mem_mem_of sint_long [of "int (length d)", simplified])

text \<open>The bytes of a pipe are read up to the number asked for.\<close>

lemma st_read_pipe:
  assumes "rx s = [Seg b bs]" and "0 < n"
  shows "st_read n s = (Inr (take n (b # bs)), pipe_write (drop n (b # bs)) (s\<lparr>rx := []\<rparr>))"
  using assms by (simp add: st_read.simps [of n s] sys_read.simps pipe_write_def split: list.splits)

lemma rx_pipe_write: "rx_bytes (rx (pipe_write bs s)) = rx_bytes (rx s) @ bs"
  by (simp add: pipe_write_def split: list.splits)

lemma pipe_write_pipe_write: "pipe_write c (pipe_write b s) = pipe_write (b @ c) s"
  using rx_pipe_write [of b s] by (simp add: pipe_write_def)

lemma reader_idle: "control_pipe s = [] \<Longrightarrow> reader_rounds file k s = Some s"
  by (induction k) (simp_all add: reader_round_def)

definition wanted :: "bytes \<Rightarrow> int \<Rightarrow> int \<Rightarrow> bytes" where
  "wanted content off n = take (nat n) (drop (nat off) content)"

lemma regular_wanted: "regular content off (nat n) = Some (wanted content off n)"
  by (simp add: regular_def wanted_def)

definition answer_bytes :: "bytes \<Rightarrow> bytes" where
  "answer_bytes d = mem_of (of_nat (length d) :: 64 word) @ d"

lemma seek_ok:
  assumes "r_pos r = r_offset r" and "0 \<le> off"
  shows "\<exists>c. reader_seek off r = Some c \<and> r_pos c = off \<and> r_offset c = off \<and> r_done c = r_done r"
  using assms by (cases "r_pos r = off") (simp_all add: reader_seek_def)

text \<open>A command that is answered.\<close>

lemma reader_answers:
  assumes "control_pipe s = cb_bytes off n @ r" and "\<not> r_done (file_child s)" and "r_pos (file_child s) = r_offset (file_child s)"
    and "0 \<le> off" and "off < 2 ^ 63" and "0 < n" and "n < 2 ^ 63" and "length (wanted content off n) \<le> FILEREADER_MAX_READ"
  shows "reader_round (regular content) s = Some (s\<lparr>control_pipe := r, data_pipe := pipe_write (answer_bytes (wanted content off n)) (data_pipe s),
      file_child := \<lparr>r_pos = off + int (length (wanted content off n)), r_offset = off + int (length (wanted content off n)), r_done = False\<rparr>\<rparr>)"
proof -
  have l: "long_at 0 (control_pipe s) = off" "long_at 8 (control_pipe s) = n" "drop 16 (control_pipe s) = r" "\<not> length (control_pipe s) < 16" "control_pipe s \<noteq> []"
    using long_at_cb [of off n r] assms length_cb [of off n] by (auto simp del: length_cb)
  obtain c where c: "reader_seek off (file_child s) = Some c" "r_pos c = off" "r_offset c = off" "r_done c = False"
    using seek_ok [OF assms(3,4)] assms(2) by auto
  then show ?thesis using assms(2-8) l
    by (cases c) (simp add: reader_round_def regular_wanted answer_bytes_def Let_def pipe_write_pipe_write)
qed

text \<open>An answer at the front of the pipe is what a read of enough bytes gives.\<close>

lemma answer_read:
  assumes "rx_bytes (rx s) = []" and "int (length d) \<le> n" and "length d < 2 ^ 63"
  shows "\<exists>e. read_answer n (pipe_write (answer_bytes d @ r) s)
    = ((int (length d), d), e) \<and> e = pipe_write r (s\<lparr>rx := []\<rparr>)"
proof -
  let ?l = "mem_of (of_nat (length d) :: 64 word)"
  obtain b bs where b: "answer_bytes d @ r = b # bs" 
    using length_mem_of [of "of_nat (length d) :: 64 word"] 
    by (cases "answer_bytes d @ r") (auto simp: answer_bytes_def simp del: length_mem_of)
  have "rx (pipe_write (answer_bytes d @ r) s) = [Seg b bs]" using b assms(1) by (simp add: pipe_write_def)
  from st_read_pipe [OF this, of 8] have one: "st_read 8 (pipe_write (answer_bytes d @ r) s) = (Inr ?l, pipe_write (d @ r) (s\<lparr>rx := []\<rparr>))"
    unfolding b [symmetric] by (simp add: answer_bytes_def pipe_write_def)
  have v: "long_at 0 (overlay ?l (mem_of (-1 :: 64 word))) = int (length d)"
    using long_at_length [OF assms(3), of "[]"] by (simp add: overlay_def)
  show ?thesis
  proof (cases d)
    case Nil
    then show ?thesis using one v by (simp add: read_answer_def Let_def)
  next
    case (Cons c cs)
    then have "rx (pipe_write (d @ r) (s\<lparr>rx := []\<rparr>)) = [Seg c (cs @ r)]" by (simp add: pipe_write_def)
    from st_read_pipe [OF this, of "length d"] have "st_read (length d) (pipe_write (d @ r) (s\<lparr>rx := []\<rparr>)) = (Inr d, pipe_write r (s\<lparr>rx := []\<rparr>))"
      using Cons by (simp add: pipe_write_def)
    moreover have "d \<noteq> []" using Cons by simp
    ultimately show ?thesis using one v assms(2) by (simp add: read_answer_def Let_def)
  qed
qed

lemma length_wanted: "0 \<le> n \<Longrightarrow> int (length (wanted content off n)) \<le> n"
  by (auto simp: wanted_def)

text \<open>One read is \<^verbatim>\<open>pread\<close>.\<close>

lemma file_read_ok:
  assumes "in_step s" and "0 \<le> off" and "off < 2 ^ 63" and "0 < n" and "n < 2 ^ 63"
    and "length (wanted content off n) \<le> FILEREADER_MAX_READ"
  shows "\<exists>s'. file_read (regular content) (Suc k) off n s = Some ((int (length (wanted content off n)), wanted content off n), s') \<and> in_step s'"
proof -
  let ?d = "wanted content off n"
  let ?s = "s\<lparr>control_pipe := control_pipe s @ cb_bytes off n\<rparr>"
  let ?t = "s\<lparr>data_pipe := pipe_write (answer_bytes ?d) (data_pipe s), file_child := \<lparr>r_pos = off + int (length ?d), r_offset = off + int (length ?d), r_done = False\<rparr>\<rparr>"
  have "reader_round (regular content) ?s = Some ?t"
    using reader_answers [of ?s off n "[]" content] assms by (simp add: in_step_def)
  moreover have "reader_rounds (regular content) k ?t = Some ?t" using assms(1) by (intro reader_idle) (simp add: in_step_def)
  moreover have "read_answer n (data_pipe ?t) = ((int (length ?d), ?d), (data_pipe s)\<lparr>rx := []\<rparr>)"
    using answer_read [of "data_pipe s" ?d n "[]"] assms length_wanted [of n content off]
    by (simp add: in_step_def pipe_write_def FILEREADER_MAX_READ_def)
  ultimately show ?thesis using assms(1,2) by (simp add: file_read_def in_step_def)
qed

text \<open>Any number of reads; the child answers each of them in time.\<close>

fun file_reads :: "(int \<Rightarrow> nat \<Rightarrow> bytes option) \<Rightarrow> (int \<times> int) list \<Rightarrow> fileio \<Rightarrow> (int \<times> bytes) list option" where
  "file_reads file [] s = Some []"
| "file_reads file ((off, n) # qs) s =
     Option.bind (file_read file 1 off n s) (\<lambda>(r, s). map_option ((#) r) (file_reads file qs s))"

lemma file_reads_ok:
  "in_step s \<Longrightarrow> \<forall>(off, n) \<in> set qs. 0 \<le> off \<and> off < 2 ^ 63 \<and> 0 < n \<and> n \<le> int FILEREADER_MAX_READ \<Longrightarrow>
    file_reads (regular content) qs s = Some (map (\<lambda>(off, n). (int (length (wanted content off n)), wanted content off n)) qs)"
proof (induction qs arbitrary: s)
  case (Cons q qs)
  obtain off n where q: "q = (off, n)" by (cases q)
  have b: "0 \<le> off" "off < 2 ^ 63" "0 < n" "n \<le> int FILEREADER_MAX_READ" using Cons.prems(2) q by auto
  have "length (wanted content off n) \<le> FILEREADER_MAX_READ" using length_wanted [of n content off] b by simp
  from file_read_ok [OF Cons.prems(1) b(1-3) _ this, of 0] obtain s' where
    "file_read (regular content) 1 off n s = Some ((int (length (wanted content off n)), wanted content off n), s')" "in_step s'"
    using b(4) by (auto simp: FILEREADER_MAX_READ_def)
  then show ?case using Cons.IH [of s'] Cons.prems(2) q by simp
qed simp

lemma fresh_in_step: "file_reader True True fd 0 = Some s \<Longrightarrow> fd \<noteq> -1 \<Longrightarrow> in_step s"
  by (auto simp: file_reader_def in_step_def)

text \<open>A read of more bytes than the child's buffer has, of a file that has them, writes behind the buffer.\<close>

lemma long_read_overflows:
  assumes "in_step s" and "0 \<le> off" and "off < 2 ^ 63" and "0 < n" and "n < 2 ^ 63"
    and "FILEREADER_MAX_READ < length (wanted content off n)"
  shows "file_read (regular content) (Suc k) off n s = None"
proof -
  let ?s = "s\<lparr>control_pipe := control_pipe s @ cb_bytes off n\<rparr>"
  have l: "control_pipe ?s = cb_bytes off n" using assms(1) by (simp add: in_step_def)
  have c: "long_at 0 (control_pipe ?s) = off" "long_at 8 (control_pipe ?s) = n" "length (control_pipe ?s) = 16" "control_pipe ?s \<noteq> []"
    using long_at_cb [of off n "[]"] assms(2-5) length_cb [of off n] unfolding l by (auto simp del: length_cb)
  obtain r where "reader_seek off (file_child s) = Some r" "r_offset r = off"
    using seek_ok [of "file_child s" off] assms(1,2) by (auto simp: in_step_def)
  then have "reader_round (regular content) ?s = None"
    using c assms(1,4,6) by (simp add: reader_round_def in_step_def Let_def regular_wanted)
  then show ?thesis by (simp add: file_read_def)
qed

text \<open>A read that timed data_pipe: its answer is given to the next read, whatever that asks for.\<close>

lemma late_answer:
  assumes "in_step s" and "0 \<le> off" and "off < 2 ^ 63" and "0 < n" and "n < 2 ^ 63"
    and "length (wanted content off n) \<le> FILEREADER_MAX_READ"
    and "0 \<le> off1" and "off1 < 2 ^ 63" and "int (length (wanted content off n)) \<le> n1" and "0 < n1" and "n1 < 2 ^ 63"
    and "length (wanted content off1 n1) \<le> FILEREADER_MAX_READ"
  shows "\<exists>s1 s2. file_read (regular content) 0 off n s = Some ((-1, []), s1)
    \<and> file_read (regular content) 2 off1 n1 s1 = Some ((int (length (wanted content off n)), wanted content off n), s2)"
proof -
  let ?d = "wanted content off n" and ?e = "wanted content off1 n1"
  let ?s1 = "s\<lparr>control_pipe := cb_bytes off n\<rparr>"
  have i: "rx (data_pipe s) = []" "\<not> rx_closed (data_pipe s)" "control_pipe s = []" "\<not> r_done (file_child s)" "r_pos (file_child s) = r_offset (file_child s)"
    using assms(1) by (simp_all add: in_step_def)
  have "\<exists>e. st_read 8 (data_pipe s) = (Inl e, data_pipe s)"
    using i(1,2) by (simp add: st_read.simps [of 8] sys_read.simps poll_in.simps st_netfd_poll_def Let_def)
  then have one: "file_read (regular content) 0 off n s = Some ((-1, []), ?s1)"
    using i(3) by (auto simp: file_read_def read_answer_def)
  let ?t = "?s1\<lparr>control_pipe := cb_bytes off n @ cb_bytes off1 n1\<rparr>"
  let ?u = "s\<lparr>control_pipe := cb_bytes off1 n1, data_pipe := pipe_write (answer_bytes ?d) (data_pipe s),
     file_child := \<lparr>r_pos = off + int (length ?d), r_offset = off + int (length ?d), r_done = False\<rparr>\<rparr>"
  have u: "reader_round (regular content) ?t = Some ?u"
    using reader_answers [of ?t off n "cb_bytes off1 n1" content] assms(2-6) i by simp
  obtain v where v: "reader_round (regular content) ?u = Some v" "data_pipe v = pipe_write (answer_bytes ?d @ answer_bytes ?e) (data_pipe s)"
    using reader_answers [of ?u off1 n1 "[]" content] assms(7-12) by (auto simp: pipe_write_pipe_write)
  have "read_answer n1 (data_pipe v) = ((int (length ?d), ?d), pipe_write (answer_bytes ?e) ((data_pipe s)\<lparr>rx := []\<rparr>))"
    using answer_read [of "data_pipe s" ?d n1 "answer_bytes ?e"] assms(6,9) i(1) v(2) by (simp add: FILEREADER_MAX_READ_def)
  then have "\<exists>s2. file_read (regular content) 2 off1 n1 ?s1 = Some ((int (length ?d), ?d), s2)"
    using u v(1) by (simp add: file_read_def numeral_2_eq_2)
  then show ?thesis using one by blast
qed

text \<open>
  The child takes the file to be at its start; when the parent has read from it, the first answer for offset 0 comes from
  where the parent was.
\<close>

lemma inherited_offset:
  assumes "file_reader True True fd p = Some s" and "fd \<noteq> -1" and "0 < n" and "n \<le> int FILEREADER_MAX_READ"
  shows "\<exists>s'. file_read (regular content) 1 0 n s = Some ((int (length (wanted content p n)), wanted content p n), s')"
proof -
  let ?d = "wanted content p n"
  let ?s = "s\<lparr>control_pipe := cb_bytes 0 n\<rparr>"
  have s: "s = \<lparr>control_pipe = [], data_pipe = \<lparr>rx = [], rx_closed = False, tx = [], sent = []\<rparr>, file_child = \<lparr>r_pos = 0, r_offset = p, r_done = False\<rparr>\<rparr>"
    using assms(1,2) by (simp add: file_reader_def)
  have n: "n < 2 ^ 63" using assms(4) by (simp add: FILEREADER_MAX_READ_def)
  have c: "long_at 0 (cb_bytes 0 n) = 0" "long_at 8 (cb_bytes 0 n) = n" "cb_bytes 0 n \<noteq> []"
    using long_at_cb [of 0 n "[]"] assms(3) n length_cb [of 0 n] by (auto simp del: length_cb)
  have d: "length ?d \<le> FILEREADER_MAX_READ" "int (length ?d) \<le> n" using length_wanted [of n content p] assms(3,4) by simp_all
  then have "\<exists>v. reader_round (regular content) ?s = Some v \<and> data_pipe v = pipe_write (answer_bytes ?d) (data_pipe s)"
    using c assms(3) s by (auto simp: reader_round_def reader_seek_def regular_wanted answer_bytes_def Let_def pipe_write_pipe_write)
  then obtain v where v: "reader_round (regular content) ?s = Some v" "data_pipe v = pipe_write (answer_bytes ?d) (data_pipe s)" by blast
  have "read_answer n (data_pipe v) = ((int (length ?d), ?d), pipe_write [] ((data_pipe s)\<lparr>rx := []\<rparr>))"
    using answer_read [of "data_pipe s" ?d n "[]"] d s v(2) by (simp add: FILEREADER_MAX_READ_def)
  then show ?thesis using v(1) s by (simp add: file_read_def)
qed

text \<open>The destructor's command ends the child.\<close>

lemma destructor_ends_child:
  assumes "control_pipe s = []"
  shows "\<exists>s'. reader_round file (fileio_data_destructor s) = Some s' \<and> r_done (file_child s')"
proof -
  have "long_at 8 (cb_bytes 0 0) = 0" "cb_bytes 0 0 \<noteq> []" using long_at_cb [of 0 0 "[]"] length_cb [of 0 0] by (auto simp del: length_cb)
  then show ?thesis using assms by (simp add: reader_round_def fileio_data_destructor_def reader_exit_def Let_def)
qed

end
