(* ===== verification/Hall.thy ===== *)
theory Hall
  imports Publish
begin

text \<open>
  The loops of \<^verbatim>\<open>client.cpp\<close> with any number of players. \<^verbatim>\<open>consumers\<close> is a \<open>std::unordered_map\<close> from descriptors
  to pointers: a list in the order of iteration, with whether the pointer is set. A peer gets an entry as soon as it is
  known to be a player, and comes to the loop later, where inserting it again changes nothing. The publisher sets the
  pointer of \<^verbatim>\<open>consumers.begin()\<close>, and every player looks at that one; nothing is ever erased. A player whose
  socket fails returns from its thread and leaves its entry behind.
\<close>

section \<open>The map of consumers\<close>

text \<open>
  A new entry may get any place \<open>i\<close> in the order of iteration; the others keep theirs as long as the table is not
  rehashed. The first table that holds entries has 13 buckets and is rehashed for the fourteenth entry.
\<close>

definition first_rehash :: nat where
  "first_rehash = 13"

definition consumers_insert :: "nat \<Rightarrow> nat \<Rightarrow> (nat \<times> bool) list \<Rightarrow> (nat \<times> bool) list" where
  "consumers_insert i k xs = (if k \<in> fst ` set xs then xs else take i xs @ (k, False) # drop i xs)"

fun begin_set :: "(nat \<times> bool) list \<Rightarrow> bool" where
  "begin_set [] = False"
| "begin_set ((k, p) # xs) = p"

fun set_begin :: "bool \<Rightarrow> (nat \<times> bool) list \<Rightarrow> (nat \<times> bool) list" where
  "set_begin p [] = []"
| "set_begin p ((k, _) # xs) = (k, p) # xs"

lemma begin_insert: "begin_set (consumers_insert i k xs) \<Longrightarrow> begin_set xs"
  by (cases xs; cases i) (auto simp: consumers_insert_def split: if_splits)

lemma begin_set_begin [simp]: "begin_set (set_begin p xs) \<longleftrightarrow> p \<and> xs \<noteq> []"
  by (cases xs) auto

lemma set_begin_Nil [simp]: "set_begin p xs = [] \<longleftrightarrow> xs = []"
  by (cases xs) auto

lemma consumers_insert_not_Nil [simp]: "consumers_insert i k xs \<noteq> []"
  by (cases xs) (auto simp: consumers_insert_def)

lemma consumers_insert_keys: "fst ` set (consumers_insert i k xs) = insert k (fst ` set xs)"
proof -
  have "set xs = set (take i xs) \<union> set (drop i xs)" by (metis append_take_drop_id set_append)
  then show ?thesis by (auto simp: consumers_insert_def)
qed

lemma set_begin_keys [simp]: "map fst (set_begin p xs) = map fst xs"
  by (cases xs) auto

section \<open>The hall\<close>

text \<open>
  \<open>players\<close> are the threads in the playing loop, \<open>joined\<close> what each was when it came. \<open>published\<close> and \<open>taken\<close> record the
  messages that were published and who relayed which.
\<close>

record hall =
  h_pub :: ctx
  players :: "nat \<rightharpoonup> ctx"
  consumers :: "(nat \<times> bool) list"
  h_phase :: phase
  published :: "(Message_Header \<times> bytes) list"
  joined :: "nat \<rightharpoonup> ctx"
  taken :: "(nat \<times> Message_Header \<times> bytes) list"

inductive hall_step :: "hall \<Rightarrow> hall \<Rightarrow> bool" where
  hall_enter: "\<lbrakk>k \<notin> fst ` set (consumers h); length (consumers h) < first_rehash\<rbrakk> \<Longrightarrow>
    hall_step h (h\<lparr>consumers := consumers_insert i k (consumers h)\<rparr>)"
| hall_join: "\<lbrakk>k \<in> fst ` set (consumers h); joined h k = None\<rbrakk> \<Longrightarrow>
    hall_step h (h\<lparr>players := (players h)(k \<mapsto> q), joined := (joined h)(k \<mapsto> q),
      consumers := consumers_insert i k (consumers h)\<rparr>)"
| hall_publish: "\<lbrakk>h_phase h = Receiving; pending (net (h_pub h)) \<noteq> []; push_round (h_pub h) = Some (Ok (), c)\<rbrakk> \<Longrightarrow>
    hall_step h (h\<lparr>h_pub := c, consumers := set_begin True (consumers h), h_phase := Published,
      published := published h
        @ [(current_header c, drop (nat (sint (header_length (current_header c)))) (audio_video_buffer c))]\<rparr>)"
| hall_clear: "\<lbrakk>h_phase h = Published; push_clear (h_pub h) = Some (Ok (), c)\<rbrakk> \<Longrightarrow>
    hall_step h (h\<lparr>h_pub := c, h_phase := Receiving\<rparr>)"
| hall_wait: "\<lbrakk>players h k = Some q; \<not> begin_set (consumers h)\<rbrakk> \<Longrightarrow> hall_step h h"
| hall_deliver: "\<lbrakk>players h k = Some q; begin_set (consumers h);
      relay (current_header (h_pub h)) (audio_video_buffer (h_pub h)) q = Some (Ok (), q')\<rbrakk> \<Longrightarrow>
    hall_step h (h\<lparr>players := (players h)(k \<mapsto> q'), consumers := set_begin False (consumers h),
      taken := (if h_phase h = Published then taken h @ [(k, last (published h))] else taken h)\<rparr>)"
| hall_leave: "\<lbrakk>players h k = Some q; begin_set (consumers h);
      relay (current_header (h_pub h)) (audio_video_buffer (h_pub h)) q = Some (Fail, q')\<rbrakk> \<Longrightarrow>
    hall_step h (h\<lparr>players := (players h)(k := None)\<rparr>)"

inductive hall_run :: "hall \<Rightarrow> hall \<Rightarrow> bool" for h0 where
  hall_start: "hall_run h0 h0"
| hall_next: "hall_run h0 h \<Longrightarrow> hall_step h h' \<Longrightarrow> hall_run h0 h'"

definition empty_hall :: "ctx \<Rightarrow> hall" where
  "empty_hall c = \<lparr>h_pub = c, players = Map.empty, consumers = [], h_phase = Receiving, published = [],
     joined = Map.empty, taken = []\<rparr>"

section \<open>All players together are one player of a room\<close>

text \<open>The room with a player \<open>g\<close> who gets what any player of the hall gets.\<close>

definition room_view :: "hall \<Rightarrow> ctx \<Rightarrow> room" where
  "room_view h g = \<lparr>pub = h_pub h, ply = g, ptr = begin_set (consumers h), phase = h_phase h, seen = published h,
     told = map snd (taken h)\<rparr>"

definition taken_by :: "nat \<Rightarrow> hall \<Rightarrow> (Message_Header \<times> bytes) list" where
  "taken_by k h = map snd (filter (\<lambda>x. fst x = k) (taken h))"

definition player_ok :: "hall \<Rightarrow> nat \<Rightarrow> ctx \<Rightarrow> ctx \<Rightarrow> bool" where
  "player_ok h k q0 q \<longleftrightarrow> (tx_fine (net q0) \<and> 0 < chunk_size q0 \<longrightarrow> tx_fine (net q) \<and> chunk_size q = chunk_size q0
     \<and> sent (net q) = sent (net q0) @ concat (map (relayed (nat (chunk_size q0))) (taken_by k h)))"

definition hall_inv :: "nat \<Rightarrow> (Message_Header \<times> bytes) list \<Rightarrow> hall \<Rightarrow> bool" where
  "hall_inv cs all h \<longleftrightarrow> (\<exists>g. room_inv cs 1 all [] (room_view h g))
     \<and> (\<forall>k q. players h k = Some q \<longrightarrow> (\<exists>q0. joined h k = Some q0 \<and> player_ok h k q0 q))
     \<and> (\<forall>x \<in> set (taken h). joined h (fst x) \<noteq> None)"

lemma room_inv_unset: "room_inv cs pcs all s0 r \<Longrightarrow> (p \<Longrightarrow> ptr r) \<Longrightarrow> room_inv cs pcs all s0 (r\<lparr>ptr := p\<rparr>)"
  unfolding room_inv_def by auto

lemma player_ok_cong: "taken_by k h' = taken_by k h \<Longrightarrow> player_ok h' k q0 q = player_ok h k q0 q"
  by (simp add: player_ok_def)

lemma hall_inv_player: "hall_inv cs all h \<Longrightarrow> players h k = Some q \<Longrightarrow> \<exists>q0. joined h k = Some q0 \<and> player_ok h k q0 q"
  unfolding hall_inv_def by blast

lemma hall_inv_fewer:
  assumes "hall_inv cs all h" and "players h' \<subseteq>\<^sub>m players h" and "joined h' = joined h" and "taken h' = taken h"
    and "\<exists>g. room_inv cs 1 all [] (room_view h' g)"
  shows "hall_inv cs all h'"
proof -
  have "\<exists>q0. joined h' k = Some q0 \<and> player_ok h' k q0 q" if "players h' k = Some q" for k q
  proof -
    have "players h k = Some q" using that assms(2) by (force simp: map_le_def dom_def)
    from hall_inv_player [OF assms(1) this] show ?thesis
      using player_ok_cong [of k h' h] assms(3,4) by (simp add: taken_by_def)
  qed
  then show ?thesis using assms(1,3-5) by (simp add: hall_inv_def)
qed

lemma hall_join_inv:
  assumes "hall_inv cs all h" and "joined h k = None"
  shows "hall_inv cs all (h\<lparr>players := (players h)(k \<mapsto> q), joined := (joined h)(k \<mapsto> q),
      consumers := consumers_insert i k (consumers h)\<rparr>)" (is "hall_inv cs all ?h")
proof -
  obtain g where "room_inv cs 1 all [] (room_view h g)" using assms(1) by (auto simp: hall_inv_def)
  from room_inv_unset [OF this, of "begin_set (consumers_insert i k (consumers h))"]
  have "room_inv cs 1 all [] (room_view ?h g)" using begin_insert [of i k "consumers h"] by (simp add: room_view_def)
  moreover have none: "taken_by k h = []"
    using assms by (auto simp: hall_inv_def taken_by_def filter_empty_conv)
  moreover have "taken_by j ?h = taken_by j h" for j by (simp add: taken_by_def)
  ultimately show ?thesis using assms unfolding hall_inv_def
    by (auto simp: player_ok_cong [of _ ?h h]) (auto simp: player_ok_def)
qed

lemma hall_publish_inv:
  assumes "hall_inv cs all h" and "0 < cs" and "h_phase h = Receiving" and "pending (net (h_pub h)) \<noteq> []"
    and "push_round (h_pub h) = Some (Ok (), c)"
  shows "hall_inv cs all (h\<lparr>h_pub := c, consumers := set_begin True (consumers h), h_phase := Published,
      published := published h
        @ [(current_header c, drop (nat (sint (header_length (current_header c)))) (audio_video_buffer c))]\<rparr>)"
    (is "hall_inv cs all ?h")
proof -
  obtain g where "room_inv cs 1 all [] (room_view h g)" using assms(1) by (auto simp: hall_inv_def)
  then have "room_inv cs 1 all [] (room_view h g\<lparr>pub := c, ptr := True, phase := Published, seen := published ?h\<rparr>)"
    using room_publish [of cs 1 all "[]" "room_view h g" c] assms(2-5) by (simp add: room_view_def)
  from room_inv_unset [OF this, of "begin_set (consumers ?h)"]
  have "room_inv cs 1 all [] (room_view ?h g)" by (simp add: room_view_def)
  then show ?thesis by (intro hall_inv_fewer [OF assms(1)]) auto
qed

lemma hall_clear_inv:
  assumes "hall_inv cs all h" and "0 < cs" and "h_phase h = Published" and "push_clear (h_pub h) = Some (Ok (), c)"
  shows "hall_inv cs all (h\<lparr>h_pub := c, h_phase := Receiving\<rparr>)" (is "hall_inv cs all ?h")
proof -
  obtain g where g: "room_inv cs 1 all [] (room_view h g)" using assms(1) by (auto simp: hall_inv_def)
  have "room_step (room_view h g) (room_view ?h g)"
    using clear [of "room_view h g" c] assms(3,4) by (simp add: room_view_def)
  from room_step_inv [OF this g assms(2)] have "room_inv cs 1 all [] (room_view ?h g)" by simp
  then show ?thesis by (intro hall_inv_fewer [OF assms(1)]) auto
qed

text \<open>What the pointer of \<^verbatim>\<open>consumers.begin()\<close> stands for when it is set.\<close>

lemma message_there:
  assumes "hall_inv cs all h" and "begin_set (consumers h)"
  shows "h_phase h = Published \<Longrightarrow> \<exists>sn p. published h = sn @ [(current_header (h_pub h), p)]
      \<and> holds_message (current_header (h_pub h)) (audio_video_buffer (h_pub h)) p"
    and "h_phase h = Receiving \<Longrightarrow> relay (current_header (h_pub h)) (audio_video_buffer (h_pub h)) q = Some (Ok (), q)"
  using assms relay_nothing [of "current_header (h_pub h)" q] by (auto simp: hall_inv_def room_inv_def room_view_def)

lemma hall_deliver_inv:
  assumes "hall_inv cs all h" and "players h k = Some q" and "begin_set (consumers h)"
    and "relay (current_header (h_pub h)) (audio_video_buffer (h_pub h)) q = Some (Ok (), q')"
  shows "hall_inv cs all (h\<lparr>players := (players h)(k \<mapsto> q'), consumers := set_begin False (consumers h),
      taken := (if h_phase h = Published then taken h @ [(k, last (published h))] else taken h)\<rparr>)" (is "hall_inv cs all ?h")
proof -
  obtain g where g: "room_inv cs 1 all [] (room_view h g)" using assms(1) by (auto simp: hall_inv_def)
  obtain q0 where q0: "joined h k = Some q0" "player_ok h k q0 q" using hall_inv_player [OF assms(1,2)] by blast
  have others: "taken_by j ?h = taken_by j h" if "j \<noteq> k" for j using that by (simp add: taken_by_def)
  have "(\<exists>g'. room_inv cs 1 all [] (room_view ?h g')) \<and> player_ok ?h k q0 q'"
  proof (cases "h_phase h")
    case Receiving
    note same = message_there(2) [OF assms(1,3) Receiving]
    have "room_inv cs 1 all [] (room_view ?h g)"
      using room_deliver [OF g, of g] same [of g] assms(3) Receiving by (simp add: room_view_def)
    moreover have "taken_by k ?h = taken_by k h" using Receiving by (simp add: taken_by_def)
    moreover have "q' = q" using same [of q] assms(4) by simp
    ultimately show ?thesis using q0(2) player_ok_cong [of k ?h h] by blast
  next
    case Published
    obtain sn p where m: "published h = sn @ [(current_header (h_pub h), p)]"
      "holds_message (current_header (h_pub h)) (audio_video_buffer (h_pub h)) p"
      using message_there(1) [OF assms(1,3) Published] by blast
    obtain g' where "relay (current_header (h_pub h)) (audio_video_buffer (h_pub h)) g = Some (Ok (), g')"
      using relay_whole [OF _ m(2), of g 1] g by (auto simp: room_inv_def room_view_def)
    then have "room_inv cs 1 all [] (room_view ?h g')"
      using room_deliver [OF g, of g'] assms(3) Published by (simp add: room_view_def)
    moreover have "taken_by k ?h = taken_by k h @ [(current_header (h_pub h), p)]"
      using Published m(1) by (simp add: taken_by_def)
    moreover have "sends (relayed (nat (chunk_size q0)) (current_header (h_pub h), p)) q q'"
      if "tx_fine (net q0) \<and> 0 < chunk_size q0"
      using that q0(2) relay_whole [OF _ m(2), of q "nat (chunk_size q0)"] assms(4) by (auto simp: player_ok_def)
    ultimately show ?thesis using q0(2) by (auto simp: player_ok_def sends_def)
  qed
  then have view: "\<exists>g'. room_inv cs 1 all [] (room_view ?h g')" and mine: "player_ok ?h k q0 q'" by blast+
  have "\<exists>x0. joined ?h j = Some x0 \<and> player_ok ?h j x0 x" if "players ?h j = Some x" for j x
  proof (cases "j = k")
    case True
    then show ?thesis using that mine q0(1) by auto
  next
    case False
    then have "players h j = Some x" using that by simp
    then show ?thesis using hall_inv_player [OF assms(1)] player_ok_cong [OF others [OF False]] by auto
  qed
  moreover have "\<forall>x \<in> set (taken ?h). joined ?h (fst x) \<noteq> None" using assms(1) q0(1) by (auto simp: hall_inv_def)
  ultimately show ?thesis using view unfolding hall_inv_def by blast
qed

lemma hall_enter_inv:
  assumes "hall_inv cs all h"
  shows "hall_inv cs all (h\<lparr>consumers := consumers_insert i k (consumers h)\<rparr>)" (is "hall_inv cs all ?h")
proof -
  obtain g where "room_inv cs 1 all [] (room_view h g)" using assms by (auto simp: hall_inv_def)
  from room_inv_unset [OF this, of "begin_set (consumers_insert i k (consumers h))"]
  have "room_inv cs 1 all [] (room_view ?h g)" using begin_insert [of i k "consumers h"] by (simp add: room_view_def)
  then show ?thesis by (intro hall_inv_fewer [OF assms]) auto
qed

lemma hall_step_inv:
  assumes "hall_step h h'" and "hall_inv cs all h" and "0 < cs"
  shows "hall_inv cs all h'"
  using assms(1)
proof (cases rule: hall_step.cases)
  case (hall_leave k q q')
  have "room_view h' = room_view h" by (auto simp: hall_leave(1) room_view_def fun_eq_iff)
  then show ?thesis using assms(2) by (intro hall_inv_fewer [OF assms(2)]) (auto simp: hall_leave(1) map_le_def hall_inv_def)
qed (use assms(2,3) in \<open>simp_all add: hall_enter_inv hall_join_inv hall_publish_inv hall_clear_inv hall_deliver_inv\<close>)

lemma hall_run_inv: "hall_run h0 h \<Longrightarrow> hall_inv cs all h0 \<Longrightarrow> 0 < cs \<Longrightarrow> hall_inv cs all h"
  by (induction rule: hall_run.induct) (auto intro: hall_step_inv)

lemma empty_hall_inv:
  assumes "rx_fine (net c)" and "chunk_size c = int cs" and "audio_video_buffer c = []"
    and "pending (net c) = concat (map (av_wire cs) ms)" and "stream_ok c ms"
  shows "hall_inv cs (entries c ms) (empty_hall c)"
proof -
  obtain g :: ctx where g: "tx_fine (net g)" "chunk_size g = int 1" "sent (net g) = []"
    using that [of "(Client_init \<lparr>rx = [], rx_closed = True, tx = [], sent = []\<rparr>)\<lparr>chunk_size := 1\<rparr>"]
    by (simp add: Client_init_def tx_fine_def)
  have "room_view (empty_hall c) g = room_start c g" by (simp add: room_view_def empty_hall_def room_start_def)
  then have "\<exists>g. room_inv cs 1 (entries c ms) [] (room_view (empty_hall c) g)"
    using room_start_inv [OF assms g(1,2)] g(3) by (intro exI [of _ g]) simp
  then show ?thesis by (simp add: hall_inv_def empty_hall_def)
qed

section \<open>Who gets a message is up to the schedule\<close>

lemma hall_run_trans3:
  "hall_run h0 h \<Longrightarrow> hall_step h h1 \<Longrightarrow> hall_step h1 h2 \<Longrightarrow> hall_step h2 h3 \<Longrightarrow> hall_run h0 h3"
  by (meson hall_next)

definition ready_players :: "hall \<Rightarrow> nat set" where
  "ready_players h = {k. \<exists>q. players h k = Some q \<and> tx_fine (net q) \<and> 0 < chunk_size q}"

text \<open>The next message goes to any one player \<open>k\<close>.\<close>

lemma hand_to:
  assumes "hall_inv cs all h" and "0 < cs" and "h_phase h = Receiving" and "all = published h @ m # rest"
    and "k \<in> ready_players h" and "consumers h \<noteq> []" and "hall_run h0 h"
  shows "\<exists>h'. hall_run h0 h' \<and> hall_inv cs all h' \<and> h_phase h' = Receiving \<and> published h' = published h @ [m]
    \<and> taken h' = taken h @ [(k, m)] \<and> ready_players h' = ready_players h \<and> consumers h' \<noteq> []
    \<and> dom (players h') = dom (players h)"
proof -
  obtain g where g: "room_inv cs 1 all [] (room_view h g)" using assms(1) by (auto simp: hall_inv_def)
  obtain ns where ns: "pending (net (h_pub h)) = concat (map (av_wire cs) ns)" "stream_ok (h_pub h) ns"
    "m # rest = entries (h_pub h) ns"
    using g assms(4) by (auto simp: room_inv_def room_view_def)
  then obtain a as where a: "ns = a # as" by (cases ns) auto
  have pre: "rx_fine (net (h_pub h))" "audio_video_buffer (h_pub h) = []" "chunk_size (h_pub h) = int cs"
    "av_ok a (h_pub h)" "pending (net (h_pub h)) = av_wire cs a @ concat (map (av_wire cs) as)"
    using g assms(3) ns a by (auto simp: room_inv_def room_view_def)
  obtain c where c: "push_round (h_pub h) = Some (Ok (), c)" "audio_video_buffer c = av_head a @ m_payload a"
    "curr_csid c = m_csid a" "csid_header c = (csid_header (h_pub h))(m_csid a \<mapsto> av_entry a (csid_at (m_csid a) (h_pub h)))"
    using push_round_ok [OF pre(1-3) assms(2) pre(4,5)] by blast
  have hd: "current_header c = av_entry a (csid_at (m_csid a) (h_pub h))" using c(3,4) by (simp add: current_header_def csid_at_def)
  have hm: "holds_message (current_header c) (audio_video_buffer c) (m_payload a)" using av_entry_holds [OF pre(4)] c(2) hd by simp
  have m: "m = (current_header c, m_payload a)" using ns(3) a hd by simp
  have msg: "(current_header c, drop (nat (sint (header_length (current_header c)))) (audio_video_buffer c)) = m"
    using hm m by (simp add: holds_message_def)
  have ne: "pending (net (h_pub h)) \<noteq> []" using pre(5)
    by (auto simp: av_wire_def av_head_def header_bytes_def basic_header_bytes_def)
  define h1 where "h1 = h\<lparr>h_pub := c, consumers := set_begin True (consumers h), h_phase := Published,
      published := published h @ [m]\<rparr>"
  have s1: "hall_step h h1" using hall_publish [OF assms(3) ne c(1)] unfolding msg h1_def .
  obtain q where q: "players h k = Some q" "tx_fine (net q)" "0 < chunk_size q" using assms(5) by (auto simp: ready_players_def)
  obtain q' where q': "relay (current_header c) (audio_video_buffer c) q = Some (Ok (), q')" "tx_fine (net q')" "chunk_size q' = chunk_size q"
    using relay_whole [OF q(2) hm, of "nat (chunk_size q)"] q(3) by (auto simp: sends_def)
  define h2 where "h2 = h1\<lparr>players := (players h)(k \<mapsto> q'), consumers := set_begin False (consumers h1), taken := taken h @ [(k, m)]\<rparr>"
  have s2: "hall_step h1 h2" using hall_deliver [of h1 k q q'] q(1) q'(1) assms(6) by (simp add: h1_def h2_def)
  define h3 where "h3 = h2\<lparr>h_pub := c\<lparr>audio_video_buffer := []\<rparr>, h_phase := Receiving\<rparr>"
  have s3: "hall_step h2 h3" using hall_clear [of h2 "c\<lparr>audio_video_buffer := []\<rparr>"]
    by (simp add: h1_def h2_def h3_def push_clear_def modify_act_def)
  have "hall_inv cs all h3" using hall_step_inv [OF s3] hall_step_inv [OF s2] hall_step_inv [OF s1] assms(1,2) by blast
  moreover have "ready_players h3 = ready_players h"
    using q q' by (auto simp: ready_players_def h3_def h2_def h1_def)
  ultimately show ?thesis using hall_run_trans3 [OF assms(7) s1 s2 s3] assms(6) q(1)
    by (intro exI [of _ h3]) (auto simp: h3_def h2_def h1_def)
qed

lemma distribute:
  assumes "0 < cs"
  shows "hall_inv cs all h \<Longrightarrow> h_phase h = Receiving \<Longrightarrow> all = published h @ rest \<Longrightarrow> length ks = length rest \<Longrightarrow>
    set ks \<subseteq> ready_players h \<Longrightarrow> consumers h \<noteq> [] \<Longrightarrow> hall_run h0 h \<Longrightarrow>
    \<exists>h'. hall_run h0 h' \<and> taken h' = taken h @ zip ks rest \<and> dom (players h') = dom (players h)"
proof (induction rest arbitrary: ks h)
  case (Cons m rest)
  then obtain k js where ks: "ks = k # js" by (cases ks) auto
  obtain h1 where h1: "hall_run h0 h1" "hall_inv cs all h1" "h_phase h1 = Receiving" "published h1 = published h @ [m]"
    "taken h1 = taken h @ [(k, m)]" "ready_players h1 = ready_players h" "consumers h1 \<noteq> []"
    "dom (players h1) = dom (players h)"
    using hand_to [OF Cons.prems(1) assms Cons.prems(2,3) _ Cons.prems(6,7), of k] Cons.prems(5) ks by auto
  have "\<exists>h'. hall_run h0 h' \<and> taken h' = taken h1 @ zip js rest \<and> dom (players h') = dom (players h1)"
    by (rule Cons.IH [OF h1(2,3) _ _ _ h1(7,1)]) (use Cons.prems ks h1 in auto)
  then show ?case using h1(5,8) ks by simp
qed auto

text \<open>Players that join one after the other.\<close>

lemma join_all:
  "distinct (map fst kqs) \<Longrightarrow> fst ` set kqs \<inter> (dom (joined h) \<union> fst ` set (consumers h)) = {} \<Longrightarrow>
    length (consumers h) + length kqs \<le> first_rehash \<Longrightarrow> h_phase h = Receiving \<Longrightarrow> hall_run h0 h \<Longrightarrow>
    \<exists>h'. hall_run h0 h' \<and> players h' = players h ++ map_of kqs \<and> h_phase h' = Receiving \<and> taken h' = taken h
      \<and> published h' = published h \<and> h_pub h' = h_pub h \<and> (kqs \<noteq> [] \<or> consumers h \<noteq> [] \<longrightarrow> consumers h' \<noteq> [])"
proof (induction kqs arbitrary: h)
  case (Cons x kqs)
  obtain k q where x: "x = (k, q)" by (cases x)
  let ?c = "(k, False) # consumers h"
  have c: "consumers_insert 0 k (consumers h) = ?c" using Cons.prems(2) x by (auto simp: consumers_insert_def)
  let ?e = "h\<lparr>consumers := ?c\<rparr>"
  let ?h = "h\<lparr>players := (players h)(k \<mapsto> q), joined := (joined h)(k \<mapsto> q), consumers := ?c\<rparr>"
  have "hall_step h ?e" using hall_enter [where k = k and h = h and i = 0] c Cons.prems(2,3) x by auto
  moreover have "hall_step ?e ?h"
    using hall_join [where k = k and h = ?e and q = q and i = 0] Cons.prems(2) x by (auto simp: consumers_insert_def dom_def)
  ultimately have "hall_run h0 ?h" using Cons.prems(5) by (meson hall_next)
  moreover have "fst ` set kqs \<inter> (dom (joined ?h) \<union> fst ` set (consumers ?h)) = {}"
    using Cons.prems(1,2) x by (auto simp: dom_def disjoint_iff)
  ultimately have "\<exists>h'. hall_run h0 h' \<and> players h' = players ?h ++ map_of kqs \<and> h_phase h' = Receiving \<and> taken h' = taken ?h
      \<and> published h' = published ?h \<and> h_pub h' = h_pub ?h \<and> (kqs \<noteq> [] \<or> consumers ?h \<noteq> [] \<longrightarrow> consumers h' \<noteq> [])"
    using Cons.prems(1,3,4) by (intro Cons.IH) (auto simp: disjoint_iff dom_def)
  then obtain h' where h': "hall_run h0 h'" "players h' = players ?h ++ map_of kqs" "h_phase h' = Receiving"
    "taken h' = taken h" "published h' = published h" "h_pub h' = h_pub h" "consumers h' \<noteq> []"
    by auto
  have "map_of kqs k = None" using Cons.prems(1) x by (simp add: map_of_eq_None_iff)
  then have "players h' = players h ++ map_of (x # kqs)" unfolding h'(2) x
    by (auto simp: fun_eq_iff map_add_def split: option.splits)
  then show ?case using h' by blast
qed auto

lemma length_entries: "length (entries c ms) = length ms"
  by (induction ms arbitrary: c) simp_all

text \<open>Any way of giving each message to one of the players is what some schedule does.\<close>

lemma any_distribution:
  fixes kqs :: "(nat \<times> ctx) list"
  assumes "rx_fine (net c)" and "chunk_size c = int cs" and "0 < cs" and "audio_video_buffer c = []"
    and "pending (net c) = concat (map (av_wire cs) ms)" and "stream_ok c ms"
    and "distinct (map fst kqs)" and "\<forall>(k, q) \<in> set kqs. tx_fine (net q) \<and> 0 < chunk_size q" and "kqs \<noteq> []"
    and "length kqs \<le> first_rehash" and "length ks = length ms" and "set ks \<subseteq> fst ` set kqs"
  shows "\<exists>h. hall_run (empty_hall c) h \<and> taken h = zip ks (entries c ms) \<and> dom (players h) = fst ` set kqs"
proof -
  have inv: "hall_inv cs (entries c ms) (empty_hall c)" by (rule empty_hall_inv [OF assms(1,2,4-6)])
  obtain h1 where h1: "hall_run (empty_hall c) h1" "players h1 = map_of kqs" "h_phase h1 = Receiving" "taken h1 = []"
    "published h1 = []" "consumers h1 \<noteq> []"
    using join_all [of kqs "empty_hall c" "empty_hall c"] assms(7,9,10) hall_start [of "empty_hall c"]
    by (auto simp: empty_hall_def)
  have "k \<in> ready_players h1" if "k \<in> set ks" for k
  proof -
    have "k \<in> fst ` set kqs" using that assms(12) by blast
    then obtain q where "(k, q) \<in> set kqs" by force
    then show ?thesis using h1(2) assms(7,8) by (force simp: ready_players_def)
  qed
  then obtain h where h: "hall_run (empty_hall c) h" "taken h = taken h1 @ zip ks (entries c ms)" "dom (players h) = dom (players h1)"
    using distribute [OF assms(3) hall_run_inv [OF h1(1) inv assms(3)] h1(3) _ _ _ h1(6,1), of "entries c ms" ks] h1(5) assms(11)
    by (auto simp: length_entries)
  then show ?thesis using h1(2,4) by (intro exI [of _ h]) (auto simp: dom_map_of_conv_image_fst)
qed

end
