(* ===== verification/Lrucache.thy ===== *)
theory Lrucache
  imports Prelude
begin

text \<open>
  The cache of \<^verbatim>\<open>3rdpart/st-1.9/extensions/lrucache.c\<close>: a hash table of entries with use counts and a list of
  the entries nobody uses, the least recently used first. The buckets are modelled with their pointers
  (\<open>next\<close>, and \<open>pthis\<close>, the address of the pointer to the entry) in a store of addresses; the list of
  unused entries is a list of addresses (theory \<open>Clist\<close> justifies this for the same macros). \<open>None\<close> is
  an access to an entry that is not there, the unlinking of what is not linked, or a loop that never ends.
  The hash and comparison functions of the client are fields, as in the code; its clean-up function only
  frees, and its calls are recorded in \<open>cleaned\<close>.
\<close>

section \<open>Data\<close>

type_synonym eaddr = nat

datatype hlink = Bucket nat | Next eaddr

record ('k, 'd) centry =
  ce_key :: 'k
  ce_data :: 'd
  ce_weight :: "64 word"
  next_entry :: "eaddr option"
  pthis :: "hlink option"
  ref_count :: int
  delete_pending :: bool

record ('k, 'd) cache =
  max_size :: "64 word"
  cur_size :: "64 word"
  max_weight :: "64 word"
  cur_weight :: "64 word"
  table :: "eaddr option list"
  lru_list :: "eaddr list"
  hits :: "64 word"
  lookups :: "64 word"
  inserts :: "64 word"
  deletes :: "64 word"
  key_hash_fn :: "'k \<Rightarrow> 64 word"
  key_cmp_fn :: "'k \<Rightarrow> 'k \<Rightarrow> int"
  cleanup_fn :: bool
  heap :: "eaddr \<rightharpoonup> ('k, 'd) centry"
  cleaned :: "('k \<times> 'd) list"

record cache_info =
  ci_max_size :: "64 word"
  ci_max_weight :: "64 word"
  ci_hash_size :: nat
  ci_cur_size :: "64 word"
  ci_cur_weight :: "64 word"
  ci_hits :: "64 word"
  ci_lookups :: "64 word"
  ci_inserts :: "64 word"
  ci_deletes :: "64 word"

definition modify_entry :: "eaddr \<Rightarrow> (('k, 'd) centry \<Rightarrow> ('k, 'd) centry) \<Rightarrow> ('k, 'd) cache \<Rightarrow> ('k, 'd) cache option" where
  "modify_entry a f c = map_option (\<lambda>e. c\<lparr>heap := (heap c)(a \<mapsto> f e)\<rparr>) (heap c a)"

text \<open>\<open>*link = x\<close>\<close>

definition set_link :: "hlink \<Rightarrow> eaddr option \<Rightarrow> ('k, 'd) cache \<Rightarrow> ('k, 'd) cache option" where
  "set_link l x c = (case l of
      Bucket i \<Rightarrow> (if i < length (table c) then Some (c\<lparr>table := (table c)[i := x]\<rparr>) else None)
    | Next a \<Rightarrow> modify_entry a (\<lambda>e. e\<lparr>next_entry := x\<rparr>) c)"

definition lru_remove :: "eaddr \<Rightarrow> ('k, 'd) cache \<Rightarrow> ('k, 'd) cache option" where
  "lru_remove a c = (if a \<in> set (lru_list c) then Some (c\<lparr>lru_list := remove1 a (lru_list c)\<rparr>) else None)"

text \<open>A table without buckets makes the remainder trap.\<close>

definition bucket :: "('k, 'd) cache \<Rightarrow> 'k \<Rightarrow> nat option" where
  "bucket c k = (if table c = [] then None else Some (unat (key_hash_fn c k) mod length (table c)))"

section \<open>Operations\<close>

definition stx_cache_create ::
  "bool \<Rightarrow> bool \<Rightarrow> 64 word \<Rightarrow> 64 word \<Rightarrow> nat \<Rightarrow> ('k \<Rightarrow> 64 word) \<Rightarrow> ('k \<Rightarrow> 'k \<Rightarrow> int) \<Rightarrow> bool \<Rightarrow> ('k, 'd) cache option"
where
  "stx_cache_create mem_cache mem_table sz wt n h cmp cl =
     (if \<not> mem_cache \<or> \<not> mem_table then None
      else Some \<lparr>max_size = sz, cur_size = 0, max_weight = wt, cur_weight = 0, table = replicate n None,
        lru_list = [], hits = 0, lookups = 0, inserts = 0, deletes = 0, key_hash_fn = h, key_cmp_fn = cmp,
        cleanup_fn = cl, heap = Map.empty, cleaned = []\<rparr>)"

text \<open>\<open>a\<close> is the address the allocator answers with.\<close>

definition stx_cache_entry_create :: "eaddr option \<Rightarrow> 'k \<Rightarrow> 'd \<Rightarrow> 64 word \<Rightarrow> ('k, 'd) cache \<Rightarrow> eaddr option \<times> ('k, 'd) cache" where
  "stx_cache_entry_create a k d w c =
     (case a of
        None \<Rightarrow> (None, c)
      | Some x \<Rightarrow> (Some x, c\<lparr>heap := (heap c)(x \<mapsto> \<lparr>ce_key = k, ce_data = d, ce_weight = w, next_entry = None,
          pthis = None, ref_count = 0, delete_pending = False\<rparr>)\<rparr>))"

definition unhash :: "eaddr \<Rightarrow> ('k, 'd) centry \<Rightarrow> ('k, 'd) cache \<Rightarrow> ('k, 'd) cache option" where
  "unhash a e c =
     (case pthis e of
        None \<Rightarrow> Some c
      | Some l \<Rightarrow>
          Option.bind (set_link l (next_entry e) c) (\<lambda>c1.
          Option.bind (case next_entry e of None \<Rightarrow> Some c1 | Some b \<Rightarrow> modify_entry b (\<lambda>x. x\<lparr>pthis := Some l\<rparr>) c1) (\<lambda>c2.
          lru_remove a (c2\<lparr>cur_size := cur_size c2 - 1, cur_weight := cur_weight c2 - ce_weight e,
            deletes := deletes c2 + 1\<rparr>))))"

definition stx_cache_entry_delete :: "eaddr \<Rightarrow> ('k, 'd) cache \<Rightarrow> ('k, 'd) cache option" where
  "stx_cache_entry_delete a c =
     Option.bind (heap c a) (\<lambda>e.
     Option.bind (modify_entry a (\<lambda>e. e\<lparr>delete_pending := True\<rparr>) c) (\<lambda>c1.
       if 0 < ref_count e then Some c1
       else map_option (\<lambda>c2. c2\<lparr>heap := (heap c2)(a := None),
              cleaned := cleaned c2 @ (if cleanup_fn c2 then [(ce_key e, ce_data e)] else [])\<rparr>) (unhash a e c1)))"

partial_function (option) find_entry :: "('k, 'd) cache \<Rightarrow> 'k \<Rightarrow> eaddr option \<Rightarrow> eaddr option option" where
  "find_entry c k p =
     (case p of
        None \<Rightarrow> Some None
      | Some a \<Rightarrow>
          (case heap c a of
             None \<Rightarrow> None
           | Some e \<Rightarrow> (if \<not> delete_pending e \<and> key_cmp_fn c k (ce_key e) = 0 then Some (Some a)
                       else find_entry c k (next_entry e))))"

definition stx_cache_entry_lookup :: "'k \<Rightarrow> ('k, 'd) cache \<Rightarrow> (eaddr option \<times> ('k, 'd) cache) option" where
  "stx_cache_entry_lookup k c =
     (let c1 = c\<lparr>lookups := lookups c + 1\<rparr>
      in Option.bind (bucket c1 k) (\<lambda>b.
         Option.bind (find_entry c1 k (table c1 ! b)) (\<lambda>r.
           case r of
             None \<Rightarrow> Some (None, c1)
           | Some a \<Rightarrow>
               Option.bind (heap c1 a) (\<lambda>e.
               Option.bind (if ref_count e = 0 then lru_remove a (c1\<lparr>hits := hits c1 + 1\<rparr>)
                            else Some (c1\<lparr>hits := hits c1 + 1\<rparr>)) (\<lambda>c2.
               map_option (Pair (Some a)) (modify_entry a (\<lambda>e. e\<lparr>ref_count := ref_count e + 1\<rparr>) c2))))))"

definition stx_cache_entry_release :: "eaddr \<Rightarrow> ('k, 'd) cache \<Rightarrow> ('k, 'd) cache option" where
  "stx_cache_entry_release a c =
     Option.bind (heap c a) (\<lambda>e.
       if ref_count e = 0 then Some c
       else Option.bind (modify_entry a (\<lambda>e. e\<lparr>ref_count := ref_count e - 1\<rparr>) c) (\<lambda>c1.
              if ref_count e - 1 = 0
              then (let c2 = c1\<lparr>lru_list := lru_list c1 @ [a]\<rparr>
                    in if delete_pending e then stx_cache_entry_delete a c2 else Some c2)
              else Some c1))"

definition stx_cache_entry_getlru :: "('k, 'd) cache \<Rightarrow> eaddr option" where
  "stx_cache_entry_getlru c = (case lru_list c of [] \<Rightarrow> None | a # as \<Rightarrow> Some a)"

text \<open>Making room; \<open>False\<close> when every entry is in use.\<close>

partial_function (option) make_room :: "64 word \<Rightarrow> ('k, 'd) cache \<Rightarrow> (bool \<times> ('k, 'd) cache) option" where
  "make_room w c =
     (if cur_weight c + w > max_weight c
      then (case stx_cache_entry_getlru c of
              None \<Rightarrow> Some (False, c)
            | Some a \<Rightarrow> Option.bind (stx_cache_entry_delete a c) (make_room w))
      else Some (True, c))"

definition make_slot :: "('k, 'd) cache \<Rightarrow> (bool \<times> ('k, 'd) cache) option" where
  "make_slot c =
     (if cur_size c \<ge> max_size c
      then (case stx_cache_entry_getlru c of
              None \<Rightarrow> Some (False, c)
            | Some a \<Rightarrow> map_option (Pair True) (stx_cache_entry_delete a c))
      else Some (True, c))"

definition hash_in :: "eaddr \<Rightarrow> nat \<Rightarrow> ('k, 'd) cache \<Rightarrow> ('k, 'd) cache option" where
  "hash_in a b c =
     Option.bind (heap c a) (\<lambda>e.
     Option.bind (modify_entry a (\<lambda>e. e\<lparr>next_entry := table c ! b, pthis := Some (Bucket b)\<rparr>) c) (\<lambda>c1.
     Option.bind (case table c ! b of
                    None \<Rightarrow> Some c1
                  | Some h \<Rightarrow> modify_entry h (\<lambda>e. e\<lparr>pthis := Some (Next a)\<rparr>) c1) (\<lambda>c2.
     map_option (\<lambda>c3. c3\<lparr>table := (table c3)[b := Some a], inserts := inserts c3 + 1, cur_size := cur_size c3 + 1,
         cur_weight := cur_weight c3 + ce_weight e\<rparr>)
       (modify_entry a (\<lambda>e. e\<lparr>ref_count := ref_count e + 1\<rparr>) c2))))"

definition drop_duplicate :: "'k \<Rightarrow> nat \<Rightarrow> ('k, 'd) cache \<Rightarrow> ('k, 'd) cache option" where
  "drop_duplicate k b c =
     Option.bind (find_entry c k (table c ! b)) (\<lambda>r. case r of None \<Rightarrow> Some c | Some x \<Rightarrow> stx_cache_entry_delete x c)"

definition stx_cache_entry_insert :: "eaddr \<Rightarrow> ('k, 'd) cache \<Rightarrow> (int \<times> ('k, 'd) cache) option" where
  "stx_cache_entry_insert a c =
     Option.bind (heap c a) (\<lambda>e.
     Option.bind (make_room (ce_weight e) c) (\<lambda>(ok, c1).
       if \<not> ok then Some (-1, c1)
       else Option.bind (make_slot c1) (\<lambda>(ok, c2).
         if \<not> ok then Some (-1, c2)
         else Option.bind (bucket c2 (ce_key e)) (\<lambda>b.
              Option.bind (drop_duplicate (ce_key e) b c2) (\<lambda>c3. map_option (Pair 0) (hash_in a b c3))))))"

partial_function (option) empty_chain :: "eaddr option \<Rightarrow> ('k, 'd) cache \<Rightarrow> ('k, 'd) cache option" where
  "empty_chain p c =
     (case p of
        None \<Rightarrow> Some c
      | Some a \<Rightarrow> Option.bind (heap c a) (\<lambda>e. Option.bind (stx_cache_entry_delete a c) (empty_chain (next_entry e))))"

fun empty_buckets :: "nat list \<Rightarrow> ('k, 'd) cache \<Rightarrow> ('k, 'd) cache option" where
  "empty_buckets [] c = Some c"
| "empty_buckets (i # is) c = Option.bind (empty_chain (table c ! i) c) (empty_buckets is)"

definition stx_cache_empty :: "('k, 'd) cache \<Rightarrow> ('k, 'd) cache option" where
  "stx_cache_empty c = empty_buckets [0..<length (table c)] c"

text \<open>The traversals give the arguments of the callback, in order.\<close>

partial_function (option) chain_members :: "('k, 'd) cache \<Rightarrow> eaddr option \<Rightarrow> ('k \<times> 'd) list option" where
  "chain_members c p =
     (case p of
        None \<Rightarrow> Some []
      | Some a \<Rightarrow>
          (case heap c a of
             None \<Rightarrow> None
           | Some e \<Rightarrow> Option.bind (chain_members c (next_entry e))
                        (\<lambda>xs. Some ((if delete_pending e then [] else [(ce_key e, ce_data e)]) @ xs))))"

definition stx_cache_traverse :: "('k, 'd) cache \<Rightarrow> ('k \<times> 'd) list option" where
  "stx_cache_traverse c = map_option concat (those (map (chain_members c) (table c)))"

definition entry_pair :: "('k, 'd) cache \<Rightarrow> eaddr \<Rightarrow> ('k \<times> 'd) option" where
  "entry_pair c a = map_option (\<lambda>e. (ce_key e, ce_data e)) (heap c a)"

definition stx_cache_traverse_lru :: "('k, 'd) cache \<Rightarrow> 32 word \<Rightarrow> ('k \<times> 'd) list option" where
  "stx_cache_traverse_lru c n = those (map (entry_pair c) (take (unat n) (lru_list c)))"

definition stx_cache_traverse_mru :: "('k, 'd) cache \<Rightarrow> 32 word \<Rightarrow> ('k \<times> 'd) list option" where
  "stx_cache_traverse_mru c n = those (map (entry_pair c) (take (unat n) (rev (lru_list c))))"

definition stx_cache_getsize :: "('k, 'd) cache \<Rightarrow> 64 word" where
  "stx_cache_getsize c = cur_size c"

definition stx_cache_getweight :: "('k, 'd) cache \<Rightarrow> 64 word" where
  "stx_cache_getweight c = cur_weight c"

definition stx_cache_getinfo :: "('k, 'd) cache \<Rightarrow> cache_info" where
  "stx_cache_getinfo c = \<lparr>ci_max_size = max_size c, ci_max_weight = max_weight c, ci_hash_size = length (table c),
     ci_cur_size = cur_size c, ci_cur_weight = cur_weight c, ci_hits = hits c, ci_lookups = lookups c,
     ci_inserts = inserts c, ci_deletes = deletes c\<rparr>"

definition stx_cache_entry_getdata :: "eaddr \<Rightarrow> ('k, 'd) cache \<Rightarrow> 'd option" where
  "stx_cache_entry_getdata a c = map_option ce_data (heap c a)"

definition stx_cache_entry_getkey :: "eaddr \<Rightarrow> ('k, 'd) cache \<Rightarrow> 'k option" where
  "stx_cache_entry_getkey a c = map_option ce_key (heap c a)"

definition stx_cache_entry_getweight :: "eaddr \<Rightarrow> ('k, 'd) cache \<Rightarrow> 64 word option" where
  "stx_cache_entry_getweight a c = map_option ce_weight (heap c a)"

section \<open>Buckets\<close>

text \<open>
  \<open>chain g l p as\<close>: from the pointer \<open>p\<close>, which is stored at \<open>l\<close>, the entries \<open>as\<close> are linked one after
  the other, and each knows where the pointer to it is. \<open>g\<close> has the links of the entries.
\<close>

type_synonym ptrs = "eaddr \<rightharpoonup> eaddr option \<times> hlink option"

fun chain :: "ptrs \<Rightarrow> hlink \<Rightarrow> eaddr option \<Rightarrow> eaddr list \<Rightarrow> bool" where
  "chain g l p [] \<longleftrightarrow> p = None"
| "chain g l p (a # as) \<longleftrightarrow> p = Some a \<and> (\<exists>n. g a = Some (n, Some l) \<and> chain g (Next a) n as)"

lemma chain_cong: "(\<And>a. a \<in> set as \<Longrightarrow> g' a = g a) \<Longrightarrow> chain g' l p as = chain g l p as"
  by (induction as arbitrary: l p) auto

definition put_next :: "hlink \<Rightarrow> eaddr option \<Rightarrow> ptrs \<Rightarrow> ptrs" where
  "put_next l n g = (case l of Bucket i \<Rightarrow> g | Next x \<Rightarrow> g(x := map_option (\<lambda>(m, q). (n, q)) (g x)))"

definition set_pthis :: "eaddr option \<Rightarrow> hlink \<Rightarrow> ptrs \<Rightarrow> ptrs" where
  "set_pthis p l g = (case p of None \<Rightarrow> g | Some b \<Rightarrow> g(b := map_option (\<lambda>(m, q). (m, Some l)) (g b)))"

definition last_link :: "hlink \<Rightarrow> eaddr list \<Rightarrow> hlink" where
  "last_link l xs = (if xs = [] then l else Next (last xs))"

lemma chain_last_link:
  "chain g l p (xs @ a # ys) \<Longrightarrow> \<exists>n. g a = Some (n, Some (last_link l xs)) \<and> chain g (Next a) n ys"
  by (induction xs arbitrary: l p) (auto simp: last_link_def split: if_splits)

text \<open>Taking an entry out of the middle of a bucket.\<close>

lemma chain_unlink:
  assumes "chain g l p (xs @ a # ys)" and "distinct (xs @ a # ys)" and "\<forall>x \<in> set (xs @ a # ys). l \<noteq> Next x"
    and "g a = Some (n, q)"
  shows "chain (set_pthis n (last_link l xs) (put_next (last_link l xs) n g)) l (if xs = [] then n else p) (xs @ ys)"
  using assms
proof (induction xs arbitrary: l p)
  case Nil
  then have ys: "chain g (Next a) n ys" by auto
  have g: "put_next l n g b = g b" if "b \<in> set ys" for b
    using Nil.prems(3) that by (cases l) (auto simp: put_next_def)
  show ?case
  proof (cases ys)
    case Nil
    then show ?thesis using ys by simp
  next
    case (Cons b zs)
    obtain m where m: "n = Some b" "g b = Some (m, Some (Next a))" "chain g (Next b) m zs" using ys Cons by auto
    let ?g = "set_pthis n l (put_next l n g)"
    have "?g b = Some (m, Some l)" using m g Cons by (simp add: set_pthis_def)
    moreover have "?g x = g x" if "x \<in> set zs" for x
      using that Nil.prems(2) m(1) g Cons by (auto simp: set_pthis_def)
    then have "chain ?g (Next b) m zs" using m(3) chain_cong [of zs ?g g] by simp
    ultimately show ?thesis using m(1) Cons by (simp add: last_link_def)
  qed
next
  case (Cons x xs)
  obtain m where m: "p = Some x" "g x = Some (m, Some l)" "chain g (Next x) m (xs @ a # ys)" using Cons.prems(1) by auto
  let ?l = "last_link l (x # xs)"
  have l: "last_link (Next x) xs = ?l" by (simp add: last_link_def)
  let ?g = "set_pthis n ?l (put_next ?l n g)"
  have ih: "chain ?g (Next x) (if xs = [] then n else m) (xs @ ys)"
    using Cons.IH [OF m(3) _ _ Cons.prems(4)] Cons.prems(2) unfolding l by (metis append_Cons distinct.simps(2) hlink.inject(2))
  have nx: "n \<noteq> Some x"
  proof -
    obtain n' where "g a = Some (n', Some (last_link (Next x) xs))" "chain g (Next a) n' ys" using chain_last_link [OF m(3)] by blast
    then show ?thesis using Cons.prems(2,4) by (cases ys) auto
  qed
  have "put_next ?l n g x = Some (if xs = [] then n else m, Some l)"
    using m(2) Cons.prems(2) by (auto simp: put_next_def last_link_def)
  then have "?g x = Some (if xs = [] then n else m, Some l)" using nx by (auto simp: set_pthis_def split: option.splits)
  then show ?case using m(1) ih by simp
qed

text \<open>Putting an entry in front.\<close>

lemma chain_push:
  assumes "chain g (Bucket i) p as" and "a \<notin> set as" and "distinct as"
  shows "chain ((set_pthis p (Next a) g)(a \<mapsto> (p, Some (Bucket i)))) (Bucket i) (Some a) (a # as)"
proof (cases as)
  case (Cons b bs)
  then obtain m where m: "p = Some b" "g b = Some (m, Some (Bucket i))" "chain g (Next b) m bs" using assms(1) by auto
  let ?g = "(set_pthis p (Next a) g)(a \<mapsto> (p, Some (Bucket i)))"
  have "?g x = g x" if "x \<in> set bs" for x using that m(1) assms(2,3) Cons by (auto simp: set_pthis_def)
  then have "chain ?g (Next b) m bs" using m(3) chain_cong [of bs ?g g] by blast
  then show ?thesis using m assms(2) Cons by (simp add: set_pthis_def)
qed (use assms in simp)

text \<open>The links of the entries, and the entries without their links.\<close>

definition lnk :: "(eaddr \<rightharpoonup> ('k, 'd) centry) \<Rightarrow> ptrs" where
  "lnk h a = map_option (\<lambda>e. (next_entry e, pthis e)) (h a)"

definition bod :: "(eaddr \<rightharpoonup> ('k, 'd) centry) \<Rightarrow> (eaddr \<rightharpoonup> ('k, 'd) centry)" where
  "bod h a = map_option (\<lambda>e. e\<lparr>next_entry := None, pthis := None\<rparr>) (h a)"

lemma lnk_upd [simp]: "lnk (h(a \<mapsto> e)) = (lnk h)(a \<mapsto> (next_entry e, pthis e))" "lnk (h(a := None)) = (lnk h)(a := None)"
  by (auto simp: lnk_def fun_eq_iff)

lemma bod_upd [simp]:
  "bod (h(a \<mapsto> e)) = (bod h)(a \<mapsto> e\<lparr>next_entry := None, pthis := None\<rparr>)" "bod (h(a := None)) = (bod h)(a := None)"
  by (auto simp: bod_def fun_eq_iff)

lemma bod_Some: "h a = Some e \<Longrightarrow> bod h a = Some (e\<lparr>next_entry := None, pthis := None\<rparr>)"
  by (simp add: bod_def)

lemma bod_heap: "bod h a = Some e \<Longrightarrow> \<exists>n q. h a = Some (e\<lparr>next_entry := n, pthis := q\<rparr>)"
proof -
  assume "bod h a = Some e"
  then obtain x where "h a = Some x" "e = x\<lparr>next_entry := None, pthis := None\<rparr>" by (auto simp: bod_def)
  then show ?thesis by (intro exI [of _ "next_entry x"] exI [of _ "pthis x"]) simp
qed

lemma bod_same_links: "h a = Some e \<Longrightarrow> (bod h)(a \<mapsto> e\<lparr>next_entry := None, pthis := None\<rparr>) = bod h"
  by (auto simp: bod_def fun_eq_iff)

lemma set_link_ok:
  assumes "case l of Bucket i \<Rightarrow> i < length (table c) | Next x \<Rightarrow> heap c x \<noteq> None"
  shows "\<exists>h. set_link l n c = Some (c\<lparr>heap := h, table := (case l of Bucket i \<Rightarrow> (table c)[i := n] | Next x \<Rightarrow> table c)\<rparr>)
    \<and> lnk h = put_next l n (lnk (heap c)) \<and> bod h = bod (heap c)"
proof (cases l)
  case (Bucket i)
  then show ?thesis using assms by (intro exI [of _ "heap c"]) (simp add: set_link_def put_next_def)
next
  case (Next x)
  then obtain e where e: "heap c x = Some e" using assms by auto
  then have "lnk (heap c) x = Some (next_entry e, pthis e)" by (simp add: lnk_def)
  then show ?thesis using Next e
    by (intro exI [of _ "(heap c)(x \<mapsto> e\<lparr>next_entry := n\<rparr>)"])
      (simp add: set_link_def put_next_def modify_entry_def bod_same_links [where h = "heap c", OF e])
qed

lemma set_pthis_ok:
  assumes "\<And>b. p = Some b \<Longrightarrow> heap c b \<noteq> None"
  shows "\<exists>h. (case p of None \<Rightarrow> Some c | Some b \<Rightarrow> modify_entry b (\<lambda>x. x\<lparr>pthis := Some l\<rparr>) c) = Some (c\<lparr>heap := h\<rparr>)
    \<and> lnk h = set_pthis p l (lnk (heap c)) \<and> bod h = bod (heap c)"
proof (cases p)
  case None
  then show ?thesis by (intro exI [of _ "heap c"]) (simp add: set_pthis_def)
next
  case (Some b)
  then obtain e where e: "heap c b = Some e" using assms by auto
  then have "lnk (heap c) b = Some (next_entry e, pthis e)" by (simp add: lnk_def)
  then show ?thesis using Some e
    by (intro exI [of _ "(heap c)(b \<mapsto> e\<lparr>pthis := Some l\<rparr>)"])
      (simp add: set_pthis_def modify_entry_def bod_same_links [where h = "heap c", OF e])
qed

text \<open>The table: each bucket is a chain, and exactly the entries in a chain have a \<open>pthis\<close>.\<close>

definition table_ok :: "ptrs \<Rightarrow> eaddr option list \<Rightarrow> eaddr list list \<Rightarrow> bool" where
  "table_ok g tab cs \<longleftrightarrow> tab \<noteq> [] \<and> length cs = length tab \<and> (\<forall>i < length cs. chain g (Bucket i) (tab ! i) (cs ! i))
     \<and> distinct (concat cs) \<and> (\<forall>a n q. g a = Some (n, q) \<longrightarrow> (q \<noteq> None \<longleftrightarrow> a \<in> set (concat cs)))"

lemma chain_mem: "chain g l p as \<Longrightarrow> a \<in> set as \<Longrightarrow> \<exists>n q. g a = Some (n, Some q)"
  by (induction as arbitrary: l p) auto

lemma chain_next: "chain g l p as \<Longrightarrow> a \<in> set as \<Longrightarrow> g a = Some (Some b, q) \<Longrightarrow> b \<in> set as"
proof (induction as arbitrary: l p)
  case (Cons x as)
  show ?case
  proof (cases "a = x")
    case True
    then show ?thesis using Cons.prems(1,3) by (cases as) auto
  next
    case False
    then show ?thesis using Cons by auto
  qed
qed simp

lemma table_mem: "table_ok g tab cs \<Longrightarrow> a \<in> set (concat cs) \<Longrightarrow> \<exists>n q. g a = Some (n, Some q)"
  unfolding table_ok_def by (metis chain_mem in_set_conv_nth UN_iff set_concat)

lemma concat_filter: "concat (map (filter P) cs) = filter P (concat cs)"
  by (induction cs) auto

lemma nth_concat: "i < length cs \<Longrightarrow> x \<in> set (cs ! i) \<Longrightarrow> x \<in> set (concat cs)"
  using nth_mem by fastforce

lemma distinct_concat_other: "distinct (concat cs) \<Longrightarrow> i < length cs \<Longrightarrow> j < length cs \<Longrightarrow> i \<noteq> j \<Longrightarrow>
    set (cs ! i) \<inter> set (cs ! j) = {}"
proof (induction cs arbitrary: i j)
  case (Cons x cs)
  have d: "set x \<inter> set (concat cs) = {}" "distinct (concat cs)" using Cons.prems(1) by simp_all
  show ?case
  proof (cases i)
    case 0
    then obtain k where "j = Suc k" "k < length cs" using Cons.prems(3,4) by (cases j) auto
    then show ?thesis using 0 d(1) nth_concat [of k cs] by (simp del: set_concat) blast
  next
    case (Suc k)
    then have k: "k < length cs" using Cons.prems(2) by simp
    show ?thesis
    proof (cases j)
      case 0
      then show ?thesis using Suc k d(1) nth_concat [of k cs] by (simp del: set_concat) blast
    next
      case (Suc m)
      then show ?thesis using \<open>i = Suc k\<close> k Cons.IH [OF d(2), of k m] Cons.prems(3,4) by simp
    qed
  qed
qed simp

lemma distinct_concat_nth: "distinct (concat cs) \<Longrightarrow> i < length cs \<Longrightarrow> distinct (cs ! i)"
  by (induction cs arbitrary: i) (auto simp: nth_Cons split: nat.splits)

lemma table_unlink:
  assumes "table_ok g tab cs" and "j < length cs" and "cs ! j = xs @ a # ys" and "g a = Some (n, Some l)"
  shows "l = last_link (Bucket j) xs"
    and "table_ok ((set_pthis n l (put_next l n g))(a := None))
      (case l of Bucket i \<Rightarrow> tab[i := n] | Next x \<Rightarrow> tab) (map (filter (\<lambda>x. x \<noteq> a)) cs)"
proof -
  have c: "chain g (Bucket j) (tab ! j) (xs @ a # ys)" "distinct (xs @ a # ys)" "j < length tab"
    using assms(1-3) distinct_concat_nth [of cs j] by (auto simp: table_ok_def)
  obtain m where m: "g a = Some (m, Some (last_link (Bucket j) xs))" "chain g (Next a) m ys"
    using chain_last_link [OF c(1)] by blast
  then show l: "l = last_link (Bucket j) xs" using assms(4) by simp
  have nb: "b \<in> set ys" if "n = Some b" for b using m that assms(4) by (cases ys) auto
  let ?g = "(set_pthis n l (put_next l n g))(a := None)" and ?t = "case l of Bucket i \<Rightarrow> tab[i := n] | Next x \<Rightarrow> tab"
  have t: "?t = tab[j := if xs = [] then n else tab ! j]" using l by (simp add: last_link_def)
  have g: "?g x = g x" if "x \<notin> set (cs ! j)" for x
    using that assms(3) l nb by (auto simp: set_pthis_def put_next_def last_link_def split: option.splits hlink.splits if_splits)
  have d: "?g x = None \<longleftrightarrow> g x = None \<or> x = a" and q: "?g x = Some (n', Some q) \<Longrightarrow> \<exists>n q. g x = Some (n, Some q)" for x n' q
    using m(1) l nb chain_mem [OF c(1), of x] by (auto simp: set_pthis_def put_next_def last_link_def split: option.splits hlink.splits if_splits)
  have "chain ?g (Bucket i) (?t ! i) (map (filter (\<lambda>x. x \<noteq> a)) cs ! i)" if "i < length cs" for i
  proof (cases "i = j")
    case True
    have "filter (\<lambda>x. x \<noteq> a) xs = xs" "filter (\<lambda>x. x \<noteq> a) ys = ys" using c(2) by (auto simp: filter_id_conv)
    then have "filter (\<lambda>x. x \<noteq> a) (cs ! j) = xs @ ys" using assms(3) by simp
    moreover have "chain (set_pthis n l (put_next l n g)) (Bucket j) (if xs = [] then n else tab ! j) (xs @ ys)"
      using chain_unlink [OF c(1,2) _ assms(4)] l by simp
    then have "chain ?g (Bucket j) (if xs = [] then n else tab ! j) (xs @ ys)"
      by (rule chain_cong [THEN iffD2, rotated]) (use c(2) in auto)
    ultimately show ?thesis using True c(3) assms(2) by (simp add: t)
  next
    case False
    have o: "set (cs ! i) \<inter> set (cs ! j) = {}"
      using distinct_concat_other [OF _ that assms(2) False] assms(1) by (simp add: table_ok_def)
    then have "filter (\<lambda>x. x \<noteq> a) (cs ! i) = cs ! i" using assms(3) by (auto simp: filter_id_conv)
    moreover have "chain g (Bucket i) (tab ! i) (cs ! i)" using assms(1) that by (simp add: table_ok_def)
    then have "chain ?g (Bucket i) (tab ! i) (cs ! i)" using g o chain_cong [of "cs ! i" ?g g] by blast
    ultimately show ?thesis using that False assms(2) by (simp add: t)
  qed
  moreover have "q \<noteq> None \<longleftrightarrow> x \<in> set (concat (map (filter (\<lambda>x. x \<noteq> a)) cs))" if s: "?g x = Some (n', q)" for x n' q
  proof -
    have "x \<noteq> a" using s by auto
    moreover obtain m' q' where "g x = Some (m', q')" using d [of x] s by (cases "g x") auto
    moreover have "q \<noteq> None \<longleftrightarrow> q' \<noteq> None"
      using s \<open>g x = _\<close> \<open>x \<noteq> a\<close> nb [of x] chain_mem [OF c(1), of x]
      by (auto simp: set_pthis_def put_next_def split: option.splits hlink.splits if_splits)
    ultimately show ?thesis using assms(1) unfolding concat_filter by (auto simp: table_ok_def)
  qed
  ultimately show "table_ok ?g ?t (map (filter (\<lambda>x. x \<noteq> a)) cs)"
    using assms(1) unfolding table_ok_def concat_filter t by auto
qed

lemma table_push:
  assumes "table_ok g tab cs" and "j < length cs" and "g a = Some (n, None)"
  shows "table_ok ((set_pthis (tab ! j) (Next a) g)(a \<mapsto> (tab ! j, Some (Bucket j)))) (tab[j := Some a]) (cs[j := a # cs ! j])"
proof -
  let ?g = "(set_pthis (tab ! j) (Next a) g)(a \<mapsto> (tab ! j, Some (Bucket j)))"
  have a: "a \<notin> set (concat cs)" using table_mem [OF assms(1)] assms(3) by fastforce
  have n: "a \<notin> set (cs ! i)" if "i < length cs" for i using a nth_concat [OF that] by blast
  have c: "chain g (Bucket j) (tab ! j) (cs ! j)" "distinct (cs ! j)" "a \<notin> set (cs ! j)" "length tab = length cs"
    using assms(1,2) n distinct_concat_nth [of cs j] by (simp_all add: table_ok_def)
  have hd: "b \<in> set (cs ! j)" if "tab ! j = Some b" for b using c(1) that by (cases "cs ! j") auto
  have g: "?g x = g x" if "x \<notin> set (cs ! j)" "x \<noteq> a" for x
    using that hd by (auto simp: set_pthis_def split: option.splits)
  have "chain ?g (Bucket i) (tab[j := Some a] ! i) (cs[j := a # cs ! j] ! i)" if "i < length cs" for i
  proof (cases "i = j")
    case True
    then show ?thesis using chain_push [OF c(1,3,2)] c(4) assms(2) by simp
  next
    case False
    have "set (cs ! i) \<inter> set (cs ! j) = {}" "a \<notin> set (cs ! i)"
      using distinct_concat_other [OF _ that assms(2) False] assms(1) n [OF that] by (simp_all add: table_ok_def)
    then have "?g x = g x" if "x \<in> set (cs ! i)" for x using g that by blast
    moreover have "chain g (Bucket i) (tab ! i) (cs ! i)" using assms(1) that by (simp add: table_ok_def)
    ultimately have "chain ?g (Bucket i) (tab ! i) (cs ! i)" by (rule chain_cong [THEN iffD2])
    then show ?thesis using False by simp
  qed
  moreover have s: "set (concat (cs[j := a # cs ! j])) = insert a (set (concat cs))" "distinct (concat (cs[j := a # cs ! j]))"
  proof -
    have "cs = take j cs @ cs ! j # drop (Suc j) cs" using assms(2) by (rule id_take_nth_drop)
    then have e: "concat cs = concat (take j cs) @ cs ! j @ concat (drop (Suc j) cs)" by (metis concat.simps(2) concat_append)
    have f: "concat (cs[j := a # cs ! j]) = concat (take j cs) @ (a # cs ! j) @ concat (drop (Suc j) cs)"
      using assms(2) by (simp add: upd_conv_take_nth_drop)
    show "set (concat (cs[j := a # cs ! j])) = insert a (set (concat cs))" unfolding e f by auto
    have "distinct (concat cs)" using assms(1) by (simp add: table_ok_def)
    then show "distinct (concat (cs[j := a # cs ! j]))" using a unfolding e f by auto
  qed
  moreover have "q \<noteq> None \<longleftrightarrow> x \<in> insert a (set (concat cs))" if s: "?g x = Some (n', q)" for x n' q
  proof (cases "x = a")
    case False
    then obtain m' q' where q: "g x = Some (m', q')" using s by (cases "g x") (auto simp: set_pthis_def split: option.splits if_splits)
    have "q \<noteq> None \<longleftrightarrow> q' \<noteq> None"
      using s q False hd [of x] chain_mem [OF c(1), of x] by (auto simp: set_pthis_def split: option.splits if_splits)
    then show ?thesis using assms(1) q False by (auto simp: table_ok_def)
  qed (use s in auto)
  ultimately show ?thesis using assms(1) unfolding table_ok_def by simp
qed

section \<open>The invariant\<close>

text \<open>
  An entry is on the list of unused entries exactly when its count is zero. The live entries have different
  keys, each in the bucket of its key; the counters are exact and within the bounds. Between two calls
  (\<open>cache_ok\<close>) a deletion is pending only while the entry is used.
\<close>

definition entry_ok :: "eaddr list \<Rightarrow> eaddr \<Rightarrow> ('k, 'd) centry \<Rightarrow> bool" where
  "entry_ok L a e \<longleftrightarrow> 0 \<le> ref_count e \<and> (ref_count e = 0 \<longleftrightarrow> a \<in> set L)"

definition books_ok :: "('k \<Rightarrow> nat) \<Rightarrow> (eaddr \<rightharpoonup> ('k, 'd) centry) \<Rightarrow> eaddr list \<Rightarrow> eaddr list list \<Rightarrow> bool" where
  "books_ok f B L cs \<longleftrightarrow> (\<forall>a \<in> set (concat cs). \<exists>e. B a = Some e \<and> entry_ok L a e)
     \<and> (\<forall>i < length cs. \<forall>a \<in> set (cs ! i). f (ce_key (the (B a))) = i)
     \<and> (\<forall>a \<in> set (concat cs). \<forall>b \<in> set (concat cs). \<not> delete_pending (the (B a)) \<longrightarrow> \<not> delete_pending (the (B b)) \<longrightarrow>
          ce_key (the (B a)) = ce_key (the (B b)) \<longrightarrow> a = b)
     \<and> set L \<subseteq> set (concat cs) \<and> distinct L"

definition weights :: "(eaddr \<rightharpoonup> ('k, 'd) centry) \<Rightarrow> eaddr list \<Rightarrow> nat" where
  "weights B as = (\<Sum>a\<leftarrow>as. unat (ce_weight (the (B a))))"

definition key_bucket :: "('k, 'd) cache \<Rightarrow> 'k \<Rightarrow> nat" where
  "key_bucket c k = unat (key_hash_fn c k) mod length (table c)"

definition cache_inv :: "('k, 'd) cache \<Rightarrow> eaddr list list \<Rightarrow> bool" where
  "cache_inv c cs \<longleftrightarrow> table_ok (lnk (heap c)) (table c) cs \<and> books_ok (key_bucket c) (bod (heap c)) (lru_list c) cs
     \<and> (\<forall>x y. key_cmp_fn c x y = 0 \<longleftrightarrow> x = y)
     \<and> cur_size c = of_nat (length (concat cs)) \<and> length (concat cs) \<le> unat (max_size c)
     \<and> cur_weight c = of_nat (weights (bod (heap c)) (concat cs)) \<and> weights (bod (heap c)) (concat cs) \<le> unat (max_weight c)"

definition tidy :: "(eaddr \<rightharpoonup> ('k, 'd) centry) \<Rightarrow> eaddr list list \<Rightarrow> bool" where
  "tidy B cs \<longleftrightarrow> (\<forall>a \<in> set (concat cs). delete_pending (the (B a)) \<longrightarrow> 0 < ref_count (the (B a)))"

definition cache_ok :: "('k, 'd) cache \<Rightarrow> eaddr list list \<Rightarrow> bool" where
  "cache_ok c cs \<longleftrightarrow> cache_inv c cs \<and> tidy (bod (heap c)) cs"

definition config :: "('k, 'd) cache \<Rightarrow> 64 word \<times> 64 word \<times> ('k \<Rightarrow> 64 word) \<times> ('k \<Rightarrow> 'k \<Rightarrow> int) \<times> nat" where
  "config c = (max_size c, max_weight c, key_hash_fn c, key_cmp_fn c, length (table c))"

lemma bucket_ok: "cache_inv c cs \<Longrightarrow> bucket c k = Some (key_bucket c k) \<and> key_bucket c k < length cs"
  by (auto simp: cache_inv_def table_ok_def bucket_def key_bucket_def)

text \<open>Entries leave, without being replaced: eviction, deletion.\<close>

definition gone :: "eaddr set \<Rightarrow> eaddr list list \<Rightarrow> ('k, 'd) cache \<Rightarrow> ('k, 'd) cache \<Rightarrow> bool" where
  "gone X cs c c' \<longleftrightarrow> cache_inv c' (map (filter (\<lambda>x. x \<notin> X)) cs) \<and> bod (heap c') = (\<lambda>x. if x \<in> X then None else bod (heap c) x)
     \<and> lru_list c' = filter (\<lambda>x. x \<notin> X) (lru_list c) \<and> config c' = config c"

lemma gone_empty: "cache_inv c cs \<Longrightarrow> gone {} cs c c"
  by (simp add: gone_def map_idI)

lemma gone_trans:
  assumes "gone X cs c c1" and "gone Y (map (filter (\<lambda>x. x \<notin> X)) cs) c1 c2"
  shows "gone (X \<union> Y) cs c c2"
proof -
  have "filter (\<lambda>x. x \<notin> Y) (filter (\<lambda>x. x \<notin> X) xs) = filter (\<lambda>x. x \<notin> X \<union> Y) xs" for xs :: "eaddr list"
    by (auto simp: filter_filter intro: filter_cong)
  then show ?thesis using assms by (simp add: gone_def o_def fun_eq_iff)
qed

lemma booksD:
  assumes "books_ok f B L cs"
  shows "a \<in> set (concat cs) \<Longrightarrow> \<exists>e. B a = Some e \<and> entry_ok L a e"
    and "i < length cs \<Longrightarrow> a \<in> set (cs ! i) \<Longrightarrow> f (ce_key (the (B a))) = i"
    and "a \<in> set (concat cs) \<Longrightarrow> b \<in> set (concat cs) \<Longrightarrow> \<not> delete_pending (the (B a)) \<Longrightarrow> \<not> delete_pending (the (B b)) \<Longrightarrow>
      ce_key (the (B a)) = ce_key (the (B b)) \<Longrightarrow> a = b"
    and "set L \<subseteq> set (concat cs)" and "distinct L"
  using assms unfolding books_ok_def by blast+

lemma booksI:
  assumes "\<And>a. a \<in> set (concat cs) \<Longrightarrow> \<exists>e. B a = Some e \<and> entry_ok L a e"
    and "\<And>i a. i < length cs \<Longrightarrow> a \<in> set (cs ! i) \<Longrightarrow> f (ce_key (the (B a))) = i"
    and "\<And>a b. a \<in> set (concat cs) \<Longrightarrow> b \<in> set (concat cs) \<Longrightarrow> \<not> delete_pending (the (B a)) \<Longrightarrow> \<not> delete_pending (the (B b)) \<Longrightarrow>
      ce_key (the (B a)) = ce_key (the (B b)) \<Longrightarrow> a = b"
    and "set L \<subseteq> set (concat cs)" and "distinct L"
  shows "books_ok f B L cs"
  using assms unfolding books_ok_def by blast

lemma books_remove:
  assumes "books_ok f B L cs"
  shows "books_ok f (B(a := None)) (filter (\<lambda>x. x \<noteq> a) L) (map (filter (\<lambda>x. x \<noteq> a)) cs)"
proof (rule booksI)
  note m = concat_filter set_filter
  fix b assume b: "b \<in> set (concat (map (filter (\<lambda>x. x \<noteq> a)) cs))"
  then show "\<exists>e. (B(a := None)) b = Some e \<and> entry_ok (filter (\<lambda>x. x \<noteq> a) L) b e"
    using booksD(1) [OF assms, of b] unfolding m by (auto simp: entry_ok_def)
  fix d assume "d \<in> set (concat (map (filter (\<lambda>x. x \<noteq> a)) cs))" "\<not> delete_pending (the ((B(a := None)) b))"
    "\<not> delete_pending (the ((B(a := None)) d))" "ce_key (the ((B(a := None)) b)) = ce_key (the ((B(a := None)) d))"
  then show "b = d" using booksD(3) [OF assms, of b d] b unfolding m by simp
next
  fix i b assume "i < length (map (filter (\<lambda>x. x \<noteq> a)) cs)" "b \<in> set (map (filter (\<lambda>x. x \<noteq> a)) cs ! i)"
  then show "f (ce_key (the ((B(a := None)) b))) = i" using booksD(2) [OF assms, of i b] by simp
next
  show "set (filter (\<lambda>x. x \<noteq> a) L) \<subseteq> set (concat (map (filter (\<lambda>x. x \<noteq> a)) cs))"
    using booksD(4) [OF assms] unfolding concat_filter by auto
  show "distinct (filter (\<lambda>x. x \<noteq> a) L)" using booksD(5) [OF assms] by simp
qed

lemma weights_remove:
  assumes "distinct as" and "a \<in> set as"
  shows "weights B as = unat (ce_weight (the (B a))) + weights (B(a := None)) (filter (\<lambda>x. x \<noteq> a) as)"
    and "length as = Suc (length (filter (\<lambda>x. x \<noteq> a) as))"
proof -
  obtain us vs where s: "as = us @ a # vs" using assms(2) by (auto simp: in_set_conv_decomp)
  then have "filter (\<lambda>x. x \<noteq> a) us = us" "filter (\<lambda>x. x \<noteq> a) vs = vs" using assms(1) by (auto simp: filter_id_conv)
  then have n: "filter (\<lambda>x. x \<noteq> a) as = us @ vs" by (simp add: s)
  have "weights (B(a := None)) (us @ vs) = weights B (us @ vs)"
    unfolding weights_def using s assms(1) by (intro arg_cong [where f = sum_list] map_cong) auto
  then show "weights B as = unat (ce_weight (the (B a))) + weights (B(a := None)) (filter (\<lambda>x. x \<noteq> a) as)"
    unfolding n by (simp add: s weights_def)
  show "length as = Suc (length (filter (\<lambda>x. x \<noteq> a) as))" unfolding n by (simp add: s)
qed

lemma word_less_one: "(of_nat (Suc n) :: 64 word) - 1 = of_nat n"
  by simp

lemma lnk_Some: "lnk h a = Some (n, q) \<longleftrightarrow> (\<exists>e. h a = Some e \<and> next_entry e = n \<and> pthis e = q)"
  by (auto simp: lnk_def)

lemma bod_None: "bod h a = None \<longleftrightarrow> h a = None"
  by (simp add: bod_def)

lemma lnk_same: "h a = Some e \<Longrightarrow> next_entry e' = next_entry e \<Longrightarrow> pthis e' = pthis e \<Longrightarrow> (lnk h)(a \<mapsto> (next_entry e', pthis e')) = lnk h"
  by (auto simp: lnk_def fun_eq_iff)

lemma filter_ne: "filter (\<lambda>x. x \<notin> {a}) xs = filter (\<lambda>x. x \<noteq> a) xs"
  by simp

text \<open>Taking a hashed entry out of its bucket, as far as the pointers go.\<close>

lemma unhash_links:
  assumes "table_ok (lnk (heap c)) (table c) cs" and "a \<in> set (concat cs)" and "lnk (heap c) a = Some (n, Some l)"
    and "\<forall>x \<in> set (concat cs). heap c x \<noteq> None"
  shows "\<exists>h t c1. set_link l n c = Some c1
    \<and> (case n of None \<Rightarrow> Some c1 | Some b \<Rightarrow> modify_entry b (\<lambda>x. x\<lparr>pthis := Some l\<rparr>) c1) = Some (c\<lparr>heap := h, table := t\<rparr>)
    \<and> length t = length (table c) \<and> table_ok ((lnk h)(a := None)) t (map (filter (\<lambda>x. x \<noteq> a)) cs) \<and> bod h = bod (heap c)"
proof -
  obtain j xs ys where j: "j < length cs" "cs ! j = xs @ a # ys"
    using assms(2) by (metis UN_E in_set_conv_nth set_concat split_list)
  note u = table_unlink [OF assms(1) j assms(3)]
  have m: "x \<in> set (concat cs)" if "x \<in> set (xs @ a # ys)" for x using nth_concat [OF j(1)] j(2) that by simp
  have lj: "j < length (table c)" using assms(1) j(1) by (simp add: table_ok_def)
  have "case l of Bucket i \<Rightarrow> i < length (table c) | Next x \<Rightarrow> heap c x \<noteq> None"
    using u(1) assms(4) m [of "last xs"] lj by (auto simp: last_link_def)
  from set_link_ok [OF this, of n] obtain h1 where h1:
    "set_link l n c = Some (c\<lparr>heap := h1, table := (case l of Bucket i \<Rightarrow> (table c)[i := n] | Next x \<Rightarrow> table c)\<rparr>)"
    "lnk h1 = put_next l n (lnk (heap c))" "bod h1 = bod (heap c)" by blast
  let ?t = "case l of Bucket i \<Rightarrow> (table c)[i := n] | Next x \<Rightarrow> table c"
  let ?c1 = "c\<lparr>heap := h1, table := ?t\<rparr>"
  have "heap ?c1 b \<noteq> None" if "n = Some b" for b
  proof -
    have "chain (lnk (heap c)) (Bucket j) (table c ! j) (cs ! j)" using assms(1) j(1) by (simp add: table_ok_def)
    from chain_next [OF this, of a b] have "b \<in> set (cs ! j)" using j(2) assms(3) that by simp
    then have "b \<in> set (concat cs)" using m j(2) by simp
    then have "heap c b \<noteq> None" using assms(4) by blast
    then have "bod h1 b \<noteq> None" unfolding h1(3) bod_None .
    then show ?thesis unfolding bod_None by simp
  qed
  from set_pthis_ok [OF this, of n l] obtain h where h:
    "(case n of None \<Rightarrow> Some ?c1 | Some b \<Rightarrow> modify_entry b (\<lambda>x. x\<lparr>pthis := Some l\<rparr>) ?c1) = Some (?c1\<lparr>heap := h\<rparr>)"
    "lnk h = set_pthis n l (lnk (heap ?c1))" "bod h = bod (heap ?c1)" by blast
  have "length ?t = length (table c)" by (cases l) simp_all
  then show ?thesis using u(2) h1 h by (intro exI [of _ h] exI [of _ ?t] exI [of _ ?c1]) simp
qed

lemma delete_unused:
  assumes "cache_inv c cs" and "a \<in> set (lru_list c)"
  shows "\<exists>c'. stx_cache_entry_delete a c = Some c' \<and> gone {a} cs c c'"
proof -
  have b: "books_ok (key_bucket c) (bod (heap c)) (lru_list c) cs" and tk: "table_ok (lnk (heap c)) (table c) cs"
    using assms(1) by (simp_all add: cache_inv_def)
  have a: "a \<in> set (concat cs)" using booksD(4) [OF b] assms(2) by blast
  obtain e where e: "heap c a = Some e" "ref_count e = 0"
    using booksD(1) [OF b a] assms(2) by (auto simp: bod_def entry_ok_def)
  obtain n l where l: "next_entry e = n" "pthis e = Some l" "lnk (heap c) a = Some (n, Some l)"
    using table_mem [OF tk a] e(1) by (auto simp: lnk_def)
  let ?e = "e\<lparr>delete_pending := True\<rparr>"
  let ?c = "c\<lparr>heap := (heap c)(a \<mapsto> ?e)\<rparr>"
  have lk: "lnk (heap ?c) = lnk (heap c)" using lnk_same [where h = "heap c", OF e(1), of ?e] by simp
  have "\<forall>x \<in> set (concat cs). heap ?c x \<noteq> None" using booksD(1) [OF b] by (fastforce simp: bod_def)
  from unhash_links [of ?c cs a n l, unfolded lk, OF _ a l(3) this] obtain h t c1 where u: "set_link l n ?c = Some c1"
    "(case n of None \<Rightarrow> Some c1 | Some b \<Rightarrow> modify_entry b (\<lambda>x. x\<lparr>pthis := Some l\<rparr>) c1) = Some (?c\<lparr>heap := h, table := t\<rparr>)"
    "length t = length (table c)" "table_ok ((lnk h)(a := None)) t (map (filter (\<lambda>x. x \<noteq> a)) cs)" "bod h = bod (heap ?c)"
    using tk by auto
  let ?c' = "c\<lparr>heap := h(a := None), table := t, cur_size := cur_size c - 1, cur_weight := cur_weight c - ce_weight e,
    deletes := deletes c + 1, lru_list := remove1 a (lru_list c), cleaned := cleaned c @ (if cleanup_fn c then [(ce_key e, ce_data e)] else [])\<rparr>"
  have d: "stx_cache_entry_delete a c = Some ?c'"
    using e l u(1,2) assms(2) by (simp add: stx_cache_entry_delete_def modify_entry_def unhash_def lru_remove_def)
  have bd: "bod (heap ?c') = (bod (heap c))(a := None)" using u(5) by simp
  have r: "remove1 a (lru_list c) = filter (\<lambda>x. x \<noteq> a) (lru_list c)"
    using booksD(5) [OF b] by (simp add: distinct_remove1_removeAll removeAll_filter_not_eq) (metis)
  have dc: "distinct (concat cs)" using tk by (simp add: table_ok_def)
  have w: "the (bod (heap c) a) = e\<lparr>next_entry := None, pthis := None\<rparr>" using e(1) by (simp add: bod_def)
  note tr = weights_remove(1) [OF dc a, of "bod (heap c)", unfolded w] weights_remove(2) [OF dc a]
  let ?cs = "map (filter (\<lambda>x. x \<noteq> a)) cs"
  have kb: "key_bucket ?c' = key_bucket c" using u(3) by (simp add: key_bucket_def fun_eq_iff)
  have "cur_size ?c' = of_nat (length (concat ?cs))" "length (concat ?cs) \<le> unat (max_size ?c')"
    using assms(1) tr(2) unfolding cache_inv_def concat_filter by simp_all
  moreover have "cur_weight ?c' = of_nat (weights (bod (heap ?c')) (concat ?cs))" "weights (bod (heap ?c')) (concat ?cs) \<le> unat (max_weight ?c')"
    using assms(1) tr(1) unfolding cache_inv_def concat_filter bd by simp_all
  ultimately have "cache_inv ?c' ?cs"
    using assms(1) u(4) books_remove [OF b, of a] unfolding cache_inv_def kb bd by (simp add: r)
  then show ?thesis using d bd r u(3) by (auto simp: gone_def config_def fun_eq_iff)
qed

section \<open>Use counts\<close>

lemma key_bucket_simps [simp]:
  "key_bucket (c\<lparr>heap := h\<rparr>) = key_bucket c" "key_bucket (c\<lparr>lru_list := L\<rparr>) = key_bucket c"
  "key_bucket (c\<lparr>hits := x\<rparr>) = key_bucket c" "key_bucket (c\<lparr>lookups := x\<rparr>) = key_bucket c"
  by (simp_all add: key_bucket_def fun_eq_iff)

lemma cache_inv_stats [simp]:
  "cache_inv (c\<lparr>hits := x\<rparr>) cs = cache_inv c cs" "cache_inv (c\<lparr>lookups := x\<rparr>) cs = cache_inv c cs"
  by (simp_all add: cache_inv_def)

lemma config_simps [simp]:
  "config (c\<lparr>heap := h\<rparr>) = config c" "config (c\<lparr>lru_list := L\<rparr>) = config c"
  "config (c\<lparr>hits := x\<rparr>) = config c" "config (c\<lparr>lookups := x\<rparr>) = config c"
  by (simp_all add: config_def)

lemma books_touch:
  assumes "books_ok f B L cs" and "B a = Some e" and "ce_key e' = ce_key e" and "delete_pending e \<Longrightarrow> delete_pending e'"
    and "a \<in> set (concat cs)" and "entry_ok L' a e'"
    and "\<And>b. b \<in> set (concat cs) \<Longrightarrow> b \<noteq> a \<Longrightarrow> b \<in> set L' \<longleftrightarrow> b \<in> set L"
    and "set L' \<subseteq> set (concat cs)" and "distinct L'"
  shows "books_ok f (B(a \<mapsto> e')) L' cs"
proof (rule booksI)
  have k: "ce_key (the ((B(a \<mapsto> e')) x)) = ce_key (the (B x))" for x using assms(2,3) by simp
  have p: "\<not> delete_pending (the ((B(a \<mapsto> e')) x)) \<Longrightarrow> \<not> delete_pending (the (B x))" for x
    using assms(2,4) by (cases "x = a") auto
  fix b assume b: "b \<in> set (concat cs)"
  then show "\<exists>e. (B(a \<mapsto> e')) b = Some e \<and> entry_ok L' b e"
    using booksD(1) [OF assms(1) b] assms(6,7) by (auto simp: entry_ok_def)
  fix d assume "d \<in> set (concat cs)" "\<not> delete_pending (the ((B(a \<mapsto> e')) b))" "\<not> delete_pending (the ((B(a \<mapsto> e')) d))"
    "ce_key (the ((B(a \<mapsto> e')) b)) = ce_key (the ((B(a \<mapsto> e')) d))"
  then show "b = d" using booksD(3) [OF assms(1) b, of d] p unfolding k by blast
next
  fix i b assume "i < length cs" "b \<in> set (cs ! i)"
  moreover have "ce_key (the ((B(a \<mapsto> e')) b)) = ce_key (the (B b))" using assms(2,3) by simp
  ultimately show "f (ce_key (the ((B(a \<mapsto> e')) b))) = i" using booksD(2) [OF assms(1), of i b] by metis
qed (use assms(8,9) in blast)+

lemma weights_touch: "B a = Some e \<Longrightarrow> ce_weight e' = ce_weight e \<Longrightarrow> weights (B(a \<mapsto> e')) as = weights B as"
  unfolding weights_def by (intro arg_cong [where f = sum_list] map_cong) auto

text \<open>One entry changes its count or its flag, and perhaps its place on the list of unused entries.\<close>

lemma touch_ok:
  assumes "cache_inv c cs" and "heap c a = Some e" and "a \<in> set (concat cs)"
    and "ce_key e' = ce_key e" and "ce_weight e' = ce_weight e" and "next_entry e' = next_entry e" and "pthis e' = pthis e"
    and "delete_pending e \<Longrightarrow> delete_pending e'" and "entry_ok L a e'"
    and "\<And>b. b \<in> set (concat cs) \<Longrightarrow> b \<noteq> a \<Longrightarrow> b \<in> set L \<longleftrightarrow> b \<in> set (lru_list c)"
    and "set L \<subseteq> set (concat cs)" and "distinct L"
  shows "cache_inv (c\<lparr>heap := (heap c)(a \<mapsto> e'), lru_list := L\<rparr>) cs"
proof -
  let ?e = "e\<lparr>next_entry := None, pthis := None\<rparr>" and ?e' = "e'\<lparr>next_entry := None, pthis := None\<rparr>"
  have b: "bod (heap c) a = Some ?e" using assms(2) by (simp add: bod_def)
  have "entry_ok L a ?e'" using assms(9) by (simp add: entry_ok_def)
  then have "books_ok (key_bucket c) ((bod (heap c))(a \<mapsto> ?e')) L cs"
    using books_touch [where B = "bod (heap c)" and a = a and e = ?e and e' = ?e' and f = "key_bucket c" and L = "lru_list c" and L' = L and cs = cs]
      b assms by (simp add: cache_inv_def)
  moreover have "weights ((bod (heap c))(a \<mapsto> ?e')) (concat cs) = weights (bod (heap c)) (concat cs)"
    using weights_touch [where B = "bod (heap c)", OF b, of ?e'] assms(5) by simp
  moreover have "lnk ((heap c)(a \<mapsto> e')) = lnk (heap c)"
    using lnk_same [where h = "heap c", OF assms(2), of e'] assms(6,7) by simp
  ultimately show ?thesis using assms(1) unfolding cache_inv_def by simp
qed

lemma cache_books: "cache_inv c cs \<Longrightarrow> books_ok (key_bucket c) (bod (heap c)) (lru_list c) cs"
  by (simp add: cache_inv_def)

lemma cache_mem:
  assumes "cache_inv c cs" and "a \<in> set (concat cs)"
  obtains e where "heap c a = Some e" and "entry_ok (lru_list c) a e"
proof -
  obtain x where "bod (heap c) a = Some x" "entry_ok (lru_list c) a x"
    using assms booksD(1) unfolding cache_inv_def by blast
  then show ?thesis using that by (auto simp: bod_def entry_ok_def)
qed

lemma lru_facts: "cache_inv c cs \<Longrightarrow> set (lru_list c) \<subseteq> set (concat cs) \<and> distinct (lru_list c)"
  using booksD(4,5) [OF cache_books] by blast

text \<open>Searching a bucket.\<close>

definition live_key :: "('k, 'd) cache \<Rightarrow> 'k \<Rightarrow> eaddr \<Rightarrow> bool" where
  "live_key c k a \<longleftrightarrow> (\<exists>e. heap c a = Some e \<and> \<not> delete_pending e \<and> ce_key e = k)"

lemma find_entry_chain:
  assumes "\<forall>x y. key_cmp_fn c x y = 0 \<longleftrightarrow> x = y"
  shows "chain (lnk (heap c)) l p as \<Longrightarrow> find_entry c k p = Some (find (live_key c k) as)"
proof (induction as arbitrary: l p)
  case Nil
  then show ?case by (simp add: find_entry.simps [of c k])
next
  case (Cons a as)
  then obtain e where e: "heap c a = Some e" "p = Some a" "chain (lnk (heap c)) (Next a) (next_entry e) as"
    by (auto simp: lnk_Some)
  have "live_key c k a \<longleftrightarrow> \<not> delete_pending e \<and> k = ce_key e" using e(1) by (auto simp: live_key_def)
  then show ?case using assms e Cons.IH [OF e(3)] by (subst find_entry.simps) simp
qed

lemma find_SomeD: "find P xs = Some a \<Longrightarrow> a \<in> set xs \<and> P a"
  by (auto simp: find_Some_iff)

definition holds :: "('k, 'd) cache \<Rightarrow> eaddr list list \<Rightarrow> 'k \<Rightarrow> eaddr \<Rightarrow> bool" where
  "holds c cs k a \<longleftrightarrow> a \<in> set (concat cs) \<and> live_key c k a"

lemma holds_unique:
  assumes "cache_inv c cs" and "holds c cs k a" and "holds c cs k b"
  shows "a = b"
proof -
  have "books_ok (key_bucket c) (bod (heap c)) (lru_list c) cs" using assms(1) by (simp add: cache_inv_def)
  from booksD(3) [OF this, of a b] show ?thesis using assms(2,3) by (auto simp: holds_def live_key_def bod_def)
qed

lemma find_ok:
  assumes "cache_inv c cs"
  shows "\<exists>r. find_entry c k (table c ! key_bucket c k) = Some r \<and> (\<forall>a. r = Some a \<longleftrightarrow> holds c cs k a)"
proof -
  let ?i = "key_bucket c k"
  have i: "?i < length cs" using bucket_ok [OF assms] by blast
  have "chain (lnk (heap c)) (Bucket ?i) (table c ! ?i) (cs ! ?i)" using assms i by (simp add: cache_inv_def table_ok_def)
  from find_entry_chain [OF _ this, of k] have f: "find_entry c k (table c ! ?i) = Some (find (live_key c k) (cs ! ?i))"
    using assms by (simp add: cache_inv_def)
  have mem: "a \<in> set (cs ! ?i) \<and> live_key c k a \<longleftrightarrow> holds c cs k a" for a
  proof
    assume "holds c cs k a"
    then obtain j where j: "j < length cs" "a \<in> set (cs ! j)" "live_key c k a"
      unfolding holds_def by (metis UN_E in_set_conv_nth set_concat)
    have "books_ok (key_bucket c) (bod (heap c)) (lru_list c) cs" using assms by (simp add: cache_inv_def)
    from booksD(2) [OF this j(1,2)] j(3) have "?i = j" by (auto simp: live_key_def bod_def)
    then show "a \<in> set (cs ! ?i) \<and> live_key c k a" using j by simp
  qed (use nth_concat [OF i] in \<open>auto simp: holds_def\<close>)
  have "find (live_key c k) (cs ! ?i) = Some a \<longleftrightarrow> holds c cs k a" for a
  proof
    assume "find (live_key c k) (cs ! ?i) = Some a"
    then have "a \<in> set (cs ! ?i) \<and> live_key c k a" by (rule find_SomeD)
    then show "holds c cs k a" using mem by blast
  next
    assume h: "holds c cs k a"
    then have "find (live_key c k) (cs ! ?i) \<noteq> None" using mem by (auto simp: find_None_iff)
    then obtain b where b: "find (live_key c k) (cs ! ?i) = Some b" by auto
    then have "holds c cs k b" using mem [of b] find_SomeD [OF b] by blast
    then show "find (live_key c k) (cs ! ?i) = Some a" using b h holds_unique [OF assms] by auto
  qed
  then show ?thesis using f by auto
qed

lemma gone_tidy: "gone X cs c c' \<Longrightarrow> tidy (bod (heap c)) cs \<Longrightarrow> tidy (bod (heap c')) (map (filter (\<lambda>x. x \<notin> X)) cs)"
  by (auto simp: gone_def tidy_def)

lemma gone_ok: "gone X cs c c' \<Longrightarrow> cache_ok c cs \<Longrightarrow> cache_ok c' (map (filter (\<lambda>x. x \<notin> X)) cs)"
  unfolding cache_ok_def using gone_tidy [of X cs c c'] by (simp add: gone_def)

section \<open>What each operation does\<close>

lemma lookup_ok:
  assumes "cache_inv c cs"
  shows "\<exists>r c'. stx_cache_entry_lookup k c = Some (r, c') \<and> cache_inv c' cs \<and> config c' = config c
    \<and> (\<forall>a. r = Some a \<longleftrightarrow> holds c cs k a)
    \<and> (case r of None \<Rightarrow> heap c' = heap c \<and> lru_list c' = lru_list c
        | Some a \<Rightarrow> \<exists>e. heap c a = Some e \<and> heap c' = (heap c)(a \<mapsto> e\<lparr>ref_count := ref_count e + 1\<rparr>)
            \<and> lru_list c' = filter (\<lambda>x. x \<noteq> a) (lru_list c))"
proof -
  let ?c = "c\<lparr>lookups := lookups c + 1\<rparr>"
  have ok: "cache_inv ?c cs" using assms by simp
  obtain r where r: "find_entry ?c k (table ?c ! key_bucket ?c k) = Some r" "\<forall>a. r = Some a \<longleftrightarrow> holds ?c cs k a"
    using find_ok [OF ok] by blast
  have h: "holds ?c cs k = holds c cs k" by (simp add: holds_def live_key_def fun_eq_iff)
  note b = bucket_ok [OF ok, of k]
  show ?thesis
  proof (cases r)
    case None
    then have "stx_cache_entry_lookup k c = Some (None, ?c)" using b r(1) by (simp add: stx_cache_entry_lookup_def Let_def)
    then show ?thesis using ok r(2) h None by auto
  next
    case (Some a)
    then have ho: "holds c cs k a" using r(2) h by simp
    then have a: "a \<in> set (concat cs)" by (simp add: holds_def)
    obtain e where e: "heap c a = Some e" "entry_ok (lru_list c) a e" using cache_mem [OF assms a] .
    let ?e = "e\<lparr>ref_count := ref_count e + 1\<rparr>" and ?L = "filter (\<lambda>x. x \<noteq> a) (lru_list c)"
    let ?c' = "c\<lparr>lookups := lookups c + 1, hits := hits c + 1, heap := (heap c)(a \<mapsto> ?e), lru_list := ?L\<rparr>"
    note lf = lru_facts [OF assms]
    have "remove1 a (lru_list c) = ?L" using lf by (simp add: distinct_remove1_removeAll removeAll_filter_not_eq) (metis)
    moreover have "?L = lru_list c" if "a \<notin> set (lru_list c)" using that by (auto simp: filter_id_conv)
    ultimately have "stx_cache_entry_lookup k c = Some (Some a, ?c')" using b r(1) Some e
      by (auto simp: stx_cache_entry_lookup_def Let_def lru_remove_def modify_entry_def entry_ok_def)
    moreover have "cache_inv (c\<lparr>heap := (heap c)(a \<mapsto> ?e), lru_list := ?L\<rparr>) cs"
      by (rule touch_ok [OF assms e(1) a]) (use e(2) lf in \<open>auto simp: entry_ok_def\<close>)
    then have "cache_inv ?c' cs" by (simp add: cache_inv_def key_bucket_def)
    moreover have "\<forall>b. Some a = Some b \<longleftrightarrow> holds c cs k b" using r(2) h Some by simp
    ultimately show ?thesis using e(1) by (intro exI [of _ "Some a"] exI [of _ ?c']) (simp add: config_def)
  qed
qed

lemma delete_used:
  assumes "cache_inv c cs" and "a \<in> set (concat cs)" and "heap c a = Some e" and "0 < ref_count e"
  shows "stx_cache_entry_delete a c = Some (c\<lparr>heap := (heap c)(a \<mapsto> e\<lparr>delete_pending := True\<rparr>)\<rparr>)"
    and "cache_inv (c\<lparr>heap := (heap c)(a \<mapsto> e\<lparr>delete_pending := True\<rparr>)\<rparr>) cs"
proof -
  show "stx_cache_entry_delete a c = Some (c\<lparr>heap := (heap c)(a \<mapsto> e\<lparr>delete_pending := True\<rparr>)\<rparr>)"
    using assms(3,4) by (simp add: stx_cache_entry_delete_def modify_entry_def)
  have "entry_ok (lru_list c) a e" using cache_mem [OF assms(1,2)] assms(3) by auto
  then have "cache_inv (c\<lparr>heap := (heap c)(a \<mapsto> e\<lparr>delete_pending := True\<rparr>), lru_list := lru_list c\<rparr>) cs"
    by (intro touch_ok [OF assms(1,3,2)]) (use lru_facts [OF assms(1)] in \<open>auto simp: entry_ok_def\<close>)
  then show "cache_inv (c\<lparr>heap := (heap c)(a \<mapsto> e\<lparr>delete_pending := True\<rparr>)\<rparr>) cs" by simp
qed

text \<open>Giving an entry back.\<close>

definition given_back :: "eaddr \<Rightarrow> ('k, 'd) centry \<Rightarrow> ('k, 'd) cache \<Rightarrow> ('k, 'd) cache" where
  "given_back a e c = c\<lparr>heap := (heap c)(a \<mapsto> e\<lparr>ref_count := ref_count e - 1\<rparr>),
     lru_list := lru_list c @ (if ref_count e = 1 then [a] else [])\<rparr>"

lemma release_ok:
  assumes "cache_inv c cs" and "a \<in> set (concat cs)" and "heap c a = Some e" and "0 < ref_count e"
  shows "cache_inv (given_back a e c) cs"
    and "\<not> (ref_count e = 1 \<and> delete_pending e) \<Longrightarrow> stx_cache_entry_release a c = Some (given_back a e c)"
    and "ref_count e = 1 \<Longrightarrow> delete_pending e \<Longrightarrow> \<exists>c'. stx_cache_entry_release a c = Some c' \<and> gone {a} cs c c'"
proof -
  let ?g = "given_back a e c"
  have ek: "entry_ok (lru_list c) a e" using cache_mem [OF assms(1,2)] assms(3) by auto
  then have n: "a \<notin> set (lru_list c)" using assms(4) by (auto simp: entry_ok_def)
  show inv: "cache_inv ?g cs" unfolding given_back_def
    by (rule touch_ok [OF assms(1,3,2)]) (use lru_facts [OF assms(1)] assms(2,4) n ek in \<open>auto simp: entry_ok_def\<close>)
  show "stx_cache_entry_release a c = Some ?g" if "\<not> (ref_count e = 1 \<and> delete_pending e)"
    using assms(3,4) that by (auto simp: stx_cache_entry_release_def given_back_def modify_entry_def Let_def)
  assume r: "ref_count e = 1" "delete_pending e"
  have "stx_cache_entry_release a c = stx_cache_entry_delete a ?g"
    using assms(3,4) r by (simp add: stx_cache_entry_release_def given_back_def modify_entry_def Let_def)
  moreover obtain c' where c': "stx_cache_entry_delete a ?g = Some c'" "gone {a} cs ?g c'"
    using delete_unused [OF inv, of a] r(1) by (auto simp: given_back_def)
  moreover have "gone {a} cs c c'"
    using c'(2) n r(1) by (auto simp: gone_def given_back_def config_def fun_eq_iff bod_def)
  ultimately show "\<exists>c'. stx_cache_entry_release a c = Some c' \<and> gone {a} cs c c'" by auto
qed


section \<open>The cache as a list of rows\<close>

text \<open>
  What a client that keeps no entry sees: the rows in the order of their last use. \<open>spec_get\<close> and
  \<open>spec_put\<close> are the cache it is promised.
\<close>

type_synonym ('k, 'd) row = "'k \<times> 'd \<times> 64 word"

definition row_of :: "('k, 'd) centry \<Rightarrow> ('k, 'd) row" where
  "row_of e = (ce_key e, ce_data e, ce_weight e)"

definition rows :: "('k, 'd) cache \<Rightarrow> ('k, 'd) row list" where
  "rows c = map (\<lambda>a. row_of (the (heap c a))) (lru_list c)"

definition total :: "('k, 'd) row list \<Rightarrow> nat" where
  "total xs = (\<Sum>(k, d, w)\<leftarrow>xs. unat w)"

definition drop_key :: "'k \<Rightarrow> ('k, 'd) row list \<Rightarrow> ('k, 'd) row list" where
  "drop_key k xs = filter (\<lambda>x. fst x \<noteq> k) xs"

definition spec_find :: "'k \<Rightarrow> ('k, 'd) row list \<Rightarrow> ('k, 'd) row option" where
  "spec_find k xs = find (\<lambda>x. fst x = k) xs"

fun spec_room :: "nat \<Rightarrow> nat \<Rightarrow> ('k, 'd) row list \<Rightarrow> ('k, 'd) row list" where
  "spec_room lim w [] = []"
| "spec_room lim w (x # xs) = (if lim < total (x # xs) + w then spec_room lim w xs else x # xs)"

definition spec_slot :: "nat \<Rightarrow> ('k, 'd) row list \<Rightarrow> ('k, 'd) row list" where
  "spec_slot sz xs = (if sz \<le> length xs then tl xs else xs)"

definition spec_put :: "nat \<Rightarrow> nat \<Rightarrow> ('k, 'd) row \<Rightarrow> ('k, 'd) row list \<Rightarrow> ('k, 'd) row list" where
  "spec_put sz lim x xs =
     (let w = unat (snd (snd x))
      in if lim < w \<or> sz = 0 then [] else drop_key (fst x) (spec_slot sz (spec_room lim w xs)) @ [x])"

text \<open>Nobody holds an entry.\<close>

definition quiet :: "('k, 'd) cache \<Rightarrow> eaddr list list \<Rightarrow> bool" where
  "quiet c cs \<longleftrightarrow> set (lru_list c) = set (concat cs)"

lemma row_bod: "h a = Some e \<Longrightarrow> row_of (the (bod h a)) = row_of (the (h a))"
  by (simp add: bod_def row_of_def)

lemma rows_bod: "cache_inv c cs \<Longrightarrow> rows c = map (\<lambda>a. row_of (the (bod (heap c) a))) (lru_list c)"
  unfolding rows_def using lru_facts [of c cs] by (intro map_cong refl) (metis cache_mem row_bod subsetD)

lemma gone_rows:
  assumes "cache_inv c cs" and "gone X cs c c'"
  shows "rows c' = map (\<lambda>a. row_of (the (heap c a))) (filter (\<lambda>x. x \<notin> X) (lru_list c))"
proof -
  have i: "cache_inv c' (map (filter (\<lambda>x. x \<notin> X)) cs)" and l: "lru_list c' = filter (\<lambda>x. x \<notin> X) (lru_list c)"
    and b: "bod (heap c') = (\<lambda>x. if x \<in> X then None else bod (heap c) x)" using assms(2) by (simp_all add: gone_def)
  have "row_of (the (bod (heap c') a)) = row_of (the (heap c a))" if "a \<in> set (filter (\<lambda>x. x \<notin> X) (lru_list c))" for a
  proof -
    have "a \<in> set (concat cs)" using that lru_facts [OF assms(1)] by auto
    from cache_mem [OF assms(1) this] obtain e where "heap c a = Some e" by metis
    then show ?thesis using that row_bod [of "heap c" a e] by (simp add: b)
  qed
  then show ?thesis unfolding rows_bod [OF i] l by (rule map_cong [OF refl])
qed

lemma gone_quiet: "gone X cs c c' \<Longrightarrow> quiet c cs \<Longrightarrow> quiet c' (map (filter (\<lambda>x. x \<notin> X)) cs)"
  unfolding quiet_def concat_filter by (simp add: gone_def)

lemma quiet_total:
  assumes "cache_inv c cs" and "quiet c cs"
  shows "weights (bod (heap c)) (concat cs) = total (rows c)" and "length (concat cs) = length (rows c)"
proof -
  have "distinct (concat cs)" using assms(1) by (simp add: cache_inv_def table_ok_def)
  moreover have "distinct (lru_list c)" using lru_facts [OF assms(1)] by simp
  ultimately have m: "mset (concat cs) = mset (lru_list c)" using assms(2) by (metis quiet_def set_eq_iff_mset_eq_distinct)
  have "weights (bod (heap c)) (concat cs) = sum_mset (image_mset (\<lambda>a. unat (ce_weight (the (bod (heap c) a)))) (mset (concat cs)))"
    unfolding weights_def by (simp flip: sum_mset_sum_list)
  also have "\<dots> = (\<Sum>a\<leftarrow>lru_list c. unat (ce_weight (the (bod (heap c) a))))" unfolding m by (simp flip: sum_mset_sum_list)
  also have "\<dots> = total (rows c)" unfolding rows_bod [OF assms(1)] by (simp add: total_def o_def row_of_def)
  finally show "weights (bod (heap c)) (concat cs) = total (rows c)" .
  show "length (concat cs) = length (rows c)" using arg_cong [OF m, of size] by (simp add: rows_def)
qed

section \<open>Inserting\<close>

lemma over_weight:
  assumes "cache_inv c cs" and "unat (max_weight c) + unat w < 2 ^ 64"
  shows "max_weight c < cur_weight c + w \<longleftrightarrow> unat (max_weight c) < weights (bod (heap c)) (concat cs) + unat w"
proof -
  have u: "unat (cur_weight c) = weights (bod (heap c)) (concat cs)" "weights (bod (heap c)) (concat cs) \<le> unat (max_weight c)"
    using assms unfolding cache_inv_def by (simp_all add: unat_of_nat take_bit_nat_eq_self)
  then have "unat (cur_weight c + w) = weights (bod (heap c)) (concat cs) + unat w"
    using assms(2) by (simp add: unat_add_lem [THEN iffD1])
  then show ?thesis by (simp add: word_less_nat_alt)
qed

lemma take_gone:
  assumes "distinct (a # as)" and "X = set (take n as)"
  shows "{a} \<union> X = set (take (Suc n) (a # as))"
  using assms by simp

lemma config_max: "config c = config c' \<Longrightarrow> max_weight c = max_weight c'" "config c = config c' \<Longrightarrow> max_size c = max_size c'"
  by (simp_all add: config_def)

lemma evict_head:
  assumes "cache_inv c cs" and "lru_list c = a # as"
  shows "\<exists>c'. stx_cache_entry_delete a c = Some c' \<and> gone {a} cs c c' \<and> lru_list c' = as \<and> rows c' = tl (rows c)"
proof -
  obtain c' where c': "stx_cache_entry_delete a c = Some c'" "gone {a} cs c c'" using delete_unused [OF assms(1)] assms(2) by auto
  have "a \<notin> set as" using lru_facts [OF assms(1)] assms(2) by simp
  then have f: "filter (\<lambda>x. x \<notin> {a}) (lru_list c) = as" using assms(2) by (auto simp: filter_id_conv)
  then have "lru_list c' = as" using c'(2) by (simp add: gone_def)
  moreover have "rows c' = tl (rows c)" unfolding gone_rows [OF assms(1) c'(2)] f by (simp add: rows_def assms(2))
  ultimately show ?thesis using c' by blast
qed

definition without :: "eaddr set \<Rightarrow> eaddr list list \<Rightarrow> eaddr list list" where
  "without X cs = map (filter (\<lambda>x. x \<notin> X)) cs"

lemma without_empty [simp]: "without {} cs = cs"
  by (simp add: without_def map_idI)

lemma without_without: "without Y (without X cs) = without (X \<union> Y) cs"
  by (auto simp: without_def intro!: filter_cong)

lemma gone_facts:
  assumes "gone X cs c c'"
  shows "cache_inv c' (without X cs)" and "max_weight c' = max_weight c" and "max_size c' = max_size c"
    and "key_hash_fn c' = key_hash_fn c" and "length (table c') = length (table c)" and "key_bucket c' = key_bucket c"
    and "bod (heap c') = (\<lambda>x. if x \<in> X then None else bod (heap c) x)" and "lru_list c' = filter (\<lambda>x. x \<notin> X) (lru_list c)"
    and "config c' = config c"
  using assms by (simp_all add: gone_def without_def config_def key_bucket_def fun_eq_iff)

definition made_room :: "64 word \<Rightarrow> ('k, 'd) cache \<Rightarrow> eaddr list list \<Rightarrow> nat \<Rightarrow> bool \<Rightarrow> ('k, 'd) cache \<Rightarrow> bool" where
  "made_room w c cs n ok c' \<longleftrightarrow> (let X = set (take n (lru_list c)) in gone X cs c c'
     \<and> (ok \<longleftrightarrow> weights (bod (heap c')) (concat (without X cs)) + unat w \<le> unat (max_weight c)) \<and> (\<not> ok \<longrightarrow> lru_list c' = [])
     \<and> (quiet c cs \<longrightarrow> rows c' = spec_room (unat (max_weight c)) (unat w) (rows c)))"

lemma made_room_0:
  assumes "cache_inv c cs" and "unat (max_weight c) + unat w < 2 ^ 64"
    and "ok \<longleftrightarrow> \<not> max_weight c < cur_weight c + w" and "\<not> ok \<Longrightarrow> lru_list c = []"
  shows "made_room w c cs 0 ok c"
proof -
  have "rows c = spec_room (unat (max_weight c)) (unat w) (rows c)" if "quiet c cs"
  proof (cases "rows c")
    case (Cons r rs)
    then have "lru_list c \<noteq> []" by (auto simp: rows_def)
    then have ok using assms(4) by blast
    then show ?thesis using Cons assms(3) over_weight [OF assms(1,2)] quiet_total(1) [OF assms(1) that] by simp
  qed simp
  then show ?thesis using gone_empty [OF assms(1)] assms(3,4) over_weight [OF assms(1,2)]
    unfolding made_room_def Let_def by (simp add: not_less)
qed

lemma made_room_Suc:
  assumes "cache_inv c cs" and "unat (max_weight c) + unat w < 2 ^ 64" and "max_weight c < cur_weight c + w"
    and "lru_list c = a # as" and "gone {a} cs c c1" and "lru_list c1 = as" and "rows c1 = tl (rows c)"
    and "made_room w c1 (without {a} cs) n ok c'"
  shows "made_room w c cs (Suc n) ok c'"
proof -
  let ?X = "set (take n as)"
  have s: "set (take (Suc n) (lru_list c)) = {a} \<union> ?X" by (simp add: assms(4))
  have mx: "max_weight c1 = max_weight c" using gone_facts(2) [OF assms(5)] .
  have r: "gone ?X (without {a} cs) c1 c'" "ok \<longleftrightarrow> weights (bod (heap c')) (concat (without ({a} \<union> ?X) cs)) + unat w \<le> unat (max_weight c)"
    "\<not> ok \<longrightarrow> lru_list c' = []" "quiet c1 (without {a} cs) \<longrightarrow> rows c' = spec_room (unat (max_weight c)) (unat w) (rows c1)"
    using assms(8) unfolding made_room_def Let_def assms(6) mx without_without by simp_all
  have "rows c' = spec_room (unat (max_weight c)) (unat w) (rows c)" if q: "quiet c cs"
  proof -
    obtain x xs where x: "rows c = x # xs" using assms(4) by (auto simp: rows_def)
    then have "spec_room (unat (max_weight c)) (unat w) (rows c) = spec_room (unat (max_weight c)) (unat w) (tl (rows c))"
      using assms(3) over_weight [OF assms(1,2)] quiet_total(1) [OF assms(1) q] by simp
    moreover have "quiet c1 (without {a} cs)" using gone_quiet [OF assms(5) q] by (simp only: without_def)
    ultimately show ?thesis using r(4) assms(7) by simp
  qed
  moreover have "gone ({a} \<union> ?X) cs c c'" by (rule gone_trans [OF assms(5)]) (use r(1) in \<open>simp only: without_def\<close>)
  ultimately show ?thesis using r(2,3) unfolding made_room_def Let_def s by simp
qed

lemma make_room_ok:
  "cache_inv c cs \<Longrightarrow> unat (max_weight c) + unat w < 2 ^ 64 \<Longrightarrow> \<exists>n ok c'. make_room w c = Some (ok, c') \<and> made_room w c cs n ok c'"
proof (induction "lru_list c" arbitrary: c cs)
  case Nil
  have "make_room w c = Some (\<not> max_weight c < cur_weight c + w, c)"
    using Nil.hyps by (subst make_room.simps) (simp add: stx_cache_entry_getlru_def)
  then show ?case using made_room_0 [OF Nil.prems] Nil.hyps by metis
next
  case (Cons a as)
  show ?case
  proof (cases "max_weight c < cur_weight c + w")
    case False
    then have "make_room w c = Some (True, c)" by (subst make_room.simps) simp
    then show ?thesis using made_room_0 [OF Cons.prems, of True] False by metis
  next
    case True
    obtain c1 where c1: "stx_cache_entry_delete a c = Some c1" "gone {a} cs c c1" "lru_list c1 = as" "rows c1 = tl (rows c)"
      using evict_head [OF Cons.prems(1)] Cons.hyps(2) by metis
    have i: "cache_inv c1 (without {a} cs)" and nw: "unat (max_weight c1) + unat w < 2 ^ 64"
      using gone_facts(1,2) [OF c1(2)] Cons.prems(2) by simp_all
    from Cons.hyps(1) [OF c1(3) [symmetric] i nw] obtain n ok c' where
      r: "make_room w c1 = Some (ok, c')" "made_room w c1 (without {a} cs) n ok c'" by blast
    have "make_room w c = Some (ok, c')" using True r(1) c1(1) Cons.hyps(2) [symmetric]
      by (subst make_room.simps) (simp add: stx_cache_entry_getlru_def)
    then show ?thesis using made_room_Suc [OF Cons.prems True Cons.hyps(2) [symmetric] c1(2,3,4) r(2)] by blast
  qed
qed

lemma make_slot_ok:
  assumes "cache_inv c cs"
  shows "\<exists>n ok c'. make_slot c = Some (ok, c') \<and> gone (set (take n (lru_list c))) cs c c'
    \<and> (if ok then length (concat (without (set (take n (lru_list c))) cs)) < unat (max_size c) else n = 0 \<and> lru_list c = [])
    \<and> (quiet c cs \<longrightarrow> (ok \<longleftrightarrow> max_size c \<noteq> 0) \<and> (ok \<longrightarrow> rows c' = spec_slot (unat (max_size c)) (rows c)))"
proof -
  have "unat (max_size c) < 2 ^ 64" using unsigned_less [of "max_size c"] by simp
  then have u: "unat (cur_size c) = length (concat cs)" "length (concat cs) \<le> unat (max_size c)"
    using assms unfolding cache_inv_def by (simp_all add: unat_of_nat take_bit_nat_eq_self)
  then have ge: "max_size c \<le> cur_size c \<longleftrightarrow> length (concat cs) = unat (max_size c)" by (auto simp: word_le_nat_alt)
  have q: "rows c' = spec_slot (unat (max_size c)) (rows c) \<longleftrightarrow> rows c' = (if max_size c \<le> cur_size c then tl (rows c) else rows c)"
    if "quiet c cs" for c'
    using quiet_total(2) [OF assms that] u ge by (auto simp: spec_slot_def)
  show ?thesis
  proof (cases "max_size c \<le> cur_size c")
    case False
    then have "make_slot c = Some (True, c)" by (simp add: make_slot_def)
    moreover have "max_size c \<noteq> 0" using False by (metis word_zero_le)
    ultimately show ?thesis using False gone_empty [OF assms] ge u q [of c]
      by (intro exI [of _ 0] exI [of _ True] exI [of _ c]) simp
  next
    case True
    show ?thesis
    proof (cases "lru_list c")
      case Nil
      then have m: "make_slot c = Some (False, c)" using True by (simp add: make_slot_def stx_cache_entry_getlru_def)
      have "max_size c = 0" if "quiet c cs"
      proof -
        have "set (concat cs) = {}" using that Nil by (simp add: quiet_def)
        then have "length (concat cs) = 0" by (simp only: set_empty length_0_conv)
        then have "unat (max_size c) = 0" using True ge by linarith
        then show ?thesis by (simp add: unat_eq_zero)
      qed
      then show ?thesis using m Nil gone_empty [OF assms] by (intro exI [of _ 0] exI [of _ False] exI [of _ c]) simp
    next
      case (Cons a as)
      obtain c' where c': "stx_cache_entry_delete a c = Some c'" "gone {a} cs c c'" "rows c' = tl (rows c)"
        using evict_head [OF assms Cons] by blast
      have m: "make_slot c = Some (True, c')" using True Cons c'(1) by (simp add: make_slot_def stx_cache_entry_getlru_def)
      have a: "a \<in> set (concat cs)" using lru_facts [OF assms] Cons by auto
      have "distinct (concat cs)" using assms by (simp add: cache_inv_def table_ok_def)
      from weights_remove(2) [OF this a] have l: "length (concat (without {a} cs)) < unat (max_size c)"
        using u(2) unfolding without_def concat_filter by simp
      then have "max_size c \<noteq> 0" by auto
      then show ?thesis using m c' l q [of c'] True Cons
        by (intro exI [of _ 1] exI [of _ True] exI [of _ c']) simp
    qed
  qed
qed

text \<open>The new entry, before and after it is hashed.\<close>

lemma concat_push: "j < length cs \<Longrightarrow> mset (concat (cs[j := a # cs ! j])) = add_mset a (mset (concat cs))"
proof (induction cs arbitrary: j)
  case (Cons x cs)
  then show ?case by (cases j) auto
qed simp

lemma concat_push_facts:
  assumes "j < length cs"
  shows "set (concat (cs[j := a # cs ! j])) = insert a (set (concat cs))"
    and "length (concat (cs[j := a # cs ! j])) = Suc (length (concat cs))"
  using arg_cong [OF concat_push [OF assms], of set_mset] arg_cong [OF concat_push [OF assms], of size] by (simp_all del: set_concat)

lemma weights_push:
  assumes "j < length cs" and "a \<notin> set (concat cs)"
  shows "weights (B(a \<mapsto> e)) (concat (cs[j := a # cs ! j])) = unat (ce_weight e) + weights B (concat cs)"
proof -
  have "mset (map (\<lambda>x. unat (ce_weight (the ((B(a \<mapsto> e)) x)))) (concat (cs[j := a # cs ! j])))
    = add_mset (unat (ce_weight e)) (image_mset (\<lambda>x. unat (ce_weight (the ((B(a \<mapsto> e)) x)))) (mset (concat cs)))"
    unfolding mset_map concat_push [OF assms(1)] by simp
  also have "image_mset (\<lambda>x. unat (ce_weight (the ((B(a \<mapsto> e)) x)))) (mset (concat cs)) = mset (map (\<lambda>x. unat (ce_weight (the (B x)))) (concat cs))"
    unfolding mset_map [symmetric] using assms(2) by (intro arg_cong [where f = mset] map_cong refl) auto
  finally show ?thesis unfolding weights_def
    by (simp only: sum_mset_sum_list [symmetric] sum_mset.add_mset)
qed

lemma books_push:
  assumes "books_ok f B L cs" and "j < length cs" and "a \<notin> set (concat cs)" and "f (ce_key e) = j" and "0 < ref_count e"
    and "\<And>b. b \<in> set (concat cs) \<Longrightarrow> \<not> delete_pending (the (B b)) \<Longrightarrow> ce_key (the (B b)) \<noteq> ce_key e"
  shows "books_ok f (B(a \<mapsto> e)) L (cs[j := a # cs ! j])"
proof (rule booksI)
  note s = concat_push_facts(1) [OF assms(2), of a]
  note L = booksD(4) [OF assms(1)]
  fix b assume b: "b \<in> set (concat (cs[j := a # cs ! j]))"
  show "\<exists>x. (B(a \<mapsto> e)) b = Some x \<and> entry_ok L b x"
    using b booksD(1) [OF assms(1), of b] assms(3,5) L unfolding s by (cases "b = a") (auto simp: entry_ok_def simp del: set_concat)
  fix d assume "d \<in> set (concat (cs[j := a # cs ! j]))" "\<not> delete_pending (the ((B(a \<mapsto> e)) b))"
    "\<not> delete_pending (the ((B(a \<mapsto> e)) d))" "ce_key (the ((B(a \<mapsto> e)) b)) = ce_key (the ((B(a \<mapsto> e)) d))"
  then show "b = d" using b booksD(3) [OF assms(1), of b d] assms(6) [of b] assms(6) [of d] unfolding s
    by (cases "b = a"; cases "d = a") (simp_all del: set_concat)
next
  fix i b assume i: "i < length (cs[j := a # cs ! j])" "b \<in> set (cs[j := a # cs ! j] ! i)"
  show "f (ce_key (the ((B(a \<mapsto> e)) b))) = i"
  proof (cases "b = a")
    case True
    then have "i = j" using i nth_concat [of i cs a] assms(3) by (cases "i = j") (simp_all del: set_concat)
    then show ?thesis using True assms(4) by simp
  next
    case False
    then have "b \<in> set (cs ! i)" using i by (cases "i = j") auto
    then show ?thesis using False i(1) booksD(2) [OF assms(1), of i b] by simp
  qed
next
  show "set L \<subseteq> set (concat (cs[j := a # cs ! j]))" using booksD(4) [OF assms(1)] concat_push_facts(1) [OF assms(2), of a] by blast
qed (rule booksD(5) [OF assms(1)])

definition fresh :: "('k, 'd) cache \<Rightarrow> eaddr list list \<Rightarrow> eaddr \<Rightarrow> ('k, 'd) centry \<Rightarrow> bool" where
  "fresh c cs a e \<longleftrightarrow> a \<notin> set (concat cs) \<and> bod (heap c) a = Some e \<and> ref_count e = 0 \<and> \<not> delete_pending e"

definition pushed :: "eaddr \<Rightarrow> nat \<Rightarrow> eaddr list list \<Rightarrow> eaddr list list" where
  "pushed a j cs = cs[j := a # cs ! j]"

lemma lnk_bod_update:
  assumes "h a = Some e"
  shows "lnk (h(a \<mapsto> e\<lparr>ref_count := n\<rparr>)) = lnk h" and "bod (h(a \<mapsto> e\<lparr>next_entry := p, pthis := q\<rparr>)) = bod h"
  using assms by (auto simp: lnk_def bod_def fun_eq_iff)

lemma hash_in_links:
  assumes "table_ok (lnk (heap c)) (table c) cs" and "j < length cs" and "heap c a = Some e" and "a \<notin> set (concat cs)"
    and "\<forall>x \<in> set (concat cs). heap c x \<noteq> None"
  shows "\<exists>h. hash_in a j c = Some (c\<lparr>heap := h, table := (table c)[j := Some a], inserts := inserts c + 1,
      cur_size := cur_size c + 1, cur_weight := cur_weight c + ce_weight e\<rparr>)
    \<and> table_ok (lnk h) ((table c)[j := Some a]) (pushed a j cs)
    \<and> bod h = (bod (heap c))(a \<mapsto> e\<lparr>ref_count := ref_count e + 1, next_entry := None, pthis := None\<rparr>)"
proof -
  let ?p = "table c ! j"
  let ?c1 = "c\<lparr>heap := (heap c)(a \<mapsto> e\<lparr>next_entry := ?p, pthis := Some (Bucket j)\<rparr>)\<rparr>"
  have ch: "chain (lnk (heap c)) (Bucket j) ?p (cs ! j)" using assms(1,2) by (simp add: table_ok_def)
  have na: "?p = Some b \<Longrightarrow> b \<in> set (concat cs)" for b using ch nth_concat [OF assms(2), of b] by (cases "cs ! j") (auto simp del: set_concat)
  have ne: "?p \<noteq> Some a" using na assms(4) by blast
  have "heap ?c1 b \<noteq> None" if "?p = Some b" for b using na [OF that] assms(5) by (cases "b = a") (simp_all del: set_concat)
  from set_pthis_ok [OF this, of ?p "Next a"] obtain h where h:
    "(case ?p of None \<Rightarrow> Some ?c1 | Some b \<Rightarrow> modify_entry b (\<lambda>x. x\<lparr>pthis := Some (Next a)\<rparr>) ?c1) = Some (?c1\<lparr>heap := h\<rparr>)"
    "lnk h = set_pthis ?p (Next a) (lnk (heap ?c1))" "bod h = bod (heap ?c1)" by blast
  have b1: "bod (heap ?c1) = bod (heap c)" using lnk_bod_update(2) [where h = "heap c", OF assms(3)] by simp
  then obtain x where x: "h a = Some x" using h(3) assms(3) by (metis bod_None not_Some_eq)
  have bx: "x\<lparr>next_entry := None, pthis := None\<rparr> = e\<lparr>next_entry := None, pthis := None\<rparr>"
    using arg_cong [OF h(3) [unfolded b1], of "\<lambda>f. f a"] x assms(3) by (simp add: bod_def)
  let ?h = "h(a \<mapsto> x\<lparr>ref_count := ref_count x + 1\<rparr>)"
  obtain n where n: "lnk (heap c) a = Some (n, None)"
    using assms(1,3,4) unfolding table_ok_def by (metis lnk_Some)
  have "lnk ?h = (set_pthis ?p (Next a) (lnk (heap c)))(a \<mapsto> (?p, Some (Bucket j)))"
    unfolding lnk_bod_update(1) [where h = h, OF x] h(2) using ne by (auto simp: set_pthis_def fun_eq_iff split: option.splits)
  then have "table_ok (lnk ?h) ((table c)[j := Some a]) (pushed a j cs)"
    using table_push [OF assms(1,2) n] by (simp add: pushed_def)
  moreover have "x\<lparr>ref_count := ref_count x + 1, next_entry := None, pthis := None\<rparr>
      = e\<lparr>ref_count := ref_count e + 1, next_entry := None, pthis := None\<rparr>" using bx by (cases x; cases e) simp
  then have "bod ?h = (bod (heap c))(a \<mapsto> e\<lparr>ref_count := ref_count e + 1, next_entry := None, pthis := None\<rparr>)"
    using h(3) b1 by simp
  moreover have "hash_in a j c = Some (c\<lparr>heap := ?h, table := (table c)[j := Some a], inserts := inserts c + 1,
      cur_size := cur_size c + 1, cur_weight := cur_weight c + ce_weight e\<rparr>)"
    using h(1) assms(3) x by (simp add: hash_in_def modify_entry_def)
  ultimately show ?thesis by blast
qed

lemma hash_in_ok:
  assumes "cache_inv c cs" and "fresh c cs a e" and "\<And>b. \<not> holds c cs (ce_key e) b"
    and "length (concat cs) < unat (max_size c)" and "weights (bod (heap c)) (concat cs) + unat (ce_weight e) \<le> unat (max_weight c)"
  shows "\<exists>c'. hash_in a (key_bucket c (ce_key e)) c = Some c' \<and> cache_inv c' (pushed a (key_bucket c (ce_key e)) cs)
    \<and> bod (heap c') = (bod (heap c))(a \<mapsto> e\<lparr>ref_count := 1\<rparr>) \<and> lru_list c' = lru_list c \<and> config c' = config c"
proof -
  let ?j = "key_bucket c (ce_key e)"
  have j: "?j < length cs" using bucket_ok [OF assms(1)] by blast
  have b: "books_ok (key_bucket c) (bod (heap c)) (lru_list c) cs" and t: "table_ok (lnk (heap c)) (table c) cs"
    using assms(1) by (simp_all add: cache_inv_def)
  have a: "a \<notin> set (concat cs)" "bod (heap c) a = Some e" "ref_count e = 0" using assms(2) by (simp_all add: fresh_def)
  obtain x where x: "heap c a = Some x" "e = x\<lparr>next_entry := None, pthis := None\<rparr>" using a(2) by (auto simp: bod_def)
  have "\<forall>x \<in> set (concat cs). heap c x \<noteq> None" using booksD(1) [OF b] by (fastforce simp: bod_def)
  from hash_in_links [OF t j x(1) a(1) this] obtain h where h:
    "hash_in a ?j c = Some (c\<lparr>heap := h, table := (table c)[?j := Some a], inserts := inserts c + 1,
      cur_size := cur_size c + 1, cur_weight := cur_weight c + ce_weight x\<rparr>)"
    "table_ok (lnk h) ((table c)[?j := Some a]) (pushed a ?j cs)"
    "bod h = (bod (heap c))(a \<mapsto> x\<lparr>ref_count := ref_count x + 1, next_entry := None, pthis := None\<rparr>)" by blast
  have e': "x\<lparr>ref_count := ref_count x + 1, next_entry := None, pthis := None\<rparr> = e\<lparr>ref_count := 1\<rparr>" "ce_weight x = ce_weight e"
    using a(3) by (simp_all add: x(2))
  note h = h [unfolded e']
  let ?c' = "c\<lparr>heap := h, table := (table c)[?j := Some a], inserts := inserts c + 1,
      cur_size := cur_size c + 1, cur_weight := cur_weight c + ce_weight e\<rparr>"
  have kb: "key_bucket ?c' = key_bucket c" by (simp add: key_bucket_def fun_eq_iff)
  have "ce_key (the (bod (heap c) d)) \<noteq> ce_key e" if d: "d \<in> set (concat cs)" "\<not> delete_pending (the (bod (heap c) d))" for d
  proof -
    obtain y where "heap c d = Some y" using cache_mem [OF assms(1) d(1)] by metis
    then show ?thesis using d assms(3) [of d] by (auto simp: holds_def live_key_def bod_def)
  qed
  then have bk: "books_ok (key_bucket c) ((bod (heap c))(a \<mapsto> e\<lparr>ref_count := 1\<rparr>)) (lru_list c) (pushed a ?j cs)"
    unfolding pushed_def using b a(1) j by (intro books_push) simp_all
  have "length (concat (pushed a ?j cs)) = Suc (length (concat cs))" unfolding pushed_def using concat_push_facts(2) [OF j] .
  moreover have "weights ((bod (heap c))(a \<mapsto> e\<lparr>ref_count := 1\<rparr>)) (concat (pushed a ?j cs)) = unat (ce_weight e) + weights (bod (heap c)) (concat cs)"
    unfolding pushed_def using weights_push [OF j a(1), of "bod (heap c)" "e\<lparr>ref_count := 1\<rparr>"] by simp
  ultimately have "cache_inv ?c' (pushed a ?j cs)"
    using assms(1,4,5) h(2) bk unfolding cache_inv_def kb by (simp add: h(3))
  then show ?thesis using h(1,3) by (intro exI [of _ ?c']) (simp add: config_def)
qed

text \<open>What is in use stays, at most its deletion becomes pending.\<close>

definition kept :: "('k, 'd) cache \<Rightarrow> eaddr list list \<Rightarrow> ('k, 'd) cache \<Rightarrow> eaddr list list \<Rightarrow> bool" where
  "kept c cs c' cs' \<longleftrightarrow> (\<forall>x e. x \<in> set (concat cs) \<and> bod (heap c) x = Some e \<and> 0 < ref_count e \<longrightarrow>
     x \<in> set (concat cs') \<and> (\<exists>p. bod (heap c') x = Some (e\<lparr>delete_pending := p\<rparr>)))"

lemma pending_some [simp]:
  "\<exists>p. e = e\<lparr>delete_pending := p\<rparr>"
  "\<exists>p. e\<lparr>next_entry := n, pthis := q\<rparr> = e\<lparr>next_entry := n, pthis := q, delete_pending := p\<rparr>"
  by (rule exI [of _ "delete_pending e"], simp)+

lemma kept_trans: "kept c cs c1 cs1 \<Longrightarrow> kept c1 cs1 c2 cs2 \<Longrightarrow> kept c cs c2 cs2"
  unfolding kept_def by (metis (no_types, lifting) centry.select_convs(6) centry.surjective centry.update_convs(7))

text \<open>The entries outside the table.\<close>

definition off :: "('k, 'd) cache \<Rightarrow> eaddr list list \<Rightarrow> eaddr set" where
  "off c cs = {a. bod (heap c) a \<noteq> None} - set (concat cs)"

lemma off_gone:
  assumes "gone X cs c c'" and "X \<subseteq> set (concat cs)"
  shows "off c' (without X cs) = off c cs"
  unfolding off_def gone_facts(7) [OF assms(1)] without_def concat_filter using assms(2) by auto

lemma kept_gone:
  assumes "cache_inv c cs" and "gone X cs c c'" and "X \<subseteq> set (lru_list c)"
  shows "kept c cs c' (without X cs)"
proof -
  have "x \<notin> X" if "x \<in> set (concat cs)" "bod (heap c) x = Some e" "0 < ref_count e" for x e
    using booksD(1) [OF cache_books [OF assms(1)] that(1)] that(2,3) assms(3) by (auto simp: entry_ok_def)
  then show ?thesis unfolding kept_def gone_facts(7) [OF assms(2)] without_def concat_filter by auto
qed

text \<open>The entry that has the key already.\<close>

lemma live_key_bod: "live_key c k a \<longleftrightarrow> (\<exists>e. bod (heap c) a = Some e \<and> \<not> delete_pending e \<and> ce_key e = k)"
  by (auto simp: live_key_def bod_def)

lemma drop_duplicate_ok:
  assumes "cache_ok c cs"
  shows "\<exists>X c'. drop_duplicate k (key_bucket c k) c = Some c' \<and> X = {b. holds c cs k b \<and> b \<in> set (lru_list c)}
    \<and> cache_ok c' (without X cs) \<and> (\<forall>b. \<not> holds c' (without X cs) k b) \<and> lru_list c' = filter (\<lambda>x. x \<notin> X) (lru_list c)
    \<and> (\<forall>b. \<not> holds c cs k b \<longrightarrow> bod (heap c') b = bod (heap c) b) \<and> config c' = config c
    \<and> weights (bod (heap c')) (concat (without X cs)) \<le> weights (bod (heap c)) (concat cs)
    \<and> (quiet c cs \<longrightarrow> gone X cs c c') \<and> kept c cs c' (without X cs) \<and> off c' (without X cs) = off c cs"
proof -
  have i: "cache_inv c cs" using assms by (simp add: cache_ok_def)
  obtain r where r: "find_entry c k (table c ! key_bucket c k) = Some r" "\<forall>a. r = Some a \<longleftrightarrow> holds c cs k a"
    using find_ok [OF i] by blast
  show ?thesis
  proof (cases r)
    case None
    then have n: "\<not> holds c cs k b" for b using r(2) by auto
    then have X: "{b. holds c cs k b \<and> b \<in> set (lru_list c)} = {}" by simp
    have "drop_duplicate k (key_bucket c k) c = Some c" using r(1) None by (simp add: drop_duplicate_def)
    then show ?thesis using assms n gone_empty [OF i] kept_gone [OF i gone_empty [OF i]] unfolding X by (intro exI [of _ "{}"] exI [of _ c]) simp
  next
    case (Some a)
    then have ha: "holds c cs k a" using r(2) by simp
    have u: "holds c cs k b \<longleftrightarrow> b = a" for b using ha holds_unique [OF i _ ha] by blast
    have a: "a \<in> set (concat cs)" using ha by (simp add: holds_def)
    obtain e where e: "heap c a = Some e" "entry_ok (lru_list c) a e" using cache_mem [OF i a] .
    have d: "drop_duplicate k (key_bucket c k) c = stx_cache_entry_delete a c" using r(1) Some by (simp add: drop_duplicate_def)
    show ?thesis
    proof (cases "a \<in> set (lru_list c)")
      case True
      obtain c' where c': "stx_cache_entry_delete a c = Some c'" "gone {a} cs c c'" using delete_unused [OF i True] by blast
      have "\<not> holds c' (without {a} cs) k b" for b
      proof
        assume h: "holds c' (without {a} cs) k b"
        then have b: "b \<in> set (concat cs)" "b \<noteq> a" unfolding holds_def without_def concat_filter by auto
        then have "bod (heap c') b = bod (heap c) b" using gone_facts(7) [OF c'(2)] by simp
        then have "live_key c k b" using h by (simp add: holds_def live_key_bod)
        then show False using u [of b] b by (simp add: holds_def)
      qed
      moreover have "cache_ok c' (without {a} cs)" using gone_ok [OF c'(2) assms] by (simp only: without_def)
      moreover have "weights (bod (heap c')) (concat (without {a} cs)) \<le> weights (bod (heap c)) (concat cs)"
      proof -
        have "bod (heap c') = (bod (heap c))(a := None)" using gone_facts(7) [OF c'(2)] by (auto simp: fun_eq_iff)
        moreover have "distinct (concat cs)" using i by (simp add: cache_inv_def table_ok_def)
        from weights_remove(1) [OF this a, of "bod (heap c)"] show ?thesis
          unfolding \<open>bod (heap c') = _\<close> without_def concat_filter filter_ne by simp
      qed
      moreover have X: "{b. holds c cs k b \<and> b \<in> set (lru_list c)} = {a}" using u True by auto
      ultimately show ?thesis using d c' u gone_facts [OF c'(2)] kept_gone [OF i c'(2)] off_gone [OF c'(2)] True a
        by (intro exI [of _ "{a}"] exI [of _ c']) simp
    next
      case False
      then have p: "0 < ref_count e" using e(2) by (auto simp: entry_ok_def)
      note du = delete_used [OF i a e(1) p]
      let ?e = "e\<lparr>delete_pending := True\<rparr>" let ?c' = "c\<lparr>heap := (heap c)(a \<mapsto> ?e)\<rparr>"
      have X: "{b. holds c cs k b \<and> b \<in> set (lru_list c)} = {}" using u False by auto
      have "cache_ok ?c' cs" using du(2) assms p unfolding cache_ok_def by (auto simp: tidy_def)
      moreover have "\<not> holds ?c' cs k b" for b using u [of b] by (auto simp: holds_def live_key_def split: if_splits)
      moreover have "bod (heap c) a = Some (e\<lparr>next_entry := None, pthis := None\<rparr>)" using e(1) by (simp add: bod_def)
      then have "weights (bod (heap ?c')) (concat cs) = weights (bod (heap c)) (concat cs)"
        using weights_touch [where B = "bod (heap c)" and a = a and e' = "?e\<lparr>next_entry := None, pthis := None\<rparr>"] by simp
      moreover have "\<not> quiet c cs" using a False unfolding quiet_def by blast
      moreover have "kept c cs ?c' cs" using e(1) unfolding kept_def by (auto simp: bod_def intro: exI [of _ True])
      moreover have "off ?c' cs = off c cs" using a unfolding off_def by (auto simp: bod_def)
      ultimately show ?thesis using d du(1) u unfolding X
        by (intro exI [of _ "{}"] exI [of _ ?c']) (simp add: bod_def)
    qed
  qed
qed

lemma take_gone_set:
  assumes "gone (set (take n (lru_list c))) cs c c'" and "gone (set (take m (lru_list c'))) (without (set (take n (lru_list c))) cs) c' c2"
  shows "\<exists>X. X \<subseteq> set (lru_list c) \<and> gone X cs c c2
    \<and> without (set (take m (lru_list c'))) (without (set (take n (lru_list c))) cs) = without X cs"
proof -
  let ?X = "set (take n (lru_list c)) \<union> set (take m (lru_list c'))"
  have "gone ?X cs c c2" using gone_trans [OF assms(1)] assms(2) by (simp only: without_def)
  moreover have "?X \<subseteq> set (lru_list c)" using gone_facts(8) [OF assms(1)] set_take_subset by fastforce
  ultimately show ?thesis unfolding without_without by blast
qed

lemma weights_less:
  assumes "cache_inv c cs" and "gone X cs c c'" and "X \<subseteq> set (concat cs)"
  shows "weights (bod (heap c')) (concat (without X cs)) \<le> weights (bod (heap c)) (concat cs)"
proof -
  have "weights (bod (heap c')) (filter (\<lambda>x. x \<notin> X) xs) \<le> weights (bod (heap c)) xs" for xs
    unfolding gone_facts(7) [OF assms(2)] weights_def by (induction xs) auto
  then show ?thesis unfolding without_def concat_filter .
qed

text \<open>Room for one more: what the loop and the check of the size leave.\<close>

definition roomy :: "64 word \<Rightarrow> ('k, 'd) cache \<Rightarrow> eaddr list list \<Rightarrow> bool" where
  "roomy w c cs \<longleftrightarrow> length (concat cs) < unat (max_size c) \<and> weights (bod (heap c)) (concat cs) + unat w \<le> unat (max_weight c)"

lemma spec_room_over: "lim < w \<Longrightarrow> spec_room lim w xs = []"
  by (induction xs) auto

lemma spec_room_fits: "w \<le> lim \<Longrightarrow> total (spec_room lim w xs) + w \<le> lim"
  by (induction xs) (auto simp: total_def not_less)

lemma evicting_ok:
  assumes "cache_inv c cs" and "unat (max_weight c) + unat w < 2 ^ 64"
  shows "\<exists>X ok ok' c1 c2. make_room w c = Some (ok, c1) \<and> (ok \<longrightarrow> make_slot c1 = Some (ok', c2)) \<and> (\<not> ok \<longrightarrow> c2 = c1 \<and> \<not> ok')
    \<and> X \<subseteq> set (lru_list c) \<and> gone X cs c c2 \<and> (if ok' then roomy w c2 (without X cs) else lru_list c2 = [])
    \<and> (quiet c cs \<longrightarrow> (ok' \<longleftrightarrow> unat w \<le> unat (max_weight c) \<and> max_size c \<noteq> 0)
        \<and> rows c2 = (if ok' then spec_slot (unat (max_size c)) (spec_room (unat (max_weight c)) (unat w) (rows c)) else []))"
proof -
  let ?w = "unat w" and ?lim = "unat (max_weight c)"
  obtain n ok c1 where r: "make_room w c = Some (ok, c1)" "made_room w c cs n ok c1" using make_room_ok [OF assms] by blast
  let ?X = "set (take n (lru_list c))"
  have g: "gone ?X cs c c1" and ok: "ok \<longleftrightarrow> weights (bod (heap c1)) (concat (without ?X cs)) + ?w \<le> ?lim"
    and nok: "\<not> ok \<Longrightarrow> lru_list c1 = []" and q: "quiet c cs \<Longrightarrow> rows c1 = spec_room ?lim ?w (rows c)"
    using r(2) by (simp_all add: made_room_def Let_def)
  note f = gone_facts [OF g]
  have q1: "quiet c1 (without ?X cs)" if "quiet c cs" using gone_quiet [OF g that] by (simp only: without_def)
  have okq: "ok \<longleftrightarrow> ?w \<le> ?lim" if "quiet c cs"
    using ok quiet_total(1) [OF f(1) q1 [OF that]] q [OF that] spec_room_fits [of ?w ?lim "rows c"] by auto
  show ?thesis
  proof (cases ok)
    case False
    have "rows c1 = []" using nok [OF False] by (simp add: rows_def)
    then show ?thesis using False r(1) g nok okq set_take_subset [of n "lru_list c"]
      by (intro exI [of _ ?X] exI [of _ False] exI [of _ c1]) simp
  next
    case True
    obtain m ok' c2 where s: "make_slot c1 = Some (ok', c2)" "gone (set (take m (lru_list c1))) (without ?X cs) c1 c2"
      "if ok' then length (concat (without (set (take m (lru_list c1))) (without ?X cs))) < unat (max_size c1) else m = 0 \<and> lru_list c1 = []"
      "quiet c1 (without ?X cs) \<longrightarrow> (ok' \<longleftrightarrow> max_size c1 \<noteq> 0) \<and> (ok' \<longrightarrow> rows c2 = spec_slot (unat (max_size c1)) (rows c1))"
      using make_slot_ok [OF f(1)] by blast
    obtain Y where Y: "Y \<subseteq> set (lru_list c)" "gone Y cs c c2" "without (set (take m (lru_list c1))) (without ?X cs) = without Y cs"
      using take_gone_set [OF g s(2)] by blast
    have "set (take m (lru_list c1)) \<subseteq> set (concat (without ?X cs))"
      using lru_facts [OF f(1)] set_take_subset [of m "lru_list c1"] by blast
    from weights_less [OF f(1) s(2) this] have wl: "weights (bod (heap c2)) (concat (without Y cs)) + ?w \<le> ?lim"
      unfolding Y(3) using ok True by linarith
    have l2: "\<not> ok' \<Longrightarrow> lru_list c2 = []" using s(3) gone_facts(8) [OF s(2)] by simp
    then have "\<not> ok' \<Longrightarrow> rows c2 = []" by (simp add: rows_def)
    moreover have "roomy w c2 (without Y cs)" if ok'
      using that s(3) wl Y(3) f(3) gone_facts(2,3) [OF Y(2)] by (simp add: roomy_def)
    ultimately show ?thesis using True r(1) s(1,4) Y(1,2) l2 okq q q1 f(3)
      by - (rule exI [of _ Y], rule exI [of _ True], rule exI [of _ ok'], rule exI [of _ c1], rule exI [of _ c2], auto)
  qed
qed

lemma fresh_gone: "gone X cs c c' \<Longrightarrow> X \<subseteq> set (concat cs) \<Longrightarrow> fresh c cs a e \<Longrightarrow> fresh c' (without X cs) a e"
  unfolding fresh_def without_def concat_filter by (auto simp: gone_def)

text \<open>
  Inserting a new entry. Either it is in the cache and held once, or everything in the cache is held and the
  entry is still the caller's. What others hold stays.
\<close>

definition inserted :: "('k, 'd) cache \<Rightarrow> eaddr list list \<Rightarrow> eaddr \<Rightarrow> ('k, 'd) centry \<Rightarrow> int \<Rightarrow> ('k, 'd) cache \<Rightarrow> eaddr list list \<Rightarrow> bool" where
  "inserted c cs a e r c' cs' \<longleftrightarrow> cache_ok c' cs' \<and> config c' = config c \<and> kept c cs c' cs'
     \<and> (if r = 0 then holds c' cs' (ce_key e) a \<and> bod (heap c') a = Some (e\<lparr>ref_count := 1\<rparr>)
        else r = -1 \<and> fresh c' cs' a e \<and> lru_list c' = [])
     \<and> off c' cs' = off c cs - (if r = 0 then {a} else {})
     \<and> (quiet c cs \<longrightarrow> set (concat cs') = (if r = 0 then insert a (set (lru_list c')) else set (lru_list c'))
          \<and> (r = 0 \<longleftrightarrow> ce_weight e \<le> max_weight c \<and> max_size c \<noteq> 0)
          \<and> rows c' = (if r = 0 then drop_key (ce_key e) (spec_slot (unat (max_size c)) (spec_room (unat (max_weight c)) (unat (ce_weight e)) (rows c)))
                      else []))"

lemma drop_rows:
  assumes "cache_inv c cs" and "quiet c cs" and "gone {b. holds c cs k b \<and> b \<in> set (lru_list c)} cs c c'"
    and "\<And>a. a \<in> set (concat cs) \<Longrightarrow> \<not> delete_pending (the (heap c a))"
  shows "rows c' = drop_key k (rows c)"
proof -
  have "holds c cs k b \<longleftrightarrow> fst (row_of (the (heap c b))) = k" if "b \<in> set (lru_list c)" for b
  proof -
    have b: "b \<in> set (concat cs)" using that assms(2) unfolding quiet_def by blast
    obtain e where "heap c b = Some e" using cache_mem [OF assms(1) b] by metis
    then show ?thesis using b assms(4) [OF b] by (auto simp: holds_def live_key_def row_of_def)
  qed
  then have "filter (\<lambda>x. x \<notin> {b. holds c cs k b \<and> b \<in> set (lru_list c)}) (lru_list c) = filter (\<lambda>a. fst (row_of (the (heap c a))) \<noteq> k) (lru_list c)"
    by (intro filter_cong) auto
  then show ?thesis unfolding gone_rows [OF assms(1,3)] by (simp add: drop_key_def rows_def filter_map o_def)
qed

lemma quiet_no_pending:
  assumes "cache_ok c cs" and "quiet c cs" and "a \<in> set (concat cs)"
  shows "\<not> delete_pending (the (heap c a))"
proof -
  have i: "cache_inv c cs" using assms(1) by (simp add: cache_ok_def)
  obtain e where e: "heap c a = Some e" "entry_ok (lru_list c) a e" using cache_mem [OF i assms(3)] .
  then have "ref_count e = 0" using assms(2,3) unfolding quiet_def entry_ok_def by blast
  moreover have "delete_pending (the (bod (heap c) a)) \<longrightarrow> 0 < ref_count (the (bod (heap c) a))"
    using assms(1,3) unfolding cache_ok_def tidy_def by blast
  ultimately show ?thesis using e(1) by (simp add: bod_def)
qed

lemma insert_full:
  assumes "cache_ok c cs" and "fresh c cs a e" and "X \<subseteq> set (lru_list c)" and "gone X cs c c'" and "lru_list c' = []"
    and "quiet c cs \<longrightarrow> \<not> (ce_weight e \<le> max_weight c \<and> max_size c \<noteq> 0) \<and> rows c' = []"
  shows "inserted c cs a e (- 1) c' (without X cs)"
proof -
  have i: "cache_inv c cs" using assms(1) by (simp add: cache_ok_def)
  have sub: "X \<subseteq> set (concat cs)" using assms(3) lru_facts [OF i] by blast
  have "fresh c' (without X cs) a e" by (rule fresh_gone [OF assms(4) sub assms(2)])
  moreover have "cache_ok c' (without X cs)" using gone_ok [OF assms(4,1)] by (simp only: without_def)
  moreover have "quiet c cs \<Longrightarrow> set (concat (without X cs)) = set (lru_list c')" using gone_quiet [OF assms(4)] by (simp only: quiet_def without_def)
  moreover have "off c' (without X cs) = off c cs" by (rule off_gone [OF assms(4) sub])
  ultimately show ?thesis using kept_gone [OF i assms(4,3)] gone_facts(9) [OF assms(4)] assms(5,6) unfolding inserted_def by simp
qed

lemma pushed_tidy:
  assumes "tidy B cs" and "j < length cs" and "a \<notin> set (concat cs)" and "\<not> delete_pending e"
  shows "tidy (B(a \<mapsto> e)) (pushed a j cs)"
  using assms unfolding tidy_def pushed_def concat_push_facts(1) [OF assms(2)] by (auto simp del: set_concat)

lemma insert_hashed:
  assumes "cache_ok c cs" and "fresh c cs a e" and "roomy (ce_weight e) c cs"
  shows "\<exists>c1 c2 cs2. drop_duplicate (ce_key e) (key_bucket c (ce_key e)) c = Some c1 \<and> hash_in a (key_bucket c (ce_key e)) c1 = Some c2
    \<and> cache_ok c2 cs2 \<and> config c2 = config c \<and> kept c cs c2 cs2 \<and> holds c2 cs2 (ce_key e) a \<and> bod (heap c2) a = Some (e\<lparr>ref_count := 1\<rparr>)
    \<and> off c2 cs2 = off c cs - {a} \<and> (quiet c cs \<longrightarrow> set (concat cs2) = insert a (set (lru_list c2)) \<and> rows c2 = drop_key (ce_key e) (rows c))"
proof -
  have i: "cache_inv c cs" using assms(1) by (simp add: cache_ok_def)
  have a: "a \<notin> set (concat cs)" "bod (heap c) a = Some e" "\<not> delete_pending e" using assms(2) by (simp_all add: fresh_def)
  let ?k = "ce_key e" let ?j = "key_bucket c ?k"
  obtain X c1 where d: "drop_duplicate ?k ?j c = Some c1" "X = {b. holds c cs ?k b \<and> b \<in> set (lru_list c)}"
    "cache_ok c1 (without X cs)" "\<forall>b. \<not> holds c1 (without X cs) ?k b" "lru_list c1 = filter (\<lambda>x. x \<notin> X) (lru_list c)"
    "\<forall>b. \<not> holds c cs ?k b \<longrightarrow> bod (heap c1) b = bod (heap c) b" "config c1 = config c"
    "weights (bod (heap c1)) (concat (without X cs)) \<le> weights (bod (heap c)) (concat cs)" "quiet c cs \<longrightarrow> gone X cs c c1"
    "kept c cs c1 (without X cs)" "off c1 (without X cs) = off c cs" using drop_duplicate_ok [OF assms(1), of ?k] by blast
  have i1: "cache_inv c1 (without X cs)" using d(3) by (simp add: cache_ok_def)
  have kb: "key_bucket c1 = key_bucket c" and mx: "max_size c1 = max_size c" "max_weight c1 = max_weight c"
    using d(7) by (simp_all add: config_def key_bucket_def fun_eq_iff)
  have sub: "set (concat (without X cs)) \<subseteq> set (concat cs)" unfolding without_def concat_filter by auto
  have fr: "fresh c1 (without X cs) a e" using assms(2) a(1) d(6) sub by (auto simp: fresh_def holds_def simp del: set_concat)
  have "length (concat (without X cs)) \<le> length (concat cs)" unfolding without_def concat_filter by simp
  then have room: "length (concat (without X cs)) < unat (max_size c1)" using assms(3) unfolding roomy_def mx by linarith
  have room2: "weights (bod (heap c1)) (concat (without X cs)) + unat (ce_weight e) \<le> unat (max_weight c1)"
    using assms(3) d(8) unfolding roomy_def mx by linarith
  let ?cs = "pushed a ?j (without X cs)"
  obtain c2 where h: "hash_in a ?j c1 = Some c2" "cache_inv c2 ?cs" "bod (heap c2) = (bod (heap c1))(a \<mapsto> e\<lparr>ref_count := 1\<rparr>)"
    "lru_list c2 = lru_list c1" "config c2 = config c1"
    using hash_in_ok [OF i1 fr _ room room2] d(4) unfolding kb by blast
  have j: "?j < length (without X cs)" using bucket_ok [OF i1, of ?k] kb by simp
  have na: "a \<notin> set (concat (without X cs))" using a(1) sub by blast
  have set2: "set (concat ?cs) = insert a (set (concat (without X cs)))" unfolding pushed_def by (rule concat_push_facts(1) [OF j])
  have "tidy (bod (heap c2)) ?cs" unfolding h(3) using d(3) a(3) by (intro pushed_tidy [OF _ j na]) (simp_all add: cache_ok_def)
  then have ok: "cache_ok c2 ?cs" using h(2) by (simp add: cache_ok_def)
  have "kept c1 (without X cs) c2 ?cs" using na unfolding kept_def set2 h(3) by (auto simp del: set_concat)
  from kept_trans [OF d(10) this] have k: "kept c cs c2 ?cs" .
  have ho: "holds c2 ?cs ?k a" using a(3) unfolding holds_def live_key_bod set2 h(3) by simp
  have q: "set (concat ?cs) = insert a (set (lru_list c2)) \<and> rows c2 = drop_key ?k (rows c)" if "quiet c cs"
  proof
    have g: "gone {b. holds c cs ?k b \<and> b \<in> set (lru_list c)} cs c c1" using d(2,9) that by simp
    have "quiet c1 (without X cs)" using gone_quiet [OF g that] unfolding d(2) without_def .
    then show "set (concat ?cs) = insert a (set (lru_list c2))" unfolding set2 h(4) quiet_def by simp
    have l1: "set (lru_list c1) \<subseteq> set (concat (without X cs))" using lru_facts [OF i1] by blast
    have "rows c2 = rows c1" unfolding rows_bod [OF h(2)] rows_bod [OF i1] h(3,4) using na l1 by (intro map_cong refl) auto
    also have "rows c1 = drop_key ?k (rows c)" by (rule drop_rows [OF i that g]) (rule quiet_no_pending [OF assms(1) that])
    finally show "rows c2 = drop_key ?k (rows c)" .
  qed
  have "off c2 ?cs = off c cs - {a}" unfolding d(11) [symmetric] unfolding off_def set2 h(3) by (auto simp del: set_concat)
  then show ?thesis using d(1) h(1) ok k ho h(3,5) d(7) q by (intro exI [of _ c1] exI [of _ c2] exI [of _ ?cs]) simp
qed

lemma insert_ok:
  assumes "cache_ok c cs" and "fresh c cs a e" and "unat (max_weight c) + unat (ce_weight e) < 2 ^ 64"
  shows "\<exists>r c' cs'. stx_cache_entry_insert a c = Some (r, c') \<and> inserted c cs a e r c' cs'"
proof -
  have i: "cache_inv c cs" using assms(1) by (simp add: cache_ok_def)
  let ?w = "ce_weight e"
  obtain x where x: "heap c a = Some x" "e = x\<lparr>next_entry := None, pthis := None\<rparr>" using assms(2) by (auto simp: fresh_def bod_def)
  then have kw: "ce_key x = ce_key e" "ce_weight x = ?w" by simp_all
  obtain X ok ok' c1 c2 where m: "make_room ?w c = Some (ok, c1)" "ok \<longrightarrow> make_slot c1 = Some (ok', c2)" "\<not> ok \<longrightarrow> c2 = c1 \<and> \<not> ok'"
    "X \<subseteq> set (lru_list c)" "gone X cs c c2" "if ok' then roomy ?w c2 (without X cs) else lru_list c2 = []"
    "quiet c cs \<longrightarrow> (ok' \<longleftrightarrow> unat ?w \<le> unat (max_weight c) \<and> max_size c \<noteq> 0)
        \<and> rows c2 = (if ok' then spec_slot (unat (max_size c)) (spec_room (unat (max_weight c)) (unat ?w) (rows c)) else [])"
    using evicting_ok [OF i assms(3)] by (elim exE conjE) (rule that; assumption)
  have sub: "X \<subseteq> set (concat cs)" using m(4) lru_facts [OF i] by blast
  show ?thesis
  proof (cases ok')
    case False
    have "stx_cache_entry_insert a c = Some (- 1, c2)"
    proof (cases ok)
      case True
      then have "make_slot c1 = Some (False, c2)" using m(2) False by simp
      then show ?thesis using True m(1) x(1) kw(2) by (simp add: stx_cache_entry_insert_def)
    qed (use m(1,3) x(1) kw(2) in \<open>simp add: stx_cache_entry_insert_def\<close>)
    moreover have "inserted c cs a e (- 1) c2 (without X cs)"
      using insert_full [OF assms(1,2) m(4,5)] m(6,7) False by (simp add: word_le_nat_alt)
    ultimately show ?thesis by blast
  next
    case True
    have ok2: "cache_ok c2 (without X cs)" using gone_ok [OF m(5) assms(1)] by (simp only: without_def)
    have i2: "cache_inv c2 (without X cs)" using ok2 by (simp add: cache_ok_def)
    have fr: "fresh c2 (without X cs) a e" by (rule fresh_gone [OF m(5) sub assms(2)])
    obtain c3 c4 cs4 where h: "drop_duplicate (ce_key e) (key_bucket c2 (ce_key e)) c2 = Some c3"
      "hash_in a (key_bucket c2 (ce_key e)) c3 = Some c4" "cache_ok c4 cs4" "config c4 = config c2" "kept c2 (without X cs) c4 cs4"
      "holds c4 cs4 (ce_key e) a" "bod (heap c4) a = Some (e\<lparr>ref_count := 1\<rparr>)" "off c4 cs4 = off c2 (without X cs) - {a}"
      "quiet c2 (without X cs) \<longrightarrow> set (concat cs4) = insert a (set (lru_list c4)) \<and> rows c4 = drop_key (ce_key e) (rows c2)"
      using insert_hashed [OF ok2 fr] m(6) True by auto
    have "ok" using True m(3) by blast
    then have "stx_cache_entry_insert a c = Some (0, c4)"
      using m(1,2) x(1) kw h(1,2) bucket_ok [OF i2, of "ce_key e"] True by (simp add: stx_cache_entry_insert_def)
    moreover have "inserted c cs a e 0 c4 cs4"
      using h(3-9) off_gone [OF m(5) sub] m(7) True gone_quiet [OF m(5)] gone_facts(9) [OF m(5)] kept_trans [OF kept_gone [OF i m(5,4)] h(5)]
      unfolding inserted_def without_def [symmetric] by (simp add: word_le_nat_alt)
    ultimately show ?thesis by blast
  qed
qed

section \<open>Deleting\<close>

text \<open>Of the entries \<open>S\<close>, those nobody uses are freed, and the deletion of the others is pending.\<close>

definition cleared :: "eaddr set \<Rightarrow> ('k, 'd) cache \<Rightarrow> eaddr list list \<Rightarrow> ('k, 'd) cache \<Rightarrow> bool" where
  "cleared S c cs c' \<longleftrightarrow> (let X = S \<inter> set (lru_list c) in cache_ok c' (without X cs)
     \<and> lru_list c' = filter (\<lambda>x. x \<notin> X) (lru_list c) \<and> config c' = config c
     \<and> bod (heap c') = (\<lambda>x. if x \<in> X then None else if x \<in> S then map_option (\<lambda>e. e\<lparr>delete_pending := True\<rparr>) (bod (heap c) x)
         else bod (heap c) x))"

lemma cleared_empty: "cache_ok c cs \<Longrightarrow> cleared {} c cs c"
  by (simp add: cleared_def)

lemma cleared_trans:
  assumes "cleared S c cs c1" and "cleared T c1 (without (S \<inter> set (lru_list c)) cs) c2"
  shows "cleared (S \<union> T) c cs c2"
proof -
  let ?X = "S \<inter> set (lru_list c)" and ?Y = "T \<inter> set (lru_list c1)"
  have l: "set (lru_list c1) = set (lru_list c) - ?X" using assms(1) by (auto simp: cleared_def Let_def)
  have u: "?X \<union> ?Y = (S \<union> T) \<inter> set (lru_list c)" unfolding l by blast
  have w: "without ?Y (without ?X cs) = without ((S \<union> T) \<inter> set (lru_list c)) cs" unfolding without_without u ..
  have f: "lru_list c2 = filter (\<lambda>x. x \<notin> (S \<union> T) \<inter> set (lru_list c)) (lru_list c)"
    using assms unfolding cleared_def Let_def by (auto simp: filter_filter intro!: filter_cong)
  have "bod (heap c2) = (\<lambda>x. if x \<in> (S \<union> T) \<inter> set (lru_list c) then None
      else if x \<in> S \<union> T then map_option (\<lambda>e. e\<lparr>delete_pending := True\<rparr>) (bod (heap c) x) else bod (heap c) x)"
  proof -
    have b1: "bod (heap c1) = (\<lambda>x. if x \<in> ?X then None else if x \<in> S then map_option (\<lambda>e. e\<lparr>delete_pending := True\<rparr>) (bod (heap c) x)
      else bod (heap c) x)" using assms(1) unfolding cleared_def Let_def by (elim conjE) assumption
    have b2: "bod (heap c2) = (\<lambda>x. if x \<in> ?Y then None else if x \<in> T then map_option (\<lambda>e. e\<lparr>delete_pending := True\<rparr>) (bod (heap c1) x)
      else bod (heap c1) x)" using assms(2) unfolding cleared_def Let_def by (elim conjE) assumption
    show ?thesis unfolding b2 b1 l by (rule ext) (simp add: option.map_comp o_def)
  qed
  then show ?thesis using assms w f unfolding cleared_def Let_def by simp
qed

lemma delete_cleared:
  assumes "cache_ok c cs" and "a \<in> set (concat cs)"
  shows "\<exists>c'. stx_cache_entry_delete a c = Some c' \<and> cleared {a} c cs c'"
proof -
  have i: "cache_inv c cs" using assms(1) by (simp add: cache_ok_def)
  obtain e where e: "heap c a = Some e" "entry_ok (lru_list c) a e" using cache_mem [OF i assms(2)] .
  show ?thesis
  proof (cases "a \<in> set (lru_list c)")
    case True
    obtain c' where c': "stx_cache_entry_delete a c = Some c'" "gone {a} cs c c'" using delete_unused [OF i True] by blast
    have "cache_ok c' (without {a} cs)" using gone_ok [OF c'(2) assms(1)] by (simp only: without_def)
    then show ?thesis using c' gone_facts [OF c'(2)] True by (auto simp: cleared_def fun_eq_iff)
  next
    case False
    then have p: "0 < ref_count e" using e(2) by (auto simp: entry_ok_def)
    note du = delete_used [OF i assms(2) e(1) p]
    let ?c' = "c\<lparr>heap := (heap c)(a \<mapsto> e\<lparr>delete_pending := True\<rparr>)\<rparr>"
    have "cache_ok ?c' cs" using du(2) assms(1) p unfolding cache_ok_def by (auto simp: tidy_def)
    then show ?thesis using du(1) False e(1) by (intro exI [of _ ?c']) (auto simp: cleared_def bod_def fun_eq_iff)
  qed
qed

text \<open>Emptying a bucket: the rest of the chain survives the deletion of its first entry.\<close>

definition hd_opt :: "eaddr list \<Rightarrow> eaddr option" where
  "hd_opt as = (case as of [] \<Rightarrow> None | a # _ \<Rightarrow> Some a)"

lemma chain_hd: "chain g l p as \<Longrightarrow> p = hd_opt as"
  by (cases as) (auto simp: hd_opt_def)

lemma chain_next_hd: "chain g l p (xs @ a # ys) \<Longrightarrow> g a = Some (n, q) \<Longrightarrow> n = hd_opt ys"
  using chain_last_link [of g l p xs a ys] chain_hd by fastforce

lemma empty_chain_ok:
  assumes "cache_ok c cs" and "i < length cs" and "cs ! i = xs @ as"
  shows "\<exists>c'. empty_chain (hd_opt as) c = Some c' \<and> cleared (set as) c cs c'"
  using assms
proof (induction as arbitrary: c cs xs)
  case Nil
  then show ?case using cleared_empty by (subst empty_chain.simps) (simp add: hd_opt_def)
next
  case (Cons a as)
  have inv: "cache_inv c cs" using Cons.prems(1) by (simp add: cache_ok_def)
  have ch: "chain (lnk (heap c)) (Bucket i) (table c ! i) (xs @ a # as)" and d: "distinct (xs @ a # as)"
    using inv Cons.prems(2,3) distinct_concat_nth [of cs i] unfolding cache_inv_def table_ok_def by metis+
  have a: "a \<in> set (concat cs)" using nth_concat [OF Cons.prems(2), of a] Cons.prems(3) by simp
  obtain e where e: "heap c a = Some e" using cache_mem [OF inv a] by metis
  have n: "next_entry e = hd_opt as" using chain_next_hd [OF ch] e by (simp add: lnk_Some)
  obtain c1 where c1: "stx_cache_entry_delete a c = Some c1" "cleared {a} c cs c1" using delete_cleared [OF Cons.prems(1) a] by blast
  let ?X = "{a} \<inter> set (lru_list c)"
  have "filter (\<lambda>x. x \<notin> ?X) (xs @ a # as) = (if a \<in> ?X then xs else xs @ [a]) @ as"
    using d by (auto simp: filter_id_conv)
  then have s: "without ?X cs ! i = (if a \<in> ?X then xs else xs @ [a]) @ as"
    using Cons.prems(2,3) by (simp add: without_def)
  have "cache_ok c1 (without ?X cs)" using c1(2) by (simp add: cleared_def Let_def)
  from Cons.IH [OF this _ s] obtain c' where c': "empty_chain (hd_opt as) c1 = Some c'" "cleared (set as) c1 (without ?X cs) c'"
    using Cons.prems(2) by (auto simp: without_def)
  have "empty_chain (hd_opt (a # as)) c = Some c'"
    using e n c1(1) c'(1) by (subst empty_chain.simps) (simp add: hd_opt_def)
  then show ?case using cleared_trans [OF c1(2) c'(2)] by simp
qed

lemma empty_buckets_ok:
  "cache_ok c cs \<Longrightarrow> \<forall>i \<in> set is. i < length cs \<Longrightarrow> \<exists>c'. empty_buckets is c = Some c' \<and> cleared (\<Union>i \<in> set is. set (cs ! i)) c cs c'"
proof (induction "is" arbitrary: c cs)
  case Nil
  then show ?case using cleared_empty by simp
next
  case (Cons i "is")
  have inv: "cache_inv c cs" using Cons.prems(1) by (simp add: cache_ok_def)
  have i: "i < length cs" using Cons.prems(2) by simp
  have "table c ! i = hd_opt (cs ! i)" using inv i chain_hd unfolding cache_inv_def table_ok_def by blast
  then obtain c1 where c1: "empty_chain (table c ! i) c = Some c1" "cleared (set (cs ! i)) c cs c1"
    using empty_chain_ok [OF Cons.prems(1) i, of "[]" "cs ! i"] by auto
  let ?X = "set (cs ! i) \<inter> set (lru_list c)"
  have l: "\<forall>j \<in> set is. j < length (without ?X cs)" using Cons.prems(2) by (simp add: without_def)
  have "cache_ok c1 (without ?X cs)" using c1(2) by (simp add: cleared_def Let_def)
  from Cons.IH [OF this l] obtain c' where c': "empty_buckets is c1 = Some c'"
    "cleared (\<Union>j \<in> set is. set (without ?X cs ! j)) c1 (without ?X cs) c'" by blast
  have "set (without ?X cs ! j) = set (cs ! j) - ?X" if "j \<in> set is" for j
    using Cons.prems(2) that by (auto simp: without_def)
  then have "set (cs ! i) \<union> (\<Union>j \<in> set is. set (without ?X cs ! j)) = (\<Union>j \<in> set (i # is). set (cs ! j))" by auto
  then show ?case using c1(1) c'(1) cleared_trans [OF c1(2) c'(2)] by simp
qed

lemma empty_ok:
  assumes "cache_ok c cs"
  shows "\<exists>c'. stx_cache_empty c = Some c' \<and> cleared (set (concat cs)) c cs c'"
proof -
  have l: "length (table c) = length cs" using assms by (simp add: cache_ok_def cache_inv_def table_ok_def)
  have "set cs = nth cs ` set [0..<length cs]" using nth_image [of "length cs" cs] by simp
  then have "(\<Union>i \<in> set [0..<length cs]. set (cs ! i)) = set (concat cs)" unfolding set_concat by (simp only: image_image)
  then show ?thesis using empty_buckets_ok [OF assms, of "[0..<length (table c)]"] l by (simp add: stx_cache_empty_def)
qed

text \<open>An entry that is not in the table: its creation and its end.\<close>

lemma chain_only: "(\<And>a. a \<in> set (concat cs) \<Longrightarrow> g' a = g a) \<Longrightarrow> i < length cs \<Longrightarrow> chain g' l p (cs ! i) = chain g l p (cs ! i)"
  using nth_concat [of i cs] by (intro chain_cong) blast

lemma off_update:
  assumes "cache_ok c cs" and "a \<notin> set (concat cs)" and "\<And>e. x = Some e \<Longrightarrow> pthis e = None"
  shows "cache_ok (c\<lparr>heap := (heap c)(a := x)\<rparr>) cs"
proof -
  let ?h = "(heap c)(a := x)"
  have i: "cache_inv c cs" and ti: "tidy (bod (heap c)) cs" using assms(1) by (simp_all add: cache_ok_def)
  have l: "lnk ?h y = lnk (heap c) y" and b: "bod ?h y = bod (heap c) y" if "y \<in> set (concat cs)" for y
    using that assms(2) by (auto simp: lnk_def bod_def)
  have t: "table_ok (lnk (heap c)) (table c) cs" using i by (simp add: cache_inv_def)
  have "q \<noteq> None \<longleftrightarrow> y \<in> set (concat cs)" if y: "lnk ?h y = Some (n, q)" for y n q
  proof (cases "y = a")
    case True
    then show ?thesis using y assms(2,3) by (auto simp: lnk_Some)
  next
    case False
    then have "lnk (heap c) y = Some (n, q)" using y by (simp add: lnk_def)
    then show ?thesis using t by (auto simp: table_ok_def)
  qed
  then have "table_ok (lnk ?h) (table c) cs"
    using t chain_only [of cs "lnk ?h" "lnk (heap c)", OF l] unfolding table_ok_def by metis
  moreover have bk: "books_ok (key_bucket c) (bod ?h) (lru_list c) cs"
  proof (rule booksI)
    note B = cache_books [OF i]
    show "\<exists>e. bod ?h y = Some e \<and> entry_ok (lru_list c) y e" if "y \<in> set (concat cs)" for y
      using booksD(1) [OF B that] b [OF that] by simp
    show "key_bucket c (ce_key (the (bod ?h y))) = k" if "k < length cs" "y \<in> set (cs ! k)" for k y
      using booksD(2) [OF B that] b [OF nth_concat [OF that]] by simp
    show "y = z" if "y \<in> set (concat cs)" "z \<in> set (concat cs)" "\<not> delete_pending (the (bod ?h y))" "\<not> delete_pending (the (bod ?h z))"
      "ce_key (the (bod ?h y)) = ce_key (the (bod ?h z))" for y z
      using booksD(3) [OF B that(1,2)] that(3-5) b [OF that(1)] b [OF that(2)] by simp
  qed (use booksD(4,5) [OF cache_books [OF i]] in blast)+
  moreover have w: "weights (bod ?h) (concat cs) = weights (bod (heap c)) (concat cs)"
    unfolding weights_def by (intro arg_cong [where f = sum_list] map_cong refl) (simp only: b)
  moreover have "tidy (bod ?h) cs" using ti unfolding tidy_def by (metis b)
  ultimately show ?thesis using i unfolding cache_ok_def cache_inv_def by simp
qed

lemma cache_ok_cleaned [simp]: "cache_ok (c\<lparr>cleaned := x\<rparr>) cs = cache_ok c cs"
proof -
  have "key_bucket (c\<lparr>cleaned := x\<rparr>) = key_bucket c" by (simp add: key_bucket_def fun_eq_iff)
  then show ?thesis by (simp add: cache_ok_def cache_inv_def)
qed

lemma cache_create_ok:
  assumes "cache_ok c cs" and "heap c a = None"
  shows "\<exists>c'. stx_cache_entry_create (Some a) k d w c = (Some a, c') \<and> cache_ok c' cs \<and> config c' = config c \<and> lru_list c' = lru_list c
    \<and> heap c' = (heap c)(a \<mapsto> \<lparr>ce_key = k, ce_data = d, ce_weight = w, next_entry = None, pthis = None, ref_count = 0, delete_pending = False\<rparr>)
    \<and> fresh c' cs a \<lparr>ce_key = k, ce_data = d, ce_weight = w, next_entry = None, pthis = None, ref_count = 0, delete_pending = False\<rparr>
    \<and> off c' cs = insert a (off c cs) \<and> rows c' = rows c"
proof -
  have i: "cache_inv c cs" using assms(1) by (simp add: cache_ok_def)
  have a: "a \<notin> set (concat cs)" using cache_mem [OF i, of a] assms(2) by (metis option.distinct(1))
  then have al: "a \<notin> set (lru_list c)" using lru_facts [OF i] by blast
  let ?e = "\<lparr>ce_key = k, ce_data = d, ce_weight = w, next_entry = None, pthis = None, ref_count = 0, delete_pending = False\<rparr>"
  have "cache_ok (c\<lparr>heap := (heap c)(a := Some ?e)\<rparr>) cs" by (rule off_update [OF assms(1) a]) auto
  moreover have "rows (c\<lparr>heap := (heap c)(a := Some ?e)\<rparr>) = rows c" using al by (auto simp: rows_def)
  ultimately show ?thesis using a by (auto simp: stx_cache_entry_create_def fresh_def off_def bod_def simp del: set_concat)
qed

lemma delete_fresh:
  assumes "cache_ok c cs" and "fresh c cs a e"
  shows "\<exists>c'. stx_cache_entry_delete a c = Some c' \<and> cache_ok c' cs \<and> config c' = config c \<and> lru_list c' = lru_list c
    \<and> heap c' = (heap c)(a := None) \<and> off c' cs = off c cs - {a} \<and> rows c' = rows c"
proof -
  have i: "cache_inv c cs" using assms(1) by (simp add: cache_ok_def)
  have a: "a \<notin> set (concat cs)" using assms(2) by (simp add: fresh_def)
  then have al: "a \<notin> set (lru_list c)" using lru_facts [OF i] by blast
  obtain x where x: "heap c a = Some x" "ref_count x = 0" using assms(2) by (auto simp: fresh_def bod_def)
  have "lnk (heap c) a = Some (next_entry x, pthis x)" using x by (simp add: lnk_def)
  then have p: "pthis x = None" using i a unfolding cache_inv_def table_ok_def by metis
  let ?c' = "c\<lparr>heap := (heap c)(a := None), cleaned := cleaned c @ (if cleanup_fn c then [(ce_key x, ce_data x)] else [])\<rparr>"
  have "stx_cache_entry_delete a c = Some ?c'"
    using x p by (simp add: stx_cache_entry_delete_def modify_entry_def unhash_def)
  moreover have "cache_ok (c\<lparr>heap := (heap c)(a := None)\<rparr>) cs" by (rule off_update [OF assms(1) a]) simp
  then have "cache_ok ?c' cs" by simp
  moreover have "rows ?c' = rows c" using al by (auto simp: rows_def)
  ultimately show ?thesis using a by (auto simp: off_def config_def simp del: set_concat)
qed

section \<open>Clients\<close>

text \<open>
  What threads do with a cache: each operation runs without a switch. A client that cannot insert its entry
  deletes it, as \<^verbatim>\<open>dnscache.c\<close> does. An operation is legal when the address the allocator answers with is
  unused, and an entry that is released or deleted still exists.
\<close>

datatype ('k, 'd) cache_op = Op_lookup 'k | Op_insert eaddr 'k 'd "64 word" | Op_release eaddr | Op_delete eaddr | Op_empty

definition add_entry :: "eaddr \<Rightarrow> 'k \<Rightarrow> 'd \<Rightarrow> 64 word \<Rightarrow> ('k, 'd) cache \<Rightarrow> (int \<times> ('k, 'd) cache) option" where
  "add_entry a k d w c = Option.bind (stx_cache_entry_insert a (snd (stx_cache_entry_create (Some a) k d w c)))
     (\<lambda>(r, c1). if r = 0 then Some (r, c1) else map_option (Pair r) (stx_cache_entry_delete a c1))"

fun run_op :: "('k, 'd) cache_op \<Rightarrow> ('k, 'd) cache \<Rightarrow> ('k, 'd) cache option" where
  "run_op (Op_lookup k) c = map_option snd (stx_cache_entry_lookup k c)"
| "run_op (Op_insert a k d w) c = map_option snd (add_entry a k d w c)"
| "run_op (Op_release a) c = stx_cache_entry_release a c"
| "run_op (Op_delete a) c = stx_cache_entry_delete a c"
| "run_op Op_empty c = stx_cache_empty c"

fun legal_op :: "('k, 'd) cache_op \<Rightarrow> ('k, 'd) cache \<Rightarrow> bool" where
  "legal_op (Op_insert a k d w) c \<longleftrightarrow> heap c a = None \<and> unat (max_weight c) + unat w < 2 ^ 64"
| "legal_op (Op_release a) c \<longleftrightarrow> heap c a \<noteq> None"
| "legal_op (Op_delete a) c \<longleftrightarrow> heap c a \<noteq> None"
| "legal_op _ c \<longleftrightarrow> True"

fun run_ops :: "('k, 'd) cache_op list \<Rightarrow> ('k, 'd) cache \<Rightarrow> ('k, 'd) cache option" where
  "run_ops [] c = Some c"
| "run_ops (x # xs) c = Option.bind (run_op x c) (run_ops xs)"

fun legal_ops :: "('k, 'd) cache_op list \<Rightarrow> ('k, 'd) cache \<Rightarrow> bool" where
  "legal_ops [] c \<longleftrightarrow> True"
| "legal_ops (x # xs) c \<longleftrightarrow> legal_op x c \<and> (case run_op x c of None \<Rightarrow> True | Some c1 \<Rightarrow> legal_ops xs c1)"

text \<open>Between the operations every entry is in the table.\<close>

definition client_inv :: "('k, 'd) cache \<Rightarrow> eaddr list list \<Rightarrow> bool" where
  "client_inv c cs \<longleftrightarrow> cache_ok c cs \<and> off c cs = {}"

definition survives :: "eaddr \<Rightarrow> ('k, 'd) cache \<Rightarrow> ('k, 'd) cache \<Rightarrow> bool" where
  "survives a c c' \<longleftrightarrow> (\<forall>e. heap c a = Some e \<longrightarrow> 0 < ref_count e \<longrightarrow>
     (\<exists>e'. heap c' a = Some e' \<and> ce_key e' = ce_key e \<and> ce_data e' = ce_data e \<and> ref_count e \<le> ref_count e'))"

lemma survives_bod: "survives a c c' \<longleftrightarrow> (\<forall>e. bod (heap c) a = Some e \<longrightarrow> 0 < ref_count e \<longrightarrow>
     (\<exists>e'. bod (heap c') a = Some e' \<and> ce_key e' = ce_key e \<and> ce_data e' = ce_data e \<and> ref_count e \<le> ref_count e'))"
  unfolding survives_def bod_def by (cases "heap c a"; cases "heap c' a") auto

lemma client_mem: "client_inv c cs \<Longrightarrow> heap c a \<noteq> None \<longleftrightarrow> a \<in> set (concat cs)"
proof
  assume "client_inv c cs" "heap c a \<noteq> None"
  then show "a \<in> set (concat cs)" by (auto simp: client_inv_def off_def bod_def)
next
  assume "client_inv c cs" "a \<in> set (concat cs)"
  then show "heap c a \<noteq> None" by (metis cache_mem cache_ok_def client_inv_def option.distinct(1))
qed

lemma kept_survives: "client_inv c cs \<Longrightarrow> kept c cs c' cs' \<Longrightarrow> survives a c c'"
proof -
  assume c: "client_inv c cs" and k: "kept c cs c' cs'"
  have "a \<in> set (concat cs)" if "bod (heap c) a = Some e" for e
    using client_mem [OF c, of a] that by (metis bod_None option.distinct(1))
  then show ?thesis using k unfolding survives_bod kept_def by fastforce
qed

definition op_ok :: "('k, 'd) cache_op \<Rightarrow> ('k, 'd) cache \<Rightarrow> bool" where
  "op_ok x c \<longleftrightarrow> (\<exists>c' cs'. run_op x c = Some c' \<and> client_inv c' cs' \<and> config c' = config c \<and> (\<forall>a. x \<noteq> Op_release a \<longrightarrow> survives a c c'))"

lemma lookup_op_ok: "client_inv c cs \<Longrightarrow> op_ok (Op_lookup k) c"
proof -
  assume c: "client_inv c cs"
  then have i: "cache_inv c cs" and ti: "tidy (bod (heap c)) cs" and o: "off c cs = {}" by (simp_all add: client_inv_def cache_ok_def)
  obtain r c' where r: "stx_cache_entry_lookup k c = Some (r, c')" "cache_inv c' cs" "config c' = config c"
    "case r of None \<Rightarrow> heap c' = heap c \<and> lru_list c' = lru_list c
      | Some a \<Rightarrow> \<exists>e. heap c a = Some e \<and> heap c' = (heap c)(a \<mapsto> e\<lparr>ref_count := ref_count e + 1\<rparr>) \<and> lru_list c' = filter (\<lambda>x. x \<noteq> a) (lru_list c)"
    using lookup_ok [OF i, of k] by (elim exE conjE) (rule that; assumption)
  have "tidy (bod (heap c')) cs \<and> off c' cs = {} \<and> (\<forall>a. survives a c c')"
  proof (cases r)
    case None
    then show ?thesis using r(4) ti o by (auto simp: off_def survives_def)
  next
    case (Some a)
    then obtain e where e: "heap c a = Some e" "heap c' = (heap c)(a \<mapsto> e\<lparr>ref_count := ref_count e + 1\<rparr>)" using r(4) by auto
    have "a \<in> set (concat cs)" using client_mem [OF c, of a] e(1) by simp
    moreover have "0 \<le> ref_count e" using cache_mem [OF i calculation] e(1) by (auto simp: entry_ok_def)
    ultimately have "tidy (bod (heap c')) cs" using ti unfolding tidy_def e(2) by auto
    then show ?thesis using o e by (auto simp: off_def survives_def bod_def split: if_splits)
  qed
  then show ?thesis using r unfolding op_ok_def client_inv_def cache_ok_def by auto
qed

lemma release_op_ok: "client_inv c cs \<Longrightarrow> heap c a \<noteq> None \<Longrightarrow> op_ok (Op_release a) c"
proof -
  assume c: "client_inv c cs" and h: "heap c a \<noteq> None"
  then have i: "cache_inv c cs" and ti: "tidy (bod (heap c)) cs" and o: "off c cs = {}" by (simp_all add: client_inv_def cache_ok_def)
  have a: "a \<in> set (concat cs)" using client_mem [OF c] h by blast
  obtain e where e: "heap c a = Some e" "entry_ok (lru_list c) a e" using cache_mem [OF i a] .
  have s: "survives b c c'" if "b \<noteq> a" "bod (heap c') b = bod (heap c) b" for b c' using that by (auto simp: survives_bod)
  consider "ref_count e = 0" | "0 < ref_count e" "ref_count e = 1 \<and> delete_pending e" | "0 < ref_count e" "\<not> (ref_count e = 1 \<and> delete_pending e)"
    using e(2) unfolding entry_ok_def by linarith
  then show ?thesis
  proof cases
    case 1
    then have "stx_cache_entry_release a c = Some c" using e(1) by (simp add: stx_cache_entry_release_def)
    then show ?thesis using c s by (auto simp: op_ok_def)
  next
    case 2
    obtain c' where c': "stx_cache_entry_release a c = Some c'" "gone {a} cs c c'"
      using release_ok(3) [OF i a e(1) 2(1)] 2(2) by blast
    have "cache_ok c' (without {a} cs)" using gone_ok [OF c'(2)] c by (simp only: client_inv_def without_def)
    moreover have "off c' (without {a} cs) = {}" using off_gone [OF c'(2)] a o by simp
    ultimately show ?thesis using c' gone_facts(7,9) [OF c'(2)] s unfolding op_ok_def client_inv_def by auto
  next
    case 3
    let ?g = "given_back a e c"
    note r = release_ok(1) [OF i a e(1) 3(1)] release_ok(2) [OF i a e(1) 3]
    have b: "bod (heap ?g) = (bod (heap c))(a \<mapsto> e\<lparr>ref_count := ref_count e - 1, next_entry := None, pthis := None\<rparr>)"
      by (simp add: given_back_def)
    have "tidy (bod (heap ?g)) cs" using ti 3 unfolding tidy_def b by auto
    moreover have "off ?g cs = {}" using o a unfolding off_def b by auto
    moreover have "config ?g = config c" by (simp add: given_back_def config_def)
    ultimately show ?thesis using r s [of _ ?g] b unfolding op_ok_def client_inv_def cache_ok_def by auto
  qed
qed

lemma cleared_client: "client_inv c cs \<Longrightarrow> cleared S c cs c' \<Longrightarrow> \<exists>cs'. client_inv c' cs' \<and> config c' = config c \<and> (\<forall>a. survives a c c')"
proof -
  assume c: "client_inv c cs" and k: "cleared S c cs c'"
  then have i: "cache_inv c cs" by (simp add: client_inv_def cache_ok_def)
  let ?X = "S \<inter> set (lru_list c)"
  have b: "bod (heap c') = (\<lambda>x. if x \<in> ?X then None else if x \<in> S then map_option (\<lambda>e. e\<lparr>delete_pending := True\<rparr>) (bod (heap c) x)
      else bod (heap c) x)" and ok: "cache_ok c' (without ?X cs)" and cf: "config c' = config c"
    using k unfolding cleared_def Let_def by blast+
  have o: "bod (heap c) a = None" if "a \<notin> set (concat cs)" for a using c that by (auto simp: client_inv_def off_def simp del: set_concat)
  have "off c' (without ?X cs) = {}" unfolding off_def b without_def concat_filter
    by (rule equals0I) (use o in \<open>auto simp del: set_concat split: if_splits\<close>)
  moreover have "survives a c c'" for a
  proof (cases "a \<in> ?X")
    case True
    then have "ref_count e = 0" if "bod (heap c) a = Some e" for e
      using booksD(1) [OF cache_books [OF i], of a] lru_facts [OF i] that by (auto simp: entry_ok_def)
    then show ?thesis by (auto simp: survives_bod)
  qed (auto simp: survives_bod b)
  ultimately show ?thesis using ok cf unfolding client_inv_def by blast
qed

lemma delete_op_ok: "client_inv c cs \<Longrightarrow> heap c a \<noteq> None \<Longrightarrow> op_ok (Op_delete a) c"
  using delete_cleared [of c cs a] client_mem [of c cs a] cleared_client unfolding op_ok_def run_op.simps client_inv_def by metis

lemma empty_op_ok: "client_inv c cs \<Longrightarrow> op_ok Op_empty c"
  using empty_ok [of c cs] cleared_client unfolding op_ok_def run_op.simps client_inv_def by metis

lemma insert_op_ok: "client_inv c cs \<Longrightarrow> legal_op (Op_insert a k d w) c \<Longrightarrow> op_ok (Op_insert a k d w) c"
proof -
  assume c: "client_inv c cs" and l: "legal_op (Op_insert a k d w) c"
  then have ok: "cache_ok c cs" and o: "off c cs = {}" and h: "heap c a = None" by (simp_all add: client_inv_def)
  let ?e = "\<lparr>ce_key = k, ce_data = d, ce_weight = w, next_entry = None, pthis = None, ref_count = 0, delete_pending = False\<rparr>"
  obtain c1 where c1: "stx_cache_entry_create (Some a) k d w c = (Some a, c1)" "cache_ok c1 cs" "config c1 = config c"
    "heap c1 = (heap c)(a \<mapsto> ?e)" "fresh c1 cs a ?e" "off c1 cs = insert a (off c cs)"
    using cache_create_ok [OF ok h, of k d w] by blast
  have "unat (max_weight c1) + unat (ce_weight ?e) < 2 ^ 64" using l c1(3) by (simp add: config_def)
  from insert_ok [OF c1(2,5) this] obtain r c2 cs2 where r: "stx_cache_entry_insert a c1 = Some (r, c2)" "inserted c1 cs a ?e r c2 cs2" by blast
  note r2 = r(2) [unfolded inserted_def]
  have s1: "survives b c c2" for b
  proof -
    have "bod (heap c) b = Some e \<Longrightarrow> b \<in> set (concat cs) \<and> bod (heap c1) b = Some e" for e
      using o h c1(4) by (auto simp: off_def bod_def simp del: set_concat)
    then show ?thesis using r2 unfolding survives_bod kept_def by fastforce
  qed
  show ?thesis
  proof (cases "r = 0")
    case True
    then have "run_op (Op_insert a k d w) c = Some c2" using c1(1) r(1) by (simp add: add_entry_def)
    then show ?thesis using True r2 c1(3,6) o s1 unfolding op_ok_def client_inv_def by auto
  next
    case False
    then have r3: "cache_ok c2 cs2" "fresh c2 cs2 a ?e" "off c2 cs2 = {a}" "config c2 = config c" using r2 c1(3,6) o by auto
    obtain c3 where c3: "stx_cache_entry_delete a c2 = Some c3" "cache_ok c3 cs2" "config c3 = config c2" "heap c3 = (heap c2)(a := None)"
      "off c3 cs2 = off c2 cs2 - {a}" using delete_fresh [OF r3(1,2)] by blast
    have "survives b c c3" for b
    proof (cases "b = a")
      case False
      then show ?thesis using s1 [of b] c3(4) by (simp add: survives_def)
    qed (use h in \<open>simp add: survives_def\<close>)
    moreover have "run_op (Op_insert a k d w) c = Some c3" using c1(1) r(1) c3(1) False by (simp add: add_entry_def)
    ultimately show ?thesis using c3 r3 unfolding op_ok_def client_inv_def by auto
  qed
qed

lemma client_step: "client_inv c cs \<Longrightarrow> legal_op x c \<Longrightarrow> op_ok x c"
proof (cases x)
  case (Op_insert a k d w)
  then show "client_inv c cs \<Longrightarrow> legal_op x c \<Longrightarrow> op_ok x c" using insert_op_ok [of c cs a k d w] by simp
qed (simp_all add: lookup_op_ok release_op_ok delete_op_ok empty_op_ok del: not_None_eq)

lemma survives_trans:
  assumes "survives a c c1" and "survives a c1 c2"
  shows "survives a c c2"
  unfolding survives_def
proof (intro allI impI)
  fix e assume e: "heap c a = Some e" "0 < ref_count e"
  then obtain e1 where e1: "heap c1 a = Some e1" "ce_key e1 = ce_key e" "ce_data e1 = ce_data e" "ref_count e \<le> ref_count e1"
    using assms(1) by (auto simp: survives_def)
  then have "0 < ref_count e1" using e(2) by simp
  then obtain e2 where "heap c2 a = Some e2" "ce_key e2 = ce_key e1" "ce_data e2 = ce_data e1" "ref_count e1 \<le> ref_count e2"
    using assms(2) e1(1) by (auto simp: survives_def)
  then show "\<exists>e'. heap c2 a = Some e' \<and> ce_key e' = ce_key e \<and> ce_data e' = ce_data e \<and> ref_count e \<le> ref_count e'"
    using e1 by (intro exI [of _ e2]) simp
qed

lemma survives_refl: "survives a c c"
  by (simp add: survives_def)

lemma client_run:
  "client_inv c cs \<Longrightarrow> legal_ops xs c \<Longrightarrow> \<exists>c' cs'. run_ops xs c = Some c' \<and> client_inv c' cs' \<and> config c' = config c
    \<and> (\<forall>a. Op_release a \<notin> set xs \<longrightarrow> survives a c c')"
proof (induction xs arbitrary: c cs)
  case (Cons x xs)
  obtain c1 cs1 where c1: "run_op x c = Some c1" "client_inv c1 cs1" "config c1 = config c"
    "\<forall>a. x \<noteq> Op_release a \<longrightarrow> survives a c c1"
    using client_step [OF Cons.prems(1), of x] Cons.prems(2) unfolding op_ok_def by auto
  then show ?case using Cons.IH [OF c1(2)] Cons.prems(2) survives_trans [of _ c c1] by fastforce
qed (auto simp: survives_refl)

lemma legal_append: "legal_ops (xs @ ys) c \<Longrightarrow> run_ops xs c = Some c1 \<Longrightarrow> legal_ops xs c \<and> legal_ops ys c1"
  by (induction xs arbitrary: c) (auto split: Option.bind_splits option.splits)

text \<open>What the invariant says, in the terms of the cache.\<close>

lemma client_counts:
  assumes "client_inv c cs"
  shows "cur_size c \<le> max_size c \<and> unat (cur_size c) = card (dom (heap c))"
    and "cur_weight c \<le> max_weight c \<and> unat (cur_weight c) = (\<Sum>a \<in> dom (heap c). unat (ce_weight (the (heap c a))))"
    and "heap c a = Some e \<Longrightarrow> 0 \<le> ref_count e \<and> (ref_count e = 0 \<longleftrightarrow> a \<in> set (lru_list c))"
    and "heap c a = Some e \<Longrightarrow> heap c b = Some e' \<Longrightarrow> ce_key e = ce_key e' \<Longrightarrow> \<not> delete_pending e \<Longrightarrow> \<not> delete_pending e' \<Longrightarrow> a = b"
proof -
  have i: "cache_inv c cs" using assms by (simp add: client_inv_def cache_ok_def)
  note m = client_mem [OF assms]
  have d: "dom (heap c) = set (concat cs)" unfolding dom_def using m by blast
  have dc: "distinct (concat cs)" using i by (simp add: cache_inv_def table_ok_def)
  have w: "unat (ce_weight (the (bod (heap c) x))) = unat (ce_weight (the (heap c x)))" if "x \<in> set (concat cs)" for x
    using m [of x] that by (auto simp: bod_def simp del: set_concat)
  have W: "weights (bod (heap c)) (concat cs) = (\<Sum>a \<in> dom (heap c). unat (ce_weight (the (heap c a))))"
    unfolding weights_def d using dc w by (simp add: sum_list_distinct_conv_sum_set del: set_concat)
  have u: "unat (max_size c) < 2 ^ 64" "unat (max_weight c) < 2 ^ 64"
    using unsigned_less [of "max_size c"] unsigned_less [of "max_weight c"] by simp_all
  then show "cur_size c \<le> max_size c \<and> unat (cur_size c) = card (dom (heap c))"
    using i distinct_card [OF dc] unfolding d cache_inv_def by (simp add: word_le_nat_alt unat_of_nat take_bit_nat_eq_self del: set_concat)
  show "cur_weight c \<le> max_weight c \<and> unat (cur_weight c) = (\<Sum>a \<in> dom (heap c). unat (ce_weight (the (heap c a))))"
    using i u(2) unfolding W [symmetric] cache_inv_def by (simp add: word_le_nat_alt unat_of_nat take_bit_nat_eq_self del: set_concat)
  show "0 \<le> ref_count e \<and> (ref_count e = 0 \<longleftrightarrow> a \<in> set (lru_list c))" if "heap c a = Some e"
    using cache_mem [OF i, of a] m [of a] that unfolding entry_ok_def by force
  show "a = b" if "heap c a = Some e" "heap c b = Some e'" "ce_key e = ce_key e'" "\<not> delete_pending e" "\<not> delete_pending e'"
    using holds_unique [OF i, of "ce_key e" a b] m [of a] m [of b] that by (simp add: holds_def live_key_def del: set_concat)
qed

lemma created_ok:
  assumes "stx_cache_create True True sz wt n h cmp cl = Some c" and "0 < n" and "\<And>x y. cmp x y = 0 \<longleftrightarrow> x = y"
  shows "client_inv c (replicate n [])"
proof -
  have c: "c = \<lparr>max_size = sz, cur_size = 0, max_weight = wt, cur_weight = 0, table = replicate n None,
        lru_list = [], hits = 0, lookups = 0, inserts = 0, deletes = 0, key_hash_fn = h, key_cmp_fn = cmp,
        cleanup_fn = cl, heap = Map.empty, cleaned = []\<rparr>" using assms(1) by (simp add: stx_cache_create_def)
  have e: "concat (replicate n []) = []" by simp
  show ?thesis using assms(2,3) unfolding client_inv_def cache_ok_def cache_inv_def tidy_def off_def table_ok_def books_ok_def c e
    by (simp add: lnk_def bod_def weights_def)
qed

section \<open>Clients that keep no entry\<close>

definition quiet_inv :: "('k, 'd) cache \<Rightarrow> bool" where
  "quiet_inv c \<longleftrightarrow> (\<exists>cs. client_inv c cs \<and> quiet c cs)"

lemma quiet_keys:
  assumes "client_inv c cs" and "quiet c cs" and "a \<in> set (lru_list c)"
  shows "holds c cs k a \<longleftrightarrow> fst (row_of (the (heap c a))) = k"
proof -
  have ok: "cache_ok c cs" using assms(1) by (simp add: client_inv_def)
  then have i: "cache_inv c cs" by (simp add: cache_ok_def)
  have a: "a \<in> set (concat cs)" using assms(2,3) unfolding quiet_def by blast
  obtain e where "heap c a = Some e" using cache_mem [OF i a] by metis
  then show ?thesis using quiet_no_pending [OF ok assms(2) a] a by (auto simp: holds_def live_key_def row_of_def)
qed

lemma find_map: "find P (map f xs) = map_option f (find (\<lambda>x. P (f x)) xs)"
  by (induction xs) auto

lemma find_unique: "x \<in> set xs \<Longrightarrow> (\<And>y. y \<in> set xs \<Longrightarrow> P y \<longleftrightarrow> y = x) \<Longrightarrow> find P xs = Some x"
  by (induction xs) auto

lemma quiet_find:
  assumes "client_inv c cs" and "quiet c cs"
  shows "holds c cs k a \<Longrightarrow> spec_find k (rows c) = Some (row_of (the (heap c a)))
      \<and> drop_key k (rows c) = map (\<lambda>b. row_of (the (heap c b))) (filter (\<lambda>x. x \<noteq> a) (lru_list c))"
    and "(\<And>a. \<not> holds c cs k a) \<Longrightarrow> spec_find k (rows c) = None"
proof -
  have i: "cache_inv c cs" using assms(1) by (simp add: client_inv_def cache_ok_def)
  note q = quiet_keys [OF assms]
  show "spec_find k (rows c) = None" if "\<And>a. \<not> holds c cs k a"
    using that q by (auto simp: spec_find_def rows_def find_None_iff)
  assume h: "holds c cs k a"
  then have a: "a \<in> set (lru_list c)" using assms(2) unfolding holds_def quiet_def by blast
  have u: "fst (row_of (the (heap c b))) = k \<longleftrightarrow> b = a" if "b \<in> set (lru_list c)" for b
    using q [OF that, of k] q [OF a, of k] h holds_unique [OF i h, of b] by blast
  have "find (\<lambda>x. fst (row_of (the (heap c x))) = k) (lru_list c) = Some a" by (rule find_unique [OF a u])
  moreover have "filter (\<lambda>x. fst (row_of (the (heap c x))) \<noteq> k) (lru_list c) = filter (\<lambda>x. x \<noteq> a) (lru_list c)"
    using u by (intro filter_cong) auto
  ultimately show "spec_find k (rows c) = Some (row_of (the (heap c a)))
      \<and> drop_key k (rows c) = map (\<lambda>b. row_of (the (heap c b))) (filter (\<lambda>x. x \<noteq> a) (lru_list c))"
    by (simp add: spec_find_def rows_def find_map drop_key_def filter_map o_def)
qed

text \<open>Looking an entry up, changing its data and giving it back.\<close>

lemma lookup_missing:
  assumes "quiet_inv c" and "spec_find k (rows c) = None"
  shows "\<exists>c'. stx_cache_entry_lookup k c = Some (None, c') \<and> quiet_inv c' \<and> rows c' = rows c \<and> config c' = config c \<and> heap c' = heap c"
proof -
  obtain cs where c: "client_inv c cs" "quiet c cs" using assms(1) by (auto simp: quiet_inv_def)
  then have i: "cache_inv c cs" and ti: "tidy (bod (heap c)) cs" and o: "off c cs = {}" by (simp_all add: client_inv_def cache_ok_def)
  obtain r c' where r: "stx_cache_entry_lookup k c = Some (r, c')" "cache_inv c' cs" "config c' = config c" "\<forall>a. r = Some a \<longleftrightarrow> holds c cs k a"
    "case r of None \<Rightarrow> heap c' = heap c \<and> lru_list c' = lru_list c
      | Some a \<Rightarrow> \<exists>e. heap c a = Some e \<and> heap c' = (heap c)(a \<mapsto> e\<lparr>ref_count := ref_count e + 1\<rparr>) \<and> lru_list c' = filter (\<lambda>x. x \<noteq> a) (lru_list c)"
    using lookup_ok [OF i, of k] by (elim exE conjE) (rule that; assumption)
  have n: "r = None" using r(4) quiet_find(1) [OF c, of k] assms(2) by (cases r) auto
  then have h: "heap c' = heap c" "lru_list c' = lru_list c" using r(5) by simp_all
  then have "client_inv c' cs" "quiet c' cs" using r(2) ti o c(2) by (simp_all add: client_inv_def cache_ok_def off_def quiet_def)
  then show ?thesis using r(1,3) n h by (auto simp: quiet_inv_def rows_def)
qed

lemma data_ok:
  assumes "cache_inv c cs" and "heap c a = Some e" and "a \<in> set (concat cs)"
  shows "cache_inv (c\<lparr>heap := (heap c)(a \<mapsto> e\<lparr>ce_data := d\<rparr>)\<rparr>) cs"
proof -
  have "entry_ok (lru_list c) a e" using cache_mem [OF assms(1,3)] assms(2) by auto
  then have "cache_inv (c\<lparr>heap := (heap c)(a \<mapsto> e\<lparr>ce_data := d\<rparr>), lru_list := lru_list c\<rparr>) cs"
    by (intro touch_ok [OF assms]) (use lru_facts [OF assms(1)] in \<open>auto simp: entry_ok_def\<close>)
  then show ?thesis by simp
qed

definition handed_back :: "'k \<Rightarrow> 'd \<Rightarrow> 64 word \<Rightarrow> eaddr \<Rightarrow> ('k, 'd) cache \<Rightarrow> ('k, 'd) cache \<Rightarrow> bool" where
  "handed_back k d w a c c1 \<longleftrightarrow> (\<exists>c2 c3. stx_cache_entry_release a c1 = Some c2
     \<and> quiet_inv c2 \<and> config c2 = config c \<and> dom (heap c2) = dom (heap c) \<and> rows c2 = drop_key k (rows c) @ [(k, d, w)]
     \<and> stx_cache_entry_delete a c2 = Some c3 \<and> quiet_inv c3 \<and> config c3 = config c \<and> dom (heap c3) = dom (heap c) - {a}
     \<and> rows c3 = drop_key k (rows c))"

lemma ref_zero: "ref_count x = 0 \<Longrightarrow> x\<lparr>ce_data := d, ref_count := 0\<rparr> = x\<lparr>ce_data := d\<rparr>"
  by (cases x) simp

lemma hand_back:
  assumes c: "client_inv c cs" "quiet c cs" and "holds c cs k a" and "heap c a = Some x" and "a \<in> set (lru_list c)" and "ref_count x = 0"
    and "row_of x = (k, d, w)" and "cache_inv c1 cs" and "config c1 = config c"
    and h1: "heap c1 = (heap c)(a \<mapsto> x\<lparr>ref_count := 1\<rparr>)" and l1: "lru_list c1 = filter (\<lambda>x. x \<noteq> a) (lru_list c)"
  shows "handed_back k d' w a c (c1\<lparr>heap := (heap c1)(a \<mapsto> x\<lparr>ref_count := 1, ce_data := d'\<rparr>)\<rparr>)"
proof -
  let ?d = "x\<lparr>ref_count := 1, ce_data := d'\<rparr>" let ?c1 = "c1\<lparr>heap := (heap c1)(a \<mapsto> ?d)\<rparr>" let ?c2 = "given_back a ?d ?c1"
  have am: "a \<in> set (concat cs)" and np: "\<not> delete_pending x" using assms(3,4) by (auto simp: holds_def live_key_def)
  have i1: "cache_inv ?c1 cs" using data_ok [OF assms(8) _ am] h1 by simp
  have hd: "heap ?c1 a = Some ?d" "0 < ref_count ?d" "\<not> (ref_count ?d = 1 \<and> delete_pending ?d)" using np by simp_all
  note g = release_ok(1) [OF i1 am hd(1,2)] release_ok(2) [OF i1 am hd]
  have h2: "heap ?c2 = (heap c)(a \<mapsto> x\<lparr>ce_data := d'\<rparr>)" using assms(6) by (simp add: given_back_def h1 ref_zero)
  have l2: "lru_list ?c2 = filter (\<lambda>x. x \<noteq> a) (lru_list c) @ [a]" by (simp add: given_back_def l1)
  have cf: "config ?c2 = config c" using assms(9) by (simp add: given_back_def config_def)
  have b2: "bod (heap ?c2) = (bod (heap c))(a \<mapsto> x\<lparr>ce_data := d', next_entry := None, pthis := None\<rparr>)" by (simp add: h2)
  have "tidy (bod (heap ?c2)) cs" using c(1) np unfolding tidy_def b2 client_inv_def cache_ok_def by auto
  moreover have "off ?c2 cs = {}" using c(1) am unfolding off_def b2 client_inv_def by auto
  ultimately have ci2: "client_inv ?c2 cs" using g(1) by (simp add: client_inv_def cache_ok_def)
  have q2: "quiet ?c2 cs" using c(2) assms(5) unfolding quiet_def l2 by auto
  have dk: "map (\<lambda>b. row_of (the (heap ?c2 b))) (filter (\<lambda>x. x \<noteq> a) (lru_list c)) = drop_key k (rows c)"
    unfolding quiet_find(1) [OF c assms(3), THEN conjunct2] h2 by (intro map_cong refl) auto
  moreover have "row_of (x\<lparr>ce_data := d'\<rparr>) = (k, d', w)" using assms(7) by (simp add: row_of_def)
  ultimately have r2: "rows ?c2 = drop_key k (rows c) @ [(k, d', w)]" unfolding rows_def l2 by (simp add: h2)
  have al: "a \<in> set (lru_list ?c2)" by (simp add: l2)
  obtain c3 where c3: "stx_cache_entry_delete a ?c2 = Some c3" "gone {a} cs ?c2 c3" using delete_unused [OF g(1) al] by blast
  have "cache_ok c3 (without {a} cs)" using gone_ok [OF c3(2)] ci2 by (simp only: client_inv_def without_def)
  moreover have "off c3 (without {a} cs) = {}" using off_gone [OF c3(2)] am ci2 by (simp add: client_inv_def)
  moreover have "quiet c3 (without {a} cs)" using gone_quiet [OF c3(2) q2] by (simp only: without_def)
  ultimately have q3: "quiet_inv c3" by (auto simp: quiet_inv_def client_inv_def)
  have r3: "rows c3 = drop_key k (rows c)" using dk unfolding gone_rows [OF g(1) c3(2)] l2 by simp
  have "dom (heap c3) = {b. bod (heap c3) b \<noteq> None}" by (auto simp: bod_def)
  also have "\<dots> = dom (heap c) - {a}" unfolding gone_facts(7) [OF c3(2)] b2 by (auto simp: bod_def)
  finally have d3: "dom (heap c3) = dom (heap c) - {a}" .
  have "dom (heap ?c2) = dom (heap c)" using assms(4) by (auto simp: h2)
  then show ?thesis unfolding handed_back_def using g(2) ci2 q2 cf r2 c3(1) q3 gone_facts(9) [OF c3(2)] d3 r3
    by (intro exI [of _ ?c2] exI [of _ c3]) (auto simp: quiet_inv_def)
qed

lemma lookup_found:
  assumes "quiet_inv c" and "spec_find k (rows c) = Some (k', d, w)"
  shows "\<exists>a e c1. stx_cache_entry_lookup k c = Some (Some a, c1) \<and> heap c1 a = Some e \<and> row_of e = (k, d, w)
    \<and> (\<forall>d'. handed_back k d' w a c (c1\<lparr>heap := (heap c1)(a \<mapsto> e\<lparr>ce_data := d'\<rparr>)\<rparr>))"
proof -
  obtain cs where c: "client_inv c cs" "quiet c cs" using assms(1) by (auto simp: quiet_inv_def)
  then have i: "cache_inv c cs" by (simp add: client_inv_def cache_ok_def)
  obtain r c1 where r: "stx_cache_entry_lookup k c = Some (r, c1)" "cache_inv c1 cs" "config c1 = config c" "\<forall>a. r = Some a \<longleftrightarrow> holds c cs k a"
    "case r of None \<Rightarrow> heap c1 = heap c \<and> lru_list c1 = lru_list c
      | Some a \<Rightarrow> \<exists>e. heap c a = Some e \<and> heap c1 = (heap c)(a \<mapsto> e\<lparr>ref_count := ref_count e + 1\<rparr>) \<and> lru_list c1 = filter (\<lambda>x. x \<noteq> a) (lru_list c)"
    using lookup_ok [OF i, of k] by (elim exE conjE) (rule that; assumption)
  obtain a where a: "r = Some a" "holds c cs k a" using r(4) quiet_find(2) [OF c, of k] assms(2) by (cases r) auto
  then obtain x where x: "heap c a = Some x" "heap c1 = (heap c)(a \<mapsto> x\<lparr>ref_count := ref_count x + 1\<rparr>)" "lru_list c1 = filter (\<lambda>x. x \<noteq> a) (lru_list c)"
    using r(5) by auto
  have am: "a \<in> set (concat cs)" "a \<in> set (lru_list c)" using a(2) c(2) unfolding holds_def quiet_def by blast+
  have x0: "ref_count x = 0" using cache_mem [OF i am(1)] x(1) am(2) by (auto simp: entry_ok_def)
  have "ce_key x = k" using a(2) x(1) by (simp add: holds_def live_key_def)
  moreover have "row_of x = (k', d, w)" using quiet_find(1) [OF c a(2)] assms(2) x(1) by simp
  ultimately have row: "row_of x = (k, d, w)" by (simp add: row_of_def)
  have h1: "heap c1 = (heap c)(a \<mapsto> x\<lparr>ref_count := 1\<rparr>)" using x(2) x0 by simp
  have "row_of (x\<lparr>ref_count := 1\<rparr>) = (k, d, w)" using row by (simp add: row_of_def)
  then show ?thesis using r(1) a(1) hand_back [OF c a(2) x(1) am(2) x0 row r(2,3) h1 x(3)] h1
    by (intro exI [of _ a] exI [of _ "x\<lparr>ref_count := 1\<rparr>"] exI [of _ c1]) simp
qed

text \<open>Adding an entry and giving it back.\<close>

lemma release_new:
  assumes "client_inv c cs" and "a \<in> set (concat cs)" and "bod (heap c) a = Some e" and "ref_count e = 1" and "\<not> delete_pending e"
    and "set (concat cs) = insert a (set (lru_list c))"
  shows "\<exists>c'. stx_cache_entry_release a c = Some c' \<and> quiet_inv c' \<and> rows c' = rows c @ [row_of e] \<and> config c' = config c"
proof -
  have ok: "cache_ok c cs" and o: "off c cs = {}" using assms(1) by (simp_all add: client_inv_def)
  then have i: "cache_inv c cs" and ti: "tidy (bod (heap c)) cs" by (simp_all add: cache_ok_def)
  obtain x where x: "heap c a = Some x" "e = x\<lparr>next_entry := None, pthis := None\<rparr>" using assms(3) by (auto simp: bod_def)
  then have r: "ref_count x = 1" "\<not> delete_pending x" using assms(4,5) by simp_all
  then have al: "a \<notin> set (lru_list c)" using cache_mem [OF i assms(2)] x(1) by (auto simp: entry_ok_def)
  let ?g = "given_back a x c"
  have p: "0 < ref_count x" using r(1) by simp
  note g = release_ok(1) [OF i assms(2) x(1) p] release_ok(2) [OF i assms(2) x(1) p]
  have b: "bod (heap ?g) = (bod (heap c))(a \<mapsto> x\<lparr>ref_count := 0, next_entry := None, pthis := None\<rparr>)" by (simp add: given_back_def r(1))
  have "tidy (bod (heap ?g)) cs" using ti r(2) unfolding tidy_def b by auto
  moreover have "off ?g cs = {}" using o assms(2) unfolding off_def b by auto
  ultimately have "client_inv ?g cs" using g(1) by (simp add: client_inv_def cache_ok_def)
  moreover have "quiet ?g cs" unfolding quiet_def assms(6) by (simp add: given_back_def r(1))
  moreover have "rows ?g = rows c @ [row_of e]" using al by (auto simp: rows_def given_back_def r(1) x(2) row_of_def)
  ultimately show ?thesis using g(2) r by (auto simp: quiet_inv_def given_back_def config_def)
qed

lemma put_ok:
  assumes "quiet_inv c" and "heap c a = None" and "unat (max_weight c) + unat w < 2 ^ 64"
  shows "\<exists>r c1 c2. add_entry a k d w c = Some (r, c1) \<and> (if r = 0 then stx_cache_entry_release a c1 = Some c2 else c2 = c1)
    \<and> quiet_inv c2 \<and> config c2 = config c \<and> rows c2 = spec_put (unat (max_size c)) (unat (max_weight c)) (k, d, w) (rows c)"
proof -
  obtain cs where c: "client_inv c cs" "quiet c cs" using assms(1) by (auto simp: quiet_inv_def)
  then have ok: "cache_ok c cs" and o: "off c cs = {}" by (simp_all add: client_inv_def)
  let ?e = "\<lparr>ce_key = k, ce_data = d, ce_weight = w, next_entry = None, pthis = None, ref_count = 0, delete_pending = False\<rparr>"
  obtain c1 where c1: "stx_cache_entry_create (Some a) k d w c = (Some a, c1)" "cache_ok c1 cs" "config c1 = config c"
    "lru_list c1 = lru_list c" "fresh c1 cs a ?e" "off c1 cs = insert a (off c cs)" "rows c1 = rows c"
    using cache_create_ok [OF ok assms(2), of k d w] by blast
  have mx: "max_weight c1 = max_weight c" "max_size c1 = max_size c" using c1(3) by (simp_all add: config_def)
  have "unat (max_weight c1) + unat (ce_weight ?e) < 2 ^ 64" using assms(3) mx by simp
  from insert_ok [OF c1(2,5) this] obtain r c2 cs2 where r: "stx_cache_entry_insert a c1 = Some (r, c2)" "inserted c1 cs a ?e r c2 cs2" by blast
  have q1: "quiet c1 cs" using c(2) c1(4) by (simp add: quiet_def)
  note r2 = r(2) [unfolded inserted_def, simplified, unfolded mx c1(7)]
  have S: "set (concat cs2) = (if r = 0 then insert a (set (lru_list c2)) else set (lru_list c2))" "r = 0 \<longleftrightarrow> w \<le> max_weight c \<and> max_size c \<noteq> 0"
    using r2 q1 by auto
  have nz: "\<not> (unat (max_weight c) < unat w \<or> unat (max_size c) = 0) \<longleftrightarrow> r = 0" using S(2) by (auto simp: word_le_nat_alt unat_eq_zero)
  show ?thesis
  proof (cases "r = 0")
    case True
    then have ci: "client_inv c2 cs2" using r2 c1(6) o by (simp add: client_inv_def)
    have b: "bod (heap c2) a = Some (?e\<lparr>ref_count := 1\<rparr>)" using r2 True by simp
    obtain c3 where c3: "stx_cache_entry_release a c2 = Some c3" "quiet_inv c3" "rows c3 = rows c2 @ [row_of (?e\<lparr>ref_count := 1\<rparr>)]" "config c3 = config c2"
      using release_new [OF ci _ b] S(1) True by auto
    have "rows c3 = spec_put (unat (max_size c)) (unat (max_weight c)) (k, d, w) (rows c)"
      using c3(3) r2 q1 nz True by (simp add: spec_put_def Let_def row_of_def)
    moreover have "add_entry a k d w c = Some (r, c2)" using c1(1) r(1) True by (simp add: add_entry_def)
    ultimately show ?thesis using c3 True r2 c1(3) by auto
  next
    case False
    then have r3: "cache_ok c2 cs2" "fresh c2 cs2 a ?e" "off c2 cs2 = {a}" "config c2 = config c" "rows c2 = []" using r2 c1(3,6) o q1 by auto
    obtain c3 where c3: "stx_cache_entry_delete a c2 = Some c3" "cache_ok c3 cs2" "config c3 = config c2" "lru_list c3 = lru_list c2"
      "off c3 cs2 = off c2 cs2 - {a}" "rows c3 = rows c2" using delete_fresh [OF r3(1,2)] by blast
    have "client_inv c3 cs2" "quiet c3 cs2" using c3 r3 S(1) False by (simp_all add: client_inv_def quiet_def)
    moreover have "add_entry a k d w c = Some (r, c3)" using c1(1) r(1) c3(1) False by (simp add: add_entry_def)
    moreover have "rows c3 = spec_put (unat (max_size c)) (unat (max_weight c)) (k, d, w) (rows c)"
      using c3(6) r3(5) nz False by (auto simp: spec_put_def Let_def)
    ultimately show ?thesis using False c3(3) r3(4) by (auto simp: quiet_inv_def)
  qed
qed

lemma created_quiet:
  assumes "stx_cache_create True True sz wt n h cmp cl = Some c" and "0 < n" and "\<And>x y. cmp x y = 0 \<longleftrightarrow> x = y"
  shows "quiet_inv c \<and> rows c = [] \<and> max_size c = sz \<and> max_weight c = wt"
proof -
  have "lru_list c = []" "max_size c = sz" "max_weight c = wt" using assms(1) by (auto simp: stx_cache_create_def)
  moreover have "quiet c (replicate n [])" using calculation by (simp add: quiet_def)
  ultimately show ?thesis using created_ok [OF assms] by (auto simp: quiet_inv_def rows_def)
qed

text \<open>Evaluating an example.\<close>

lemmas lru_eval = stx_cache_create_def add_entry_def stx_cache_entry_create_def stx_cache_entry_insert_def make_room.simps [of 10] make_slot_def
  bucket_def drop_duplicate_def find_entry.simps hash_in_def modify_entry_def stx_cache_entry_release_def stx_cache_entry_getlru_def
  stx_cache_entry_delete_def unhash_def set_link_def lru_remove_def stx_cache_entry_lookup_def Let_def

declare find_entry.simps [code] make_room.simps [code] empty_chain.simps [code] chain_members.simps [code]

end
