(* ===== verification/Dnscache.thy ===== *)
theory Dnscache
  imports Lrucache
begin

text \<open>
  The cache of host addresses of \<^verbatim>\<open>3rdpart/st-1.9/extensions/dnscache.c\<close>, a client of theory \<open>Lrucache\<close>. A
  name is the list of its bytes, an address a 32 bit word. The resolver \<^verbatim>\<open>_stx_dns_getaddrlist\<close> is a parameter
  here: a name and the room of the buffer give the addresses, or nothing, and the time to live of the answer. It blocks, so
  other threads run: what they do to the cache and the clock is a parameter too. \<open>None\<close> is an access out of bounds.
\<close>

section \<open>Data\<close>

type_synonym name = "8 word list"

record dns_data =
  dd_addrs :: "32 word list"
  dd_num_addrs :: int
  dd_cur :: int
  dd_expires :: int

type_synonym dns_cache = "(name, dns_data) cache"

record dns =
  stx_dns_cache :: "dns_cache option"
  stx_dns_ttl :: int
  dns_now :: int

definition MAX_HOST_ADDRS :: nat where
  "MAX_HOST_ADDRS = 1024"

definition HOST_SIZE :: nat where
  "HOST_SIZE = 128"

section \<open>Operations\<close>

text \<open>The bytes of a name are signed: \<open>scast\<close> extends the sign.\<close>

fun hash_from :: "64 word \<Rightarrow> name \<Rightarrow> 64 word" where
  "hash_from h [] = h"
| "hash_from h (b # bs) = hash_from (push_bit 4 h - h + scast b) bs"

definition hash_hostname :: "name \<Rightarrow> 64 word" where
  "hash_hostname s = hash_from 0 s"

text \<open>Only the sign of \<^verbatim>\<open>strcmp\<close> is specified.\<close>

fun strcmp :: "name \<Rightarrow> name \<Rightarrow> int" where
  "strcmp [] [] = 0"
| "strcmp [] (b # bs) = -1"
| "strcmp (a # as) [] = 1"
| "strcmp (a # as) (b # bs) = (if a = b then strcmp as bs else if a < b then -1 else 1)"

definition tolower :: "8 word \<Rightarrow> 8 word" where
  "tolower b = (if 65 \<le> b \<and> b \<le> 90 then b + 32 else b)"

definition lower_host :: "name \<Rightarrow> name" where
  "lower_host s = map tolower (take (HOST_SIZE - 1) s)"

definition set_data :: "eaddr \<Rightarrow> dns_data \<Rightarrow> dns_cache \<Rightarrow> dns_cache option" where
  "set_data a d c = modify_entry a (\<lambda>e. e\<lparr>ce_data := d\<rparr>) c"

text \<open>What is written to the caller's buffer, and the data with the next address to give out.\<close>

definition copy_addrs :: "dns_data \<Rightarrow> int \<Rightarrow> bool \<Rightarrow> (32 word list \<times> dns_data) option" where
  "copy_addrs d n rot =
     (if n = 1
      then (if rot
            then (if 0 \<le> dd_cur d \<and> nat (dd_cur d) < length (dd_addrs d)
                  then Some ([dd_addrs d ! nat (dd_cur d)],
                    d\<lparr>dd_cur := (if dd_cur d + 1 \<ge> dd_num_addrs d then 0 else dd_cur d + 1)\<rparr>)
                  else None)
            else (if dd_addrs d = [] then None else Some ([dd_addrs d ! 0], d)))
      else (let m = min n (dd_num_addrs d)
            in if 0 \<le> m \<and> nat m \<le> length (dd_addrs d) then Some (take (nat m) (dd_addrs d), d) else None))"

definition lookup_entry :: "name \<Rightarrow> int \<Rightarrow> bool \<Rightarrow> int \<Rightarrow> dns_cache \<Rightarrow> (32 word list option \<times> dns_cache) option" where
  "lookup_entry host n rot now c =
     Option.bind (stx_cache_entry_lookup host c) (\<lambda>(r, c1).
       case r of
         None \<Rightarrow> Some (None, c1)
       | Some a \<Rightarrow>
           Option.bind (stx_cache_entry_getdata a c1) (\<lambda>d.
             if now \<le> dd_expires d
             then Option.bind (copy_addrs d n rot) (\<lambda>(out, d').
                  Option.bind (set_data a d' c1) (\<lambda>c2. map_option (Pair (Some out)) (stx_cache_entry_release a c2)))
             else Option.bind (stx_cache_entry_release a c1) (\<lambda>c2. map_option (Pair None) (stx_cache_entry_delete a c2))))"

text \<open>The sizes of \<^verbatim>\<open>stx_dns_data_t\<close>, \<^verbatim>\<open>struct in_addr\<close> and \<^verbatim>\<open>stx_cache_entry_t\<close> on a 64 bit machine.\<close>

definition SIZEOF_DNS_DATA :: nat where
  "SIZEOF_DNS_DATA = 24"

definition SIZEOF_IN_ADDR :: nat where
  "SIZEOF_IN_ADDR = 4"

definition stx_cache_entry_sizeof :: nat where
  "stx_cache_entry_sizeof = 64"

definition entry_weight :: "name \<Rightarrow> nat \<Rightarrow> 64 word" where
  "entry_weight host n = of_nat (length host + 1 + SIZEOF_DNS_DATA + n * SIZEOF_IN_ADDR + stx_cache_entry_sizeof)"

text \<open>
  \<open>mem\<close>: whether the four allocations succeed; if one fails, all are freed and the cache is as it was. \<open>a\<close> is
  the address of the new entry.
\<close>

definition insert_entry :: "bool \<Rightarrow> eaddr \<Rightarrow> name \<Rightarrow> 32 word list \<Rightarrow> int \<Rightarrow> int \<Rightarrow> dns_cache \<Rightarrow> dns_cache option" where
  "insert_entry mem a host xs ttl now c =
     (if 0 < ttl \<and> mem
      then Option.bind (add_entry a host \<lparr>dd_addrs = xs, dd_num_addrs = int (length xs), dd_cur = 0, dd_expires = now + ttl\<rparr>
             (entry_weight host (length xs)) c) (\<lambda>(r, c1).
             if r = 0 then stx_cache_entry_release a c1 else Some c1)
      else Some c)"

section \<open>Asking\<close>

text \<open>
  One thread asks: up to the resolver, and after it. Between the two the other threads run (\<open>others\<close>). The answer
  is the addresses in the caller's buffer, whose room is \<open>n\<close>.
\<close>

definition ask :: "name \<Rightarrow> int \<Rightarrow> bool \<Rightarrow> dns \<Rightarrow> (32 word list option \<times> dns) option" where
  "ask host n rot s =
     (case stx_dns_cache s of
        None \<Rightarrow> Some (None, s)
      | Some c \<Rightarrow> map_option (\<lambda>(r, c1). (r, s\<lparr>stx_dns_cache := Some c1\<rparr>)) (lookup_entry host n rot (dns_now s) c))"

definition store_answer :: "bool \<Rightarrow> eaddr \<Rightarrow> name \<Rightarrow> 32 word list \<Rightarrow> dns \<Rightarrow> dns option" where
  "store_answer mem a host xs s =
     (case stx_dns_cache s of
        None \<Rightarrow> Some s
      | Some c \<Rightarrow> map_option (\<lambda>c1. s\<lparr>stx_dns_cache := Some c1\<rparr>) (insert_entry mem a host xs (stx_dns_ttl s) (dns_now s) c))"

type_synonym resolver = "name \<Rightarrow> int \<Rightarrow> 32 word list option \<times> int"

definition stx_dns_cache_getaddrlist ::
  "resolver \<Rightarrow> (dns \<Rightarrow> dns) \<Rightarrow> bool \<Rightarrow> eaddr \<Rightarrow> name \<Rightarrow> int \<Rightarrow> bool \<Rightarrow> dns \<Rightarrow> (32 word list option \<times> dns) option"
where
  "stx_dns_cache_getaddrlist resolve others mem a hostname n rot s =
     (if stx_dns_cache s = None
      then (case resolve hostname n of (r, ttl) \<Rightarrow> Some (r, (others s)\<lparr>stx_dns_ttl := ttl\<rparr>))
      else (let host = lower_host hostname
            in Option.bind (ask host n rot s) (\<lambda>(r, s1).
                 case r of
                   Some out \<Rightarrow> Some (Some out, s1)
                 | None \<Rightarrow>
                     (case resolve host (int MAX_HOST_ADDRS) of
                        (None, ttl) \<Rightarrow> Some (None, (others s1)\<lparr>stx_dns_ttl := ttl\<rparr>)
                      | (Some xs, ttl) \<Rightarrow>
                          (let m = min n (int (length xs))
                           in if m < 0 then None
                              else map_option (Pair (Some (take (nat m) xs))) (store_answer mem a host xs ((others s1)\<lparr>stx_dns_ttl := ttl\<rparr>)))))))"

definition stx_dns_getaddrlist where
  "stx_dns_getaddrlist resolve others mem a hostname n s = stx_dns_cache_getaddrlist resolve others mem a hostname n False s"

definition stx_dns_getaddr where
  "stx_dns_getaddr resolve others mem a hostname s = stx_dns_cache_getaddrlist resolve others mem a hostname 1 True s"

definition stx_dns_cache_init :: "bool \<Rightarrow> bool \<Rightarrow> 64 word \<Rightarrow> 64 word \<Rightarrow> nat \<Rightarrow> dns \<Rightarrow> int \<times> dns" where
  "stx_dns_cache_init mem_cache mem_table sz bytes n s =
     (let r = stx_cache_create mem_cache mem_table sz bytes n hash_hostname strcmp True
      in (if r = None then -1 else 0, s\<lparr>stx_dns_cache := r\<rparr>))"

definition stx_dns_cache_getinfo :: "dns \<Rightarrow> cache_info" where
  "stx_dns_cache_getinfo s =
     (case stx_dns_cache s of
        Some c \<Rightarrow> stx_cache_getinfo c
      | None \<Rightarrow> \<lparr>ci_max_size = 0, ci_max_weight = 0, ci_hash_size = 0, ci_cur_size = 0, ci_cur_weight = 0, ci_hits = 0,
          ci_lookups = 0, ci_inserts = 0, ci_deletes = 0\<rparr>)"

lemma strcmp_eq: "strcmp xs ys = 0 \<longleftrightarrow> xs = ys"
  by (induction xs ys rule: strcmp.induct) auto

section \<open>The cache as a table of answers\<close>

type_synonym dns_rows = "(name, dns_data) row list"

fun spec_lookup :: "name \<Rightarrow> int \<Rightarrow> bool \<Rightarrow> int \<Rightarrow> dns_rows \<Rightarrow> 32 word list option \<times> dns_rows" where
  "spec_lookup host n rot now xs =
     (case spec_find host xs of
        None \<Rightarrow> (None, xs)
      | Some (k, d, w) \<Rightarrow>
          (if dd_expires d < now then (None, drop_key host xs)
           else case the (copy_addrs d n rot) of (out, d') \<Rightarrow> (Some out, drop_key host xs @ [(host, d', w)])))"

definition spec_insert :: "nat \<Rightarrow> nat \<Rightarrow> bool \<Rightarrow> name \<Rightarrow> 32 word list \<Rightarrow> int \<Rightarrow> int \<Rightarrow> dns_rows \<Rightarrow> dns_rows" where
  "spec_insert sz lim mem host xs ttl now rs =
     (if 0 < ttl \<and> mem
      then spec_put sz lim (host, \<lparr>dd_addrs = xs, dd_num_addrs = int (length xs), dd_cur = 0, dd_expires = now + ttl\<rparr>,
             entry_weight host (length xs)) rs
      else rs)"

definition data_inv :: "dns_data \<Rightarrow> bool" where
  "data_inv d \<longleftrightarrow> dd_addrs d \<noteq> [] \<and> dd_num_addrs d = int (length (dd_addrs d)) \<and> 0 \<le> dd_cur d \<and> dd_cur d < dd_num_addrs d"

definition rows_inv :: "dns_rows \<Rightarrow> bool" where
  "rows_inv xs \<longleftrightarrow> (\<forall>x \<in> set xs. data_inv (fst (snd x)))"

lemma copy_ok:
  assumes "data_inv d" and "0 \<le> n"
  shows "\<exists>out d'. copy_addrs d n rot = Some (out, d') \<and> data_inv d' \<and> set out \<subseteq> set (dd_addrs d)
    \<and> dd_addrs d' = dd_addrs d \<and> dd_expires d' = dd_expires d \<and> length out = min (nat n) (length (dd_addrs d))"
proof -
  have l: "nat (dd_cur d) < length (dd_addrs d)" "dd_addrs d \<noteq> []" using assms(1) by (auto simp: data_inv_def)
  then have "dd_addrs d ! nat (dd_cur d) \<in> set (dd_addrs d)" "dd_addrs d ! 0 \<in> set (dd_addrs d)" "Suc 0 \<le> length (dd_addrs d)"
    by (auto simp: Suc_le_eq)
  then show ?thesis using assms l unfolding copy_addrs_def data_inv_def by (auto simp: Let_def dest: in_set_takeD)
qed

lemma lookup_entry_ok:
  assumes "quiet_inv c" and "rows_inv (rows c)" and "0 \<le> n"
  shows "\<exists>c'. lookup_entry host n rot now c = Some (fst (spec_lookup host n rot now (rows c)), c')
    \<and> rows c' = snd (spec_lookup host n rot now (rows c)) \<and> quiet_inv c' \<and> config c' = config c \<and> dom (heap c') \<subseteq> dom (heap c)"
proof (cases "spec_find host (rows c)")
  case None
  obtain c' where "stx_cache_entry_lookup host c = Some (None, c')" "quiet_inv c'" "rows c' = rows c" "config c' = config c" "heap c' = heap c"
    using lookup_missing [OF assms(1) None] by blast
  then show ?thesis using None by (intro exI [of _ c']) (simp del: fun_upd_apply add: lookup_entry_def)
next
  case (Some x)
  obtain k d w where x: "x = (k, d, w)" by (cases x)
  obtain a e c1 where l: "stx_cache_entry_lookup host c = Some (Some a, c1)" "heap c1 a = Some e" "row_of e = (host, d, w)"
    "\<forall>d'. handed_back host d' w a c (c1\<lparr>heap := (heap c1)(a \<mapsto> e\<lparr>ce_data := d'\<rparr>)\<rparr>)"
    using lookup_found [OF assms(1) Some [unfolded x]] by blast
  have g: "stx_cache_entry_getdata a c1 = Some d" using l(2,3) by (simp add: stx_cache_entry_getdata_def row_of_def)
  show ?thesis
  proof (cases "now \<le> dd_expires d")
    case True
    have "x \<in> set (rows c)" using Some by (auto simp: spec_find_def dest: find_SomeD)
    then have "data_inv d" using assms(2) x by (force simp: rows_inv_def)
    then obtain out d' where o: "copy_addrs d n rot = Some (out, d')" using copy_ok [OF _ assms(3)] by blast
    obtain c2 where c2: "stx_cache_entry_release a (c1\<lparr>heap := (heap c1)(a \<mapsto> e\<lparr>ce_data := d'\<rparr>)\<rparr>) = Some c2" "quiet_inv c2"
      "config c2 = config c" "dom (heap c2) = dom (heap c)" "rows c2 = drop_key host (rows c) @ [(host, d', w)]"
      using l(4) [THEN spec, of d'] unfolding handed_back_def by (elim exE conjE) (rule that; assumption)
    have "lookup_entry host n rot now c = Some (Some out, c2)"
      using l(1,2) g o c2(1) True by (simp add: lookup_entry_def set_data_def modify_entry_def)
    then show ?thesis using Some x True o c2 by simp
  next
    case False
    have e: "c1\<lparr>heap := (heap c1)(a \<mapsto> e\<lparr>ce_data := d\<rparr>)\<rparr> = c1"
    proof -
      have "e\<lparr>ce_data := d\<rparr> = e" using l(3) by (cases e) (simp add: row_of_def)
      then show ?thesis using l(2) by (simp add: fun_upd_idem)
    qed
    obtain c2 c3 where c3: "stx_cache_entry_release a c1 = Some c2" "stx_cache_entry_delete a c2 = Some c3" "quiet_inv c3"
      "config c3 = config c" "dom (heap c3) = dom (heap c) - {a}" "rows c3 = drop_key host (rows c)"
      using l(4) [THEN spec, of d] unfolding handed_back_def e by (elim exE conjE) (rule that; assumption)
    have "lookup_entry host n rot now c = Some (None, c3)" using l(1) g c3(1,2) False by (simp add: lookup_entry_def)
    then show ?thesis using Some x False c3 by auto
  qed
qed

lemma insert_entry_ok:
  assumes "quiet_inv c" and "heap c a = None" and "unat (max_weight c) + unat (entry_weight host (length xs)) < 2 ^ 64"
  shows "\<exists>c'. insert_entry mem a host xs ttl now c = Some c' \<and> quiet_inv c' \<and> config c' = config c
    \<and> rows c' = spec_insert (unat (max_size c)) (unat (max_weight c)) mem host xs ttl now (rows c)"
proof (cases "0 < ttl \<and> mem")
  case True
  then show ?thesis using put_ok [OF assms, of host "\<lparr>dd_addrs = xs, dd_num_addrs = int (length xs), dd_cur = 0, dd_expires = now + ttl\<rparr>"]
    by (fastforce simp: insert_entry_def spec_insert_def split: if_splits)
qed (use assms(1) in \<open>auto simp: insert_entry_def spec_insert_def\<close>)

section \<open>Every interleaving\<close>

text \<open>
  The cache only sees what the threads do up to the resolver and after it, in any order, and the clock. A legal
  event gives a buffer of at least no room, an answer with addresses, and an address nothing uses for the new entry.
\<close>

datatype dns_event = Ask name int bool | Answer bool eaddr name "32 word list" int | Tick int

fun dns_step :: "dns_event \<Rightarrow> dns \<Rightarrow> (32 word list option list \<times> dns) option" where
  "dns_step (Ask hostname n rot) s = map_option (\<lambda>(r, s1). ([r], s1)) (ask (lower_host hostname) n rot s)"
| "dns_step (Answer mem a hostname xs ttl) s = map_option (Pair []) (store_answer mem a (lower_host hostname) xs (s\<lparr>stx_dns_ttl := ttl\<rparr>))"
| "dns_step (Tick t) s = Some ([], s\<lparr>dns_now := dns_now s + t\<rparr>)"

fun dns_run :: "dns_event list \<Rightarrow> dns \<Rightarrow> (32 word list option list \<times> dns) option" where
  "dns_run [] s = Some ([], s)"
| "dns_run (x # xs) s = Option.bind (dns_step x s) (\<lambda>(o1, s1). map_option (\<lambda>(o2, s2). (o1 @ o2, s2)) (dns_run xs s1))"

fun legal_event :: "dns_event \<Rightarrow> dns \<Rightarrow> bool" where
  "legal_event (Ask hostname n rot) s \<longleftrightarrow> 0 \<le> n"
| "legal_event (Answer mem a hostname xs ttl) s \<longleftrightarrow> (0 < ttl \<longrightarrow> xs \<noteq> []) \<and> length xs \<le> MAX_HOST_ADDRS
     \<and> (case stx_dns_cache s of None \<Rightarrow> True | Some c \<Rightarrow> heap c a = None)"
| "legal_event (Tick t) s \<longleftrightarrow> 0 \<le> t"

fun legal_events :: "dns_event list \<Rightarrow> dns \<Rightarrow> bool" where
  "legal_events [] s \<longleftrightarrow> True"
| "legal_events (x # xs) s \<longleftrightarrow> legal_event x s \<and> (case dns_step x s of None \<Rightarrow> True | Some (out, s1) \<Rightarrow> legal_events xs s1)"

text \<open>The table of answers, with the clock.\<close>

fun spec_event :: "nat \<Rightarrow> nat \<Rightarrow> dns_event \<Rightarrow> dns_rows \<times> int \<Rightarrow> 32 word list option list \<times> dns_rows \<times> int" where
  "spec_event sz lim (Ask hostname n rot) (rs, t) = (case spec_lookup (lower_host hostname) n rot t rs of (r, rs1) \<Rightarrow> ([r], rs1, t))"
| "spec_event sz lim (Answer mem a hostname xs ttl) (rs, t) = ([], spec_insert sz lim mem (lower_host hostname) xs ttl t rs, t)"
| "spec_event sz lim (Tick d) (rs, t) = ([], rs, t + d)"

fun spec_events :: "nat \<Rightarrow> nat \<Rightarrow> dns_event list \<Rightarrow> dns_rows \<times> int \<Rightarrow> 32 word list option list \<times> dns_rows \<times> int" where
  "spec_events sz lim [] r = ([], r)"
| "spec_events sz lim (x # xs) r = (case spec_event sz lim x r of (o1, r1) \<Rightarrow> (case spec_events sz lim xs r1 of (o2, r2) \<Rightarrow> (o1 @ o2, r2)))"

definition dns_inv :: "64 word \<Rightarrow> 64 word \<Rightarrow> dns \<Rightarrow> dns_cache \<Rightarrow> bool" where
  "dns_inv sz lim s c \<longleftrightarrow> stx_dns_cache s = Some c \<and> quiet_inv c \<and> rows_inv (rows c) \<and> max_size c = sz \<and> max_weight c = lim"

definition weight_bound :: nat where
  "weight_bound = HOST_SIZE + SIZEOF_DNS_DATA + MAX_HOST_ADDRS * SIZEOF_IN_ADDR + stx_cache_entry_sizeof"

lemmas weight_defs = weight_bound_def HOST_SIZE_def SIZEOF_DNS_DATA_def MAX_HOST_ADDRS_def SIZEOF_IN_ADDR_def stx_cache_entry_sizeof_def

lemma entry_weight_bound:
  assumes "length xs \<le> MAX_HOST_ADDRS"
  shows "unat (entry_weight (lower_host h) (length xs)) \<le> weight_bound"
proof -
  have "length (lower_host h) + 1 + SIZEOF_DNS_DATA + length xs * SIZEOF_IN_ADDR + stx_cache_entry_sizeof \<le> weight_bound"
    using assms by (simp add: lower_host_def weight_defs)
  moreover have "unat (of_nat m :: 64 word) \<le> m" for m by (simp add: unat_of_nat take_bit_eq_mod)
  ultimately show ?thesis unfolding entry_weight_def using order_trans by blast
qed

lemma rows_inv_drop: "rows_inv xs \<Longrightarrow> rows_inv (drop_key k xs)"
  by (auto simp: rows_inv_def drop_key_def)

lemma spec_room_sub: "set (spec_room lim w xs) \<subseteq> set xs"
  by (induction xs) auto

lemma spec_put_sub: "x \<in> set (spec_put sz lim y xs) \<Longrightarrow> x = y \<or> x \<in> set xs \<and> fst x \<noteq> fst y"
  using spec_room_sub [of lim "unat (snd (snd y))" xs] list.set_sel(2) [of "spec_room lim (unat (snd (snd y))) xs" x]
  by (cases "spec_room lim (unat (snd (snd y))) xs = []")
    (auto simp: spec_put_def Let_def drop_key_def spec_slot_def split: if_splits)

lemma lookup_rows_inv: "rows_inv rs \<Longrightarrow> 0 \<le> n \<Longrightarrow> rows_inv (snd (spec_lookup host n rot now rs))"
proof (cases "spec_find host rs")
  case (Some x)
  assume a: "rows_inv rs" "0 \<le> n"
  obtain k d w where x: "x = (k, d, w)" by (cases x)
  have "x \<in> set rs" using Some by (auto simp: spec_find_def dest: find_SomeD)
  then have "data_inv d" using a(1) x by (force simp: rows_inv_def)
  then obtain out d' where "copy_addrs d n rot = Some (out, d')" "data_inv d'" using copy_ok [OF _ a(2)] by blast
  then show ?thesis using Some x rows_inv_drop [OF a(1), of host] by (auto simp: rows_inv_def)
qed simp

lemma insert_rows_inv: "rows_inv rs \<Longrightarrow> (0 < ttl \<longrightarrow> xs \<noteq> []) \<Longrightarrow> rows_inv (spec_insert sz lim mem host xs ttl now rs)"
  unfolding rows_inv_def spec_insert_def by (auto simp: data_inv_def dest!: spec_put_sub)

lemma dns_step_ok:
  assumes "dns_inv sz lim s c" and "legal_event x s" and "unat lim + weight_bound < 2 ^ 64"
  shows "\<exists>out s' c'. dns_step x s = Some (out, s') \<and> dns_inv sz lim s' c'
    \<and> spec_event (unat sz) (unat lim) x (rows c, dns_now s) = (out, rows c', dns_now s')"
proof -
  have c: "stx_dns_cache s = Some c" "quiet_inv c" "rows_inv (rows c)" "max_size c = sz" "max_weight c = lim"
    using assms(1) by (simp_all add: dns_inv_def)
  show ?thesis
  proof (cases x)
    case (Ask hostname n rot)
    let ?h = "lower_host hostname" let ?r = "spec_lookup ?h n rot (dns_now s) (rows c)"
    have n: "0 \<le> n" using assms(2) Ask by simp
    obtain c' where l: "lookup_entry ?h n rot (dns_now s) c = Some (fst ?r, c')" "rows c' = snd ?r" "quiet_inv c'" "config c' = config c"
      using lookup_entry_ok [OF c(2,3) n, of ?h rot "dns_now s"] by blast
    have "dns_inv sz lim (s\<lparr>stx_dns_cache := Some c'\<rparr>) c'"
      using l lookup_rows_inv [OF c(3) n] c(4,5) config_max [OF l(4)] by (simp add: dns_inv_def)
    moreover have "dns_step x s = Some ([fst ?r], s\<lparr>stx_dns_cache := Some c'\<rparr>)" using Ask c(1) l(1) by (simp add: ask_def)
    moreover have "spec_event (unat sz) (unat lim) x (rows c, dns_now s) = ([fst ?r], rows c', dns_now s)"
      unfolding Ask l(2) by (simp only: spec_event.simps case_prod_unfold)
    ultimately show ?thesis by auto
  next
    case (Answer mem a hostname xs ttl)
    let ?h = "lower_host hostname"
    have l: "0 < ttl \<longrightarrow> xs \<noteq> []" "length xs \<le> MAX_HOST_ADDRS" "heap c a = None" using assms(2) c(1) Answer by auto
    have "unat (max_weight c) + unat (entry_weight ?h (length xs)) < 2 ^ 64"
      using entry_weight_bound [OF l(2), of hostname] assms(3) unfolding c(5) by linarith
    from insert_entry_ok [OF c(2) l(3) this] obtain c' where i: "insert_entry mem a ?h xs ttl (dns_now s) c = Some c'" "quiet_inv c'"
      "config c' = config c" "rows c' = spec_insert (unat sz) (unat lim) mem ?h xs ttl (dns_now s) (rows c)"
      unfolding c(4,5) by blast
    have "rows_inv (rows c')" unfolding i(4) by (rule insert_rows_inv [OF c(3) l(1)])
    then have "dns_inv sz lim (s\<lparr>stx_dns_ttl := ttl, stx_dns_cache := Some c'\<rparr>) c'"
      using i(2) c(4,5) config_max [OF i(3)] by (simp add: dns_inv_def)
    moreover have "dns_step x s = Some ([], s\<lparr>stx_dns_ttl := ttl, stx_dns_cache := Some c'\<rparr>)"
      using Answer c(1) i(1) by (simp add: store_answer_def)
    ultimately show ?thesis using Answer i(4)
      by (intro exI [of _ "[]"] exI [of _ "s\<lparr>stx_dns_ttl := ttl, stx_dns_cache := Some c'\<rparr>"] exI [of _ c']) simp
  next
    case (Tick t)
    then show ?thesis using assms(1) by (auto simp: dns_inv_def)
  qed
qed

lemma dns_run_ok:
  "dns_inv sz lim s c \<Longrightarrow> legal_events xs s \<Longrightarrow> unat lim + weight_bound < 2 ^ 64 \<Longrightarrow>
    \<exists>out s' c'. dns_run xs s = Some (out, s') \<and> dns_inv sz lim s' c'
    \<and> spec_events (unat sz) (unat lim) xs (rows c, dns_now s) = (out, rows c', dns_now s')"
proof (induction xs arbitrary: s c)
  case (Cons x xs)
  obtain o1 s1 c1 where s1: "dns_step x s = Some (o1, s1)" "dns_inv sz lim s1 c1"
    "spec_event (unat sz) (unat lim) x (rows c, dns_now s) = (o1, rows c1, dns_now s1)"
    using dns_step_ok [OF Cons.prems(1) _ Cons.prems(3), of x] Cons.prems(2) by auto
  obtain o2 s2 c2 where s2: "dns_run xs s1 = Some (o2, s2)" "dns_inv sz lim s2 c2"
    "spec_events (unat sz) (unat lim) xs (rows c1, dns_now s1) = (o2, rows c2, dns_now s2)"
    using Cons.IH [OF s1(2) _ Cons.prems(3)] Cons.prems(2) s1(1) by auto
  then show ?case using s1 by auto
qed auto

lemma dns_init_ok:
  assumes "0 < n" and "stx_dns_cache_init True True sz lim n s0 = (r, s)"
  shows "r = 0 \<and> dns_now s = dns_now s0 \<and> (\<exists>c. dns_inv sz lim s c \<and> rows c = [])"
proof -
  obtain c where c: "stx_cache_create True True sz lim n hash_hostname strcmp True = Some (c :: dns_cache)"
    by (auto simp: stx_cache_create_def)
  have "quiet_inv c \<and> rows c = [] \<and> max_size c = sz \<and> max_weight c = lim"
    by (rule created_quiet [OF c assms(1)]) (rule strcmp_eq)
  then show ?thesis using assms(2) c by (auto simp: stx_dns_cache_init_def Let_def dns_inv_def rows_inv_def)
qed

section \<open>Where the answers come from\<close>

fun elapsed :: "dns_event list \<Rightarrow> int" where
  "elapsed [] = 0"
| "elapsed (Tick t # xs) = t + elapsed xs"
| "elapsed (_ # xs) = elapsed xs"

lemma elapsed_append [simp]: "elapsed (xs @ ys) = elapsed xs + elapsed ys"
  by (induction xs rule: elapsed.induct) auto

text \<open>An answer that goes into the cache.\<close>

fun stores :: "name \<Rightarrow> dns_event \<Rightarrow> bool" where
  "stores host (Answer mem a h xs ttl) \<longleftrightarrow> mem \<and> 0 < ttl \<and> lower_host h = host"
| "stores host _ \<longleftrightarrow> False"

text \<open>The latest answer stored for the name, and when it expires.\<close>

definition last_stored :: "int \<Rightarrow> dns_event list \<Rightarrow> name \<Rightarrow> 32 word list \<Rightarrow> int \<Rightarrow> bool" where
  "last_stored t0 evs host xs expires \<longleftrightarrow> (\<exists>pre a h ttl post. evs = pre @ Answer True a h xs ttl # post \<and> lower_host h = host \<and> 0 < ttl
     \<and> expires = t0 + elapsed pre + ttl \<and> (\<forall>x \<in> set post. \<not> stores host x))"

lemma last_stored_snoc: "last_stored t0 evs host xs t \<Longrightarrow> \<not> stores host x \<Longrightarrow> last_stored t0 (evs @ [x]) host xs t"
proof -
  assume "last_stored t0 evs host xs t" and n: "\<not> stores host x"
  then obtain pre a h ttl post where e: "evs = pre @ Answer True a h xs ttl # post" "lower_host h = host" "0 < ttl"
    "t = t0 + elapsed pre + ttl" "\<forall>x \<in> set post. \<not> stores host x" by (auto simp: last_stored_def)
  then show "last_stored t0 (evs @ [x]) host xs t" unfolding last_stored_def using n
    by (intro exI [of _ pre] exI [of _ a] exI [of _ h] exI [of _ ttl] exI [of _ "post @ [x]"]) auto
qed

lemma last_stored_now: "last_stored t0 (evs @ [Answer True a h xs ttl]) (lower_host h) xs (t0 + elapsed evs + ttl)" if "0 < ttl"
  unfolding last_stored_def using that by (intro exI [of _ evs] exI [of _ a] exI [of _ h] exI [of _ ttl] exI [of _ "[]"]) simp

fun proper :: "dns_event \<Rightarrow> bool" where
  "proper (Ask h n rot) \<longleftrightarrow> 0 \<le> n"
| "proper (Answer mem a h xs ttl) \<longleftrightarrow> (0 < ttl \<longrightarrow> xs \<noteq> [])"
| "proper (Tick t) \<longleftrightarrow> True"

lemma spec_events_append:
  "spec_events sz lim (xs @ ys) r = (case spec_events sz lim xs r of (o1, r1) \<Rightarrow> (case spec_events sz lim ys r1 of (o2, r2) \<Rightarrow> (o1 @ o2, r2)))"
  by (induction xs arbitrary: r) (auto split: prod.splits)

lemma lookup_rows:
  assumes "rows_inv rs" and "0 \<le> n" and "(k, d, w) \<in> set (snd (spec_lookup host n rot now rs))"
  shows "\<exists>d0. (k, d0, w) \<in> set rs \<and> dd_addrs d = dd_addrs d0 \<and> dd_expires d = dd_expires d0"
proof (cases "spec_find host rs")
  case None
  then show ?thesis using assms(3) by auto
next
  case (Some x)
  obtain k' d' w' where x: "x = (k', d', w')" by (cases x)
  have m: "x \<in> set rs" "k' = host" using Some x by (auto simp: spec_find_def dest: find_SomeD)
  then have "data_inv d'" using assms(1) x by (force simp: rows_inv_def)
  then obtain out d2 where "copy_addrs d' n rot = Some (out, d2)" "dd_addrs d2 = dd_addrs d'" "dd_expires d2 = dd_expires d'"
    using copy_ok [OF _ assms(2)] by blast
  then show ?thesis using assms(3) Some x m by (auto simp: drop_key_def split: if_splits)
qed

lemma spec_sources:
  "\<forall>x \<in> set evs. proper x \<Longrightarrow> spec_events sz lim evs ([], t0) = (out, rs, t) \<Longrightarrow>
     rows_inv rs \<and> t = t0 + elapsed evs \<and> (\<forall>k d w. (k, d, w) \<in> set rs \<longrightarrow> last_stored t0 evs k (dd_addrs d) (dd_expires d))"
proof (induction evs arbitrary: out rs t rule: rev_induct)
  case Nil
  then show ?case by (simp add: rows_inv_def)
next
  case (snoc x evs)
  obtain o1 rs1 t1 where r1: "spec_events sz lim evs ([], t0) = (o1, rs1, t1)" by (metis prod_cases3)
  have ih: "rows_inv rs1" "t1 = t0 + elapsed evs" "\<And>k d w. (k, d, w) \<in> set rs1 \<Longrightarrow> last_stored t0 evs k (dd_addrs d) (dd_expires d)"
    using snoc.IH [OF _ r1] snoc.prems(1) by auto
  have st: "(rs, t) = snd (spec_event sz lim x (rs1, t1))"
    using snoc.prems(2) r1 by (auto simp: spec_events_append split: prod.splits)
  show ?case
  proof (cases x)
    case (Ask h n rot)
    then have n: "0 \<le> n" using snoc.prems(1) by simp
    have rs: "rs = snd (spec_lookup (lower_host h) n rot t1 rs1)" "t = t1"
      using st unfolding Ask by (simp_all only: spec_event.simps case_prod_unfold prod.inject snd_conv)
    have "last_stored t0 (evs @ [x]) k (dd_addrs d) (dd_expires d)" if m: "(k, d, w) \<in> set rs" for k d w
    proof -
      obtain d0 where "(k, d0, w) \<in> set rs1" "dd_addrs d = dd_addrs d0" "dd_expires d = dd_expires d0"
        using lookup_rows [OF ih(1) n m [unfolded rs(1)]] by blast
      then show ?thesis using last_stored_snoc [OF ih(3)] Ask by simp
    qed
    then show ?thesis using lookup_rows_inv [OF ih(1) n] rs ih(2) Ask by auto
  next
    case (Answer mem a h xs ttl)
    have rs: "rs = spec_insert sz lim mem (lower_host h) xs ttl t1 rs1" "t = t1" using st unfolding Answer by simp_all
    have "last_stored t0 (evs @ [x]) k (dd_addrs d) (dd_expires d)" if m: "(k, d, w) \<in> set rs" for k d w
    proof (cases "0 < ttl \<and> mem")
      case True
      then consider "k = lower_host h" "dd_addrs d = xs" "dd_expires d = t1 + ttl" | "(k, d, w) \<in> set rs1" "k \<noteq> lower_host h"
        using m unfolding rs(1) spec_insert_def by (auto dest!: spec_put_sub)
      then show ?thesis
      proof cases
        case 1
        then show ?thesis using last_stored_now [of ttl t0 evs a h xs] True ih(2) Answer by simp
      next
        case 2
        then show ?thesis using last_stored_snoc [OF ih(3) [OF 2(1)]] Answer by simp
      qed
    next
      case False
      then have "(k, d, w) \<in> set rs1" using m unfolding rs(1) spec_insert_def by (simp split: if_splits)
      from last_stored_snoc [OF ih(3) [OF this]] show ?thesis using False Answer by auto
    qed
    then show ?thesis using insert_rows_inv [OF ih(1)] rs ih(2) Answer snoc.prems(1) by auto
  next
    case (Tick d)
    then show ?thesis using st ih last_stored_snoc by auto
  qed
qed

lemma legal_proper:
  "dns_inv sz lim s c \<Longrightarrow> legal_events xs s \<Longrightarrow> unat lim + weight_bound < 2 ^ 64 \<Longrightarrow> \<forall>x \<in> set xs. proper x"
proof (induction xs arbitrary: s c)
  case (Cons x xs)
  have "proper x" using Cons.prems(2) by (cases x) auto
  moreover obtain o1 s1 c1 where s1: "dns_step x s = Some (o1, s1)" "dns_inv sz lim s1 c1"
    using dns_step_ok [OF Cons.prems(1) _ Cons.prems(3), of x] Cons.prems(2) by auto
  ultimately show ?case using Cons.IH [OF s1(2) _ Cons.prems(3)] Cons.prems(2) by auto
qed simp

lemma answer_source:
  assumes "dns_inv sz lim s c" and "rows c = []" and "legal_events (evs @ [Ask h n rot]) s" and "unat lim + weight_bound < 2 ^ 64"
    and "dns_run (evs @ [Ask h n rot]) s = Some (outs @ [Some out], s')"
  shows "\<exists>xs expires. last_stored (dns_now s) evs (lower_host h) xs expires \<and> dns_now s + elapsed evs \<le> expires
    \<and> set out \<subseteq> set xs \<and> length out = min (nat n) (length xs)"
proof -
  let ?sp = "spec_events (unat sz) (unat lim)"
  have p: "\<forall>x \<in> set evs. proper x" "0 \<le> n" using legal_proper [OF assms(1,3,4)] by auto
  obtain c' where e: "?sp (evs @ [Ask h n rot]) ([], dns_now s) = (outs @ [Some out], rows c', dns_now s')"
    using dns_run_ok [OF assms(1,3,4)] assms(2,5) by auto
  obtain o1 rs t where r: "?sp evs ([], dns_now s) = (o1, rs, t)" by (metis prod_cases3)
  note src = spec_sources [OF p(1) r]
  have f: "fst (spec_lookup (lower_host h) n rot t rs) = Some out"
    using e r by (auto simp: spec_events_append split: prod.splits)
  then obtain x where x: "spec_find (lower_host h) rs = Some x" by (cases "spec_find (lower_host h) rs") auto
  obtain k d w where xd: "x = (k, d, w)" by (cases x)
  have m: "(lower_host h, d, w) \<in> set rs" using x xd by (auto simp: spec_find_def dest: find_SomeD)
  then have "data_inv d" using src by (force simp: rows_inv_def)
  from copy_ok [OF this p(2), of rot] obtain o2 d' where o2: "copy_addrs d n rot = Some (o2, d')" "set o2 \<subseteq> set (dd_addrs d)"
    "length o2 = min (nat n) (length (dd_addrs d))" by blast
  have "t \<le> dd_expires d" "o2 = out" using f x xd o2(1) by (auto split: if_splits)
  then have "t \<le> dd_expires d" "set out \<subseteq> set (dd_addrs d)" "length out = min (nat n) (length (dd_addrs d))" using o2 by simp_all
  then show ?thesis using src m by blast
qed

section \<open>A whole request\<close>

text \<open>One call is the event of asking and, unless the cache answers, the event of storing what the resolver found.\<close>

lemma getaddrlist_events:
  assumes "stx_dns_cache s = Some c" and "dns_step (Ask hostname n rot) s = Some ([r], s1)" and "0 \<le> n"
  shows "stx_dns_cache_getaddrlist resolve others mem a hostname n rot s =
    (case r of
       Some out \<Rightarrow> Some (Some out, s1)
     | None \<Rightarrow>
         (case resolve (lower_host hostname) (int MAX_HOST_ADDRS) of
            (None, ttl) \<Rightarrow> Some (None, (others s1)\<lparr>stx_dns_ttl := ttl\<rparr>)
          | (Some xs, ttl) \<Rightarrow> map_option (\<lambda>(_, s2). (Some (take (nat n) xs), s2)) (dns_step (Answer mem a hostname xs ttl) (others s1))))"
proof -
  have k: "ask (lower_host hostname) n rot s = Some (r, s1)" using assms(2) by auto
  have m: "\<not> min n (int (length xs)) < 0" "take (nat (min n (int (length xs)))) xs = take (nat n) xs" for xs :: "32 word list"
    using assms(3) by (auto simp: min_def)
  have p: "map_option (\<lambda>(_, s2). (z, s2)) (map_option (Pair []) y) = map_option (Pair z) y" for z :: "32 word list option" and y :: "dns option"
    by (simp add: option.map_comp o_def)
  show ?thesis using assms(1) unfolding stx_dns_cache_getaddrlist_def Let_def k
    by (auto simp: m p split: option.splits prod.splits)
qed

text \<open>Names that only differ behind the first 127 bytes are the same to the cache and to the resolver.\<close>

lemma long_names_collide:
  assumes "stx_dns_cache s = Some c" and "take (HOST_SIZE - 1) h1 = take (HOST_SIZE - 1) h2"
  shows "stx_dns_cache_getaddrlist resolve others mem a h1 n rot s = stx_dns_cache_getaddrlist resolve others mem a h2 n rot s"
proof -
  have "lower_host h1 = lower_host h2" using assms(2) by (simp add: lower_host_def)
  then show ?thesis using assms(1) by (simp add: stx_dns_cache_getaddrlist_def)
qed

text \<open>An answer without addresses makes \<open>stx_dns_getaddr\<close> succeed, with nothing in the caller's buffer.\<close>

lemma getaddr_without_address:
  assumes "stx_dns_cache s = Some c" and "ask (lower_host hostname) 1 True s = Some (None, s1)"
    and "resolve (lower_host hostname) (int MAX_HOST_ADDRS) = (Some [], ttl)" and "ttl \<le> 0" and "stx_dns_cache (others s1) = Some c1"
  shows "\<exists>s2. stx_dns_getaddr resolve others mem a hostname s = Some (Some [], s2)"
  using assms by (simp add: stx_dns_getaddr_def stx_dns_cache_getaddrlist_def Let_def store_answer_def insert_entry_def)

section \<open>The cache as a client of a resolver\<close>

text \<open>What other threads do while the resolver waits: any legal events.\<close>

definition others_run :: "dns_event list \<Rightarrow> dns \<Rightarrow> dns" where
  "others_run qs s = (case dns_run qs s of None \<Rightarrow> s | Some (out, s1) \<Rightarrow> s1)"

lemma dns_inv_ttl: "dns_inv sz lim (s\<lparr>stx_dns_ttl := t\<rparr>) c = dns_inv sz lim s c"
  by (simp add: dns_inv_def)

text \<open>
  What the cache expects of \<^verbatim>\<open>_stx_dns_getaddrlist\<close>, asked for a name that fits its buffer: the addresses fit
  the static buffer, and an answer to be kept has an address. \<open>u\<close> is what the resolver itself depends on.
\<close>

locale host_resolver =
  fixes valid :: "'c \<Rightarrow> bool" and resolve :: "'c \<Rightarrow> resolver"
  assumes answer_fits: "\<lbrakk>valid u; hostname \<noteq> []; resolve u (lower_host hostname) (int MAX_HOST_ADDRS) = (Some xs, ttl)\<rbrakk> \<Longrightarrow>
    length xs \<le> MAX_HOST_ADDRS \<and> (0 < ttl \<longrightarrow> xs \<noteq> [])"
begin

lemma request_ok:
  assumes "dns_inv sz lim s c" and "unat lim + weight_bound < 2 ^ 64" and "0 \<le> n" and "valid u" and "hostname \<noteq> []"
    and "\<And>s1. dns_step (Ask hostname n rot) s = Some ([None], s1) \<Longrightarrow> legal_events qs s1
      \<and> (\<forall>c1. stx_dns_cache (others_run qs s1) = Some c1 \<longrightarrow> heap c1 a = None)"
  shows "\<exists>r s' c'. stx_dns_cache_getaddrlist (resolve u) (others_run qs) mem a hostname n rot s = Some (r, s') \<and> dns_inv sz lim s' c'
    \<and> (\<forall>out. r = Some out \<longrightarrow> length out \<le> nat n)"
proof -
  have ca: "stx_dns_cache s = Some c" using assms(1) by (simp add: dns_inv_def)
  obtain out s1 c1 where s1: "dns_step (Ask hostname n rot) s = Some (out, s1)" "dns_inv sz lim s1 c1"
    "spec_event (unat sz) (unat lim) (Ask hostname n rot) (rows c, dns_now s) = (out, rows c1, dns_now s1)"
    using dns_step_ok [OF assms(1) _ assms(2), of "Ask hostname n rot"] assms(3) by auto
  obtain r where r: "out = [r]" "spec_lookup (lower_host hostname) n rot (dns_now s) (rows c) = (r, rows c1)"
    using s1(3) by (auto simp del: spec_lookup.simps split: prod.splits)
  note g = getaddrlist_events [OF ca s1(1) [unfolded r(1)] assms(3), of "resolve u" "others_run qs" mem a]
  show ?thesis
  proof (cases r)
    case (Some o1)
    obtain x where x: "spec_find (lower_host hostname) (rows c) = Some x" using r(2) Some by (cases "spec_find (lower_host hostname) (rows c)") auto
    obtain k d w where xd: "x = (k, d, w)" by (cases x)
    have "x \<in> set (rows c)" using x by (auto simp: spec_find_def dest: find_SomeD)
    then have "data_inv d" using assms(1) xd by (force simp: dns_inv_def rows_inv_def)
    from copy_ok [OF this assms(3), of rot] have "length o1 \<le> nat n" using r(2) Some x xd by (auto split: if_splits)
    then show ?thesis using g Some s1(2) by auto
  next
    case None
    have l: "legal_events qs s1" "\<And>c1. stx_dns_cache (others_run qs s1) = Some c1 \<Longrightarrow> heap c1 a = None"
      using assms(6) [of s1] s1(1) r(1) None by auto
    obtain o2 s2 c2 where s2: "dns_run qs s1 = Some (o2, s2)" "dns_inv sz lim s2 c2" using dns_run_ok [OF s1(2) l(1) assms(2)] by blast
    then have os: "others_run qs s1 = s2" by (simp add: others_run_def)
    obtain ox ttl where ans: "resolve u (lower_host hostname) (int MAX_HOST_ADDRS) = (ox, ttl)" by fastforce
    show ?thesis
    proof (cases ox)
      case N: None
      then show ?thesis using g None ans os s2(2) by (auto simp: dns_inv_ttl)
    next
      case (Some xs)
      have lx: "length xs \<le> MAX_HOST_ADDRS" "0 < ttl \<longrightarrow> xs \<noteq> []" using answer_fits [OF assms(4,5)] ans Some by blast+
      have "heap c2 a = None" using l(2) os s2(2) by (simp add: dns_inv_def)
      then have le: "legal_event (Answer mem a hostname xs ttl) s2" using lx s2(2) by (simp add: dns_inv_def)
      obtain o3 s3 c3 where s3: "dns_step (Answer mem a hostname xs ttl) s2 = Some (o3, s3)" "dns_inv sz lim s3 c3"
        using dns_step_ok [OF s2(2) le assms(2)] by blast
      have "stx_dns_cache_getaddrlist (resolve u) (others_run qs) mem a hostname n rot s = Some (Some (take (nat n) xs), s3)"
        using g None ans Some os s3(1) by simp
      then show ?thesis using s3(2) by auto
    qed
  qed
qed

end

end
