(* ===== verification/Dnsres.thy ===== *)
theory Dnsres
  imports Dnscache Posix
begin

text \<open>
  The resolver of \<^verbatim>\<open>3rdpart/st-1.9/extensions/dnsres.c\<close>: it asks the name servers over UDP and reads the addresses
  out of their answers. Offsets count from the start of the packet buffer. The functions of the system's resolver library
  (\<^verbatim>\<open>res_mkquery\<close>, \<^verbatim>\<open>dn_expand\<close>, \<^verbatim>\<open>dn_skipname\<close>) are parameters, and so is what the network does with a question.
  \<open>None\<close> is an access out of bounds, or a wait that does not end.
\<close>

section \<open>Data\<close>

definition MAXPACKET :: nat where
  "MAXPACKET = 1024"

definition HFIXEDSZ :: int where
  "HFIXEDSZ = 12"

definition QFIXEDSZ :: int where
  "QFIXEDSZ = 4"

definition T_A :: int where
  "T_A = 1"

definition MAXDNAME :: nat where
  "MAXDNAME = 1025"

definition EMSGSIZE :: errno where
  "EMSGSIZE = EOTHER 90"

datatype hosterr = HOST_NOT_FOUND | TRY_AGAIN | NO_RECOVERY | NO_DATA | NETDB_INTERNAL

text \<open>The caller's buffer with \<open>*num_addrs\<close>, and the globals \<^verbatim>\<open>h_errno\<close>, \<^verbatim>\<open>errno\<close> and \<^verbatim>\<open>_stx_dns_ttl\<close>.\<close>

record rs =
  rs_addrs :: "32 word list"
  rs_num :: int
  rs_ttl :: int
  rs_herr :: hosterr
  rs_errno :: errno

text \<open>
  \<open>skipname\<close> and \<open>expand\<close>: packet, offset and end give the length of the name there, or -1. \<open>mkquery\<close> is the packet for a
  name, if it can be made.
\<close>

record reslib =
  skipname :: "bytes \<Rightarrow> int \<Rightarrow> int \<Rightarrow> int"
  expand :: "bytes \<Rightarrow> int \<Rightarrow> int \<Rightarrow> int"
  mkquery :: "name \<Rightarrow> bytes option"

section \<open>Reading an answer\<close>

definition bytes_at :: "bytes \<Rightarrow> int \<Rightarrow> int \<Rightarrow> bytes option" where
  "bytes_at b i n = (if 0 \<le> i \<and> i + n \<le> int (length b) then Some (take (nat n) (drop (nat i) b)) else None)"

definition getshort :: "bytes \<Rightarrow> int \<Rightarrow> int option" where
  "getshort b i = map_option (\<lambda>x. uint (of_mem (rev x) :: 16 word)) (bytes_at b i 2)"

text \<open>The unsigned value is stored in an \<^verbatim>\<open>int\<close>.\<close>

definition getlong :: "bytes \<Rightarrow> int \<Rightarrow> int option" where
  "getlong b i = map_option (\<lambda>x. sint (of_mem (rev x) :: 32 word)) (bytes_at b i 4)"

fun skip_questions :: "reslib \<Rightarrow> bytes \<Rightarrow> int \<Rightarrow> nat \<Rightarrow> int \<Rightarrow> int" where
  "skip_questions lib b eoa 0 cp = cp"
| "skip_questions lib b eoa (Suc n) cp = skip_questions lib b eoa n (cp + skipname lib b cp eoa + QFIXEDSZ)"

text \<open>\<^verbatim>\<open>memcpy(&addrs[i], cp, n)\<close>\<close>

definition copy_addr :: "bytes \<Rightarrow> nat \<Rightarrow> 32 word list \<Rightarrow> 32 word list option" where
  "copy_addr x i xs = (if i < length xs then Some (xs[i := of_mem (x @ drop (length x) (mem_of (xs ! i)))]) else None)"

fun parse_records :: "reslib \<Rightarrow> bytes \<Rightarrow> int \<Rightarrow> nat \<Rightarrow> int \<Rightarrow> nat \<Rightarrow> rs \<Rightarrow> (int \<times> rs) option" where
  "parse_records lib b eoa 0 cp i s = Some (0, s\<lparr>rs_num := int i\<rparr>)"
| "parse_records lib b eoa (Suc an) cp i s =
     (if \<not> (cp < eoa \<and> int i < rs_num s) then Some (0, s\<lparr>rs_num := int i\<rparr>)
      else (let n = expand lib b cp eoa; cp = cp + n
            in if n < 0 \<or> cp + 4 + 4 + 2 \<ge> eoa then Some (-1, s)
               else Option.bind (getshort b cp) (\<lambda>type.
                    Option.bind (if type = T_A then getlong b (cp + 4) else Some (rs_ttl s)) (\<lambda>ttl.
                    Option.bind (getshort b (cp + 8)) (\<lambda>n.
                      (let s = s\<lparr>rs_ttl := ttl\<rparr>; cp = cp + 10
                       in if type = T_A
                          then (if 4 < n \<or> cp + n > eoa then Some (-1, s)
                                else Option.bind (bytes_at b cp n) (\<lambda>x.
                                     Option.bind (copy_addr x i (rs_addrs s)) (\<lambda>xs.
                                       parse_records lib b eoa an (cp + n) (i + 1) (s\<lparr>rs_addrs := xs\<rparr>))))
                          else parse_records lib b eoa an (cp + n) i s))))))"

definition qdcount :: "bytes \<Rightarrow> nat" where
  "qdcount b = unat (of_mem [b ! 5, b ! 4] :: 16 word)"

definition ancount :: "bytes \<Rightarrow> nat" where
  "ancount b = unat (of_mem [b ! 7, b ! 6] :: 16 word)"

definition rcode :: "bytes \<Rightarrow> nat" where
  "rcode b = unat (b ! 3) mod 16"

definition parse_answer :: "reslib \<Rightarrow> bytes \<Rightarrow> int \<Rightarrow> rs \<Rightarrow> (int \<times> rs) option" where
  "parse_answer lib b len s =
     (let cp = skip_questions lib b len (qdcount b) HFIXEDSZ
      in parse_records lib b len (ancount b) cp 0 (s\<lparr>rs_herr := TRY_AGAIN, rs_ttl := -1\<rparr>))"

section \<open>Asking a name server\<close>

text \<open>
  What happens to one question: whether it is sent, and what \<^verbatim>\<open>st_recvfrom\<close> then returns, call after call: a packet
  (at most as long as the buffer), or an error.
\<close>

datatype received = Packet bytes | Recv_fail errno

record exchange =
  sent_ok :: "errno option"
  replies :: "received list"

text \<open>Waiting for a packet with the right id; the buffer still holds the question.\<close>

fun wait_reply :: "bytes \<Rightarrow> received list \<Rightarrow> bytes \<Rightarrow> (int \<times> bytes \<times> errno option) option" where
  "wait_reply qid [] b = None"
| "wait_reply qid (Recv_fail e # rs) b = Some (-1, b, Some e)"
| "wait_reply qid (Packet x # rs) b =
     (if x = [] then Some (0, b, None)
      else if take 2 (overlay x b) = qid then Some (int (length x), overlay x b, None)
      else wait_reply qid rs (overlay x b))"

definition rcode_herr :: "nat \<Rightarrow> hosterr" where
  "rcode_herr r = (if r = 3 then HOST_NOT_FOUND else if r = 2 then TRY_AGAIN else if r = 0 then NO_DATA else NO_RECOVERY)"

text \<open>The servers in turn; \<open>x k\<close> is what happens to the question for server \<open>k\<close>.\<close>

fun query_servers :: "reslib \<Rightarrow> (nat \<Rightarrow> exchange) \<Rightarrow> name \<Rightarrow> nat list \<Rightarrow> bytes \<Rightarrow> rs \<Rightarrow> (int \<times> rs) option" where
  "query_servers lib x nm [] b s = Some (-1, s)"
| "query_servers lib x nm (k # ks) b s =
     (case mkquery lib nm of
        None \<Rightarrow> Some (-1, s\<lparr>rs_herr := NO_RECOVERY\<rparr>)
      | Some q \<Rightarrow>
          (let b = overlay q b
           in case sent_ok (x k) of
                Some e \<Rightarrow>
                  (let s = s\<lparr>rs_herr := NETDB_INTERNAL, rs_errno := e\<rparr>
                   in if e = EINTR then Some (-1, s) else query_servers lib x nm ks b s)
              | None \<Rightarrow>
                  Option.bind (wait_reply (take 2 q) (replies (x k)) b) (\<lambda>(len, b, err).
                    (let s = (case err of None \<Rightarrow> s | Some e \<Rightarrow> s\<lparr>rs_errno := e\<rparr>)
                     in if len < HFIXEDSZ
                        then (let s = s\<lparr>rs_herr := NETDB_INTERNAL\<rparr>
                              in if len \<ge> 0 then query_servers lib x nm ks b (s\<lparr>rs_errno := EMSGSIZE\<rparr>)
                                 else if rs_errno s = EINTR then Some (-1, s)
                                 else query_servers lib x nm ks b s)
                        else if rcode b \<noteq> 0 \<or> ancount b = 0
                        then query_servers lib x nm ks b (s\<lparr>rs_herr := rcode_herr (rcode b)\<rparr>)
                        else Option.bind (parse_answer lib b len s) (\<lambda>(r, s).
                               if r = 0 then Some (0, s) else query_servers lib x nm ks b s)))))"

definition query_domain :: "reslib \<Rightarrow> (name \<Rightarrow> nat \<Rightarrow> exchange) \<Rightarrow> nat \<Rightarrow> bytes \<Rightarrow> name \<Rightarrow> rs \<Rightarrow> (int \<times> rs) option" where
  "query_domain lib net nscount b nm s = query_servers lib (net nm) nm [0..<nscount] b s"

section \<open>Trying names\<close>

text \<open>The options and the search list of the system's resolver; \<open>sock\<close> is what making the socket gives.\<close>

record resconf =
  init_ok :: bool
  use_vc :: bool
  ndots :: nat
  defnames :: bool
  dnsrch :: bool
  domains :: "name list"
  sock :: "errno option"

definition interrupted_query :: "rs \<Rightarrow> bool" where
  "interrupted_query s \<longleftrightarrow> rs_herr s = NETDB_INTERNAL \<and> rs_errno s = EINTR"

text \<open>
  The name with a domain of the search list, in a buffer of \<open>MAXDNAME\<close> bytes: \<open>None\<close> when \<^verbatim>\<open>strncpy\<close> is told to write behind
  the buffer, or leaves the name without its end.
\<close>

definition search_name :: "name \<Rightarrow> name \<Rightarrow> name option" where
  "search_name host d =
     (let maxlen = MAXDNAME - 1; n = min (length host) maxlen + 1
      in if n > maxlen \<or> length d \<ge> maxlen - n then None else Some (host @ [46] @ d))"

text \<open>\<open>Some (None, s)\<close>: no name of the search list was found.\<close>

fun search :: "(name \<Rightarrow> rs \<Rightarrow> (int \<times> rs) option) \<Rightarrow> bool \<Rightarrow> name \<Rightarrow> name list \<Rightarrow> rs \<Rightarrow> (int option \<times> rs) option" where
  "search q again host [] s = Some (None, s)"
| "search q again host (d # ds) s =
     Option.bind (search_name host d) (\<lambda>nm.
     Option.bind (q nm s) (\<lambda>(r, s).
       if r = 0 then Some (Some 0, s)
       else if interrupted_query s then Some (Some (-1), s)
       else if \<not> again then Some (None, s)
       else search q again host ds s))"

definition dots :: "name \<Rightarrow> nat" where
  "dots host = length (filter (\<lambda>c. c = 46) (take (MAXDNAME - 1) host))"

definition trailing_dot :: "name \<Rightarrow> bool" where
  "trailing_dot host \<longleftrightarrow> last (take (MAXDNAME - 1) host) = 46"

definition searches :: "resconf \<Rightarrow> name \<Rightarrow> bool" where
  "searches c host \<longleftrightarrow> (dots host = 0 \<and> defnames c) \<or> (dots host \<noteq> 0 \<and> \<not> trailing_dot host \<and> dnsrch c)"

definition dns_getaddrlist :: "resconf \<Rightarrow> (name \<Rightarrow> rs \<Rightarrow> (int \<times> rs) option) \<Rightarrow> name option \<Rightarrow> rs \<Rightarrow> (int \<times> rs) option" where
  "dns_getaddrlist c q host s =
     (if \<not> init_ok c then Some (-1, s\<lparr>rs_herr := NETDB_INTERNAL\<rparr>)
      else if use_vc c then Some (-1, s\<lparr>rs_herr := NETDB_INTERNAL, rs_errno := ENOSYS\<rparr>)
      else case host of
        None \<Rightarrow> Some (-1, s\<lparr>rs_herr := HOST_NOT_FOUND\<rparr>)
      | Some h \<Rightarrow>
          (if h = [] then Some (-1, s\<lparr>rs_herr := HOST_NOT_FOUND\<rparr>)
           else case sock c of
             Some e \<Rightarrow> Some (-1, s\<lparr>rs_herr := NETDB_INTERNAL, rs_errno := e\<rparr>)
           | None \<Rightarrow>
               (let as_is = dots h \<ge> ndots c
                in Option.bind (if as_is then q h s else Some (-1, s)) (\<lambda>(r, s).
                     if as_is \<and> r = 0 then Some (0, s)
                     else if as_is \<and> interrupted_query s then Some (-1, s)
                     else Option.bind (if searches c h then search q (dnsrch c) h (domains c) s else Some (None, s)) (\<lambda>(r, s).
                       case r of
                         Some x \<Rightarrow> Some (x, s)
                       | None \<Rightarrow> (if as_is then Some (-1, s)
                                 else map_option (\<lambda>(r, s). (if r = 0 then 0 else -1, s)) (q h s)))))))"

text \<open>As the DNS cache calls it: room for \<open>n\<close> addresses; the addresses found and the time to live.\<close>

definition resolve_with :: "resconf \<Rightarrow> (name \<Rightarrow> rs \<Rightarrow> (int \<times> rs) option) \<Rightarrow> rs \<Rightarrow> name \<Rightarrow> int \<Rightarrow> 32 word list option \<times> int" where
  "resolve_with c q s host n =
     (case dns_getaddrlist c q (Some host) (s\<lparr>rs_num := n\<rparr>) of
        None \<Rightarrow> (None, -1)
      | Some (r, s1) \<Rightarrow> (if r = 0 then Some (take (nat (rs_num s1)) (rs_addrs s1)) else None, rs_ttl s1))"

section \<open>Bounds\<close>

text \<open>What the resolver library documents: lengths of names inside the packet.\<close>

definition lib_ok :: "reslib \<Rightarrow> bool" where
  "lib_ok lib \<longleftrightarrow> (\<forall>b cp eoa. -1 \<le> skipname lib b cp eoa
     \<and> (expand lib b cp eoa < 0 \<or> 0 < expand lib b cp eoa \<and> cp + expand lib b cp eoa \<le> eoa))
     \<and> (\<forall>nm q. mkquery lib nm = Some q \<longrightarrow> 2 \<le> length q \<and> length q \<le> MAXPACKET)"

text \<open>The buffer has room for the addresses; a positive time to live belongs to an address that is there.\<close>

definition room_ok :: "nat \<Rightarrow> rs \<Rightarrow> bool" where
  "room_ok n s \<longleftrightarrow> length (rs_addrs s) = n \<and> 0 \<le> rs_num s \<and> rs_num s \<le> int n"

definition found_ok :: "rs \<Rightarrow> bool" where
  "found_ok s \<longleftrightarrow> (0 < rs_ttl s \<longrightarrow> 0 < rs_num s)"

lemma skip_questions_ge: "lib_ok lib \<Longrightarrow> cp \<le> skip_questions lib b eoa n cp"
proof (induction n arbitrary: cp)
  case (Suc n)
  have "-1 \<le> skipname lib b cp eoa" using Suc.prems by (auto simp: lib_ok_def)
  then show ?case using Suc.IH [OF Suc.prems, of "cp + skipname lib b cp eoa + QFIXEDSZ"] by (simp add: QFIXEDSZ_def)
qed simp

lemma bytes_at_Some: "0 \<le> i \<Longrightarrow> 0 \<le> n \<Longrightarrow> i + n \<le> int (length b) \<Longrightarrow> \<exists>x. bytes_at b i n = Some x \<and> length x = nat n"
  by (auto simp: bytes_at_def)

lemma getshort_Some: "0 \<le> i \<Longrightarrow> i + 2 \<le> int (length b) \<Longrightarrow> \<exists>n. getshort b i = Some n \<and> 0 \<le> n"
  using bytes_at_Some [of i 2 b] by (auto simp: getshort_def)

lemma getlong_Some: "0 \<le> i \<Longrightarrow> i + 4 \<le> int (length b) \<Longrightarrow> \<exists>n. getlong b i = Some n"
  using bytes_at_Some [of i 4 b] by (auto simp: getlong_def)

lemma parse_records_ok:
  assumes "lib_ok lib" and "eoa \<le> int (length b)"
  shows "0 \<le> cp \<Longrightarrow> room_ok m s \<Longrightarrow> int i \<le> rs_num s \<Longrightarrow> (0 < rs_ttl s \<longrightarrow> 0 < i) \<Longrightarrow>
    \<exists>r s'. parse_records lib b eoa an cp i s = Some (r, s') \<and> (r = 0 \<or> r = -1) \<and> room_ok m s' \<and> rs_num s' \<le> rs_num s
      \<and> (r = 0 \<longrightarrow> found_ok s') \<and> (r \<noteq> 0 \<longrightarrow> rs_num s' = rs_num s) \<and> rs_herr s' = rs_herr s \<and> rs_errno s' = rs_errno s"
proof (induction an arbitrary: cp i s)
  case 0
  then show ?case by (simp add: room_ok_def found_ok_def)
next
  case (Suc an)
  show ?case
  proof (cases "cp < eoa \<and> int i < rs_num s")
    case False
    then have "parse_records lib b eoa (Suc an) cp i s = Some (0, s\<lparr>rs_num := int i\<rparr>)" by simp
    then show ?thesis using Suc.prems by (simp add: room_ok_def found_ok_def)
  next
    case True
    let ?n = "expand lib b cp eoa" let ?cp = "cp + ?n"
    show ?thesis
    proof (cases "?n < 0 \<or> ?cp + 4 + 4 + 2 \<ge> eoa")
      case bad: True
      then have "parse_records lib b eoa (Suc an) cp i s = Some (-1, s)" using True by simp
      then show ?thesis using Suc.prems by simp
    next
      case ok: False
      then have cp: "0 \<le> ?cp" "?cp + 10 \<le> int (length b)" using Suc.prems(1) assms(2) by auto
      obtain ty where ty: "getshort b ?cp = Some ty" using getshort_Some [of ?cp b] cp by auto
      obtain tl where tl: "getlong b (?cp + 4) = Some tl" using getlong_Some [of "?cp + 4" b] cp by auto
      obtain k where k: "getshort b (?cp + 8) = Some k" "0 \<le> k" using getshort_Some [of "?cp + 8" b] cp by auto
      show ?thesis
      proof (cases "ty = T_A")
        case False
        then have "parse_records lib b eoa (Suc an) cp i s = parse_records lib b eoa an (?cp + 10 + k) i s"
          using True ok ty k by (simp add: Let_def)
        then show ?thesis using Suc.IH [of "?cp + 10 + k" s i] Suc.prems cp k by simp
      next
        case A: True
        let ?s = "s\<lparr>rs_ttl := tl\<rparr>"
        show ?thesis
        proof (cases "4 < k \<or> ?cp + 10 + k > eoa")
          case bad: True
          then have "parse_records lib b eoa (Suc an) cp i s = Some (-1, ?s)" using True ok ty tl k A by (auto simp: Let_def)
          then show ?thesis using Suc.prems by (simp add: room_ok_def)
        next
          case fine: False
          obtain x where x: "bytes_at b (?cp + 10) k = Some x" using bytes_at_Some [of "?cp + 10" k b] cp k fine assms(2) by auto
          have il: "i < length (rs_addrs s)" using True Suc.prems(2) by (simp add: room_ok_def)
          let ?xs = "(rs_addrs s)[i := of_mem (x @ drop (length x) (mem_of (rs_addrs s ! i)))]"
          have "parse_records lib b eoa (Suc an) cp i s = parse_records lib b eoa an (?cp + 10 + k) (i + 1) (?s\<lparr>rs_addrs := ?xs\<rparr>)"
            using True ok ty tl k A fine x il by (simp add: Let_def copy_addr_def)
          moreover have "room_ok m (?s\<lparr>rs_addrs := ?xs\<rparr>)" using Suc.prems(2) by (simp add: room_ok_def)
          ultimately show ?thesis using Suc.IH [of "?cp + 10 + k" "?s\<lparr>rs_addrs := ?xs\<rparr>" "i + 1"] cp k True by simp
        qed
      qed
    qed
  qed
qed

lemma parse_answer_ok:
  assumes "lib_ok lib" and "len \<le> int (length b)" and "room_ok m s"
  shows "\<exists>r s'. parse_answer lib b len s = Some (r, s') \<and> (r = 0 \<or> r = -1) \<and> room_ok m s' \<and> rs_num s' \<le> rs_num s
      \<and> (r = 0 \<longrightarrow> found_ok s') \<and> (r \<noteq> 0 \<longrightarrow> rs_num s' = rs_num s) \<and> rs_herr s' = TRY_AGAIN \<and> rs_errno s' = rs_errno s"
proof -
  have "0 \<le> skip_questions lib b len (qdcount b) HFIXEDSZ"
    using skip_questions_ge [OF assms(1), of HFIXEDSZ b len "qdcount b"] by (simp add: HFIXEDSZ_def)
  from parse_records_ok [OF assms(1,2) this, of m "s\<lparr>rs_herr := TRY_AGAIN, rs_ttl := -1\<rparr>" 0 "ancount b"] assms(3)
  show ?thesis by (simp add: parse_answer_def room_ok_def)
qed

text \<open>Packets fit the buffer, and no wait is for ever: sooner or later a call fails, at the latest with its timeout.\<close>

definition net_ok :: "exchange \<Rightarrow> bool" where
  "net_ok x \<longleftrightarrow> (\<forall>p. Packet p \<in> set (replies x) \<longrightarrow> length p \<le> MAXPACKET) \<and> (\<exists>e. Recv_fail e \<in> set (replies x))"

definition query_ok :: "nat \<Rightarrow> rs \<Rightarrow> (int \<times> rs) option \<Rightarrow> bool" where
  "query_ok m s res \<longleftrightarrow> (\<exists>r s'. res = Some (r, s') \<and> (r = 0 \<or> r = -1) \<and> room_ok m s' \<and> rs_num s' \<le> rs_num s
     \<and> (if r = 0 then found_ok s' else rs_num s' = rs_num s))"

lemma query_ok_fail: "room_ok m s' \<Longrightarrow> rs_num s' = rs_num s \<Longrightarrow> query_ok m s (Some (-1, s'))"
  by (simp add: query_ok_def)

lemma query_ok_mono: "query_ok m s' res \<Longrightarrow> rs_num s' = rs_num s \<Longrightarrow> query_ok m s res"
  by (simp only: query_ok_def)

lemma wait_reply_ok:
  assumes "\<exists>e. Recv_fail e \<in> set rs" and "\<And>p. Packet p \<in> set rs \<Longrightarrow> length p \<le> length b"
  shows "\<exists>len b' err. wait_reply qid rs b = Some (len, b', err) \<and> length b' = length b \<and> -1 \<le> len \<and> len \<le> int (length b)"
  using assms
proof (induction qid rs b rule: wait_reply.induct)
  case (3 qid x rs b)
  have x: "length x \<le> length b" using 3(3) by auto
  show ?case
  proof (cases "x = [] \<or> take 2 (overlay x b) = qid")
    case True
    then show ?thesis using x length_overlay [OF x] by auto
  next
    case False
    then show ?thesis using 3(1) 3(2,3) length_overlay [OF x] by auto
  qed
qed auto

lemma query_servers_ok:
  assumes "lib_ok lib" and "\<And>k. net_ok (x k)"
  shows "length b = MAXPACKET \<Longrightarrow> room_ok m s \<Longrightarrow> query_ok m s (query_servers lib x nm ks b s)"
proof (induction ks arbitrary: b s)
  case Nil
  then show ?case by (simp add: query_ok_fail)
next
  case (Cons k ks)
  have room: "room_ok m (s\<lparr>rs_herr := h\<rparr>) \<and> room_ok m (s\<lparr>rs_herr := h, rs_errno := e\<rparr>) \<and> room_ok m (s\<lparr>rs_errno := e\<rparr>)" for h e
    using Cons.prems(2) by (simp add: room_ok_def)
  have again: "query_ok m s (query_servers lib x nm ks b' s')" if "length b' = MAXPACKET" "room_ok m s'" "rs_num s' = rs_num s" for b' s'
    using query_ok_mono [OF Cons.IH [OF that(1,2)] that(3)] .
  show ?case
  proof (cases "mkquery lib nm")
    case None
    then show ?thesis using room by (simp add: query_ok_fail)
  next
    case (Some q)
    let ?b = "overlay q b"
    have b: "length ?b = MAXPACKET" using Some assms(1) Cons.prems(1) length_overlay [of q b] by (simp add: lib_ok_def)
    show ?thesis
    proof (cases "sent_ok (x k)")
      case (Some e)
      then show ?thesis using \<open>mkquery lib nm = Some q\<close> room again [OF b] by (simp add: query_ok_fail Let_def)
    next
      case None
      obtain len b' err where w: "wait_reply (take 2 q) (replies (x k)) ?b = Some (len, b', err)" "length b' = MAXPACKET"
        "-1 \<le> len" "len \<le> int (length b')"
        using wait_reply_ok [of "replies (x k)" ?b "take 2 q"] assms(2) [of k] b by (auto simp: net_ok_def)
      define s1 where "s1 = (case err of None \<Rightarrow> s | Some e \<Rightarrow> s\<lparr>rs_errno := e\<rparr>)"
      have s1: "room_ok m s1" "rs_num s1 = rs_num s" using room Cons.prems(2) by (auto simp: s1_def split: option.splits)
      then have r1: "room_ok m (s1\<lparr>rs_herr := h\<rparr>)" "room_ok m (s1\<lparr>rs_herr := h, rs_errno := e\<rparr>)" for h e by (simp_all add: room_ok_def)
      have e: "query_servers lib x nm (k # ks) b s = (if len < HFIXEDSZ
                        then (let s = s1\<lparr>rs_herr := NETDB_INTERNAL\<rparr>
                              in if len \<ge> 0 then query_servers lib x nm ks b' (s\<lparr>rs_errno := EMSGSIZE\<rparr>)
                                 else if rs_errno s = EINTR then Some (-1, s)
                                 else query_servers lib x nm ks b' s)
                        else if rcode b' \<noteq> 0 \<or> ancount b' = 0
                        then query_servers lib x nm ks b' (s1\<lparr>rs_herr := rcode_herr (rcode b')\<rparr>)
                        else Option.bind (parse_answer lib b' len s1) (\<lambda>(r, s).
                               if r = 0 then Some (0, s) else query_servers lib x nm ks b' s))"
        using Some None w(1) by (simp add: Let_def s1_def)
      show ?thesis
      proof (cases "len < HFIXEDSZ \<or> rcode b' \<noteq> 0 \<or> ancount b' = 0")
        case True
        then show ?thesis unfolding e using again [OF w(2) r1(1)] again [OF w(2) r1(2)] query_ok_fail [OF r1(1)] s1(2)
          by (auto simp: Let_def)
      next
        case False
        obtain r s2 where r: "parse_answer lib b' len s1 = Some (r, s2)" "r = 0 \<or> r = -1" "room_ok m s2" "rs_num s2 \<le> rs_num s1"
          "r = 0 \<longrightarrow> found_ok s2" "r \<noteq> 0 \<longrightarrow> rs_num s2 = rs_num s1"
          using parse_answer_ok [OF assms(1) w(4) s1(1)] by blast
        then show ?thesis unfolding e using False again [OF w(2) r(3)] s1(2) by (auto simp: query_ok_def)
      qed
    qed
  qed
qed

section \<open>The names that are tried\<close>

fun try_names :: "(name \<Rightarrow> rs \<Rightarrow> (int \<times> rs) option) \<Rightarrow> name list \<Rightarrow> rs \<Rightarrow> (int \<times> rs) option" where
  "try_names q [] s = Some (-1, s)"
| "try_names q (nm # nms) s =
     Option.bind (q nm s) (\<lambda>(r, s1). if r = 0 then Some (0, s1) else if interrupted_query s1 then Some (-1, s1) else try_names q nms s1)"

definition candidates :: "resconf \<Rightarrow> name \<Rightarrow> name list" where
  "candidates c h = (if ndots c \<le> dots h then [h] else [])
     @ (if searches c h then map (\<lambda>d. h @ [46] @ d) (if dnsrch c then domains c else take 1 (domains c)) else [])
     @ (if ndots c \<le> dots h then [] else [h])"

text \<open>Every name fits the buffer.\<close>

definition names_fit :: "resconf \<Rightarrow> name \<Rightarrow> bool" where
  "names_fit c h \<longleftrightarrow> h \<noteq> [] \<and> (\<forall>d \<in> set (domains c). length h + length d + 1 < MAXDNAME - 1)"

lemma search_name_fits: "names_fit c h \<Longrightarrow> d \<in> set (domains c) \<Longrightarrow> search_name h d = Some (h @ [46] @ d)"
  by (auto simp: names_fit_def search_name_def Let_def MAXDNAME_def)

lemma search_try:
  "\<forall>d \<in> set ds. search_name h d = Some (h @ [46] @ d) \<Longrightarrow>
     Option.bind (search q again h ds s) (\<lambda>(r, s1). case r of Some x \<Rightarrow> Some (x, s1) | None \<Rightarrow> try_names q rest s1)
       = try_names q (map (\<lambda>d. h @ [46] @ d) (if again then ds else take 1 ds) @ rest) s"
proof (induction ds arbitrary: s)
  case (Cons d ds)
  then have d: "search_name h d = Some (h @ [46] @ d)" by simp
  show ?case
  proof (cases "q (h @ [46] @ d) s")
    case None
    then show ?thesis using d by simp
  next
    case (Some z)
    obtain r s1 where z: "z = (r, s1)" by (cases z)
    then show ?thesis using Some d Cons.IH [of s1] Cons.prems by (cases again) simp_all
  qed
qed simp

lemma try_one: "map_option (\<lambda>(r, s). (if r = 0 then 0 else -1, s)) (q h s) = try_names q [h] s"
  by (cases "q h s") auto

lemma getaddrlist_tries:
  assumes "init_ok c" and "\<not> use_vc c" and "sock c = None" and "names_fit c h"
  shows "dns_getaddrlist c q (Some h) s = try_names q (candidates c h) s"
proof -
  let ?rest = "if ndots c \<le> dots h then [] else [h]"
  let ?found = "if searches c h then map (\<lambda>d. h @ [46] @ d) (if dnsrch c then domains c else take 1 (domains c)) else []"
  have f: "\<forall>d \<in> set (domains c). search_name h d = Some (h @ [46] @ d)" using search_name_fits [OF assms(4)] by blast
  have tail: "Option.bind (if searches c h then search q (dnsrch c) h (domains c) s else Some (None, s)) (\<lambda>(r, s).
      case r of Some x \<Rightarrow> Some (x, s)
      | None \<Rightarrow> (if ndots c \<le> dots h then Some (-1, s) else map_option (\<lambda>(r, s). (if r = 0 then 0 else -1, s)) (q h s)))
      = try_names q (?found @ ?rest) s" for s
  proof -
    have k: "(if ndots c \<le> dots h then Some (-1, s) else map_option (\<lambda>(r, s). (if r = 0 then 0 else -1, s)) (q h s)) = try_names q ?rest s" for s
      unfolding try_one by simp
    show ?thesis unfolding k using search_try [OF f, of q "dnsrch c" s ?rest] by (cases "searches c h") simp_all
  qed
  have h: "h \<noteq> []" using assms(4) by (simp add: names_fit_def)
  show ?thesis
  proof (cases "ndots c \<le> dots h")
    case True
    have "dns_getaddrlist c q (Some h) s = Option.bind (q h s) (\<lambda>(r, s). if r = 0 then Some (0, s)
        else if interrupted_query s then Some (-1, s) else try_names q (?found @ ?rest) s)"
      unfolding dns_getaddrlist_def tail [symmetric] using assms(1-3) h True by (cases "q h s") (auto cong: option.case_cong)
    moreover have "candidates c h = h # (?found @ ?rest)" using True by (simp add: candidates_def)
    ultimately show ?thesis by (simp only: try_names.simps)
  next
    case False
    have "dns_getaddrlist c q (Some h) s = try_names q (?found @ ?rest) s"
      unfolding dns_getaddrlist_def tail [symmetric] using assms(1-3) h False by (simp cong: option.case_cong)
    then show ?thesis using False by (simp add: candidates_def)
  qed
qed

lemma try_names_ok:
  assumes "\<And>nm s. room_ok m s \<Longrightarrow> query_ok m s (q nm s)"
  shows "room_ok m s \<Longrightarrow> query_ok m s (try_names q nms s)"
proof (induction nms arbitrary: s)
  case (Cons nm nms)
  obtain r s1 where r: "q nm s = Some (r, s1)" "r = 0 \<or> r = -1" "room_ok m s1" "rs_num s1 \<le> rs_num s" "if r = 0 then found_ok s1 else rs_num s1 = rs_num s"
    using assms [OF Cons.prems, of nm] by (auto simp: query_ok_def)
  show ?case
  proof (cases "r = 0")
    case True
    then show ?thesis using r by (auto simp: query_ok_def)
  next
    case False
    then have n: "rs_num s1 = rs_num s" using r(5) by simp
    show ?thesis using r(1) False query_ok_fail [OF r(3) n] query_ok_mono [OF Cons.IH [OF r(3)] n] by simp
  qed
qed (simp add: query_ok_fail)

text \<open>The host names the cache asks for fit, with any search list of the resolver library, whose entries are shorter than 256 bytes.\<close>

lemma cache_names_fit: "hostname \<noteq> [] \<Longrightarrow> \<forall>d \<in> set (domains c). length d < 256 \<Longrightarrow> names_fit c (lower_host hostname)"
  by (auto simp: names_fit_def lower_host_def HOST_SIZE_def MAXDNAME_def)

text \<open>Whatever the servers send back, the resolver returns, and the addresses fit the caller's room.\<close>

lemma dns_getaddrlist_ok:
  assumes "lib_ok lib" and "\<forall>nm k. net_ok (net nm k)" and "length b = MAXPACKET" and "names_fit c h" and "room_ok m s"
  shows "query_ok m s (dns_getaddrlist c (query_domain lib net ns b) (Some h) s)"
proof -
  let ?q = "query_domain lib net ns b"
  have q: "query_ok m s (?q nm s)" if "room_ok m s" for nm s
    unfolding query_domain_def by (rule query_servers_ok [OF assms(1) _ assms(3) that]) (use assms(2) in blast)
  have h: "h \<noteq> []" using assms(4) by (simp add: names_fit_def)
  show ?thesis
  proof (cases "init_ok c \<and> \<not> use_vc c \<and> sock c = None")
    case True
    then show ?thesis using getaddrlist_tries [of c h ?q s] assms(4) try_names_ok [OF q assms(5)] by simp
  next
    case False
    have "\<exists>s1. dns_getaddrlist c ?q (Some h) s = Some (-1, s1) \<and> rs_num s1 = rs_num s \<and> rs_addrs s1 = rs_addrs s"
      by (cases "init_ok c"; cases "use_vc c"; cases "sock c") (use False h in \<open>simp_all add: dns_getaddrlist_def\<close>)
    then obtain s1 where "dns_getaddrlist c ?q (Some h) s = Some (-1, s1)" "rs_num s1 = rs_num s" "rs_addrs s1 = rs_addrs s" by blast
    then show ?thesis using assms(5) by (simp add: query_ok_def room_ok_def)
  qed
qed

text \<open>The resolver as the cache uses it.\<close>

lemma resolver_ok:
  assumes "lib_ok lib" and "\<forall>nm k. net_ok (net nm k)" and "length b = MAXPACKET" and "names_fit c h"
    and "length (rs_addrs s) = MAX_HOST_ADDRS"
    and "resolve_with c (query_domain lib net ns b) s h (int MAX_HOST_ADDRS) = (Some xs, ttl)"
  shows "length xs \<le> MAX_HOST_ADDRS \<and> (0 < ttl \<longrightarrow> xs \<noteq> [])"
proof -
  have "room_ok MAX_HOST_ADDRS (s\<lparr>rs_num := int MAX_HOST_ADDRS\<rparr>)" using assms(5) by (simp add: room_ok_def)
  from dns_getaddrlist_ok [OF assms(1-4) this, of ns] show ?thesis
    using assms(6) by (auto simp: query_ok_def resolve_with_def room_ok_def found_ok_def MAX_HOST_ADDRS_def split: if_splits)
qed

text \<open>A host name of 1024 bytes or more, with a dot and not found as it is, makes \<^verbatim>\<open>strncpy\<close> write behind the buffer.\<close>

lemma long_name_overflows:
  assumes "init_ok c" and "\<not> use_vc c" and "sock c = None" and "dnsrch c" and "domains c \<noteq> []"
    and "MAXDNAME - 1 \<le> length h" and "ndots c \<le> dots h" and "dots h \<noteq> 0" and "\<not> trailing_dot h"
    and "q h s = Some (-1, s1)" and "\<not> interrupted_query s1"
  shows "dns_getaddrlist c q (Some h) s = None"
proof -
  obtain d ds where d: "domains c = d # ds" using assms(5) by (cases "domains c") auto
  have "search_name h d = None" using assms(6) by (simp add: search_name_def Let_def MAXDNAME_def)
  moreover have "h \<noteq> []" using assms(6) by (auto simp: MAXDNAME_def)
  moreover have "searches c h" using assms(4,8,9) by (simp add: searches_def)
  ultimately show ?thesis using assms d by (simp add: dns_getaddrlist_def)
qed

section \<open>The resolver the cache expects\<close>

record resolver_setup =
  su_lib :: reslib
  su_net :: "name \<Rightarrow> nat \<Rightarrow> exchange"
  su_servers :: nat
  su_buf :: bytes
  su_conf :: resconf
  su_rs :: rs

definition setup_ok :: "resolver_setup \<Rightarrow> bool" where
  "setup_ok x \<longleftrightarrow> lib_ok (su_lib x) \<and> (\<forall>nm k. net_ok (su_net x nm k)) \<and> length (su_buf x) = MAXPACKET
     \<and> length (rs_addrs (su_rs x)) = MAX_HOST_ADDRS \<and> (\<forall>d \<in> set (domains (su_conf x)). length d < 256)"

definition resolve_by :: "resolver_setup \<Rightarrow> resolver" where
  "resolve_by x = resolve_with (su_conf x) (query_domain (su_lib x) (su_net x) (su_servers x) (su_buf x)) (su_rs x)"

interpretation stx: host_resolver setup_ok resolve_by
proof
  fix x hostname xs ttl
  assume x: "setup_ok x" and h: "hostname \<noteq> []" and r: "resolve_by x (lower_host hostname) (int MAX_HOST_ADDRS) = (Some xs, ttl)"
  have "names_fit (su_conf x) (lower_host hostname)" using x h by (intro cache_names_fit) (auto simp: setup_ok_def)
  with x r show "length xs \<le> MAX_HOST_ADDRS \<and> (0 < ttl \<longrightarrow> xs \<noteq> [])"
    unfolding setup_ok_def resolve_by_def by (intro resolver_ok) auto
qed

end
