(* ===== verification/Session.thy ===== *)
theory Session
  imports Publish
begin

text \<open>
  Whole conversations. A peer's message is a chunk stream header of any format and a payload; what a
  part of \<open>process_thread\<close> does is said by a triple \<open>does\<close>: on a connection that brings these messages
  it returns, has consumed exactly them, and has sent these bytes. Triples compose along \<open>bind_act\<close>, so
  the conversation with a publisher and with a player is a chain of them.
\<close>

section \<open>Messages of a peer\<close>

record pmsg =
  p_fmt :: int
  p_csid :: int
  p_ts :: int32
  p_type :: byte
  p_sid :: int32
  p_f3 :: byte
  p_chunk :: nat
  p_data :: bytes

definition p_head :: "pmsg \<Rightarrow> bytes" where
  "p_head m = header_bytes (p_fmt m) (p_csid m) (p_ts m) (of_nat (length (p_data m))) (p_type m) (p_sid m)"

definition p_wire :: "pmsg \<Rightarrow> bytes" where
  "p_wire m = p_head m @ chunked (p_f3 m) (p_chunk m) (p_data m)"

definition p_sane :: "pmsg \<Rightarrow> bool" where
  "p_sane m \<longleftrightarrow> 0 \<le> p_fmt m \<and> p_fmt m \<le> 3 \<and> 2 \<le> p_csid m \<and> p_csid m \<le> 63 \<and> unat (p_ts m) < 0xFFFFFF
     \<and> length (p_data m) < 2 ^ 24"

text \<open>
  The table of chunk streams after a message, and a sequence of messages that leaves out its length
  (formats 2 and 3) only where the last message on the same chunk stream was as long.
\<close>

definition entry :: "int \<Rightarrow> (int \<rightharpoonup> Message_Header) \<Rightarrow> Message_Header" where
  "entry k H = (case H k of None \<Rightarrow> Message_Header_init | Some h \<Rightarrow> h)"

definition noted :: "pmsg \<Rightarrow> (int \<rightharpoonup> Message_Header) \<Rightarrow> (int \<rightharpoonup> Message_Header)" where
  "noted m H = H(p_csid m \<mapsto> (entry (p_csid m) H)\<lparr>message_length := of_nat (length (p_data m))\<rparr>)"

definition fits :: "pmsg \<Rightarrow> (int \<rightharpoonup> Message_Header) \<Rightarrow> bool" where
  "fits m H \<longleftrightarrow> p_sane m \<and>
     (p_fmt m \<le> 1 \<or> message_length (entry (p_csid m) H) = of_nat (length (p_data m)))"

fun announced :: "(int \<rightharpoonup> Message_Header) \<Rightarrow> pmsg list \<Rightarrow> bool" where
  "announced H [] = True"
| "announced H (m # ms) = (fits m H \<and> announced (noted m H) ms)"

lemma same_length: "message_length h = n \<Longrightarrow> h\<lparr>message_length := n\<rparr> = h"
  by (cases h) simp

lemma entry_upd [simp]: "entry k (H(k \<mapsto> h)) = h"
  by (simp add: entry_def)

lemma csid_at_entry: "csid_at k c = entry k (csid_header c)"
  by (simp add: csid_at_def entry_def)

lemma announced_append: "announced H (ms @ ns) \<longleftrightarrow> announced H ms \<and> announced (fold noted ms H) ns"
  by (induction ms arbitrary: H) auto

lemma noted_twice [simp]: "noted m (noted m H) = noted m H"
  by (simp add: noted_def entry_def)

lemma fits_noted: "fits m H \<Longrightarrow> fits m (noted m H)"
  by (simp add: fits_def noted_def entry_def)

section \<open>Reading a header that may be buffered already\<close>

context buffered_source
begin

lemma fill:
  assumes "steady c" and "n \<le> length (buf c) + length (coming c)"
  shows "\<exists>k' c'. need n k c = Some (Ok k', c') \<and> buf c' @ coming c' = buf c @ coming c
    \<and> length (buf c') = max n (length (buf c)) \<and> steady c' \<and> frame c' = frame c"
proof (cases "length (buf c) < n")
  case True
  then show ?thesis using need_enough [OF assms(1) True assms(2), of k] assms(2) by fastforce
next
  case False
  then show ?thesis using need_have [of n c k] assms(1) by fastforce
qed

end

text \<open>The header of a message of any format, at the front of what is buffered and pending.\<close>

lemma head_parts:
  assumes "p_sane m"
  obtains b where "p_head m = b # av_tail (p_fmt m) (p_ts m) (of_nat (length (p_data m))) (p_type m) (p_sid m)"
    and "basic_header_bytes (p_fmt m) (p_csid m) = [b]" and "uint (b AND 0x3F) = p_csid m"
    and "uint (signed_drop_bit 6 b AND 3) = p_fmt m"
    and "length (p_head m) = Suc (mh_size_array ! nat (p_fmt m))"
proof -
  have s: "0 \<le> p_fmt m" "p_fmt m \<le> 3" "2 \<le> p_csid m" "p_csid m \<le> 63" "unat (p_ts m) < 0xFFFFFF"
    using assms by (simp_all add: p_sane_def)
  obtain b where b: "basic_header_bytes (p_fmt m) (p_csid m) = [b]" "uint (b AND 0x3F) = p_csid m"
    "uint (signed_drop_bit 6 b AND 3) = p_fmt m" using basic_header_one s by metis
  have "p_head m = b # av_tail (p_fmt m) (p_ts m) (of_nat (length (p_data m))) (p_type m) (p_sid m)"
    using header_bytes_tail [OF s(5,1,2)] b(1) by (simp add: p_head_def)
  then show ?thesis using that b length_av_tail [OF s(1,2)] by simp
qed

lemma basic_header_any:
  assumes "rx_fine (net c)" and "p_sane m" and "io_buffer c @ pending (net c) = p_head m @ rest"
    and "length (io_buffer c) \<le> length (p_head m)"
  shows "\<exists>d. read_basic_header c = Some (Ok (p_fmt m, p_csid m, 1), d)
    \<and> io_buffer d @ pending (net d) = p_head m @ rest \<and> length (io_buffer d) \<le> length (p_head m)
    \<and> rx_fine (net d) \<and> frame_io d = frame_io c"
proof -
  obtain b where b: "p_head m = b # av_tail (p_fmt m) (p_ts m) (of_nat (length (p_data m))) (p_type m) (p_sid m)"
    "uint (b AND 0x3F) = p_csid m" "uint (signed_drop_bit 6 b AND 3) = p_fmt m"
    using head_parts [OF assms(2)] by metis
  have "length (io_buffer c) + length (pending (net c)) = length (p_head m @ rest)"
    using arg_cong [OF assms(3), of length] by simp
  then have n: "1 \<le> length (io_buffer c) + length (pending (net c))" using b(1) by simp
  obtain k d where d: "read_nbytes_cycle 1 0 c = Some (Ok k, d)"
    "io_buffer d @ pending (net d) = p_head m @ rest" "length (io_buffer d) = max 1 (length (io_buffer c))"
    "rx_fine (net d)" "frame_io d = frame_io c"
    using io.fill [OF assms(1) n, of 0] assms(3) by auto
  have "io_buffer d \<noteq> []" using d(3) by (auto simp: max_def split: if_splits)
  then have "peek_act io_buffer 0 d = Some (Ok b, d)" using d(2) b(1)
    by (cases "io_buffer d") (simp_all add: peek_act_def lift_res_def)
  moreover have "2 \<le> p_csid m" using assms(2) by (simp add: p_sane_def)
  ultimately have "read_basic_header c = Some (Ok (p_fmt m, p_csid m, 1), d)"
    using b(2,3) d(1) by (simp add: read_basic_header_def bind_act_def Let_def return_act_def del: One_nat_def)
  moreover have "length (io_buffer d) \<le> length (p_head m)" using d(3) assms(4) b(1) by simp
  ultimately show ?thesis using d by blast
qed

text \<open>The length a header declares or leaves as it was.\<close>

lemma head_length:
  assumes "p_sane m"
  shows "p_fmt m \<le> 1 \<Longrightarrow> int24_at (p_head m) 4 = of_nat (length (p_data m))"
    and "0 < p_fmt m \<Longrightarrow> p_fmt m \<le> 2 \<Longrightarrow> int24_at (p_head m) 1 = p_ts m"
proof -
  obtain b where b: "p_head m = b # av_tail (p_fmt m) (p_ts m) (of_nat (length (p_data m))) (p_type m) (p_sid m)"
    using head_parts [OF assms] by metis
  have u: "unat (of_nat (length (p_data m)) :: int32) < 2 ^ 24" "unat (p_ts m) < 2 ^ 24"
    using assms unat_of_nat_24 [of "length (p_data m)"] ts_plain(3) [of "p_ts m"] by (simp_all add: p_sane_def)
  show "p_fmt m \<le> 1 \<Longrightarrow> int24_at (p_head m) 4 = of_nat (length (p_data m))"
    using int24_at_be24 [OF u(1), of "b # be24 (p_ts m)"] assms b by (auto simp: av_tail_def p_sane_def)
  show "0 < p_fmt m \<Longrightarrow> p_fmt m \<le> 2 \<Longrightarrow> int24_at (p_head m) 1 = p_ts m"
    using int24_at_be24 [OF u(2), of "[b]"] int24_at_be24 [OF u(2), of "[b]" "[]"] b by (auto simp: av_tail_def)
qed

definition note_in :: "pmsg \<Rightarrow> ctx \<Rightarrow> ctx" where
  "note_in m c = c\<lparr>csid_header := noted m (csid_header c)\<rparr>"

lemma message_header_any:
  assumes "rx_fine (net c)" and "fits m (csid_header c)" and "io_buffer c @ pending (net c) = p_head m @ rest"
    and "length (io_buffer c) \<le> length (p_head m)"
  shows "\<exists>r d e. read_message_header (p_fmt m) (p_csid m) 1 c = Some (Ok (length (p_head m) - 1, r), d)
    \<and> csid_touch (p_csid m) d = note_in m e \<and> csid_at (p_csid m) d = csid_at (p_csid m) (note_in m e)
    \<and> chunk_size d = chunk_size c \<and> io_buffer e = p_head m \<and> pending (net e) = rest \<and> rx_fine (net e)
    \<and> frame_io e = frame_io c"
proof -
  have s: "p_sane m" using assms(2) by (simp add: fits_def)
  have l: "length (p_head m) = Suc (mh_size_array ! nat (p_fmt m))" using head_parts [OF s] by metis
  have "length (io_buffer c) + length (pending (net c)) = length (p_head m @ rest)"
    using arg_cong [OF assms(3), of length] by simp
  then have n: "1 + mh_size_array ! nat (p_fmt m) \<le> length (io_buffer c) + length (pending (net c))" using l by simp
  obtain k e where e: "read_nbytes_cycle (1 + mh_size_array ! nat (p_fmt m)) 0 c = Some (Ok k, e)"
    "io_buffer e @ pending (net e) = p_head m @ rest"
    "length (io_buffer e) = max (1 + mh_size_array ! nat (p_fmt m)) (length (io_buffer c))"
    "rx_fine (net e)" "frame_io e = frame_io c"
    using io.fill [OF assms(1) n, of 0] assms(3) by auto
  have eb: "io_buffer e = p_head m" "pending (net e) = rest" using e(2,3) assms(4) l by simp_all
  have H: "csid_header e = csid_header c" "chunk_size e = chunk_size c" using e(5) by (simp_all add: frame_io_iff)
  let ?m = "of_nat (length (p_data m)) :: int32"
  let ?d = "if p_fmt m \<le> 1 then csid_update (p_csid m) (\<lambda>h. h\<lparr>message_length := ?m\<rparr>) e else e"
  have nd: "\<not> (0 < p_fmt m \<and> p_fmt m \<le> 2 \<and> 0xFFFFFF \<le> sint (p_ts m))" "p_ts m \<noteq> 0xFFFFFF"
    using ts_plain [of "p_ts m"] s by (simp_all add: p_sane_def)
  have "\<exists>r. read_message_header (p_fmt m) (p_csid m) 1 c = Some (Ok (mh_size_array ! nat (p_fmt m), r), ?d)"
    unfolding read_message_header_def Let_def bind_act_def e(1)
    using head_length [OF s] nd by (auto simp: eb(1))
  then obtain r where r: "read_message_header (p_fmt m) (p_csid m) 1 c = Some (Ok (length (p_head m) - 1, r), ?d)"
    using l by auto
  have t: "csid_touch (p_csid m) ?d = note_in m e"
    using assms(2) H by (auto simp: note_in_def noted_def csid_touch_def csid_update_def csid_at_entry fits_def
        same_length)
  then have a: "csid_at (p_csid m) ?d = csid_at (p_csid m) (note_in m e)" by (metis csid_at_simps(2))
  have "chunk_size ?d = chunk_size c" using H(2) by simp
  with r t a show ?thesis using eb e(4,5) by blast
qed

lemma length_sint:
  assumes "p_sane m"
  shows "sint (of_nat (length (p_data m)) :: int32) = int (length (p_data m))"
proof -
  have u: "unat (of_nat (length (p_data m)) :: int32) = length (p_data m)"
    using unat_of_nat_24 [of "length (p_data m)"] assms by (simp add: p_sane_def)
  show ?thesis using sint_small [of "of_nat (length (p_data m))"] assms unfolding u by (simp add: p_sane_def)
qed

lemma note_in_simps [simp]:
  "io_buffer (note_in m c) = io_buffer c" "net (note_in m c) = net c" "chunk_size (note_in m c) = chunk_size c"
  "cur (note_in m c) = cur c" "set_data_frame (note_in m c) = set_data_frame c"
  "audio_video_buffer (note_in m c) = audio_video_buffer c"
  "csid_header (note_in m c) = noted m (csid_header c)"
  "message_length (csid_at (p_csid m) (note_in m c)) = of_nat (length (p_data m))"
  by (simp_all add: note_in_def csid_at_entry noted_def entry_def)

lemma recv_head:
  assumes "rx_fine (net c)" and "fits m (csid_header c)" and "io_buffer c @ pending (net c) = p_head m @ rest"
    and "length (io_buffer c) \<le> length (p_head m)"
  shows "\<exists>e. recv_message rp c = rp (p_csid m) 1 (length (p_head m) - 1) (int (length (p_data m))) (chunk_size c)
        (note_in m e)
    \<and> read_header_get_payloadLength c = Some (Ok (int (length (p_data m))), note_in m e)
    \<and> io_buffer e = p_head m \<and> pending (net e) = rest \<and> rx_fine (net e) \<and> frame_io e = frame_io c"
proof -
  have s: "p_sane m" using assms(2) by (simp add: fits_def)
  obtain c1 where c1: "read_basic_header c = Some (Ok (p_fmt m, p_csid m, 1), c1)"
    "io_buffer c1 @ pending (net c1) = p_head m @ rest" "length (io_buffer c1) \<le> length (p_head m)"
    "rx_fine (net c1)" "frame_io c1 = frame_io c"
    using basic_header_any [OF assms(1) s assms(3,4)] by blast
  have "fits m (csid_header c1)" using assms(2) c1(5) by (simp add: frame_io_iff)
  then obtain r d e where d: "read_message_header (p_fmt m) (p_csid m) 1 c1 = Some (Ok (length (p_head m) - 1, r), d)"
    "csid_touch (p_csid m) d = note_in m e" "csid_at (p_csid m) d = csid_at (p_csid m) (note_in m e)"
    "chunk_size d = chunk_size c1" "io_buffer e = p_head m" "pending (net e) = rest" "rx_fine (net e)"
    "frame_io e = frame_io c1"
    using message_header_any [OF c1(4) _ c1(2,3)] by blast
  have "chunk_size d = chunk_size c" "frame_io e = frame_io c" using d(4,8) c1(5) by (simp_all add: frame_io_iff)
  then show ?thesis using d(5-7) length_sint [OF s]
    by (intro exI [of _ e])
      (simp add: recv_message_def read_header_get_payloadLength_def bind_act_def c1(1) d(1-3) del: One_nat_def)
qed

section \<open>Triples\<close>

definition poised :: "bytes \<Rightarrow> ctx \<Rightarrow> bool" where
  "poised b c \<longleftrightarrow> rx_fine (net c) \<and> tx_fine (net c) \<and> io_buffer c = b"

text \<open>
  Between \<open>c\<close> and \<open>c'\<close> the messages \<open>ms\<close> came in and the bytes \<open>out\<close> went out, \<open>fs\<close> was added to the
  stream's metadata and the chunk size went from \<open>cs\<close> to \<open>cs'\<close>; nothing is left in the buffer.
\<close>

definition turn :: "int \<Rightarrow> int \<Rightarrow> pmsg list \<Rightarrow> bytes \<Rightarrow> amf_object \<Rightarrow> ctx \<Rightarrow> ctx \<Rightarrow> bool" where
  "turn cs cs' ms out fs c c' \<longleftrightarrow>
     io_buffer c @ pending (net c) = concat (map p_wire ms) @ pending (net c')
     \<and> sent (net c') = sent (net c) @ out \<and> poised [] c' \<and> chunk_size c = cs \<and> chunk_size c' = cs'
     \<and> csid_header c' = fold noted ms (csid_header c) \<and> set_data_frame c' = set_data_frame c @ fs
     \<and> audio_video_buffer c' = audio_video_buffer c"

definition does :: "bytes \<Rightarrow> (ctx, unit) act \<Rightarrow> int \<Rightarrow> int \<Rightarrow> pmsg list \<Rightarrow> bytes \<Rightarrow> amf_object \<Rightarrow> bool" where
  "does b a cs cs' ms out fs \<longleftrightarrow>
     (\<forall>c rest. poised b c \<longrightarrow> chunk_size c = cs \<longrightarrow> b @ pending (net c) = concat (map p_wire ms) @ rest
        \<longrightarrow> announced (csid_header c) ms
        \<longrightarrow> (\<exists>c'. a c = Some (Ok (), c') \<and> turn cs cs' ms out fs c c'))"

lemma doesI:
  assumes "\<And>c rest. poised b c \<Longrightarrow> chunk_size c = cs \<Longrightarrow> b @ pending (net c) = concat (map p_wire ms) @ rest
    \<Longrightarrow> announced (csid_header c) ms \<Longrightarrow> \<exists>c'. a c = Some (Ok (), c') \<and> turn cs cs' ms out fs c c'"
  shows "does b a cs cs' ms out fs"
  using assms unfolding does_def by blast

lemma doesD:
  assumes "does b a cs cs' ms out fs" and "poised b c" and "chunk_size c = cs"
    and "b @ pending (net c) = concat (map p_wire ms) @ rest" and "announced (csid_header c) ms"
  obtains c' where "a c = Some (Ok (), c')" and "turn cs cs' ms out fs c c'" and "pending (net c') = rest"
  using assms unfolding does_def turn_def by (metis append_same_eq same_append_eq poised_def)

lemma does_bind:
  assumes "does b a cs cs1 ms1 o1 f1" and "does [] a' cs1 cs2 ms2 o2 f2"
  shows "does b (bind_act a (\<lambda>_. a')) cs cs2 (ms1 @ ms2) (o1 @ o2) (f1 @ f2)"
proof (rule doesI)
  fix c rest
  assume c: "poised b c" "chunk_size c = cs" "b @ pending (net c) = concat (map p_wire (ms1 @ ms2)) @ rest"
    "announced (csid_header c) (ms1 @ ms2)"
  then have p: "b @ pending (net c) = concat (map p_wire ms1) @ concat (map p_wire ms2) @ rest"
    and an: "announced (csid_header c) ms1" "announced (fold noted ms1 (csid_header c)) ms2"
    by (simp_all add: announced_append)
  obtain d where d: "a c = Some (Ok (), d)" "turn cs cs1 ms1 o1 f1 c d" "pending (net d) = concat (map p_wire ms2) @ rest"
    using doesD [OF assms(1) c(1,2) p an(1)] by blast
  have r: "poised [] d" "chunk_size d = cs1" "announced (csid_header d) ms2"
    using d(2) an(2) by (simp_all add: turn_def)
  obtain e where e: "a' d = Some (Ok (), e)" "turn cs1 cs2 ms2 o2 f2 d e"
    using doesD [OF assms(2) r(1,2) _ r(3)] d(3) by (metis append_Nil)
  have "turn cs cs2 (ms1 @ ms2) (o1 @ o2) (f1 @ f2) c e"
    using d(2) e(2) by (simp add: turn_def poised_def)
  then show "\<exists>c'. bind_act a (\<lambda>_. a') c = Some (Ok (), c') \<and> turn cs cs2 (ms1 @ ms2) (o1 @ o2) (f1 @ f2) c c'"
    using d(1) e(1) by (simp add: bind_act_def)
qed

section \<open>What the receiving classes do\<close>

text \<open>
  The contract of a \<open>read_payload\<close> that takes an unchunked payload: on a payload it \<open>accepts\<close> it consumes
  exactly that, and changes the message object, and the metadata by \<open>adds\<close>.
\<close>

locale payload_reader =
  fixes rp :: "int \<Rightarrow> nat \<Rightarrow> nat \<Rightarrow> int \<Rightarrow> int \<Rightarrow> (ctx, unit) act"
    and accepts :: "bytes \<Rightarrow> bool"
    and adds :: "bytes \<Rightarrow> amf_object"
  assumes reads: "rx_fine (net c) \<Longrightarrow> io_buffer c = h \<Longrightarrow> length h = bh + mh \<Longrightarrow> pending (net c) = p @ rest \<Longrightarrow>
      accepts p \<Longrightarrow> bh + mh + length p < 2 ^ 64 \<Longrightarrow>
      \<exists>d msg. rp csid bh mh (int (length p)) cs c
          = Some (Ok (), d\<lparr>cur := msg, set_data_frame := set_data_frame d @ adds p\<rparr>)
        \<and> object msg = object (cur d) \<and> pending (net d) = rest \<and> rx_fine (net d) \<and> frame_io d = frame_io c"
begin

lemma recv_whole:
  assumes "poised b c" and "fits m (csid_header c)" and "b @ pending (net c) = p_wire m @ rest"
    and "b = [] \<or> b = p_head m" and "accepts (p_data m)" and "length (p_data m) \<le> p_chunk m" and "object (cur c) = []"
  shows "\<exists>d. recv_message rp c = Some (Ok (), d) \<and> object (cur d) = [] \<and> pending (net d) = rest \<and> rx_fine (net d)
    \<and> tx (net d) = tx (net c) \<and> sent (net d) = sent (net c) \<and> chunk_size d = chunk_size c
    \<and> csid_header d = noted m (csid_header c) \<and> set_data_frame d = set_data_frame c @ adds (p_data m)
    \<and> audio_video_buffer d = audio_video_buffer c"
proof -
  have w: "p_wire m = p_head m @ p_data m" using chunked_short [OF assms(6)] by (simp add: p_wire_def)
  have s: "p_sane m" using assms(2) by (simp add: fits_def)
  have c: "rx_fine (net c)" "io_buffer c @ pending (net c) = p_head m @ p_data m @ rest"
    "length (io_buffer c) \<le> length (p_head m)"
    using assms(1,3,4) w by (auto simp: poised_def)
  obtain e where e: "recv_message rp c = rp (p_csid m) 1 (length (p_head m) - 1) (int (length (p_data m)))
      (chunk_size c) (note_in m e)"
    "io_buffer e = p_head m" "pending (net e) = p_data m @ rest" "rx_fine (net e)" "frame_io e = frame_io c"
    using recv_head [OF c(1) assms(2) c(2,3)] by blast
  obtain n where n: "length (p_head m) = Suc n" "Suc n \<le> 18"
    using head_parts [OF s] length_header_bytes [of "p_fmt m" "p_csid m" "p_ts m" "of_nat (length (p_data m))" "p_type m" "p_sid m"]
    by (metis p_head_def)
  have "length (p_head m) = 1 + (length (p_head m) - 1)"
    "1 + (length (p_head m) - 1) + length (p_data m) < 2 ^ 64" using n s by (simp_all add: p_sane_def)
  from reads [OF _ _ this(1) _ assms(5) this(2), of "note_in m e" rest "p_csid m" "chunk_size c"] e(2-4)
  obtain d msg where d: "rp (p_csid m) 1 (length (p_head m) - 1) (int (length (p_data m))) (chunk_size c) (note_in m e)
      = Some (Ok (), d\<lparr>cur := msg, set_data_frame := set_data_frame d @ adds (p_data m)\<rparr>)"
    "object msg = object (cur d)" "pending (net d) = rest" "rx_fine (net d)" "frame_io d = frame_io (note_in m e)"
    by auto
  show ?thesis using d e(1,5) assms(7)
    by (intro exI [of _ "d\<lparr>cur := msg, set_data_frame := set_data_frame d @ adds (p_data m)\<rparr>"])
      (auto simp: frame_io_iff)
qed

lemma recv_does:
  assumes "accepts (p_data m)" and "length (p_data m) \<le> p_chunk m" and "b = [] \<or> b = p_head m"
  shows "does b (recv_print rp) cs cs [m] [] (adds (p_data m))"
    and "does b (recv_drop rp) cs cs [m] [] (adds (p_data m))"
proof -
  have "\<exists>d. recv_message rp (new_message c) = Some (Ok (), d) \<and> object (cur d) = []
      \<and> turn cs cs [m] [] (adds (p_data m)) c (delete_message d)"
    if c: "poised b c" "chunk_size c = cs" "b @ pending (net c) = concat (map p_wire [m]) @ rest"
      "announced (csid_header c) [m]" for c rest
  proof -
    have n: "poised b (new_message c)" "fits m (csid_header (new_message c))"
      "b @ pending (net (new_message c)) = p_wire m @ rest" "object (cur (new_message c)) = []"
      using c by (simp_all add: poised_def new_message_def IO_Message_init_def)
    obtain d where d: "recv_message rp (new_message c) = Some (Ok (), d)" "object (cur d) = []" "pending (net d) = rest"
      "rx_fine (net d)" "tx (net d) = tx (net c)" "sent (net d) = sent (net c)" "chunk_size d = cs"
      "csid_header d = noted m (csid_header c)" "set_data_frame d = set_data_frame c @ adds (p_data m)"
      "audio_video_buffer d = audio_video_buffer c"
      using recv_whole [OF n(1-3) assms(3,1,2) n(4)] c(2) by (auto simp: new_message_def)
    have "turn cs cs [m] [] (adds (p_data m)) c (delete_message d)"
      using c(1-3) d(3-10) by (simp add: turn_def poised_def delete_message_def buffer_clear_def tx_fine_def)
    with d(1,2) show ?thesis by blast
  qed
  note r = this
  show "does b (recv_print rp) cs cs [m] [] (adds (p_data m))"
  proof (rule doesI, goal_cases)
    case (1 c rest)
    from r [OF this] show ?case
      by (auto simp: recv_print_def with_message_def bind_act_def modify_act_def ignore_act_def common_print_def)
  qed
  show "does b (recv_drop rp) cs cs [m] [] (adds (p_data m))"
  proof (rule doesI, goal_cases)
    case (1 c rest)
    from r [OF this] show ?case
      by (auto simp: recv_drop_def with_message_def bind_act_def modify_act_def ignore_act_def)
  qed
qed

end

lemma read_all_whole:
  assumes "rx_fine (net c)" and "io_buffer c = h" and "length h = bh + mh" and "pending (net c) = p @ rest"
    and "bh + mh + length p < 2 ^ 64"
  shows "\<exists>k d. read_all bh mh (int (length p)) c = Some (Ok k, d) \<and> io_buffer d = h @ p \<and> pending (net d) = rest
    \<and> rx_fine (net d) \<and> frame_io d = frame_io c"
proof -
  have n: "as_size_t (int bh + int mh + int (length p)) = length h + length p"
    using assms(3,5) by (simp add: as_size_t_def)
  have "length h + length p \<le> length (io_buffer c) + length (pending (net c))" using assms(2,4) by simp
  from io.fill [OF assms(1) this, of 0] obtain k d where
    d: "read_nbytes_cycle (length h + length p) 0 c = Some (Ok k, d)" "io_buffer d @ pending (net d) = h @ p @ rest"
      "length (io_buffer d) = length h + length p" "rx_fine (net d)" "frame_io d = frame_io c"
    using assms(2,4) by auto
  have "io_buffer d = h @ p" "pending (net d) = rest"
    using d(2,3) append_eq_append_conv [of "io_buffer d" "h @ p" "pending (net d)" rest] by simp_all
  then show ?thesis using d n by (auto simp: read_all_def)
qed

text \<open>Any payload will do for the two classes that do not look at it.\<close>

lemma read_all_only:
  assumes "rx_fine (net c)" and "io_buffer c = h" and "length h = bh + mh" and "pending (net c) = p @ rest"
    and "bh + mh + length p < 2 ^ 64"
  shows "\<exists>d msg. bind_act (read_all bh mh (int (length p))) (\<lambda>_. return_act ()) c
        = Some (Ok (), d\<lparr>cur := msg, set_data_frame := set_data_frame d @ []\<rparr>)
      \<and> object msg = object (cur d) \<and> pending (net d) = rest \<and> rx_fine (net d) \<and> frame_io d = frame_io c"
proof -
  obtain k d where d: "read_all bh mh (int (length p)) c = Some (Ok k, d)" "pending (net d) = rest"
    "rx_fine (net d)" "frame_io d = frame_io c" using read_all_whole [OF assms] by blast
  then show ?thesis by (intro exI [of _ d] exI [of _ "cur d"]) (simp add: bind_act_def return_act_def)
qed

interpretation checkbw: payload_reader CheckBW_read_payload "\<lambda>_. True" "\<lambda>_. []"
  by unfold_locales (simp only: CheckBW_read_payload_def read_all_only)

interpretation unknown: payload_reader UnknownMessage_read_payload "\<lambda>_. True" "\<lambda>_. []"
  by unfold_locales (simp only: UnknownMessage_read_payload_def read_all_only)

text \<open>A command with a null object, and anything behind it.\<close>

definition null_command :: "bytes \<Rightarrow> bool" where
  "null_command p \<longleftrightarrow> (\<exists>name tid z. p = amf_command name tid @ 0x05 # z \<and> name \<noteq> [] \<and> length name < 2 ^ 15)"

lemma read_null_command_reads:
  assumes "rx_fine (net c)" and "io_buffer c = h" and "length h = bh + mh" and "pending (net c) = p @ rest"
    and "null_command p" and "bh + mh + length p < 2 ^ 64"
  shows "\<exists>d msg. read_null_command csid bh mh (int (length p)) cs c
        = Some (Ok (), d\<lparr>cur := msg, set_data_frame := set_data_frame d @ []\<rparr>)
      \<and> object msg = object (cur d) \<and> pending (net d) = rest \<and> rx_fine (net d) \<and> frame_io d = frame_io c"
proof -
  obtain name tid z where p: "p = amf_command name tid @ 0x05 # z" "name \<noteq> []" "length name < 2 ^ 15"
    using assms(5) by (auto simp: null_command_def)
  have "pending (net c) = amf_command name tid @ 0x05 # z @ rest"
    "int (length p) = int (length (amf_command name tid @ 0x05 # z))" "bh + mh + nat (int (length p)) < 2 ^ 64"
    using assms(4,6) p(1) by simp_all
  from read_null_command_amf [OF assms(1-3) this(1) p(2,3) this(2,3)] obtain d where
    "read_null_command csid bh mh (int (length p)) cs c
      = Some (Ok (), d\<lparr>cur := (cur d)\<lparr>command_name := name, transaction_id := tid\<rparr>\<rparr>)"
    "pending (net d) = rest" "rx_fine (net d)" "frame_io d = frame_io c" by blast
  then show ?thesis
    by (intro exI [of _ d] exI [of _ "(cur d)\<lparr>command_name := name, transaction_id := tid\<rparr>"]) simp
qed

interpretation release_in: payload_reader ReleaseStream_read_payload null_command "\<lambda>_. []"
  by unfold_locales (simp only: ReleaseStream_read_payload_def read_null_command_reads)

interpretation fcpublish_in: payload_reader FCPublish_read_payload null_command "\<lambda>_. []"
  by unfold_locales (simp only: FCPublish_read_payload_def read_null_command_reads)

interpretation create_in: payload_reader CreateStream_read_payload null_command "\<lambda>_. []"
  by unfold_locales (simp only: CreateStream_read_payload_def read_null_command_reads)

interpretation getlength_in: payload_reader GetStreamLength_read_payload null_command "\<lambda>_. []"
  by unfold_locales (simp only: GetStreamLength_read_payload_def read_null_command_reads)

interpretation play_in: payload_reader PlayCommandMessage_read_payload null_command "\<lambda>_. []"
  by unfold_locales (simp only: PlayCommandMessage_read_payload_def read_null_command_reads)

text \<open>\<open>publish\<close> with the empty stream name the code asks for, and a publishing type.\<close>

definition publish_command :: "bytes \<Rightarrow> bool" where
  "publish_command p \<longleftrightarrow> (\<exists>name tid ty z. p = amf_command name tid @ [0x05, 0x02, 0, 0, 0x02] @ amf_string ty @ z
     \<and> name \<noteq> [] \<and> length name < 2 ^ 15 \<and> ty \<noteq> [] \<and> length ty < 2 ^ 15)"

lemma Publish_parse_amf:
  assumes "publish_command p"
  shows "Publish_parse (h @ p) (length h) = Ok ()"
proof -
  obtain name tid ty z where p: "p = amf_command name tid @ [0x05, 0x02, 0, 0, 0x02] @ amf_string ty @ z"
    "name \<noteq> []" "length name < 2 ^ 15" "ty \<noteq> []" "length ty < 2 ^ 15"
    using assms by (auto simp: publish_command_def)
  let ?b = "h @ p" and ?n = "length h + length (amf_command name tid)" and ?a = "h @ amf_command name tid"
  have c: "read_command ?b (length h) = Ok (name, tid, ?n)"
    using read_command_amf [OF p(2,3), of h tid] by (simp add: p(1))
  let ?q = "?n + 1 + 1"
  have e: "expect ?b ?n 0x05 = Ok (?n + 1)" "expect ?b (?n + 1) 0x02 = Ok ?q"
    "expect ?b (?q + 2) 0x02 = Ok (?q + 2 + 1)"
    using expect_append [of ?n ?a] expect_append [of "?n + 1" "?a @ [0x05]"]
      expect_append [of "?q + 2" "?a @ [0x05, 0x02, 0, 0]"] by (simp_all add: p(1))
  have m: "mem_of (0 :: 16 word) = [0, 0]" by (simp add: mem_of_def nat_le_numeral)
  have f: "fetch be2se_2bytes 2 ?b ?q = Ok [0, 0]"
    using fetch_append(1) [of ?q "?a @ [0x05, 0x02]" 0 "0x02 # amf_string ty @ z"] by (simp add: p(1) m)
  have s: "read_string ?b (?q + 2 + 1) = Ok (ty, ?q + 2 + 1 + 2 + length ty)"
    using read_string_amf [OF p(4,5), of "?q + 2 + 1" "?a @ [0x05, 0x02, 0, 0, 0x02]" z] by (simp add: p(1))
  have z: "(of_mem [0, 0] :: 16 word) = 0" by (simp add: of_mem_def)
  show ?thesis unfolding Publish_parse_def
    by (simp only: c e f s z bind_res.simps prod.case simp_thms if_False)
qed

interpretation publish_in: payload_reader Publish_read_payload publish_command "\<lambda>_. []"
proof (unfold_locales, goal_cases)
  case (1 c h bh mh p rest csid cs)
  obtain k d where d: "read_all bh mh (int (length p)) c = Some (Ok k, d)" "io_buffer d = h @ p" "pending (net d) = rest"
    "rx_fine (net d)" "frame_io d = frame_io c" using read_all_whole [OF 1(1-4,6)] by blast
  have "Publish_parse (io_buffer d) (bh + mh) = Ok ()" using Publish_parse_amf [OF 1(5), of h] d(2) 1(3) by simp
  then show ?case using d
    by (intro exI [of _ d] exI [of _ "cur d"]) (simp add: Publish_read_payload_def bind_act_def lift_res_def)
qed

text \<open>\<open>@setDataFrame\<close>: two strings, the number of entries and the entries.\<close>

fun frame_value :: "Value_Object \<Rightarrow> bool" where
  "frame_value (Value_String s) = (s \<noteq> [] \<and> length s < 2 ^ 15)"
| "frame_value (Value_Len l) = False"
| "frame_value _ = True"

definition frame_entries :: "amf_object \<Rightarrow> bool" where
  "frame_entries kvs \<longleftrightarrow> list_all (\<lambda>(k, v). k \<noteq> [] \<and> length k < 2 ^ 15 \<and> frame_value v) kvs
     \<and> kvs \<noteq> [] \<and> length kvs < 2 ^ 24"

definition data_frame :: "bytes \<Rightarrow> bytes \<Rightarrow> amf_object \<Rightarrow> bytes" where
  "data_frame name content kvs = 0x02 # amf_string name @ 0x02 # amf_string content
     @ 0x08 # rev (mem_of (of_nat (length kvs) :: int32)) @ amf_members kvs"

lemma set_data_frame_entry:
  assumes "k \<noteq> []" and "length k < 2 ^ 15" and "frame_value v" and "b = a @ (amf_string k @ amf_value v) @ z"
  shows "set_data_frame_loop (Suc n) b (length a) fs
    = set_data_frame_loop n b (length a + length (amf_string k @ amf_value v)) (fs @ [(k, v)])"
proof -
  let ?q = "length a + 2 + length k" and ?a = "a @ amf_string k"
  have r: "read_string b (length a) = Ok (k, ?q)" using read_string_amf [OF assms(1,2)] assms(4) by simp
  have b: "b = ?a @ amf_value v @ z" using assms(4) by simp
  show ?thesis
  proof (cases v)
    case (Value_String s)
    then have s: "read_string b (?q + 1) = Ok (s, ?q + 1 + 2 + length s)"
      using read_string_amf [of s "?q + 1" "?a @ [0x02]" z] assms(3) by (simp add: b)
    have "?q < length b" "b ! ?q = 0x02" by (simp_all add: b Value_String nth_append)
    then show ?thesis using s by (simp add: r Value_String ac_simps)
  next
    case (Value_Num d)
    then have f: "fetch be2se_8bytes 8 b (?q + 1) = Ok (mem_of d)"
      using fetch_append(2) [of "?q + 1" "?a @ [0x00]" d z] by (simp add: b)
    have "?q < length b" "b ! ?q = 0x00" by (simp_all add: b Value_Num nth_append)
    then show ?thesis using f by (simp add: r Value_Num ac_simps)
  next
    case (Value_0x01 x)
    have "?q + 1 < length b" "b ! ?q = 0x01" "b ! (?q + 1) = x"
      by (simp_all add: b Value_0x01 nth_append)
    then show ?thesis by (simp add: r Value_0x01 ac_simps)
  qed (use assms(3) in simp)
qed

lemma set_data_frame_amf:
  assumes "list_all (\<lambda>(k, v). k \<noteq> [] \<and> length k < 2 ^ 15 \<and> frame_value v) kvs" and "b = a @ amf_members kvs @ z"
  shows "set_data_frame_loop (length kvs) b (length a) fs = (Ok (), fs @ kvs)"
  using assms
proof (induction kvs arbitrary: a fs)
  case (Cons kv kvs)
  obtain k v where kv: "kv = (k, v)" by (cases kv)
  let ?e = "amf_string k @ amf_value v"
  have b: "b = a @ ?e @ amf_members kvs @ z" "b = (a @ ?e) @ amf_members kvs @ z"
    using Cons.prems(2) by (simp_all add: kv amf_members_def)
  show ?case
    using set_data_frame_entry [OF _ _ _ b(1), of "length kvs" fs] Cons.IH [OF _ b(2), of "fs @ [kv]"] Cons.prems(1)
    by (simp add: kv)
qed simp

lemma fetch4_append:
  "p = length a \<Longrightarrow> fetch be2se_4bytes 4 (a @ rev (mem_of (w :: int32)) @ z) p = Ok (mem_of w)"
  by (simp add: be4.fetch_eq)

lemma SetDataFrame_parse_amf:
  assumes "name \<noteq> []" and "length name < 2 ^ 15" and "content \<noteq> []" and "length content < 2 ^ 15" and "frame_entries kvs"
  shows "\<exists>a. h @ data_frame name content kvs @ z = a @ amf_members kvs @ z
    \<and> SetDataFrame_parse (h @ data_frame name content kvs @ z) (length h) = Ok (length kvs, length a)"
proof -
  let ?b = "h @ data_frame name content kvs @ z" and ?w = "of_nat (length kvs) :: int32"
  let ?a1 = "h @ 0x02 # amf_string name" let ?a2 = "?a1 @ 0x02 # amf_string content"
  let ?p1 = "length h + 1" let ?p2 = "?p1 + 2 + length name" let ?p4 = "?p2 + 1 + 2 + length content"
  have e: "expect ?b (length h) 0x02 = Ok ?p1" "expect ?b ?p2 0x02 = Ok (?p2 + 1)" "expect ?b ?p4 0x08 = Ok (?p4 + 1)"
    using expect_append [of "length h" h] expect_append [of ?p2 ?a1] expect_append [of ?p4 ?a2]
    by (simp_all add: data_frame_def)
  have s: "read_string ?b ?p1 = Ok (name, ?p2)" "read_string ?b (?p2 + 1) = Ok (content, ?p4)"
    using read_string_amf [OF assms(1,2), of ?p1 "h @ [0x02]"]
      read_string_amf [OF assms(3,4), of "?p2 + 1" "?a1 @ [0x02]"] by (simp_all add: data_frame_def)
  have f: "fetch be2se_4bytes 4 ?b (?p4 + 1) = Ok (mem_of ?w)"
    using fetch4_append [of "?p4 + 1" "?a2 @ [0x08]" ?w "amf_members kvs @ z"] by (simp add: data_frame_def)
  have u: "unat ?w = length kvs" "length kvs < 2 ^ 24" "kvs \<noteq> []"
    using unat_of_nat_24 assms(5) by (auto simp: frame_entries_def)
  have c: "sint ?w = int (length kvs)" using sint_small [of ?w] u by simp
  have "SetDataFrame_parse ?b (length h) = Ok (length kvs, ?p4 + 1 + 4)"
    unfolding SetDataFrame_parse_def using u(3)
    by (simp only: e s f bind_res.simps prod.case Let_def of_mem_words c) simp
  then show ?thesis
    by (intro exI [of _ "?a2 @ 0x08 # rev (mem_of ?w)"]) (simp add: data_frame_def)
qed

definition data_frame_message :: "amf_object \<Rightarrow> bytes \<Rightarrow> bool" where
  "data_frame_message kvs p \<longleftrightarrow> frame_entries kvs \<and> (\<exists>name content z. p = data_frame name content kvs @ z
     \<and> name \<noteq> [] \<and> length name < 2 ^ 15 \<and> content \<noteq> [] \<and> length content < 2 ^ 15)"

interpretation data_in: payload_reader SetDataFrame_read_payload "data_frame_message kvs" "\<lambda>_. kvs" for kvs
proof (unfold_locales, goal_cases)
  case (1 c h bh mh p rest csid cs)
  obtain k d where d: "read_all bh mh (int (length p)) c = Some (Ok k, d)" "io_buffer d = h @ p" "pending (net d) = rest"
    "rx_fine (net d)" "frame_io d = frame_io c" using read_all_whole [OF 1(1-4,6)] by blast
  obtain name content z where p: "p = data_frame name content kvs @ z" "name \<noteq> []" "length name < 2 ^ 15"
    "content \<noteq> []" "length content < 2 ^ 15" "frame_entries kvs" using 1(5) by (auto simp: data_frame_message_def)
  obtain a where a: "h @ p = a @ amf_members kvs @ z" "SetDataFrame_parse (io_buffer d) (bh + mh) = Ok (length kvs, length a)"
    using SetDataFrame_parse_amf [OF p(2-6), of h z] d(2) 1(3) p(1) by auto
  have "set_data_frame_loop (length kvs) (io_buffer d) (length a) (set_data_frame d) = (Ok (), set_data_frame d @ kvs)"
    using set_data_frame_amf [of kvs "io_buffer d" a z] a(1) d(2) p(6) by (simp add: frame_entries_def)
  then show ?case using d a(2)
    by (intro exI [of _ d] exI [of _ "cur d"]) (simp add: SetDataFrame_read_payload_def bind_act_def lift_res_def)
qed

section \<open>What the sending classes do\<close>

context payload_writer
begin

lemma send_does:
  assumes "0 < cs" and "cs < 2 ^ 31" and "payload \<noteq> []" and "length payload < 2 ^ 31" and "mlen = of_nat (length payload)"
  shows "does [] (with_message (write_message wp 0 csid 0 mlen mtype sid)) cs cs []
      (message_bytes (nat cs) csid 0 mtype sid payload) []"
    and "does [] (send_ignore wp csid mlen mtype sid) cs cs [] (message_bytes (nat cs) csid 0 mtype sid payload) []"
proof -
  have r: "\<exists>d. write_message wp 0 csid 0 mlen mtype sid (new_message c) = Some (Ok (), d)
      \<and> turn cs cs [] (message_bytes (nat cs) csid 0 mtype sid payload) [] c (delete_message d)"
    if c: "poised [] c" "chunk_size c = cs" for c
  proof -
    let ?c = "new_message c" and ?h = "header_bytes 0 csid 0 mlen mtype sid"
    have "tx_fine (net ?c)" "0 < chunk_size ?c" "chunk_size ?c < 2 ^ 31" "length (io_buffer ?c @ ?h @ payload) < 2 ^ 64"
      using c assms(1,2,4) length_header_bytes [of 0 csid 0 mlen mtype sid] by (simp_all add: poised_def new_message_def)
    then obtain d where d: "write_message wp 0 csid 0 mlen mtype sid ?c = Some (Ok (), d)"
      "sends (io_buffer ?c @ ?h @ chunked (fmt3_header csid) (nat (chunk_size ?c)) payload) (put (?h @ payload) ?c) d"
      using write_message_sends [of ?c 0 csid 0 mlen mtype sid] assms(3) by fastforce
    have "turn cs cs [] (message_bytes (nat cs) csid 0 mtype sid payload) [] c (delete_message d)"
      using d(2) c assms(5)
      by (auto simp: turn_def sends_def poised_def delete_message_def buffer_clear_def new_message_def put_def
          message_bytes_def pending_def rx_fine_def)
    with d(1) show ?thesis by blast
  qed
  show "does [] (with_message (write_message wp 0 csid 0 mlen mtype sid)) cs cs []
      (message_bytes (nat cs) csid 0 mtype sid payload) []"
  proof (rule doesI, goal_cases)
    case (1 c rest)
    from r [OF this(1,2)] show ?case by (auto simp: with_message_def bind_act_def modify_act_def)
  qed
  show "does [] (send_ignore wp csid mlen mtype sid) cs cs [] (message_bytes (nat cs) csid 0 mtype sid payload) []"
  proof (rule doesI, goal_cases)
    case (1 c rest)
    from r [OF this(1,2)] show ?case
      by (auto simp: send_ignore_def with_message_def bind_act_def modify_act_def ignore_act_def)
  qed
qed

end

lemma turn_chunk_size:
  "turn cs cs' ms out fs c c' \<Longrightarrow> turn cs n ms out fs c (c'\<lparr>chunk_size := n\<rparr>)"
  by (simp add: turn_def poised_def)

lemma send_chunk_size_does:
  assumes "0 < cs" and "cs < 2 ^ 31"
  shows "does [] send_chunk_size cs 4096 [] (message_bytes (nat cs) 2 0 1 0 (rev (mem_of (4096 :: int32)))) []"
proof (rule doesI, goal_cases)
  case (1 c rest)
  have s: "does [] (send_ignore (SetChunkSize_write_payload 4096) 2 4 1 0) cs cs []
      (message_bytes (nat cs) 2 0 1 0 (rev (mem_of (4096 :: int32)))) []"
    using chunk.send_does(2) [OF assms, of 4096 4 2 1 0] by (simp flip: length_0_conv)
  obtain c' where c': "send_ignore (SetChunkSize_write_payload 4096) 2 4 1 0 c = Some (Ok (), c')"
    "turn cs cs [] (message_bytes (nat cs) 2 0 1 0 (rev (mem_of (4096 :: int32)))) [] c c'"
    using doesD [OF s 1] by blast
  have "send_chunk_size c = Some (Ok (), c'\<lparr>chunk_size := 4096\<rparr>)"
    using c'(1) by (auto simp: send_chunk_size_def send_ignore_def with_message_def bind_act_def modify_act_def
        ignore_act_def set_chunk_size_def delete_message_def split: option.splits prod.splits res.splits)
  with turn_chunk_size [OF c'(2), of 4096] show ?case by blast
qed

section \<open>Connecting\<close>

definition connect_message :: "int \<Rightarrow> pmsg \<Rightarrow> bool" where
  "connect_message cs m \<longleftrightarrow> 0 < cs \<and> p_chunk m = nat cs \<and> (\<exists>name tid kvs. p_data m = connect_bytes name tid kvs
     \<and> name \<noteq> [] \<and> length name < 2 ^ 15 \<and> readable kvs \<and> distinct (map fst kvs) \<and> printable_object kvs)"

lemma recv_connect_parsed:
  assumes "poised [] c" and "fits m (csid_header c)" and "pending (net c) = p_wire m @ rest"
    and "p_data m = connect_bytes name tid kvs" and "p_chunk m = nat (chunk_size c)" and "0 < chunk_size c"
    and "name \<noteq> []" and "length name < 2 ^ 15" and "readable kvs" and "distinct (map fst kvs)"
  shows "\<exists>d. recv_message ConnectMessage_read_payload (new_message c) = Some (Ok (), d)
    \<and> object (cur d) = kvs \<and> turn (chunk_size c) (chunk_size c) [m] [] [] c (delete_message d) \<and> pending (net d) = rest"
proof -
  let ?p = "connect_bytes name tid kvs" and ?c = "new_message c" and ?cs = "chunk_size c"
  have c: "rx_fine (net ?c)" "fits m (csid_header ?c)"
    "io_buffer ?c @ pending (net ?c) = p_head m @ chunked (p_f3 m) (nat ?cs) ?p @ rest" "length (io_buffer ?c) \<le> length (p_head m)"
    using assms(1-5) by (simp_all add: poised_def new_message_def p_wire_def)
  obtain e where e: "recv_message ConnectMessage_read_payload ?c
      = ConnectMessage_read_payload (p_csid m) 1 (length (p_head m) - 1) (int (length ?p)) ?cs (note_in m e)"
    "io_buffer e = p_head m" "pending (net e) = chunked (p_f3 m) (nat ?cs) ?p @ rest" "rx_fine (net e)"
    "frame_io e = frame_io ?c"
    using recv_head [OF c, of ConnectMessage_read_payload] assms(4) by (auto simp: new_message_def)
  have s: "p_sane m" using c(2) by (simp add: fits_def)
  obtain n where n: "length (p_head m) = Suc n" "Suc n \<le> 18"
    using head_parts [OF s] length_header_bytes [of "p_fmt m" "p_csid m" "p_ts m" "of_nat (length (p_data m))" "p_type m" "p_sid m"]
    by (metis p_head_def)
  have h: "rx_fine (net (note_in m e))" "io_buffer (note_in m e) = p_head m" "length (p_head m) = 1 + (length (p_head m) - 1)"
    "0 < nat ?cs" "pending (net (note_in m e)) = chunked (p_f3 m) (nat ?cs) ?p @ rest"
    "object (cur (note_in m e)) = []" "length (p_head m) + length ?p + 1 < 2 ^ 64"
    using e n assms(4,6) s by (simp_all add: frame_io_iff new_message_def IO_Message_init_def p_sane_def)
  obtain d where d: "ConnectMessage_read_payload (p_csid m) 1 (length (p_head m) - 1) (int (length ?p)) (int (nat ?cs)) (note_in m e)
      = Some (Ok (), d\<lparr>cur := \<lparr>command_name = name, transaction_id = tid, object = kvs\<rparr>\<rparr>)"
    "pending (net d) = rest" "rx_fine (net d)" "frame_io d = frame_io (note_in m e)"
    using ConnectMessage_read_payload_amf [OF h(1-5) assms(7-10) h(6,7)] by blast
  let ?d = "d\<lparr>cur := \<lparr>command_name = name, transaction_id = tid, object = kvs\<rparr>\<rparr>"
  have "recv_message ConnectMessage_read_payload ?c = Some (Ok (), ?d)" using assms(6) d(1) by (simp add: e(1))
  moreover have "turn ?cs ?cs [m] [] [] c (delete_message ?d)"
    using assms(1-3) d(2-4) e(5) by (simp add: turn_def poised_def delete_message_def buffer_clear_def frame_io_iff new_message_def tx_fine_def)
  ultimately show ?thesis using d(2) by (intro exI [of _ ?d]) simp
qed

lemma recv_connect_does:
  assumes "connect_message cs m"
  shows "does [] (with_message (bind_act (recv_message ConnectMessage_read_payload) (\<lambda>_. common_print))) cs cs [m] [] []"
proof (rule doesI, goal_cases)
  case (1 c rest)
  obtain name tid kvs where m: "p_data m = connect_bytes name tid kvs" "name \<noteq> []" "length name < 2 ^ 15" "readable kvs"
    "distinct (map fst kvs)" "printable_object kvs" "0 < cs" "p_chunk m = nat cs"
    using assms by (auto simp: connect_message_def)
  obtain d where "recv_message ConnectMessage_read_payload (new_message c) = Some (Ok (), d)" "object (cur d) = kvs"
    "turn cs cs [m] [] [] c (delete_message d)"
    using recv_connect_parsed [of c m rest name tid kvs] 1 m by auto
  then show ?case using m(6)
    by (intro exI [of _ "delete_message d"])
      (simp add: with_message_def bind_act_def modify_act_def common_print_def printable_object_def)
qed

text \<open>The connect phase behind the handshake.\<close>

definition connect_answer :: "(ctx, unit) act" where
  "connect_answer =
     bind_act (with_message (bind_act (recv_message ConnectMessage_read_payload) (\<lambda>_. common_print))) (\<lambda>_.
     bind_act (with_message (write_message (Set_Window_Size_write_payload 2500000) 0 2 0 4 5 0)) (\<lambda>_.
     bind_act (with_message (write_message (Set_Peer_Bandwidth_write_payload 2500000 2) 0 2 0 5 6 0)) (\<lambda>_.
     bind_act (with_message
       (write_message (Send_Object_Message_write_payload (str ''_result'') (double_of_nat 1) CONNECT_APP_RESPONSE) 0 3 0
          (of_int (Send_Object_Message_get_payload_size (str ''_result'') CONNECT_APP_RESPONSE)) 20 0)) (\<lambda>_.
     with_message
       (write_message (Send_Object_Message_write_payload (str ''onBWDone'') (double_of_nat 0) ON_BW_DONE) 0 3 0
          (of_int (Send_Object_Message_get_payload_size (str ''onBWDone'') ON_BW_DONE)) 20 0)))))"

lemma connect_answer_does:
  assumes "connect_message cs m" and "cs < 2 ^ 31"
  shows "does [] connect_answer cs cs [m] (connect_reply (nat cs)) []"
proof -
  have cs: "0 < cs" using assms(1) by (simp add: connect_message_def)
  have w: "does [] (with_message (write_message (Set_Window_Size_write_payload 2500000) 0 2 0 4 5 0)) cs cs []
      (message_bytes (nat cs) 2 0 5 0 (rev (mem_of (2500000 :: int32)))) []"
    by (rule window.send_does(1) [OF cs assms(2)]) (simp_all flip: length_0_conv)
  have b: "does [] (with_message (write_message (Set_Peer_Bandwidth_write_payload 2500000 2) 0 2 0 5 6 0)) cs cs []
      (message_bytes (nat cs) 2 0 6 0 (rev (mem_of (2500000 :: int32)) @ [2])) []"
    by (rule bandwidth.send_does(1) [OF cs assms(2)]) simp_all
  have r: "does [] (with_message
       (write_message (Send_Object_Message_write_payload (str ''_result'') (double_of_nat 1) CONNECT_APP_RESPONSE) 0 3 0
          (of_int (Send_Object_Message_get_payload_size (str ''_result'') CONNECT_APP_RESPONSE)) 20 0)) cs cs []
     (message_bytes (nat cs) 3 0 20 0 (Send_Object_bytes (str ''_result'') (double_of_nat 1) CONNECT_APP_RESPONSE)) []"
    by (rule result.send_does(1) [OF cs assms(2) Send_Object_sizes(3,1)])
      (simp add: computed_lengths [of _ _ "double_of_nat 1"])
  have o: "does [] (with_message
       (write_message (Send_Object_Message_write_payload (str ''onBWDone'') (double_of_nat 0) ON_BW_DONE) 0 3 0
          (of_int (Send_Object_Message_get_payload_size (str ''onBWDone'') ON_BW_DONE)) 20 0)) cs cs []
     (message_bytes (nat cs) 3 0 20 0 (Send_Object_bytes (str ''onBWDone'') (double_of_nat 0) ON_BW_DONE)) []"
    by (rule bwdone.send_does(1) [OF cs assms(2) Send_Object_sizes(3,2)])
      (simp add: computed_lengths [of _ _ "double_of_nat 0"])
  show ?thesis unfolding connect_answer_def connect_reply_def
    using does_bind [OF recv_connect_does [OF assms(1)] does_bind [OF w does_bind [OF b does_bind [OF r o]]]]
    by simp
qed

section \<open>Identifying the peer\<close>

lemma identify_push:
  assumes "poised [] c" and "fits m (csid_header c)" and "pending (net c) = p_wire m @ rest" and "length (p_data m) \<noteq> 4"
  shows "\<exists>d. identify_phase c = Some (Ok Push_flow, d) \<and> poised (p_head m) d \<and> p_head m @ pending (net d) = p_wire m @ rest
    \<and> chunk_size d = chunk_size c \<and> csid_header d = noted m (csid_header c) \<and> sent (net d) = sent (net c)
    \<and> set_data_frame d = set_data_frame c \<and> audio_video_buffer d = audio_video_buffer c"
proof -
  let ?c = "new_message c"
  have c: "rx_fine (net ?c)" "fits m (csid_header ?c)"
    "io_buffer ?c @ pending (net ?c) = p_head m @ chunked (p_f3 m) (p_chunk m) (p_data m) @ rest"
    "length (io_buffer ?c) \<le> length (p_head m)"
    using assms(1-3) by (simp_all add: poised_def new_message_def p_wire_def)
  obtain e where e: "read_header_get_payloadLength ?c = Some (Ok (int (length (p_data m))), note_in m e)"
    "io_buffer e = p_head m" "pending (net e) = chunked (p_f3 m) (p_chunk m) (p_data m) @ rest" "rx_fine (net e)"
    "frame_io e = frame_io ?c"
    using recv_head [OF c] by blast
  have "identify_phase c = Some (Ok Push_flow, put (p_head m) (delete_message (note_in m e)))"
    using e(1,2) assms(4) by (simp add: identify_phase_def)
  then show ?thesis using e(2-5) assms(1)
    by (intro exI [of _ "put (p_head m) (delete_message (note_in m e))"])
      (simp add: poised_def put_def push_back_def delete_message_def buffer_clear_def frame_io_iff new_message_def
        tx_fine_def p_wire_def)
qed

lemma identify_pull:
  assumes "poised [] c" and "fits m (csid_header c)" and "pending (net c) = p_wire m @ rest" and "length (p_data m) = 4"
    and "4 \<le> p_chunk m"
  shows "\<exists>d. identify_phase c = Some (Ok Pull_flow, d) \<and> turn (chunk_size c) (chunk_size c) [m] [] [] c d
    \<and> pending (net d) = rest"
proof -
  let ?c = "new_message c"
  have w: "p_wire m = p_head m @ p_data m" using chunked_short [of "p_data m" "p_chunk m"] assms(4,5) by (simp add: p_wire_def)
  have c: "rx_fine (net ?c)" "fits m (csid_header ?c)" "io_buffer ?c @ pending (net ?c) = p_head m @ p_data m @ rest"
    "length (io_buffer ?c) \<le> length (p_head m)"
    using assms(1-3) w by (simp_all add: poised_def new_message_def)
  obtain e where e: "read_header_get_payloadLength ?c = Some (Ok 4, note_in m e)"
    "io_buffer e = p_head m" "pending (net e) = p_data m @ rest" "rx_fine (net e)" "frame_io e = frame_io ?c"
    using recv_head [OF c] assms(4) by auto
  let ?e = "delete_message (note_in m e)"
  have r: "rx_fine (net ?e)" "4 \<le> length (io_buffer ?e) + length (pending (net ?e))"
    using e(3,4) assms(4) by (simp_all add: delete_message_def buffer_clear_def)
  obtain k d where d: "read_nbytes_cycle 4 0 ?e = Some (Ok k, d)" "io_buffer d @ pending (net d) = p_data m @ rest"
    "length (io_buffer d) = 4" "rx_fine (net d)" "frame_io d = frame_io ?e"
    using io.fill [OF r, of 0] e(3) by (auto simp: delete_message_def buffer_clear_def)
  have p: "pending (net d) = rest"
    using d(2,3) assms(4) append_eq_append_conv [of "io_buffer d" "p_data m" "pending (net d)" rest] by simp
  let ?d = "d\<lparr>io_buffer := []\<rparr>"
  have "identify_phase c = Some (Ok Pull_flow, ?d)"
    using e(1) d(1) by (simp add: identify_phase_def bind_act_def clear_buffer_def modify_act_def return_act_def buffer_clear_def)
  moreover have "turn (chunk_size c) (chunk_size c) [m] [] [] c ?d"
    using assms(1,3) d(4,5) e(5) p
    by (simp add: turn_def poised_def delete_message_def buffer_clear_def frame_io_iff new_message_def tx_fine_def)
  ultimately show ?thesis using p by (intro exI [of _ ?d]) simp
qed

section \<open>The conversation with a publisher\<close>

text \<open>
  What a publisher says behind \<open>connect\<close>: \<open>releaseStream\<close>, \<open>FCPublish\<close>, \<open>createStream\<close>, \<open>_checkbw\<close>, one more
  message, \<open>publish\<close>, \<open>@setDataFrame\<close>; and what it gets for it.
\<close>

definition publisher_script :: "amf_object \<Rightarrow> pmsg list \<Rightarrow> bool" where
  "publisher_script kvs ms \<longleftrightarrow> length ms = 7 \<and> null_command (p_data (ms ! 0)) \<and> null_command (p_data (ms ! 1))
     \<and> null_command (p_data (ms ! 2)) \<and> publish_command (p_data (ms ! 5)) \<and> data_frame_message kvs (p_data (ms ! 6))
     \<and> list_all (\<lambda>m. length (p_data m) \<le> p_chunk m) ms"

definition push_reply :: "nat \<Rightarrow> bytes" where
  "push_reply cs =
     message_bytes cs 3 0 20 0 (ReleaseStreamResponse_bytes (double_of_nat 2))
     @ message_bytes cs 2 0 1 0 (rev (mem_of (4096 :: int32)))
     @ message_bytes 4096 3 0 20 0 (ReleaseStreamResponse_bytes (double_of_nat 3))
     @ message_bytes 4096 3 0 20 0 (CreateStreamResponse_bytes (double_of_nat 4) (double_of_nat 1))
     @ message_bytes 4096 3 0 20 0 (OnFCPublish_bytes (double_of_nat 0))
     @ message_bytes 4096 3 0 20 1 (OnStatus_bytes (double_of_nat 0))"

lemma list_7:
  assumes "length xs = 7"
  obtains a b c d e f g where "xs = [a, b, c, d, e, f, g]"
  using assms by (auto simp: numeral_eq_Suc length_Suc_conv)

lemma payload_nonempty:
  "ReleaseStreamResponse_bytes t \<noteq> []" "CreateStreamResponse_bytes t s \<noteq> []" "OnFCPublish_bytes t \<noteq> []"
  "OnStatus_bytes t \<noteq> []" "StreamBegin_bytes \<noteq> []" "PullStreamOnStatus_bytes name t ty \<noteq> []"
  "RtmpSampleAccess_bytes \<noteq> []" "PullStreamOnStatus3_bytes \<noteq> []"
  by (simp_all add: payload_defs amf_command_def)

lemma push_setup_does:
  assumes "publisher_script kvs ms" and "0 < cs" and "cs < 2 ^ 31"
  shows "does (p_head (hd ms)) push_setup cs 4096 ms (push_reply (nat cs)) kvs"
proof -
  obtain m1 m2 m3 m4 m5 m6 m7 where ms: "ms = [m1, m2, m3, m4, m5, m6, m7]"
    using assms(1) list_7 unfolding publisher_script_def by metis
  note s = assms(1) [unfolded ms publisher_script_def, simplified]
  have four: "(0::int) < 4096" "(4096::int) < 2 ^ 31" by simp_all
  have 1: "does (p_head m1) (recv_print ReleaseStream_read_payload) cs cs [m1] [] []"
    using release_in.recv_does(1) s by simp
  have 2: "does [] (send_ignore (ReleaseStreamResponse_write_payload (double_of_nat 2)) 3 21 20 0) cs cs []
      (message_bytes (nat cs) 3 0 20 0 (ReleaseStreamResponse_bytes (double_of_nat 2))) []"
    by (rule release.send_does(2) [OF assms(2,3)]) (simp_all add: literal_lengths payload_nonempty)
  note 3 = send_chunk_size_does [OF assms(2,3)]
  have 4: "does [] (recv_print FCPublish_read_payload) 4096 4096 [m2] [] []" using fcpublish_in.recv_does(1) s by simp
  have 5: "does [] (send_ignore (FCPublishResponse_write_payload (double_of_nat 3)) 3 21 20 0) 4096 4096 []
      (message_bytes (nat 4096) 3 0 20 0 (ReleaseStreamResponse_bytes (double_of_nat 3))) []"
    by (rule fcpublish.send_does(2) [OF four]) (simp_all add: literal_lengths payload_nonempty)
  have 6: "does [] (recv_print CreateStream_read_payload) 4096 4096 [m3] [] []" using create_in.recv_does(1) s by simp
  have 7: "does [] (send_ignore (CreateStreamResponse_write_payload (double_of_nat 4) (double_of_nat 1)) 3 29 20 0) 4096 4096 []
      (message_bytes (nat 4096) 3 0 20 0 (CreateStreamResponse_bytes (double_of_nat 4) (double_of_nat 1))) []"
    by (rule create.send_does(2) [OF four]) (simp_all add: literal_lengths payload_nonempty)
  have 8: "does [] (recv_drop CheckBW_read_payload) 4096 4096 [m4] [] []" using checkbw.recv_does(2) s by simp
  have 9: "does [] (recv_drop UnknownMessage_read_payload) 4096 4096 [m5] [] []" using unknown.recv_does(2) s by simp
  have 10: "does [] (recv_drop Publish_read_payload) 4096 4096 [m6] [] []" using publish_in.recv_does(2) s by simp
  have 11: "does [] (send_ignore (OnFCPublish_write_payload (double_of_nat 0)) 3 102 20 0) 4096 4096 []
      (message_bytes (nat 4096) 3 0 20 0 (OnFCPublish_bytes (double_of_nat 0))) []"
    by (rule onfcpublish.send_does(2) [OF four]) (simp_all add: literal_lengths payload_nonempty)
  have 12: "does [] (send_ignore (OnStatus_write_payload (double_of_nat 0)) 3 136 20 1) 4096 4096 []
      (message_bytes (nat 4096) 3 0 20 1 (OnStatus_bytes (double_of_nat 0))) []"
    by (rule onstatus.send_does(2) [OF four]) (simp_all add: literal_lengths payload_nonempty)
  have 13: "does [] (recv_drop SetDataFrame_read_payload) 4096 4096 [m7] [] kvs" using data_in.recv_does(2) s by simp
  show ?thesis unfolding push_setup_def push_reply_def ms
    using does_bind [OF 1 does_bind [OF 2 does_bind [OF 3 does_bind [OF 4 does_bind [OF 5 does_bind [OF 6
      does_bind [OF 7 does_bind [OF 8 does_bind [OF 9 does_bind [OF 10 does_bind [OF 11 does_bind [OF 12 13]]]]]]]]]]]]
    by simp
qed

section \<open>The conversation with a player\<close>

definition player_script :: "pmsg list \<Rightarrow> bool" where
  "player_script ms \<longleftrightarrow> length ms = 5 \<and> null_command (p_data (ms ! 0)) \<and> null_command (p_data (ms ! 2))
     \<and> null_command (p_data (ms ! 3)) \<and> list_all (\<lambda>m. length (p_data m) \<le> p_chunk m) ms"

definition pull_reply :: "nat \<Rightarrow> bytes" where
  "pull_reply cs =
     message_bytes cs 3 0 20 0 (CreateStreamResponse_bytes (double_of_nat 2) (double_of_nat 1))
     @ message_bytes cs 2 0 1 0 (rev (mem_of (4096 :: int32)))
     @ message_bytes 4096 2 0 4 0 StreamBegin_bytes
     @ message_bytes 4096 5 0 20 1 (PullStreamOnStatus_bytes (str ''onStatus'') (double_of_nat 0) PULL_ONSTATUS1)
     @ message_bytes 4096 5 0 20 1 (PullStreamOnStatus_bytes (str ''onStatus'') (double_of_nat 0) PULL_ONSTATUS2)
     @ message_bytes 4096 5 0 18 1 RtmpSampleAccess_bytes
     @ message_bytes 4096 5 0 18 1 PullStreamOnStatus3_bytes"

lemma list_5:
  assumes "length xs = 5"
  obtains a b c d e where "xs = [a, b, c, d, e]"
  using assms by (auto simp: numeral_eq_Suc length_Suc_conv)

lemma pull_setup_does:
  assumes "player_script ms" and "0 < cs" and "cs < 2 ^ 31"
  shows "does [] pull_setup cs 4096 ms (pull_reply (nat cs)) []"
proof -
  obtain m1 m2 m3 m4 m5 where ms: "ms = [m1, m2, m3, m4, m5]"
    using assms(1) list_5 unfolding player_script_def by metis
  note s = assms(1) [unfolded ms player_script_def, simplified]
  have four: "(0::int) < 4096" "(4096::int) < 2 ^ 31" by simp_all
  have 1: "does [] (recv_print CreateStream_read_payload) cs cs [m1] [] []" using create_in.recv_does(1) s by simp
  have 2: "does [] (send_ignore (CreateStreamResponse_write_payload (double_of_nat 2) (double_of_nat 1)) 3 29 20 0) cs cs []
      (message_bytes (nat cs) 3 0 20 0 (CreateStreamResponse_bytes (double_of_nat 2) (double_of_nat 1))) []"
    by (rule create.send_does(2) [OF assms(2,3)]) (simp_all add: literal_lengths payload_nonempty)
  have 3: "does [] (recv_drop CheckBW_read_payload) cs cs [m2] [] []" using checkbw.recv_does(2) s by simp
  have 4: "does [] (recv_print GetStreamLength_read_payload) cs cs [m3] [] []" using getlength_in.recv_does(1) s by simp
  have 5: "does [] (recv_print PlayCommandMessage_read_payload) cs cs [m4] [] []" using play_in.recv_does(1) s by simp
  have 6: "does [] (recv_drop UnknownMessage_read_payload) cs cs [m5] [] []" using unknown.recv_does(2) s by simp
  note 7 = send_chunk_size_does [OF assms(2,3)]
  have 8: "does [] (send_ignore SrcPCUCStreamBegin_write_payload 2 6 4 0) 4096 4096 []
      (message_bytes (nat 4096) 2 0 4 0 StreamBegin_bytes) []"
    by (rule begin_stream.send_does(2) [OF four]) (simp_all add: literal_lengths payload_nonempty)
  have 9: "does [] (send_ignore (PullStreamOnStatus_write_payload (str ''onStatus'') (double_of_nat 0) PULL_ONSTATUS1)
      5 154 20 1) 4096 4096 [] (message_bytes (nat 4096) 5 0 20 1
        (PullStreamOnStatus_bytes (str ''onStatus'') (double_of_nat 0) PULL_ONSTATUS1)) []"
    by (rule pullstatus.send_does(2) [OF four]) (simp_all add: literal_lengths payload_nonempty)
  have 10: "does [] (send_ignore (PullStreamOnStatus_write_payload (str ''onStatus'') (double_of_nat 0) PULL_ONSTATUS2)
      5 148 20 1) 4096 4096 [] (message_bytes (nat 4096) 5 0 20 1
        (PullStreamOnStatus_bytes (str ''onStatus'') (double_of_nat 0) PULL_ONSTATUS2)) []"
    by (rule pullstatus.send_does(2) [OF four]) (simp_all add: literal_lengths payload_nonempty)
  have 11: "does [] (send_ignore RtmpSampleAccess_write_payload 5 24 18 1) 4096 4096 []
      (message_bytes (nat 4096) 5 0 18 1 RtmpSampleAccess_bytes) []"
    by (rule sample.send_does(2) [OF four]) (simp_all add: literal_lengths payload_nonempty)
  have 12: "does [] (send_ignore PullStreamOnStatus3_write_payload 5 44 18 1) 4096 4096 []
      (message_bytes (nat 4096) 5 0 18 1 PullStreamOnStatus3_bytes) []"
    by (rule onstatus3.send_does(2) [OF four]) (simp_all add: literal_lengths payload_nonempty)
  show ?thesis unfolding pull_setup_def pull_reply_def ms
    using does_bind [OF 1 does_bind [OF 2 does_bind [OF 3 does_bind [OF 4 does_bind [OF 5 does_bind [OF 6
      does_bind [OF 7 does_bind [OF 8 does_bind [OF 9 does_bind [OF 10 does_bind [OF 11 12]]]]]]]]]]]
    by simp
qed

section \<open>Whole sessions\<close>

lemma poised_Nil: "poised [] c \<longleftrightarrow> idle c"
  by (simp add: poised_def idle_def)

lemma connect_phase_split: "connect_phase = bind_act handshake (\<lambda>_. connect_answer)"
  by (simp add: connect_phase_def connect_answer_def)

lemma connect_phase_ok:
  assumes "idle c" and "chunk_size c < 2 ^ 31" and "connect_message (chunk_size c) m" and "fits m (csid_header c)"
    and "pending (net c) = 0x03 # c1 @ c2 @ p_wire m @ rest" and "length c1 = 1536" and "length c2 = 1536"
  shows "\<exists>d. connect_phase c = Some (Ok (), d) \<and> idle d \<and> pending (net d) = rest \<and> chunk_size d = chunk_size c
    \<and> sent (net d) = sent (net c) @ handshake_reply @ connect_reply (nat (chunk_size c))
    \<and> csid_header d = noted m (csid_header c) \<and> set_data_frame d = set_data_frame c
    \<and> audio_video_buffer d = audio_video_buffer c"
proof -
  obtain s where s: "handshake c = Some (Ok (), c\<lparr>net := s\<rparr>)" "pending s = p_wire m @ rest" "rx_fine s" "tx_fine s"
    "sent s = sent (net c) @ handshake_reply" using handshake_ok [OF assms(1,5-7)] by blast
  let ?c = "c\<lparr>net := s\<rparr>"
  have c: "poised [] ?c" "chunk_size ?c = chunk_size c" "[] @ pending (net ?c) = concat (map p_wire [m]) @ rest"
    "announced (csid_header ?c) [m]" using assms(1,4) s by (simp_all add: poised_def idle_def)
  obtain d where d: "connect_answer ?c = Some (Ok (), d)" "pending (net d) = rest"
    "turn (chunk_size c) (chunk_size c) [m] (connect_reply (nat (chunk_size c))) [] ?c d"
    using doesD [OF connect_answer_does [OF assms(3,2)] c] by blast
  have "connect_phase c = Some (Ok (), d)" by (simp add: connect_phase_split bind_act_def s(1) d(1))
  then show ?thesis using d(2,3) s(5) by (intro exI [of _ d]) (simp add: turn_def poised_Nil)
qed

text \<open>A value in the connect command that is neither a number nor a string breaks the logging.\<close>

lemma connect_phase_bad_cast:
  assumes "idle c" and "0 < chunk_size c" and "fits m (csid_header c)"
    and "p_data m = connect_bytes name tid kvs" and "p_chunk m = nat (chunk_size c)"
    and "name \<noteq> []" and "length name < 2 ^ 15" and "readable kvs" and "distinct (map fst kvs)" and "\<not> printable_object kvs"
    and "pending (net c) = 0x03 # c1 @ c2 @ p_wire m @ rest" and "length c1 = 1536" and "length c2 = 1536"
  shows "\<exists>d. connect_phase c = Some (Fault BadCast, d) \<and> sent (net d) = sent (net c) @ handshake_reply"
proof -
  obtain s where s: "handshake c = Some (Ok (), c\<lparr>net := s\<rparr>)" "pending s = p_wire m @ rest" "rx_fine s" "tx_fine s"
    "sent s = sent (net c) @ handshake_reply" using handshake_ok [OF assms(1,11-13)] by blast
  let ?c = "c\<lparr>net := s\<rparr>"
  have c: "poised [] ?c" "fits m (csid_header ?c)" "pending (net ?c) = p_wire m @ rest"
    "p_chunk m = nat (chunk_size ?c)" "0 < chunk_size ?c" using assms(1-3,5) s by (simp_all add: poised_def idle_def)
  obtain d where d: "recv_message ConnectMessage_read_payload (new_message ?c) = Some (Ok (), d)" "object (cur d) = kvs"
    "turn (chunk_size ?c) (chunk_size ?c) [m] [] [] ?c (delete_message d)"
    using recv_connect_parsed [OF c(1-3) assms(4) c(4,5) assms(6-9)] by blast
  have p: "with_message (bind_act (recv_message ConnectMessage_read_payload) (\<lambda>_. common_print)) ?c = Some (Fault BadCast, d)"
    using d(1,2) assms(10)
    by (simp add: with_message_def bind_act_def modify_act_def common_print_def printable_object_def)
  have b: "bind_act f g x = Some (Fault e, x')" if "f x = Some (Fault e, x')" for f :: "(ctx, unit) act" and g :: "unit \<Rightarrow> (ctx, unit) act" and x x' e
    using that by (simp add: bind_act_def)
  have "connect_answer ?c = Some (Fault BadCast, d)" unfolding connect_answer_def by (rule b) (rule p)
  then have "connect_phase c = Some (Fault BadCast, d)" by (simp add: connect_phase_split bind_act_def s(1))
  moreover have "sent (net d) = sent s" using d(3) by (simp add: turn_def delete_message_def buffer_clear_def)
  ultimately show ?thesis using s(5) by auto
qed

lemma script_first:
  assumes "publisher_script kvs ms"
  obtains m ns where "ms = m # ns" and "length (p_data m) \<noteq> 4"
proof -
  obtain m ns where ms: "ms = m # ns" using assms by (cases ms) (auto simp: publisher_script_def)
  then show ?thesis using that assms by (auto simp: publisher_script_def null_command_def)
qed

lemma publisher_session:
  assumes "idle c" and "chunk_size c < 2 ^ 31" and "connect_message (chunk_size c) m" and "publisher_script kvs ms"
    and "announced (csid_header c) (m # ms)"
    and "pending (net c) = 0x03 # c1 @ c2 @ concat (map p_wire (m # ms)) @ rest"
    and "length c1 = 1536" and "length c2 = 1536"
  shows "\<exists>d. process_setup c = Some (Ok (), d) \<and> idle d \<and> pending (net d) = rest \<and> chunk_size d = 4096
    \<and> sent (net d) = sent (net c) @ handshake_reply @ connect_reply (nat (chunk_size c)) @ push_reply (nat (chunk_size c))
    \<and> csid_header d = fold noted (m # ms) (csid_header c) \<and> set_data_frame d = set_data_frame c @ kvs
    \<and> audio_video_buffer d = audio_video_buffer c"
proof -
  let ?cs = "chunk_size c"
  have cs: "0 < ?cs" using assms(3) by (simp add: connect_message_def)
  have p: "pending (net c) = 0x03 # c1 @ c2 @ p_wire m @ concat (map p_wire ms) @ rest" using assms(6) by simp
  have f: "fits m (csid_header c)" "announced (noted m (csid_header c)) ms" using assms(5) by simp_all
  obtain d where d: "connect_phase c = Some (Ok (), d)" "idle d" "pending (net d) = concat (map p_wire ms) @ rest"
    "chunk_size d = ?cs" "sent (net d) = sent (net c) @ handshake_reply @ connect_reply (nat ?cs)"
    "csid_header d = noted m (csid_header c)" "set_data_frame d = set_data_frame c"
    "audio_video_buffer d = audio_video_buffer c"
    using connect_phase_ok [OF assms(1-3) f(1) p assms(7,8)] by blast
  obtain m1 ns where ms: "ms = m1 # ns" "length (p_data m1) \<noteq> 4" using script_first [OF assms(4)] .
  have i: "poised [] d" "fits m1 (csid_header d)" "pending (net d) = p_wire m1 @ concat (map p_wire ns) @ rest"
    using d(2,3,6) f(2) ms(1) by (simp_all add: poised_Nil)
  obtain e where e: "identify_phase d = Some (Ok Push_flow, e)" "poised (p_head m1) e"
    "p_head m1 @ pending (net e) = p_wire m1 @ concat (map p_wire ns) @ rest" "chunk_size e = ?cs"
    "csid_header e = noted m1 (noted m (csid_header c))" "sent (net e) = sent (net d)"
    "set_data_frame e = set_data_frame d" "audio_video_buffer e = audio_video_buffer d"
    using identify_push [OF i ms(2)] d(4,6) by auto
  have r: "poised (p_head (hd ms)) e" "p_head (hd ms) @ pending (net e) = concat (map p_wire ms) @ rest"
    "announced (csid_header e) ms" using e(2,3,5) f(2) ms(1) fits_noted by simp_all
  obtain g where g: "push_setup e = Some (Ok (), g)" "turn ?cs 4096 ms (push_reply (nat ?cs)) kvs e g" "pending (net g) = rest"
    using doesD [OF push_setup_does [OF assms(4) cs assms(2)] r(1) e(4) r(2,3)] by blast
  have "process_setup c = Some (Ok (), g)" by (simp add: process_setup_def bind_act_def d(1) e(1) g(1))
  then show ?thesis using g(2,3) e(5-8) d(5,7,8) ms(1)
    by (intro exI [of _ g]) (simp add: turn_def poised_Nil)
qed

lemma player_session:
  assumes "idle c" and "chunk_size c < 2 ^ 31" and "connect_message (chunk_size c) m" and "player_script ms"
    and "length (p_data a) = 4" and "4 \<le> p_chunk a" and "announced (csid_header c) (m # a # ms)"
    and "pending (net c) = 0x03 # c1 @ c2 @ concat (map p_wire (m # a # ms)) @ rest"
    and "length c1 = 1536" and "length c2 = 1536"
  shows "\<exists>d. process_setup c = Some (Ok (), d) \<and> idle d \<and> pending (net d) = rest \<and> chunk_size d = 4096
    \<and> sent (net d) = sent (net c) @ handshake_reply @ connect_reply (nat (chunk_size c)) @ pull_reply (nat (chunk_size c))
    \<and> csid_header d = fold noted (m # a # ms) (csid_header c) \<and> set_data_frame d = set_data_frame c
    \<and> audio_video_buffer d = audio_video_buffer c"
proof -
  let ?cs = "chunk_size c"
  have cs: "0 < ?cs" using assms(3) by (simp add: connect_message_def)
  have p: "pending (net c) = 0x03 # c1 @ c2 @ p_wire m @ p_wire a @ concat (map p_wire ms) @ rest" using assms(8) by simp
  have f: "fits m (csid_header c)" "fits a (noted m (csid_header c))" "announced (noted a (noted m (csid_header c))) ms"
    using assms(7) by simp_all
  obtain d where d: "connect_phase c = Some (Ok (), d)" "idle d" "pending (net d) = p_wire a @ concat (map p_wire ms) @ rest"
    "chunk_size d = ?cs" "sent (net d) = sent (net c) @ handshake_reply @ connect_reply (nat ?cs)"
    "csid_header d = noted m (csid_header c)" "set_data_frame d = set_data_frame c"
    "audio_video_buffer d = audio_video_buffer c"
    using connect_phase_ok [OF assms(1-3) f(1) p assms(9,10)] by blast
  have i: "poised [] d" "fits a (csid_header d)" using d(2,6) f(2) by (simp_all add: poised_Nil)
  obtain e where e: "identify_phase d = Some (Ok Pull_flow, e)" "turn ?cs ?cs [a] [] [] d e"
    "pending (net e) = concat (map p_wire ms) @ rest"
    using identify_pull [OF i d(3) assms(5,6)] d(4) by auto
  have r: "poised [] e" "chunk_size e = ?cs" "announced (csid_header e) ms" "[] @ pending (net e) = concat (map p_wire ms) @ rest"
    using e(2,3) f(3) d(6) by (simp_all add: turn_def)
  obtain g where g: "pull_setup e = Some (Ok (), g)" "turn ?cs 4096 ms (pull_reply (nat ?cs)) [] e g" "pending (net g) = rest"
    using doesD [OF pull_setup_does [OF assms(4) cs assms(2)] r(1,2,4,3)] by blast
  have "process_setup c = Some (Ok (), g)" by (simp add: process_setup_def bind_act_def d(1) e(1) g(1))
  then show ?thesis using g(2,3) e(2) d(5-8)
    by (intro exI [of _ g]) (simp add: turn_def poised_Nil)
qed

section \<open>The metadata a player gets\<close>

fun sendable_value :: "Value_Object \<Rightarrow> bool" where
  "sendable_value (Value_String s) = (length s < 2 ^ 15)"
| "sendable_value (Value_Len l) = False"
| "sendable_value _ = True"

definition sendable :: "amf_object \<Rightarrow> bool" where
  "sendable kvs \<longleftrightarrow> list_all (\<lambda>(k, v). length k < 2 ^ 15 \<and> sendable_value v) kvs"

definition metadata_bytes :: "amf_object \<Rightarrow> bytes" where
  "metadata_bytes fs = 0x02 # amf_string (str ''onMetaData'') @ amf_one fs"

lemma OnMetaData_write_value_put: "sendable_value v \<Longrightarrow> OnMetaData_write_value v = modify_act (put (amf_value v))"
  by (cases v) (simp_all add: emit_string_put)

lemma OnMetaData_members:
  assumes "sendable fs"
  shows "for_each_act (\<lambda>(key, v). bind_act (emit_string key) (\<lambda>_. OnMetaData_write_value v)) fs
    = modify_act (put (amf_members fs))"
  unfolding amf_members_def using assms
  by (intro for_each_put) (auto simp: sendable_def list_all_iff emit_string_put OnMetaData_write_value_put)

lemma OnMetaData_put:
  assumes "sendable (set_data_frame c @ [OnMetaData_server])"
  shows "OnMetaData_write_payload (str ''onMetaData'') c
    = Some (Ok (), put (metadata_bytes (set_data_frame c @ [OnMetaData_server]))
        (c\<lparr>set_data_frame := set_data_frame c @ [OnMetaData_server]\<rparr>))"
proof -
  let ?fs = "set_data_frame c @ [OnMetaData_server]"
  have w: "emit_swapped se2be_2bytes 2 (mem_of (10 :: 64 word)) = modify_act (put (rev (mem_of (10 :: 16 word))))"
    using se2.emit [of "mem_of (10 :: 64 word)"] by (simp add: mem_of_def nat_le_numeral)
  show ?thesis
    by (simp add: OnMetaData_write_payload_def w OnMetaData_members [OF assms] write_end_put modify_act_def
        metadata_bytes_def amf_one_def amf_string_def put_def push_back_def)
qed

interpretation raw: payload_writer "modify_act (put p)" p for p
  by unfold_locales simp

lemma pull_metadata_sends:
  assumes "idle c" and "0 < chunk_size c" and "chunk_size c < 2 ^ 31" and "fs = set_data_frame c @ [OnMetaData_server]"
    and "sendable fs" and "length (metadata_bytes fs) < 2 ^ 31"
  shows "\<exists>d. pull_metadata c = Some (Ok (), d) \<and> idle d \<and> pending (net d) = pending (net c) \<and> chunk_size d = chunk_size c
    \<and> sent (net d) = sent (net c) @ header_bytes 0 4 0 395 18 1
        @ chunked (fmt3_header 4) (nat (chunk_size c)) (metadata_bytes fs)
    \<and> csid_header d = csid_header c \<and> set_data_frame d = fs \<and> audio_video_buffer d = audio_video_buffer c"
proof -
  let ?c = "new_message c" and ?h = "header_bytes 0 4 0 395 18 1" and ?M = "metadata_bytes fs"
  let ?f = "?c\<lparr>set_data_frame := fs\<rparr>"
  have p: "OnMetaData_write_payload (str ''onMetaData'') (put ?h ?c) = Some (Ok (), put (?h @ ?M) ?f)"
    using OnMetaData_put [of "put ?h ?c"] assms(4,5) by (simp add: put_def push_back_def new_message_def)
  have "write_message (OnMetaData_write_payload (str ''onMetaData'')) 0 4 0 395 18 1 ?c
    = write_message (modify_act (put ?M)) 0 4 0 395 18 1 ?f"
    by (simp add: write_message_def write_header_put bind_act_def modify_act_def p Let_def)
  moreover have "tx_fine (net ?f)" "0 < chunk_size ?f" "chunk_size ?f < 2 ^ 31" "?M \<noteq> []"
    "length (io_buffer ?f @ ?h @ ?M) < 2 ^ 64"
    using assms(1-3,6) length_header_bytes [of 0 4 0 395 18 1] by (simp_all add: idle_def new_message_def metadata_bytes_def)
  ultimately obtain d where d: "write_message (OnMetaData_write_payload (str ''onMetaData'')) 0 4 0 395 18 1 ?c = Some (Ok (), d)"
    "sends (io_buffer ?f @ ?h @ chunked (fmt3_header 4) (nat (chunk_size ?f)) ?M) (put (?h @ ?M) ?f) d"
    using raw.write_message_sends [of ?f 0 ?M 4 0 395 18 1] by fastforce
  have "pull_metadata c = Some (Ok (), delete_message d)"
    by (simp add: pull_metadata_def send_ignore_def with_message_def bind_act_def modify_act_def ignore_act_def d(1))
  then show ?thesis using d(2) assms(1)
    by (intro exI [of _ "delete_message d"])
      (auto simp: sends_def idle_def delete_message_def buffer_clear_def new_message_def put_def pending_def rx_fine_def)
qed

section \<open>From a publisher to a player\<close>

text \<open>The globals of \<^verbatim>\<open>io_message.cpp\<close> are those of the process: a thread that runs finds what the last one left.\<close>

definition share :: "ctx \<Rightarrow> ctx \<Rightarrow> ctx" where
  "share g c = c\<lparr>curr_csid := curr_csid g, set_data_frame := set_data_frame g, csid_header := csid_header g,
     audio_video_buffer := audio_video_buffer g\<rparr>"

lemma share_simps [simp]:
  "io_buffer (share g c) = io_buffer c" "net (share g c) = net c" "chunk_size (share g c) = chunk_size c"
  "set_data_frame (share g c) = set_data_frame g" "csid_header (share g c) = csid_header g"
  "audio_video_buffer (share g c) = audio_video_buffer g" "idle (share g c) = idle c"
  by (simp_all add: share_def idle_def)

lemma broadcast:
  assumes pub: "idle p" "chunk_size p = 128" "connect_message 128 m" "publisher_script kvs ms"
      "announced (csid_header p) (m # ms)" "audio_video_buffer p = []"
      "pending (net p) = 0x03 # c1 @ c2 @ concat (map p_wire (m # ms)) @ concat (map (av_wire 4096) avs)"
      "length c1 = 1536" "length c2 = 1536"
    and ply: "idle q" "chunk_size q = 128" "connect_message 128 n" "player_script ns" "length (p_data a) = 4" "4 \<le> p_chunk a"
      "announced (fold noted (m # ms) (csid_header p)) (n # a # ns)"
      "pending (net q) = 0x03 # c3 @ c4 @ concat (map p_wire (n # a # ns)) @ rest" "length c3 = 1536" "length c4 = 1536"
    and meta: "fs = set_data_frame p @ kvs @ [OnMetaData_server]" "sendable fs" "length (metadata_bytes fs) < 2 ^ 31"
    and stream: "s = p\<lparr>csid_header := fold noted (m # ms @ n # a # ns) (csid_header p)\<rparr>" "stream_ok s avs"
  shows "\<exists>p1 q1 q2 r. process_setup p = Some (Ok (), p1) \<and> process_setup (share p1 q) = Some (Ok (), q1)
    \<and> pull_metadata q1 = Some (Ok (), q2) \<and> room_run (room_start (share q2 p1) q2) r
    \<and> seen r = entries s avs \<and> told r = entries s avs
    \<and> sent (net (ply r)) = sent (net q) @ handshake_reply @ connect_reply 128 @ pull_reply 128
        @ header_bytes 0 4 0 395 18 1 @ chunked (fmt3_header 4) 4096 (metadata_bytes fs)
        @ concat (map (relayed 4096) (entries s avs))"
proof -
  obtain p1 where p1: "process_setup p = Some (Ok (), p1)" "idle p1" "pending (net p1) = concat (map (av_wire 4096) avs)"
    "chunk_size p1 = 4096" "csid_header p1 = fold noted (m # ms) (csid_header p)"
    "set_data_frame p1 = set_data_frame p @ kvs" "audio_video_buffer p1 = []"
    using publisher_session [of p m kvs ms c1 c2] pub by auto
  obtain q1 where q1: "process_setup (share p1 q) = Some (Ok (), q1)" "idle q1" "chunk_size q1 = 4096"
    "sent (net q1) = sent (net q) @ handshake_reply @ connect_reply 128 @ pull_reply 128"
    "csid_header q1 = fold noted (n # a # ns) (csid_header p1)" "set_data_frame q1 = set_data_frame p1"
    "audio_video_buffer q1 = []"
    using player_session [of "share p1 q" n ns a c3 c4 rest] ply p1(5,7) by auto
  have q: "0 < chunk_size q1" "chunk_size q1 < 2 ^ 31" "fs = set_data_frame q1 @ [OnMetaData_server]"
    using q1(3,6) p1(6) meta(1) by simp_all
  obtain q2 where q2: "pull_metadata q1 = Some (Ok (), q2)" "idle q2" "chunk_size q2 = 4096"
    "sent (net q2) = sent (net q1) @ header_bytes 0 4 0 395 18 1 @ chunked (fmt3_header 4) 4096 (metadata_bytes fs)"
    "csid_header q2 = csid_header q1" "audio_video_buffer q2 = []"
    using pull_metadata_sends [OF q1(2) q meta(2,3)] q1(3,7) by auto
  let ?p = "share q2 p1"
  have st: "stream_ok ?p avs" "entries ?p avs = entries s avs"
    using stream_cong [of ?p s avs] stream q2(5) q1(5) p1(5) by simp_all
  have inv: "room_inv 4096 4096 (entries s avs) (sent (net q2)) (room_start ?p q2)"
    using room_start_inv [of ?p 4096 avs q2 4096] p1(2-4) q2(2,3,6) st by (simp add: idle_def)
  obtain r where r: "room_run (room_start ?p q2) r" "seen r = entries s avs" "told r = entries s avs"
    using lockstep [OF inv _ _ _ _ run_start] by (auto simp: room_start_def)
  have "room_inv 4096 4096 (entries s avs) (sent (net q2)) r" using room_run_inv [OF r(1) inv] by simp
  then have "sent (net (room.ply r)) = sent (net q2) @ concat (map (relayed 4096) (entries s avs))"
    using r(3) by (simp add: room_inv_def)
  then show ?thesis using p1(1) q1(1,4) q2(1,4) r by (intro exI conjI) auto
qed

end
