(* ===== verification/Clist.thy ===== *)
theory Clist
  imports Prelude
begin

text \<open>
  The circular doubly linked lists of \<^verbatim>\<open>3rdpart/st-1.9/common.h\<close>, on which all queues of State
  Threads are built. The store maps the address of a link to its two pointers; the macros are
  sequences of stores, in the order of the source. \<open>clist s h xs\<close> says that the list with head \<open>h\<close>
  holds \<open>xs\<close>; the operations implement those of lists, and lists on other links are left alone.
  The interface is \<open>link_queue\<close>.
\<close>

type_synonym addr = nat

record links =
  next_of :: "addr \<Rightarrow> addr"
  prev_of :: "addr \<Rightarrow> addr"

definition set_next :: "addr \<Rightarrow> addr \<Rightarrow> links \<Rightarrow> links" where
  "set_next a v s = s\<lparr>next_of := (next_of s)(a := v)\<rparr>"

definition set_prev :: "addr \<Rightarrow> addr \<Rightarrow> links \<Rightarrow> links" where
  "set_prev a v s = s\<lparr>prev_of := (prev_of s)(a := v)\<rparr>"

section \<open>The macros\<close>

definition ST_INSERT_BEFORE :: "addr \<Rightarrow> addr \<Rightarrow> links \<Rightarrow> links" where
  "ST_INSERT_BEFORE e l s0 =
     (let s1 = set_next e l s0;
          s2 = set_prev e (prev_of s1 l) s1;
          s3 = set_next (prev_of s2 l) e s2
      in set_prev l e s3)"

definition ST_INSERT_AFTER :: "addr \<Rightarrow> addr \<Rightarrow> links \<Rightarrow> links" where
  "ST_INSERT_AFTER e l s0 =
     (let s1 = set_next e (next_of s0 l) s0;
          s2 = set_prev e l s1;
          s3 = set_prev (next_of s2 l) e s2
      in set_next l e s3)"

definition ST_APPEND_LINK :: "addr \<Rightarrow> addr \<Rightarrow> links \<Rightarrow> links" where
  "ST_APPEND_LINK e l = ST_INSERT_BEFORE e l"

definition ST_INSERT_LINK :: "addr \<Rightarrow> addr \<Rightarrow> links \<Rightarrow> links" where
  "ST_INSERT_LINK e l = ST_INSERT_AFTER e l"

definition ST_NEXT_LINK :: "addr \<Rightarrow> links \<Rightarrow> addr" where
  "ST_NEXT_LINK e s = next_of s e"

definition ST_LIST_HEAD :: "addr \<Rightarrow> links \<Rightarrow> addr" where
  "ST_LIST_HEAD l s = next_of s l"

definition ST_LIST_TAIL :: "addr \<Rightarrow> links \<Rightarrow> addr" where
  "ST_LIST_TAIL l s = prev_of s l"

definition ST_REMOVE_LINK :: "addr \<Rightarrow> links \<Rightarrow> links" where
  "ST_REMOVE_LINK e s0 =
     (let s1 = set_next (prev_of s0 e) (next_of s0 e) s0
      in set_prev (next_of s1 e) (prev_of s1 e) s1)"

definition ST_CLIST_IS_EMPTY :: "addr \<Rightarrow> links \<Rightarrow> bool" where
  "ST_CLIST_IS_EMPTY l s \<longleftrightarrow> next_of s l = l"

definition ST_INIT_CLIST :: "addr \<Rightarrow> links \<Rightarrow> links" where
  "ST_INIT_CLIST l s = set_prev l l (set_next l l s)"

lemma set_links [simp]:
  "next_of (set_next a v s) b = (if b = a then v else next_of s b)"
  "prev_of (set_next a v s) = prev_of s"
  "prev_of (set_prev a v s) b = (if b = a then v else prev_of s b)"
  "next_of (set_prev a v s) = next_of s"
  by (simp_all add: set_next_def set_prev_def)

lemmas clist_defs = ST_INSERT_BEFORE_def ST_INSERT_AFTER_def ST_APPEND_LINK_def ST_INSERT_LINK_def
  ST_REMOVE_LINK_def ST_INIT_CLIST_def Let_def

section \<open>What a ring of links holds\<close>

fun seg :: "links \<Rightarrow> addr \<Rightarrow> addr list \<Rightarrow> addr \<Rightarrow> bool" where
  "seg s a [] b \<longleftrightarrow> next_of s a = b \<and> prev_of s b = a"
| "seg s a (x # xs) b \<longleftrightarrow> next_of s a = x \<and> prev_of s x = a \<and> seg s x xs b"

definition clist :: "links \<Rightarrow> addr \<Rightarrow> addr list \<Rightarrow> bool" where
  "clist s h xs \<longleftrightarrow> seg s h xs h \<and> distinct (h # xs)"

lemma seg_append: "seg s a (xs @ y # ys) b \<longleftrightarrow> seg s a xs y \<and> seg s y ys b"
  by (induction xs arbitrary: a) auto

lemma seg_frame:
  assumes "\<And>z. z \<in> set (a # xs) \<Longrightarrow> next_of s' z = next_of s z"
    and "\<And>z. z \<in> set (b # xs) \<Longrightarrow> prev_of s' z = prev_of s z"
  shows "seg s' a xs b \<longleftrightarrow> seg s a xs b"
  using assms by (induction xs arbitrary: a) auto

lemma seg_ends: "seg s a xs b \<Longrightarrow> next_of s a \<in> set (xs @ [b]) \<and> prev_of s b \<in> set (a # xs)"
  by (induction xs arbitrary: a) auto

lemma seg_last: "seg s a xs b \<Longrightarrow> prev_of s b = last (a # xs)"
  by (induction xs arbitrary: a) auto

lemma seg_first: "seg s a xs b \<Longrightarrow> next_of s a = hd (xs @ [b])"
  by (cases xs) auto

text \<open>A segment whose end is moved to another link.\<close>

lemma seg_redirect:
  assumes "seg s a xs b" and "distinct (a # xs)"
    and "\<And>z. z \<in> set (a # xs) \<Longrightarrow> z \<noteq> last (a # xs) \<Longrightarrow> next_of s' z = next_of s z"
    and "\<And>z. z \<in> set xs \<Longrightarrow> prev_of s' z = prev_of s z"
    and "next_of s' (last (a # xs)) = e" and "prev_of s' e = last (a # xs)"
  shows "seg s' a xs e"
  using assms
proof (induction xs arbitrary: a)
  case (Cons x xs)
  have "a \<noteq> last (a # x # xs)"
    using Cons(3) by (metis distinct.simps(2) last.simps last_in_set list.distinct(1))
  then have "next_of s' a = x" "prev_of s' x = a" using Cons(2,4,5) by auto
  moreover have "seg s' x xs e"
    using Cons(2-7) by (intro Cons(1)) (auto split: if_splits)
  ultimately show ?case by simp
qed simp

lemma seg_insert_before:
  assumes "seg s a xs l" and "distinct (a # xs)" and "l \<notin> set xs" and "e \<notin> set (a # l # xs)"
  shows "seg (ST_INSERT_BEFORE e l s) a (xs @ [e]) l"
    and "next_of (ST_INSERT_BEFORE e l s) z
      = (if z = last (a # xs) then e else if z = e then l else next_of s z)"
    and "prev_of (ST_INSERT_BEFORE e l s) z
      = (if z = l then e else if z = e then last (a # xs) else prev_of s z)"
proof -
  let ?s = "ST_INSERT_BEFORE e l s" and ?p = "last (a # xs)"
  have p: "prev_of s l = ?p" using seg_last [OF assms(1)] .
  have el: "e \<noteq> l" "?p \<noteq> e" using assms(4) last_in_set [of "a # xs"] by auto
  show n: "next_of ?s z = (if z = ?p then e else if z = e then l else next_of s z)" for z
    using el p by (auto simp: clist_defs)
  show v: "prev_of ?s z = (if z = l then e else if z = e then ?p else prev_of s z)" for z
    using el p by (auto simp: clist_defs)
  have "seg ?s a xs e"
    by (rule seg_redirect [OF assms(1)]) (use assms(2-4) el n v in auto)
  moreover have "next_of ?s e = l" "prev_of ?s l = e" using n v el by auto
  ultimately show "seg ?s a (xs @ [e]) l" by (simp add: seg_append)
qed

lemma clist_append:
  assumes "clist s h xs" and "e \<notin> set (h # xs)"
  shows "clist (ST_APPEND_LINK e h s) h (xs @ [e])"
  using seg_insert_before(1) [of s h xs h e] assms
  by (simp add: clist_def ST_APPEND_LINK_def)

lemma clist_insert_before:
  assumes "clist s h (xs @ l # ys)" and "e \<notin> set (h # xs @ l # ys)"
  shows "clist (ST_INSERT_BEFORE e l s) h (xs @ e # l # ys)"
proof -
  have g: "seg s h xs l" "seg s l ys h" "distinct (h # xs @ l # ys)"
    using assms(1) by (simp_all add: clist_def seg_append)
  have p: "last (h # xs) \<in> set (h # xs)" by (rule last_in_set) simp
  have d: "distinct (h # xs)" "l \<notin> set xs" "e \<notin> set (h # l # xs)" using g(3) assms(2) by auto
  note b = seg_insert_before [OF g(1) d]
  have "seg (ST_INSERT_BEFORE e l s) l ys h \<longleftrightarrow> seg s l ys h"
    by (rule seg_frame) (use b(2,3) g(3) assms(2) p in auto)
  with b(1) g show ?thesis using assms(2) by (auto simp: clist_def seg_append)
qed

lemma clist_insert:
  assumes "clist s h xs" and "e \<notin> set (h # xs)"
  shows "clist (ST_INSERT_LINK e h s) h (e # xs)"
proof (cases xs)
  case Nil
  with assms show ?thesis by (auto simp: clist_def clist_defs)
next
  case (Cons x r)
  have g: "next_of s h = x" "seg s x r h" "distinct (h # x # r)"
    using assms(1) by (simp_all add: clist_def Cons)
  have "seg (ST_INSERT_LINK e h s) x r h \<longleftrightarrow> seg s x r h"
    by (rule seg_frame) (use g assms(2) in \<open>auto simp: clist_defs Cons\<close>)
  with g assms(2) show ?thesis by (auto simp: clist_def clist_defs Cons)
qed

lemma clist_remove:
  assumes "clist s h (xs @ e # ys)"
  shows "clist (ST_REMOVE_LINK e s) h (xs @ ys)"
proof -
  let ?s = "ST_REMOVE_LINK e s" and ?p = "last (h # xs)" and ?n = "hd (ys @ [h])"
  have g: "seg s h xs e" "seg s e ys h" "distinct (h # xs @ e # ys)"
    using assms by (simp_all add: clist_def seg_append)
  have pn: "prev_of s e = ?p" "next_of s e = ?n"
    using seg_last [OF g(1)] seg_first [OF g(2)] by simp_all
  have p: "?p \<in> set (h # xs)" by (rule last_in_set) simp
  have n: "?n = h \<or> ?n \<in> set ys" by (cases ys) auto
  have e: "?p \<noteq> e" "?n \<noteq> e" using p n g(3) by auto
  have nx: "next_of ?s z = (if z = ?p then ?n else next_of s z)"
    and pv: "prev_of ?s z = (if z = ?n then ?p else prev_of s z)" for z
    using pn e by (auto simp: clist_defs)
  have nxs: "?n \<notin> set xs" using n g(3) by auto
  have a: "seg ?s h xs ?n"
    by (rule seg_redirect [OF g(1)]) (use g(3) nx pv nxs in auto)
  show ?thesis
  proof (cases ys)
    case Nil
    with a g(3) show ?thesis by (simp add: clist_def)
  next
    case (Cons y r)
    have "seg ?s y r h \<longleftrightarrow> seg s y r h"
      by (rule seg_frame) (use nx pv g(3) p Cons in auto)
    with a g Cons show ?thesis by (simp add: clist_def seg_append)
  qed
qed

lemma clist_init: "clist (ST_INIT_CLIST h s) h []"
  by (simp add: clist_def clist_defs)

lemma clist_is_empty: "clist s h xs \<Longrightarrow> ST_CLIST_IS_EMPTY h s \<longleftrightarrow> xs = []"
  by (cases xs) (auto simp: clist_def ST_CLIST_IS_EMPTY_def)

lemma clist_head: "clist s h xs \<Longrightarrow> ST_LIST_HEAD h s = hd (xs @ [h])"
  by (simp add: clist_def ST_LIST_HEAD_def seg_first)

lemma clist_tail: "clist s h xs \<Longrightarrow> ST_LIST_TAIL h s = last (h # xs)"
  unfolding clist_def ST_LIST_TAIL_def by (blast dest: seg_last)

text \<open>Walking a list with \<open>q = q->next\<close> visits its elements in order and comes back to the head.\<close>

lemma clist_next:
  "clist s h (xs @ e # ys) \<Longrightarrow> ST_NEXT_LINK e s = hd (ys @ [h])"
  by (simp add: clist_def seg_append ST_NEXT_LINK_def seg_first)

lemma clist_frame:
  assumes "clist s k zs" and "\<And>z. z \<in> set (k # zs) \<Longrightarrow> next_of s' z = next_of s z"
    and "\<And>z. z \<in> set (k # zs) \<Longrightarrow> prev_of s' z = prev_of s z"
  shows "clist s' k zs"
  using assms seg_frame [of k zs s' s k] by (simp add: clist_def)

lemma clist_append_frame:
  assumes "clist s h xs" and "e \<notin> set (h # xs)" and "clist s k zs"
    and "set (k # zs) \<inter> set (e # h # xs) = {}"
  shows "clist (ST_APPEND_LINK e h s) k zs"
proof -
  have g: "seg s h xs h" "distinct (h # xs)" "h \<notin> set xs" "e \<notin> set (h # h # xs)"
    using assms(1,2) by (auto simp: clist_def)
  have p: "last (h # xs) \<in> set (h # xs)" by (rule last_in_set) simp
  show ?thesis unfolding ST_APPEND_LINK_def
    by (rule clist_frame [OF assms(3)])
       (use seg_insert_before(2,3) [OF g] p assms(4) in auto)
qed

lemma clist_remove_frame:
  assumes "clist s h (xs @ e # ys)" and "clist s k zs"
    and "set (k # zs) \<inter> set (h # xs @ e # ys) = {}"
  shows "clist (ST_REMOVE_LINK e s) k zs"
proof -
  have g: "seg s h xs e" "seg s e ys h" using assms(1) by (simp_all add: clist_def seg_append)
  have "prev_of s e \<in> set (h # xs)" "next_of s e \<in> set (ys @ [h])"
    using seg_ends [OF g(1)] seg_ends [OF g(2)] by auto
  then show ?thesis
    using assms(3) by (intro clist_frame [OF assms(2)]) (auto simp: clist_defs)
qed

section \<open>The interface\<close>

text \<open>
  What the queues of the scheduler rely on. The client's lemma: a queue that is filled by appending
  and emptied from the head hands the elements out in order.
\<close>

locale link_queue =
  fixes holds :: "'s \<Rightarrow> addr \<Rightarrow> addr list \<Rightarrow> bool"
    and init :: "addr \<Rightarrow> 's \<Rightarrow> 's"
    and append :: "addr \<Rightarrow> addr \<Rightarrow> 's \<Rightarrow> 's"
    and remove :: "addr \<Rightarrow> 's \<Rightarrow> 's"
    and head :: "addr \<Rightarrow> 's \<Rightarrow> addr"
  assumes init_holds: "holds (init h s) h []"
    and append_holds: "holds s h xs \<Longrightarrow> e \<notin> set (h # xs) \<Longrightarrow> holds (append e h s) h (xs @ [e])"
    and remove_holds: "holds s h (xs @ e # ys) \<Longrightarrow> holds (remove e s) h (xs @ ys)"
    and head_holds: "holds s h (x # xs) \<Longrightarrow> head h s = x"
begin

primrec drain :: "nat \<Rightarrow> addr \<Rightarrow> 's \<Rightarrow> addr list \<times> 's" where
  "drain 0 h s = ([], s)"
| "drain (Suc n) h s =
     (let e = head h s; (es, s') = drain n h (remove e s) in (e # es, s'))"

lemma append_many:
  assumes "holds s h ys" and "distinct xs" and "set xs \<inter> set (h # ys) = {}"
  shows "holds (fold (\<lambda>e. append e h) xs s) h (ys @ xs)"
  using assms
proof (induction xs arbitrary: s ys)
  case (Cons x xs)
  have "holds (append x h s) h (ys @ [x])" using Cons by (intro append_holds) auto
  then have "holds (fold (\<lambda>e. append e h) xs (append x h s)) h ((ys @ [x]) @ xs)"
    using Cons(3,4) by (intro Cons(1)) auto
  then show ?case by simp
qed simp

lemma drain_holds: "holds s h xs \<Longrightarrow> fst (drain (length xs) h s) = xs"
proof (induction xs arbitrary: s)
  case (Cons x xs)
  have "holds (remove x s) h xs" using remove_holds [of s h "[]" x xs] Cons(2) by simp
  with Cons head_holds [OF Cons(2)] show ?case by (simp add: Let_def split: prod.splits) (metis fst_conv)
qed simp

theorem fifo:
  assumes "distinct xs" and "h \<notin> set xs"
  shows "fst (drain (length xs) h (fold (\<lambda>e. append e h) xs (init h s))) = xs"
  using append_many [OF init_holds, of xs h s] assms drain_holds by simp

end

interpretation cl: link_queue clist ST_INIT_CLIST ST_APPEND_LINK ST_REMOVE_LINK ST_LIST_HEAD
  by unfold_locales (auto intro: clist_init clist_append clist_remove dest: clist_head)

end
