(* ===== verification/Timeout_Heap.thy ===== *)
theory Timeout_Heap
  imports Prelude
begin

text \<open>
  The timeout heap of State Threads (\<^verbatim>\<open>3rdpart/st-1.9/sched.c\<close>, \<open>heap_insert\<close> and \<open>heap_delete\<close>):
  a binary heap of threads ordered by \<open>due\<close>, in which every thread knows its position
  (\<open>heap_index\<close>) and a position is reached from the root by the bits of its index. The left and
  right pointers of the threads are a tree here; following a null pointer is \<open>None\<close>. At the end the
  heap is an instance of the interface \<open>timeout_queue\<close> the scheduler is written against.
\<close>

section \<open>The heap and its operations\<close>

type_synonym tid = nat
type_synonym utime = "64 word"

record hthread =
  hid :: tid
  due :: utime
  heap_index :: nat

datatype htree = Leaf | Node (hleft: htree) (hval: hthread) (hright: htree)

text \<open>\<open>while (s) { s >>= 1; bits++; }\<close> and the loop \<open>for (bit = bits - 2; bit >= 0; bit--)\<close>.\<close>

fun nbits :: "nat \<Rightarrow> nat" where
  "nbits s = (if s = 0 then 0 else Suc (nbits (s div 2)))"

declare nbits.simps [simp del]

definition heap_path :: "nat \<Rightarrow> bool list" where
  "heap_path target = map (\<lambda>k. odd (target div 2 ^ k)) (rev [0..<nbits target - 1])"

definition child_index :: "nat \<Rightarrow> bool \<Rightarrow> nat" where
  "child_index index b = 2 * index + of_bool b"

text \<open>
  The descent of \<open>heap_insert\<close>: the thread in hand changes place with the one met when it is due
  earlier. \<open>at_end\<close> is what happens in the slot that is reached: \<open>heap_insert\<close> puts the thread there
  with no children; \<open>heap_delete\<close> keeps the children of the thread it replaces and goes on sinking.
\<close>

fun heap_descend ::
  "(nat \<Rightarrow> hthread \<Rightarrow> htree \<Rightarrow> htree option) \<Rightarrow> bool list \<Rightarrow> nat \<Rightarrow> hthread \<Rightarrow> htree \<Rightarrow> htree option"
where
  "heap_descend at_end [] index thread p = at_end index thread p"
| "heap_descend at_end (b # bs) index thread Leaf = None"
| "heap_descend at_end (b # bs) index thread (Node l x r) =
     (let top = (if due thread < due x then thread\<lparr>heap_index := index\<rparr> else x);
          rest = (if due thread < due x then x else thread)
      in if b
         then map_option (\<lambda>r'. Node l top r')
                (heap_descend at_end bs (child_index index True) rest r)
         else map_option (\<lambda>l'. Node l' top r)
                (heap_descend at_end bs (child_index index False) rest l))"

definition insert_end :: "nat \<Rightarrow> hthread \<Rightarrow> htree \<Rightarrow> htree option" where
  "insert_end index thread p = Some (Node Leaf (thread\<lparr>heap_index := index\<rparr>) Leaf)"

definition heap_insert :: "hthread \<Rightarrow> htree \<Rightarrow> htree option" where
  "heap_insert thread q = heap_descend insert_end (heap_path (heap_index thread)) 1 thread q"

text \<open>Find and unlink the last element.\<close>

fun unlink_last :: "bool list \<Rightarrow> htree \<Rightarrow> (hthread \<times> htree) option" where
  "unlink_last bs Leaf = None"
| "unlink_last [] (Node l x r) = Some (x, Leaf)"
| "unlink_last (b # bs) (Node l x r) =
     (if b then map_option (\<lambda>(t, r'). (t, Node l x r')) (unlink_last bs r)
      else map_option (\<lambda>(t, l'). (t, Node l' x r)) (unlink_last bs l))"

text \<open>
  The loop that reestablishes the heap: the thread changes place, and index, with its younger child
  while that one is due earlier.
\<close>

function sink :: "htree \<Rightarrow> hthread \<Rightarrow> htree \<Rightarrow> htree" where
  "sink Leaf t r = Node Leaf t r"
| "sink (Node ll y lr) t Leaf =
     (if due y < due t
      then Node (sink ll (t\<lparr>heap_index := heap_index y\<rparr>) lr) (y\<lparr>heap_index := heap_index t\<rparr>) Leaf
      else Node (Node ll y lr) t Leaf)"
| "sink (Node ll y lr) t (Node rl z rr) =
     (if due y < due z
      then (if due y < due t
            then Node (sink ll (t\<lparr>heap_index := heap_index y\<rparr>) lr) (y\<lparr>heap_index := heap_index t\<rparr>)
                   (Node rl z rr)
            else Node (Node ll y lr) t (Node rl z rr))
      else (if due z < due t
            then Node (Node ll y lr) (z\<lparr>heap_index := heap_index t\<rparr>)
                   (sink rl (t\<lparr>heap_index := heap_index z\<rparr>) rr)
            else Node (Node ll y lr) t (Node rl z rr)))"
  by pat_completeness auto
termination by (relation "measure (\<lambda>(l, t, r). size l + size r)") auto

definition replace_end :: "nat \<Rightarrow> hthread \<Rightarrow> htree \<Rightarrow> htree option" where
  "replace_end index t p =
     (case p of Leaf \<Rightarrow> None | Node l old r \<Rightarrow> Some (sink l (t\<lparr>heap_index := index\<rparr>) r))"

text \<open>\<open>thread\<close> is the node to be deleted and \<open>n\<close> the size before the call.\<close>

definition heap_delete :: "hthread \<Rightarrow> nat \<Rightarrow> htree \<Rightarrow> htree option" where
  "heap_delete thread n q =
     (case unlink_last (heap_path n) q of
        None \<Rightarrow> None
      | Some (t, q') \<Rightarrow>
          (if hid t = hid thread then Some q'
           else heap_descend replace_end (heap_path (heap_index thread)) 1
                  (t\<lparr>heap_index := heap_index thread\<rparr>) q'))"

text \<open>The sleep queue of the virtual processor and its two operations.\<close>

record sleepq =
  sleep_q :: htree
  sleepq_size :: nat

definition sleepq_empty :: sleepq where
  "sleepq_empty = \<lparr>sleep_q = Leaf, sleepq_size = 0\<rparr>"

definition st_add_sleep_q :: "tid \<Rightarrow> utime \<Rightarrow> sleepq \<Rightarrow> sleepq option" where
  "st_add_sleep_q t d q =
     (let n = sleepq_size q + 1
      in map_option (\<lambda>h. \<lparr>sleep_q = h, sleepq_size = n\<rparr>)
           (heap_insert \<lparr>hid = t, due = d, heap_index = n\<rparr> (sleep_q q)))"

text \<open>The thread finds itself in the heap through its own fields, here through its identifier.\<close>

fun find_thread :: "tid \<Rightarrow> htree \<Rightarrow> hthread option" where
  "find_thread t Leaf = None"
| "find_thread t (Node l x r) =
     (if hid x = t then Some x
      else case find_thread t l of Some y \<Rightarrow> Some y | None \<Rightarrow> find_thread t r)"

definition st_del_sleep_q :: "tid \<Rightarrow> sleepq \<Rightarrow> sleepq option" where
  "st_del_sleep_q t q =
     (case find_thread t (sleep_q q) of
        None \<Rightarrow> None
      | Some x \<Rightarrow> map_option (\<lambda>h. \<lparr>sleep_q = h, sleepq_size = sleepq_size q - 1\<rparr>)
                   (heap_delete x (sleepq_size q) (sleep_q q)))"

lemmas heap_exec [exec_simps] = nbits.simps heap_path_def child_index_def insert_end_def
  heap_insert_def replace_end_def heap_delete_def sleepq_empty_def st_add_sleep_q_def
  st_del_sleep_q_def

section \<open>Positions\<close>

lemma nbits_double: "0 < i \<Longrightarrow> nbits (2 * i + of_bool b) = Suc (nbits i)"
  by (simp add: nbits.simps [of "2 * i + of_bool b"])

lemma nbits_pos: "0 < i \<Longrightarrow> 0 < nbits i"
  by (simp add: nbits.simps [of i])

lemma heap_path_1: "heap_path 1 = []"
  by (simp add: heap_path_def nbits.simps)

lemma heap_path_child:
  assumes "0 < i"
  shows "heap_path (child_index i b) = heap_path i @ [b]"
proof -
  let ?j = "2 * i + of_bool b"
  have up: "[0..<Suc n] = 0 # map Suc [0..<n]" for n
    using upt_conv_Cons [of 0 "Suc n"] map_Suc_upt [of 0 n] by simp
  have "nbits ?j - 1 = Suc (nbits i - 1)"
    using nbits_double [OF assms, of b] nbits_pos [OF assms] by simp
  then have "rev [0..<nbits ?j - 1] = map Suc (rev [0..<nbits i - 1]) @ [0]"
    by (simp only: up rev.simps rev_map)
  moreover have "?j div 2 ^ Suc k = i div 2 ^ k" for k
    by (cases b) (simp_all add: div_mult2_eq)
  ultimately show ?thesis
    by (cases b) (simp_all add: heap_path_def child_index_def)
qed

text \<open>\<open>down i bs\<close> is the position reached from \<open>i\<close>; \<open>below i j\<close> says that \<open>j\<close> is in the subtree of \<open>i\<close>.\<close>

definition down :: "nat \<Rightarrow> bool list \<Rightarrow> nat" where
  "down i bs = foldl child_index i bs"

definition below :: "nat \<Rightarrow> nat \<Rightarrow> bool" where
  "below i j \<longleftrightarrow> (\<exists>k. j div 2 ^ k = i)"

lemma down_simps [simp]: "down i [] = i" "down i (b # bs) = down (child_index i b) bs"
  by (simp_all add: down_def)

lemma down_append [simp]: "down i (bs @ [b]) = child_index (down i bs) b"
  by (simp add: down_def)

lemma down_heap_path: "0 < i \<Longrightarrow> down 1 (heap_path i) = i"
proof (induction i rule: less_induct)
  case (less i)
  show ?case
  proof (cases "i = 1")
    case True
    then show ?thesis using heap_path_1 by simp
  next
    case False
    define j where "j = i div 2"
    have j: "0 < j" "j < i" using less(2) False by (auto simp: j_def)
    have i: "i = child_index j (odd i)" by (simp add: child_index_def j_def)
    have "down 1 (heap_path (child_index j (odd i))) = child_index j (odd i)"
      unfolding heap_path_child [OF j(1)] using less(1) [OF j(2,1)] by simp
    then show ?thesis unfolding i [symmetric] .
  qed
qed

lemma below_down: "below i (down i bs)"
proof (induction bs rule: rev_induct)
  case Nil
  then show ?case by (auto simp: below_def intro: exI [of _ 0])
next
  case (snoc b bs)
  then obtain k where "down i bs div 2 ^ k = i" by (auto simp: below_def)
  then have "child_index (down i bs) b div 2 ^ Suc k = i"
    by (cases b) (simp_all add: child_index_def div_mult2_eq)
  then show ?case unfolding below_def down_append by blast
qed

lemma below_refl: "below i i"
  using below_down [of i "[]"] by simp

lemma below_child: "below (child_index i b) j \<Longrightarrow> below i j"
proof -
  assume "below (child_index i b) j"
  then obtain k where "j div 2 ^ k = child_index i b" by (auto simp: below_def)
  moreover have "j div 2 ^ Suc k = j div 2 ^ k div 2" by (simp only: power_Suc2 div_mult2_eq)
  ultimately have "j div 2 ^ Suc k = i" by (cases b) (simp_all add: child_index_def)
  then show "below i j" unfolding below_def by blast
qed

lemma below_le: "below i j \<Longrightarrow> i \<le> j"
  by (auto simp: below_def)

lemma below_siblings:
  assumes "0 < i" and "below (child_index i b) j" and "below (child_index i (\<not> b)) j"
  shows False
proof -
  have no: False if "j div 2 ^ k = 2 * i" "j div 2 ^ m = 2 * i + 1" for k m
  proof (cases "k \<le> m")
    case True
    then have "j div 2 ^ m = j div 2 ^ k div 2 ^ (m - k)"
      by (simp flip: div_mult2_eq power_add)
    also have "\<dots> \<le> j div 2 ^ k" by (rule div_le_dividend)
    finally show False using that by simp
  next
    case False
    then have "j div 2 ^ k = j div 2 ^ m div 2 ^ (k - m)"
      by (simp flip: div_mult2_eq power_add)
    also have "\<dots> \<le> j div 2 ^ m div 2 ^ 1"
      using False by (intro div_le_mono2 power_increasing) auto
    finally have "2 * i \<le> (2 * i + 1) div 2" using that by simp
    then show False using assms(1) by simp
  qed
  show False using assms(2,3) no by (cases b) (auto simp: below_def child_index_def)
qed

section \<open>The invariant\<close>

text \<open>
  \<open>shape i n\<close>: below position \<open>i\<close> the tree has exactly the positions up to \<open>n\<close>, and every thread
  carries its position. \<open>heap_ordered\<close>: no thread is due before its parent.
\<close>

fun nodes :: "htree \<Rightarrow> hthread list" where
  "nodes Leaf = []"
| "nodes (Node l x r) = nodes l @ x # nodes r"

definition elem :: "hthread \<Rightarrow> tid \<times> utime" where
  "elem x = (hid x, due x)"

definition helems :: "htree \<Rightarrow> (tid \<times> utime) multiset" where
  "helems t = mset (map elem (nodes t))"

fun shape :: "nat \<Rightarrow> nat \<Rightarrow> htree \<Rightarrow> bool" where
  "shape i n Leaf \<longleftrightarrow> n < i"
| "shape i n (Node l x r) \<longleftrightarrow>
     i \<le> n \<and> heap_index x = i \<and> shape (child_index i False) n l \<and> shape (child_index i True) n r"

fun heap_ordered :: "htree \<Rightarrow> bool" where
  "heap_ordered Leaf \<longleftrightarrow> True"
| "heap_ordered (Node l x r) \<longleftrightarrow>
     (\<forall>e \<in># helems l + helems r. due x \<le> snd e) \<and> heap_ordered l \<and> heap_ordered r"

lemma elem_index [simp]: "elem (x\<lparr>heap_index := i\<rparr>) = elem x"
  by (simp add: elem_def)

lemma snd_elem [simp]: "snd (elem x) = due x"
  by (simp add: elem_def)

lemma fst_elem [simp]: "fst (elem x) = hid x" "fst \<circ> elem = hid"
  by (simp_all add: elem_def fun_eq_iff)

lemma helems_simps [simp]:
  "helems Leaf = {#}" "helems (Node l x r) = add_mset (elem x) (helems l + helems r)"
  by (simp_all add: helems_def)

lemma child_index_gt: "0 < i \<Longrightarrow> i < child_index i b"
  by (simp add: child_index_def)

lemma child_index_pos: "0 < i \<Longrightarrow> 0 < child_index i b"
  by (simp add: child_index_def)

lemma shape_extend:
  "shape j n t \<Longrightarrow> \<not> below j (Suc n) \<Longrightarrow> shape j (Suc n) t"
proof (induction j n t rule: shape.induct)
  case (1 i n)
  then have "i \<noteq> Suc n" using below_refl [of i] by auto
  with 1 show ?case by simp
next
  case (2 i n l x r)
  then show ?case using below_child [of i False "Suc n"] below_child [of i True "Suc n"] by auto
qed

lemma shape_shrink:
  "shape j (Suc n) t \<Longrightarrow> \<not> below j (Suc n) \<Longrightarrow> shape j n t"
proof (induction j "Suc n" t rule: shape.induct)
  case (2 i l x r)
  then show ?case
    using below_child [of i False "Suc n"] below_child [of i True "Suc n"] below_refl [of i]
    by (auto simp: le_Suc_eq)
qed simp

lemma shape_Node:
  assumes "shape i n t" and "i \<le> n"
  obtains l x r where "t = Node l x r"
  using assms by (cases t) auto

text \<open>The thread at the end of a path, and what a descent takes out of the tree there.\<close>

fun at_path :: "bool list \<Rightarrow> htree \<Rightarrow> hthread option" where
  "at_path bs Leaf = None"
| "at_path [] (Node l x r) = Some x"
| "at_path (b # bs) (Node l x r) = at_path bs (if b then r else l)"

fun lost :: "hthread option \<Rightarrow> (tid \<times> utime) multiset" where
  "lost None = {#}"
| "lost (Some x) = {#elem x#}"

lemma due_trans: "\<forall>e \<in># M. d \<le> snd e \<Longrightarrow> d' \<le> d \<Longrightarrow> \<forall>e \<in># M. (d' :: utime) \<le> snd e"
  by (blast intro: order_trans)

section \<open>The descent\<close>

text \<open>
  One lemma for both uses: \<open>n\<close> and \<open>n'\<close> are the sizes before and after, \<open>m\<close> the position aimed at.
\<close>

lemma descend_correct:
  assumes end_ok: "\<And>e t. shape m n t \<Longrightarrow> heap_ordered t \<Longrightarrow>
      \<exists>t'. at_end m e t = Some t' \<and> shape m n' t' \<and> heap_ordered t'
        \<and> helems t' + lost (at_path [] t) = add_mset (elem e) (helems t)"
    and off: "\<And>j t. shape j n t \<Longrightarrow> \<not> below j m \<Longrightarrow> shape j n' t"
    and m: "m \<le> Suc n" and n: "n \<le> n'"
  shows "shape i n t \<Longrightarrow> down i bs = m \<Longrightarrow> 0 < i \<Longrightarrow> heap_ordered t \<Longrightarrow>
    \<exists>t'. heap_descend at_end bs i e t = Some t' \<and> shape i n' t' \<and> heap_ordered t'
      \<and> helems t' + lost (at_path bs t) = add_mset (elem e) (helems t)"
proof (induction bs arbitrary: i e t)
  case Nil
  then show ?case using end_ok [of t e] by simp
next
  case (Cons b bs)
  have bl: "below (child_index i b) m" using Cons(3) below_down [of "child_index i b" bs] by simp
  have i: "i \<le> n" using below_le [OF bl] child_index_gt [OF Cons(4), of b] m by simp
  then obtain l x r where t: "t = Node l x r" using shape_Node [OF Cons(2)] by auto
  have nb: "\<not> below (child_index i (\<not> b)) m" using below_siblings [OF Cons(4) bl] by blast
  define top where "top = (if due e < due x then e\<lparr>heap_index := i\<rparr> else x)"
  define rest where "rest = (if due e < due x then x else e)"
  have k: "heap_index top = i" "due top \<le> due x" "due top \<le> due rest"
    "add_mset (elem top) {#elem rest#} = {#elem e, elem x#}"
    using Cons(2) by (auto simp: t top_def rest_def)
  define s u where "s = (if b then r else l)" and "u = (if b then l else r)"
  have sub: "shape (child_index i b) n s" "heap_ordered s" "shape (child_index i (\<not> b)) n u"
    "heap_ordered u" "\<forall>e \<in># helems s. due x \<le> snd e" "\<forall>e \<in># helems u. due x \<le> snd e"
    "helems t = add_mset (elem x) (helems s + helems u)"
    using Cons(2,5) by (auto simp: t s_def u_def ac_simps)
  obtain s' where s': "heap_descend at_end bs (child_index i b) rest s = Some s'"
    "shape (child_index i b) n' s'" "heap_ordered s'"
    "helems s' + lost (at_path bs s) = add_mset (elem rest) (helems s)"
    using Cons(1) [OF sub(1) _ child_index_pos [OF Cons(4)] sub(2)] Cons(3)
    unfolding down_simps by blast
  have u: "shape (child_index i (\<not> b)) n' u" using off [OF sub(3) nb] .
  have res: "heap_descend at_end (b # bs) i e t
    = Some (if b then Node u top s' else Node s' top u)"
    using s'(1) by (auto simp: t top_def rest_def Let_def s_def u_def)
  have "helems s' \<subseteq># add_mset (elem rest) (helems s)" unfolding s'(4) [symmetric] by simp
  then have in_s: "e \<in># helems s' \<Longrightarrow> e = elem rest \<or> e \<in># helems s" for e
    by (auto dest: mset_subset_eqD)
  then have "\<forall>e \<in># helems s'. due top \<le> snd e"
    using due_trans [OF sub(5) k(2)] k(3) by (metis snd_elem)
  then have "heap_ordered (if b then Node u top s' else Node s' top u)"
    using s'(3) sub(4) due_trans [OF sub(6) k(2)] by auto
  moreover have "shape i n' (if b then Node u top s' else Node s' top u)"
    using s'(2) u k(1) i n by (cases b) auto
  moreover have "helems (if b then Node u top s' else Node s' top u) + lost (at_path (b # bs) t)
    = add_mset (elem e) (helems t)"
  proof -
    have "helems (if b then Node u top s' else Node s' top u) + lost (at_path (b # bs) t)
      = {#elem top#} + (helems s' + lost (at_path bs s)) + helems u"
      by (cases b) (simp_all add: t s_def ac_simps)
    also have "\<dots> = add_mset (elem top) {#elem rest#} + helems s + helems u"
      unfolding s'(4) by simp
    also have "\<dots> = add_mset (elem e) (helems t)" unfolding k(4) sub(7) by simp
    finally show ?thesis .
  qed
  ultimately show ?case unfolding res by simp
qed

section \<open>Insertion\<close>

lemma heap_insert_correct:
  assumes "shape 1 n q" and "heap_ordered q" and "heap_index e = Suc n"
  shows "\<exists>q'. heap_insert e q = Some q' \<and> shape 1 (Suc n) q' \<and> heap_ordered q'
    \<and> helems q' = add_mset (elem e) (helems q)"
proof -
  have leaf: "at_path bs t = None" if "shape i n t" "down i bs = Suc n" "0 < i" for i bs t
    using that
  proof (induction bs arbitrary: i t)
    case Nil
    then show ?case by (cases t) auto
  next
    case (Cons b bs)
    then show ?case using child_index_pos by (cases t) (cases b; auto)+
  qed
  have e: "\<exists>t'. insert_end (Suc n) e t = Some t' \<and> shape (Suc n) (Suc n) t' \<and> heap_ordered t'
      \<and> helems t' + lost (at_path [] t) = add_mset (elem e) (helems t)" if "shape (Suc n) n t" for e t
    using that by (cases t) (auto simp: insert_end_def child_index_def)
  have "\<exists>t'. heap_descend insert_end (heap_path (Suc n)) 1 e q = Some t' \<and> shape 1 (Suc n) t'
      \<and> heap_ordered t' \<and> helems t' + lost (at_path (heap_path (Suc n)) q) = add_mset (elem e) (helems q)"
    by (rule descend_correct [where m = "Suc n" and n = n])
       (use e shape_extend assms down_heap_path [of "Suc n"] in auto)
  then show ?thesis
    using leaf [OF assms(1) down_heap_path] unfolding heap_insert_def assms(3) by auto
qed

section \<open>Deletion\<close>

lemma unlink_last_correct:
  assumes "shape i (Suc n) t" and "down i bs = Suc n" and "0 < i" and "heap_ordered t"
  shows "\<exists>x t'. unlink_last bs t = Some (x, t') \<and> shape i n t' \<and> heap_ordered t'
    \<and> helems t = add_mset (elem x) (helems t') \<and> set (nodes t) = insert x (set (nodes t'))"
  using assms
proof (induction bs arbitrary: i t)
  case Nil
  then obtain l x r where t: "t = Node l x r" using shape_Node [OF Nil(1)] by auto
  have "l = Leaf" "r = Leaf"
    using Nil by (auto simp: t child_index_def elim: shape.elims)
  with Nil t show ?case by auto
next
  case (Cons b bs)
  have bl: "below (child_index i b) (Suc n)" using Cons(3) below_down [of "child_index i b" bs] by simp
  have "i < Suc n" using below_le [OF bl] child_index_gt [OF Cons(4), of b] by simp
  then obtain l x r where t: "t = Node l x r" using shape_Node [OF Cons(2)] by auto
  have nb: "\<not> below (child_index i (\<not> b)) (Suc n)" using below_siblings [OF Cons(4) bl] by blast
  let ?s = "if b then r else l"
  have sub: "shape (child_index i b) (Suc n) ?s" "heap_ordered ?s" using Cons(2,5) by (auto simp: t)
  obtain y s' where s': "unlink_last bs ?s = Some (y, s')" "shape (child_index i b) n s'"
    "heap_ordered s'" "helems ?s = add_mset (elem y) (helems s')"
    "set (nodes ?s) = insert y (set (nodes s'))"
    using Cons(1) [OF sub(1) _ child_index_pos [OF Cons(4)] sub(2)] Cons(3) by auto
  have o: "shape (child_index i (\<not> b)) n (if b then l else r)"
    using Cons(2) nb by (cases b) (auto simp: t intro: shape_shrink)
  have res: "unlink_last (b # bs) t = Some (y, if b then Node l x s' else Node s' x r)"
    using s'(1) by (auto simp: t)
  show ?case unfolding res
    using s' o Cons(2,5) \<open>i < Suc n\<close> by (cases b) (auto simp: t)
qed

lemma sink_correct:
  assumes "heap_ordered l" and "heap_ordered r" and "shape i n (Node l t r)"
  shows "heap_ordered (sink l t r) \<and> shape i n (sink l t r)
    \<and> helems (sink l t r) = add_mset (elem t) (helems l + helems r)"
  using assms
proof (induction l t r arbitrary: i rule: sink.induct)
  case (1 t r)
  have "r = Leaf" using 1(3) by (cases r) (auto simp: child_index_def)
  with 1 show ?case by auto
next
  case (2 ll y lr t)
  show ?case
  proof (cases "due y < due t")
    case True
    have "shape (child_index i False) n (Node ll (t\<lparr>heap_index := heap_index y\<rparr>) lr)"
      using 2(4) by simp
    from 2(1) [OF True _ _ this] 2(2) True 2(4) show ?thesis by auto
  next
    case False
    then have "\<forall>e \<in># helems ll + helems lr. due t \<le> snd e"
      using due_trans [of "helems ll + helems lr" "due y" "due t"] 2(2) by simp
    with False 2(2,4) show ?thesis by auto
  qed
next
  case (3 ll y lr t rl z rr)
  have yz: "\<forall>e \<in># helems ll + helems lr. due y \<le> snd e" "\<forall>e \<in># helems rl + helems rr. due z \<le> snd e"
    using 3(3,4) by auto
  show ?case
  proof (cases "due y < due z")
    case yless: True
    show ?thesis
    proof (cases "due y < due t")
      case True
      have "shape (child_index i False) n (Node ll (t\<lparr>heap_index := heap_index y\<rparr>) lr)"
        using 3(5) by simp
      from 3(1) [OF yless True _ _ this] 3(3) have s:
        "heap_ordered (sink ll (t\<lparr>heap_index := heap_index y\<rparr>) lr)"
        "shape (child_index i False) n (sink ll (t\<lparr>heap_index := heap_index y\<rparr>) lr)"
        "helems (sink ll (t\<lparr>heap_index := heap_index y\<rparr>) lr) = add_mset (elem t) (helems ll + helems lr)"
        by auto
      have "\<forall>e \<in># helems rl + helems rr. due y \<le> snd e" using due_trans [OF yz(2)] yless by simp
      with s True yless 3(3-5) yz(1) show ?thesis by auto
    next
      case False
      have "\<forall>e \<in># helems ll + helems lr. due t \<le> snd e" "\<forall>e \<in># helems rl + helems rr. due t \<le> snd e"
        using due_trans [OF yz(1), of "due t"] due_trans [OF yz(2), of "due t"] False yless by simp_all
      with False yless 3(3-5) show ?thesis by auto
    qed
  next
    case zle: False
    show ?thesis
    proof (cases "due z < due t")
      case True
      have "shape (child_index i True) n (Node rl (t\<lparr>heap_index := heap_index z\<rparr>) rr)"
        using 3(5) by simp
      from 3(2) [OF zle True _ _ this] 3(4) have s:
        "heap_ordered (sink rl (t\<lparr>heap_index := heap_index z\<rparr>) rr)"
        "shape (child_index i True) n (sink rl (t\<lparr>heap_index := heap_index z\<rparr>) rr)"
        "helems (sink rl (t\<lparr>heap_index := heap_index z\<rparr>) rr) = add_mset (elem t) (helems rl + helems rr)"
        by auto
      have "\<forall>e \<in># helems ll + helems lr. due z \<le> snd e" using due_trans [OF yz(1)] zle by simp
      with s True zle 3(3-5) yz(2) show ?thesis by auto
    next
      case False
      have "\<forall>e \<in># helems ll + helems lr. due t \<le> snd e" "\<forall>e \<in># helems rl + helems rr. due t \<le> snd e"
        using due_trans [OF yz(1), of "due t"] due_trans [OF yz(2), of "due t"] False zle by simp_all
      with False zle 3(3-5) show ?thesis by auto
    qed
  qed
qed

lemma at_path_shape:
  assumes "shape i n t" and "down i bs = m" and "m \<le> n" and "0 < i"
  shows "\<exists>x. at_path bs t = Some x \<and> x \<in> set (nodes t) \<and> heap_index x = m"
  using assms
proof (induction bs arbitrary: i t)
  case Nil
  then show ?case by (cases t) auto
next
  case (Cons b bs)
  have bl: "below (child_index i b) m" using Cons(3) below_down [of "child_index i b" bs] by simp
  have "i \<le> n" using below_le [OF bl] child_index_gt [OF Cons(5), of b] Cons(4) by simp
  then obtain l x r where t: "t = Node l x r" using shape_Node [OF Cons(2)] by auto
  have "shape (child_index i b) n (if b then r else l)" using Cons(2) by (auto simp: t)
  from Cons(1) [OF this _ Cons(4) child_index_pos [OF Cons(5)]] Cons(3)
  show ?case by (cases b) (auto simp: t)
qed

lemma nodes_below: "shape i n t \<Longrightarrow> x \<in> set (nodes t) \<Longrightarrow> below i (heap_index x) \<and> heap_index x \<le> n"
proof (induction i n t rule: shape.induct)
  case (2 i n l y r)
  then show ?case using below_refl [of i] below_child [of i False] below_child [of i True] by auto
qed simp

text \<open>No two threads of the heap have the same position.\<close>

lemma index_inj:
  "shape i n t \<Longrightarrow> 0 < i \<Longrightarrow> x \<in> set (nodes t) \<Longrightarrow> y \<in> set (nodes t) \<Longrightarrow>
     heap_index x = heap_index y \<Longrightarrow> x = y"
proof (induction i n t rule: shape.induct)
  case (2 i n l z r)
  have nz: "\<not> below (child_index i b) i" for b
    using below_le [of "child_index i b" i] child_index_gt [OF 2(4), of b] by auto
  have l: "w \<in> set (nodes l) \<Longrightarrow> below (child_index i False) (heap_index w)"
    and r: "w \<in> set (nodes r) \<Longrightarrow> below (child_index i True) (heap_index w)" for w
    using 2(3) nodes_below [of "child_index i False" n l w] nodes_below [of "child_index i True" n r w]
    by auto
  have sib: False if "below (child_index i False) j" "below (child_index i True) j" for j
    using below_siblings [OF 2(4), of False j] that by simp
  show ?case
    using 2 nz l r sib child_index_pos [OF 2(4)] by (auto, metis+)
qed simp

lemma heap_delete_correct:
  assumes "shape 1 (Suc n) q" and "heap_ordered q" and "x \<in> set (nodes q)"
    and "distinct (map hid (nodes q))"
  shows "\<exists>q'. heap_delete x (Suc n) q = Some q' \<and> shape 1 n q' \<and> heap_ordered q'
    \<and> helems q = add_mset (elem x) (helems q')"
proof -
  obtain y q1 where y: "unlink_last (heap_path (Suc n)) q = Some (y, q1)" "shape 1 n q1"
    "heap_ordered q1" "helems q = add_mset (elem y) (helems q1)"
    "set (nodes q) = insert y (set (nodes q1))"
    using unlink_last_correct [OF assms(1) down_heap_path _ assms(2)] by auto
  show ?thesis
  proof (cases "hid y = hid x")
    case True
    then have "y = x" using assms(3,4) y(5) by (auto simp: distinct_map dest: inj_onD)
    with True y show ?thesis by (simp add: heap_delete_def)
  next
    case False
    let ?m = "heap_index x" and ?t = "y\<lparr>heap_index := heap_index x\<rparr>"
    have x1: "x \<in> set (nodes q1)" using assms(3) y(5) False by auto
    have m: "?m \<le> n" "0 < ?m"
      using nodes_below [OF y(2) x1] below_le [of 1 ?m] by auto
    obtain z where z: "at_path (heap_path ?m) q1 = Some z" "z \<in> set (nodes q1)" "heap_index z = ?m"
      using at_path_shape [OF y(2) down_heap_path [OF m(2)] m(1)] by auto
    have "z = x" using index_inj [OF y(2) _ z(2) x1 z(3)] by simp
    have e: "\<exists>t'. replace_end ?m e t = Some t' \<and> shape ?m n t' \<and> heap_ordered t'
        \<and> helems t' + lost (at_path [] t) = add_mset (elem e) (helems t)"
      if sh: "shape ?m n t" "heap_ordered t" for e t
    proof -
      obtain l w r where t: "t = Node l w r" using shape_Node [OF sh(1) m(1)] .
      have "shape ?m n (Node l (e\<lparr>heap_index := ?m\<rparr>) r)" using sh(1) by (simp add: t)
      from sink_correct [OF _ _ this] sh(2) show ?thesis by (auto simp: t replace_end_def)
    qed
    have "\<exists>t'. heap_descend replace_end (heap_path ?m) 1 ?t q1 = Some t' \<and> shape 1 n t'
        \<and> heap_ordered t' \<and> helems t' + lost (at_path (heap_path ?m) q1) = add_mset (elem ?t) (helems q1)"
      by (rule descend_correct [where m = ?m and n = n])
         (use e y m down_heap_path [OF m(2)] in auto)
    then obtain q' where q': "heap_descend replace_end (heap_path ?m) 1 ?t q1 = Some q'"
      "shape 1 n q'" "heap_ordered q'"
      "helems q' + lost (at_path (heap_path ?m) q1) = add_mset (elem ?t) (helems q1)" by blast
    have "heap_delete x (Suc n) q = Some q'" using y(1) q'(1) False by (simp add: heap_delete_def)
    moreover have "helems q = add_mset (elem x) (helems q')"
      using q'(4) y(4) z(1) \<open>z = x\<close> by simp
    ultimately show ?thesis using q' by blast
  qed
qed

section \<open>The interface of the scheduler\<close>

text \<open>
  What the scheduler relies on: a finite map from threads to due times, with insertion, removal of
  any thread and the thread that is due first.
\<close>

locale timeout_queue =
  fixes empty :: 'q
    and add :: "tid \<Rightarrow> utime \<Rightarrow> 'q \<Rightarrow> 'q option"
    and del :: "tid \<Rightarrow> 'q \<Rightarrow> 'q option"
    and first :: "'q \<Rightarrow> (tid \<times> utime) option"
    and due_of :: "'q \<Rightarrow> tid \<rightharpoonup> utime"
    and inv :: "'q \<Rightarrow> bool"
  assumes empty_inv: "inv empty" and empty_due: "due_of empty = Map.empty"
    and add_ok: "inv q \<Longrightarrow> due_of q t = None \<Longrightarrow>
      \<exists>q'. add t d q = Some q' \<and> inv q' \<and> due_of q' = (due_of q)(t \<mapsto> d)"
    and del_ok: "inv q \<Longrightarrow> due_of q t \<noteq> None \<Longrightarrow>
      \<exists>q'. del t q = Some q' \<and> inv q' \<and> due_of q' = (due_of q)(t := None)"
    and first_None: "inv q \<Longrightarrow> first q = None \<longleftrightarrow> due_of q = Map.empty"
    and first_Some: "inv q \<Longrightarrow> first q = Some (t, d) \<Longrightarrow>
      due_of q t = Some d \<and> (\<forall>t' d'. due_of q t' = Some d' \<longrightarrow> d \<le> d')"
    and due_finite: "inv q \<Longrightarrow> finite (dom (due_of q))"
begin

lemma pop_first:
  assumes "inv q" and "first q = Some (t, d)"
  shows "\<exists>q'. del t q = Some q' \<and> inv q' \<and> due_of q' = (due_of q)(t := None)
    \<and> due_of q t = Some d \<and> card (dom (due_of q')) < card (dom (due_of q))"
proof -
  have t: "due_of q t = Some d" using first_Some [OF assms] by simp
  obtain q' where q': "del t q = Some q'" "inv q'" "due_of q' = (due_of q)(t := None)"
    using del_ok [OF assms(1)] t by blast
  have "card (dom (due_of q')) < card (dom (due_of q))"
    unfolding q'(3) by (rule psubset_card_mono [OF due_finite [OF assms(1)]]) (use t in auto)
  with q' t show ?thesis by blast
qed

text \<open>If the first thread is not yet due, none is; a removed thread stays removed.\<close>

lemma none_due: "inv q \<Longrightarrow> first q = Some (t, d) \<Longrightarrow> now < d \<Longrightarrow> due_of q t' = Some d' \<Longrightarrow> now < d'"
  using first_Some [of q t d] by (auto intro: less_le_trans)

lemma add_del:
  assumes "inv q" and "due_of q t = None" and "add t d q = Some q1"
  shows "\<exists>q2. del t q1 = Some q2 \<and> due_of q2 = due_of q"
proof -
  have "inv q1" "due_of q1 = (due_of q)(t \<mapsto> d)" using add_ok [OF assms(1,2), of d] assms(3) by auto
  then show ?thesis using del_ok [of q1 t] assms(2) by (auto simp: fun_upd_idem)
qed

end

definition heap_first :: "sleepq \<Rightarrow> (tid \<times> utime) option" where
  "heap_first q = (case sleep_q q of Leaf \<Rightarrow> None | Node l x r \<Rightarrow> Some (hid x, due x))"

definition sleepq_due :: "sleepq \<Rightarrow> tid \<rightharpoonup> utime" where
  "sleepq_due q = map_of (map elem (nodes (sleep_q q)))"

definition sleepq_inv :: "sleepq \<Rightarrow> bool" where
  "sleepq_inv q \<longleftrightarrow> shape 1 (sleepq_size q) (sleep_q q) \<and> heap_ordered (sleep_q q)
     \<and> distinct (map hid (nodes (sleep_q q)))"

lemma map_fst_elem: "map fst (map elem xs) = map hid xs"
  by simp

lemma map_of_add_mset:
  assumes "mset xs = add_mset (t, d) (mset ys)" and "distinct (map fst xs)"
  shows "map_of xs = (map_of ys)(t \<mapsto> d)" and "distinct (map fst ys)" and "t \<notin> fst ` set ys"
proof -
  have m: "mset (map fst xs) = add_mset t (mset (map fst ys))"
    using arg_cong [OF assms(1), of "image_mset fst"] by simp
  then have "distinct (t # map fst ys)"
    using assms(2) mset_eq_imp_distinct_iff [of "map fst xs" "t # map fst ys"] by simp
  then show ys: "distinct (map fst ys)" "t \<notin> fst ` set ys" by auto
  have "set xs = insert (t, d) (set ys)"
    using arg_cong [OF assms(1), of set_mset] by simp
  then show "map_of xs = (map_of ys)(t \<mapsto> d)"
    using ys assms(2) map_of_inject_set [of xs "(t, d) # ys"] by auto
qed

lemma sleepq_add_ok:
  assumes "sleepq_inv q" and "sleepq_due q t = None"
  shows "\<exists>q'. st_add_sleep_q t d q = Some q' \<and> sleepq_inv q' \<and> sleepq_due q' = (sleepq_due q)(t \<mapsto> d)"
proof -
  let ?n = "sleepq_size q" and ?e = "\<lparr>hid = t, due = d, heap_index = sleepq_size q + 1\<rparr>"
  have i: "shape 1 ?n (sleep_q q)" "heap_ordered (sleep_q q)" "distinct (map hid (nodes (sleep_q q)))"
    using assms(1) by (simp_all add: sleepq_inv_def)
  obtain h where h: "heap_insert ?e (sleep_q q) = Some h" "shape 1 (Suc ?n) h" "heap_ordered h"
    "helems h = add_mset (elem ?e) (helems (sleep_q q))"
    using heap_insert_correct [OF i(1,2), of ?e] by auto
  have m: "mset (map elem (nodes h)) = add_mset (t, d) (mset (map elem (nodes (sleep_q q))))"
    using h(4) by (simp add: helems_def elem_def)
  have t: "t \<notin> set (map hid (nodes (sleep_q q)))"
    using assms(2) unfolding sleepq_due_def map_of_eq_None_iff by (auto simp: image_iff)
  have "mset (map hid (nodes h)) = mset (t # map hid (nodes (sleep_q q)))"
    using arg_cong [OF m, of "image_mset fst"] by (simp add: multiset.map_comp comp_def elem_def)
  then have dist: "distinct (map hid (nodes h))" "distinct (map fst (map elem (nodes h)))"
    using t i(3) mset_eq_imp_distinct_iff map_fst_elem by fastforce+
  show ?thesis
    using h dist(1) map_of_add_mset(1) [OF m dist(2)]
    by (simp add: st_add_sleep_q_def sleepq_inv_def sleepq_due_def Let_def)
qed

lemma find_thread_Some: "find_thread t h = Some x \<Longrightarrow> x \<in> set (nodes h) \<and> hid x = t"
  by (induction t h rule: find_thread.induct) (auto split: if_splits option.splits)

lemma find_thread_None: "find_thread t h = None \<longleftrightarrow> t \<notin> set (map hid (nodes h))"
  by (induction t h rule: find_thread.induct) (auto split: option.splits)

lemma sleepq_del_ok:
  assumes "sleepq_inv q" and "sleepq_due q t \<noteq> None"
  shows "\<exists>q'. st_del_sleep_q t q = Some q' \<and> sleepq_inv q' \<and> sleepq_due q' = (sleepq_due q)(t := None)"
proof -
  have i: "shape 1 (sleepq_size q) (sleep_q q)" "heap_ordered (sleep_q q)"
    "distinct (map hid (nodes (sleep_q q)))" using assms(1) by (simp_all add: sleepq_inv_def)
  have "t \<in> set (map hid (nodes (sleep_q q)))"
    using assms(2) map_fst_elem [of "nodes (sleep_q q)"]
    by (metis map_of_eq_None_iff set_map sleepq_due_def)
  then obtain x where x: "find_thread t (sleep_q q) = Some x" "x \<in> set (nodes (sleep_q q))" "hid x = t"
    using find_thread_None find_thread_Some by (metis not_Some_eq)
  then obtain n where n: "sleepq_size q = Suc n"
    using nodes_below [OF i(1) x(2)] below_le [of 1 "heap_index x"] by (cases "sleepq_size q") auto
  obtain h where h: "heap_delete x (Suc n) (sleep_q q) = Some h" "shape 1 n h" "heap_ordered h"
    "helems (sleep_q q) = add_mset (elem x) (helems h)"
    using heap_delete_correct [OF _ i(2) x(2) i(3), of n] i(1) n by auto
  have m: "mset (map elem (nodes (sleep_q q))) = add_mset (t, due x) (mset (map elem (nodes h)))"
    using h(4) x(3) by (simp add: helems_def elem_def)
  have d: "distinct (map fst (map elem (nodes (sleep_q q))))" using i(3) map_fst_elem by metis
  note k = map_of_add_mset [OF m d]
  have "sleepq_due q = (map_of (map elem (nodes h)))(t \<mapsto> due x)" using k(1) by (simp add: sleepq_due_def)
  moreover have "map_of (map elem (nodes h)) t = None" using k(3) by (simp add: map_of_eq_None_iff)
  ultimately have "map_of (map elem (nodes h)) = (sleepq_due q)(t := None)"
    by (simp add: fun_upd_idem)
  then show ?thesis
    using h x(1) n k(2) map_fst_elem [of "nodes h"]
    by (simp add: st_del_sleep_q_def sleepq_inv_def sleepq_due_def)
qed

interpretation sq: timeout_queue sleepq_empty st_add_sleep_q st_del_sleep_q heap_first sleepq_due
  sleepq_inv
proof (unfold_locales, goal_cases)
  case (3 q t d)
  then show ?case by (rule sleepq_add_ok)
next
  case (4 q t)
  then show ?case by (rule sleepq_del_ok)
next
  case (5 q)
  then show ?case by (cases "sleep_q q") (auto simp: heap_first_def sleepq_due_def elem_def)
next
  case (6 q t d)
  obtain l x r where q: "sleep_q q = Node l x r" "hid x = t" "due x = d"
    using 6(2) by (auto simp: heap_first_def split: htree.splits)
  have dist: "distinct (map fst (map elem (nodes (sleep_q q))))"
    using 6(1) map_fst_elem [of "nodes (sleep_q q)"] by (simp add: sleepq_inv_def)
  have "due x \<le> snd e" if "e \<in># helems l + helems r" for e
    using 6(1) that by (simp add: sleepq_inv_def q)
  then have le: "d \<le> d'" if "(t', d') \<in> set (map elem (nodes (sleep_q q)))" for t' d'
    using that q by (fastforce simp: helems_def elem_def)
  have "(t, d) \<in> set (map elem (nodes (sleep_q q)))" using q by (simp add: elem_def)
  then show ?case
    using map_of_eq_Some_iff [OF dist] le by (auto simp: sleepq_due_def)
qed (auto simp: sleepq_empty_def sleepq_inv_def sleepq_due_def finite_dom_map_of)

end
