(* ===== verification/Sched.thy ===== *)
theory Sched
  imports Timeout_Heap Posix
begin

text \<open>
  The scheduler of State Threads: the virtual processor of \<^verbatim>\<open>3rdpart/st-1.9/common.h\<close>, the queue
  operations, \<open>_st_vp_schedule\<close>, \<open>_st_vp_check_clock\<close>, \<open>st_thread_interrupt\<close>, \<open>st_thread_create\<close>
  and \<open>st_init\<close> of \<^verbatim>\<open>sched.c\<close>, and condition variable signalling of \<^verbatim>\<open>sync.c\<close>. The circular
  lists are lists here (\<^verbatim>\<open>Clist\<close> shows that the macros implement these operations) and the sleep
  queue is the heap of \<^verbatim>\<open>Timeout_Heap\<close>. \<open>None\<close> means that an assertion of the source fails or that
  the heap follows a null pointer; the invariant \<open>wf_vp\<close> excludes both.
\<close>

section \<open>Threads and the virtual processor\<close>

datatype tstate =
  ST_RUNNING | ST_RUNNABLE | ST_IO_WAIT | ST_LOCK_WAIT | ST_COND_WAIT | ST_SLEEPING | ST_ZOMBIE
  | ST_SUSPENDED

datatype tflag = FL_PRIMORDIAL | FL_IDLE_THREAD | FL_ON_SLEEPQ | FL_INTERRUPT | FL_TIMEDOUT

type_synonym cond = nat
type_synonym lock = nat

text \<open>The result of a call: a value, or -1 with \<open>errno\<close> set.\<close>

datatype rv = Ret int | Fail errno

text \<open>A private datum or a return value is a number, 0 for the null pointer.\<close>

record thread =
  state :: tstate
  flags :: "tflag set"
  retval :: nat
  private_data :: "nat list"
  term_cv :: "cond option"

record pollfd =
  fd :: int
  events :: "16 word"
  revents :: "16 word"

text \<open>
  The \<open>_st_pollq_t\<close> of \<open>st_poll\<close> lives on the stack of the waiting thread, so it is named by its
  thread: \<open>pollqs\<close> of the processor holds them and \<open>io_q\<close> lists those that are linked.
\<close>

record pollq =
  pds :: "pollfd list"
  on_ioq :: bool

record mutex =
  owner :: "tid option"
  lock_q :: "tid list"

record vp =
  live :: "tid set"
  thr :: "tid \<Rightarrow> thread"
  this_thread :: tid
  idle_thread :: tid
  run_q :: "tid list"
  io_q :: "tid list"
  pollqs :: "tid \<Rightarrow> pollq"
  zombie_q :: "tid list"
  sleepq :: sleepq
  last_clock :: utime
  active_count :: int
  curr_time :: nat
  last_tset :: utime
  cond_q :: "cond \<rightharpoonup> tid list"
  mutexes :: "lock \<rightharpoonup> mutex"

definition ST_UTIME_NO_TIMEOUT :: utime where "ST_UTIME_NO_TIMEOUT = -1"

definition ST_KEYS_MAX :: nat where "ST_KEYS_MAX = 16"

definition upd :: "tid \<Rightarrow> (thread \<Rightarrow> thread) \<Rightarrow> vp \<Rightarrow> vp" where
  "upd t f v = v\<lparr>thr := (thr v)(t := f (thr v t))\<rparr>"

definition set_state :: "tid \<Rightarrow> tstate \<Rightarrow> vp \<Rightarrow> vp" where
  "set_state t st = upd t (\<lambda>x. x\<lparr>state := st\<rparr>)"

definition set_flag :: "tid \<Rightarrow> tflag \<Rightarrow> vp \<Rightarrow> vp" where
  "set_flag t fl = upd t (\<lambda>x. x\<lparr>flags := insert fl (flags x)\<rparr>)"

definition clear_flag :: "tid \<Rightarrow> tflag \<Rightarrow> vp \<Rightarrow> vp" where
  "clear_flag t fl = upd t (\<lambda>x. x\<lparr>flags := flags x - {fl}\<rparr>)"

definition has_flag :: "tid \<Rightarrow> tflag \<Rightarrow> vp \<Rightarrow> bool" where
  "has_flag t fl v \<longleftrightarrow> fl \<in> flags (thr v t)"

abbreviation state_of :: "tid \<Rightarrow> vp \<Rightarrow> tstate" where
  "state_of t v \<equiv> state (thr v t)"

section \<open>Queue operations\<close>

definition add_runq :: "tid \<Rightarrow> vp \<Rightarrow> vp" where
  "add_runq t v = v\<lparr>run_q := run_q v @ [t]\<rparr>"

definition add_sleepq :: "tid \<Rightarrow> utime \<Rightarrow> vp \<Rightarrow> vp option" where
  "add_sleepq t timeout v =
     map_option (\<lambda>q. set_flag t FL_ON_SLEEPQ (v\<lparr>sleepq := q\<rparr>))
       (st_add_sleep_q t (last_clock v + timeout) (sleepq v))"

definition del_sleepq :: "tid \<Rightarrow> vp \<Rightarrow> vp option" where
  "del_sleepq t v =
     map_option (\<lambda>q. clear_flag t FL_ON_SLEEPQ (v\<lparr>sleepq := q\<rparr>))
       (st_del_sleep_q t (sleepq v))"

text \<open>Make a thread runnable, as every wake-up does.\<close>

definition wake :: "tid \<Rightarrow> vp \<Rightarrow> vp" where
  "wake t v = add_runq t (set_state t ST_RUNNABLE v)"

text \<open>\<open>if (thread->flags & _ST_FL_ON_SLEEPQ) _ST_DEL_SLEEPQ(thread)\<close>\<close>

definition unsleep :: "tid \<Rightarrow> vp \<Rightarrow> vp option" where
  "unsleep t v = (if has_flag t FL_ON_SLEEPQ v then del_sleepq t v else Some v)"

section \<open>Scheduling\<close>

definition resume :: "tid \<Rightarrow> vp \<Rightarrow> vp option" where
  "resume t v =
     (if state_of t v = ST_RUNNABLE then Some ((set_state t ST_RUNNING v)\<lparr>this_thread := t\<rparr>)
      else None)"

definition st_vp_schedule :: "vp \<Rightarrow> vp option" where
  "st_vp_schedule v =
     (case run_q v of
        t # q \<Rightarrow> resume t (v\<lparr>run_q := q\<rparr>)
      | [] \<Rightarrow> resume (idle_thread v) v)"

partial_function (option) check_clock_loop :: "utime \<Rightarrow> vp \<Rightarrow> vp option" where
  "check_clock_loop now v =
     (case heap_first (sleepq v) of
        None \<Rightarrow> Some v
      | Some (t, d) \<Rightarrow>
          (if \<not> has_flag t FL_ON_SLEEPQ v then None
           else if now < d then Some v
           else Option.bind (del_sleepq t v) (\<lambda>v1.
             if has_flag t FL_IDLE_THREAD v1 then None
             else check_clock_loop now
               (wake t (if state_of t v1 = ST_COND_WAIT then set_flag t FL_TIMEDOUT v1 else v1)))))"

text \<open>\<open>now\<close> is what \<open>st_utime()\<close> returns, \<open>wall\<close> what \<open>time(NULL)\<close> returns.\<close>

definition st_vp_check_clock :: "utime \<Rightarrow> nat \<Rightarrow> vp \<Rightarrow> vp option" where
  "st_vp_check_clock now wall v =
     (let v1 = v\<lparr>last_clock := now\<rparr>;
          v2 = (if curr_time v1 \<noteq> 0 \<and> 999000 < now - last_tset v1
                then v1\<lparr>curr_time := wall, last_tset := now\<rparr> else v1)
      in check_clock_loop now v2)"

definition st_thread_interrupt :: "tid \<Rightarrow> vp \<Rightarrow> vp option" where
  "st_thread_interrupt t v =
     (if state_of t v = ST_ZOMBIE then Some v
      else
        (let v1 = set_flag t FL_INTERRUPT v
         in if state_of t v = ST_RUNNING \<or> state_of t v = ST_RUNNABLE then Some v1
            else map_option (wake t) (unsleep t v1)))"

text \<open>
  \<open>st_thread_create\<close> after the stack and the termination condition are there: the new thread object
  \<open>t\<close> is zeroed, made runnable and queued.
\<close>

definition new_thread :: "cond option \<Rightarrow> thread" where
  "new_thread c = \<lparr>state = ST_RUNNABLE, flags = {}, retval = 0,
     private_data = replicate ST_KEYS_MAX 0, term_cv = c\<rparr>"

definition st_thread_create :: "tid \<Rightarrow> cond option \<Rightarrow> vp \<Rightarrow> vp" where
  "st_thread_create t c v =
     add_runq t (v\<lparr>live := insert t (live v), thr := (thr v)(t := new_thread c),
       active_count := active_count v + 1,
       cond_q := (case c of None \<Rightarrow> cond_q v | Some k \<Rightarrow> (cond_q v)(k \<mapsto> []))\<rparr>)"

text \<open>The processor after \<open>memset\<close> and the list initialisations.\<close>

definition vp_zero :: vp where
  "vp_zero = \<lparr>live = {}, thr = (\<lambda>_. new_thread None), this_thread = 0, idle_thread = 0, run_q = [],
     io_q = [], pollqs = (\<lambda>_. \<lparr>pds = [], on_ioq = False\<rparr>), zombie_q = [], sleepq = sleepq_empty, last_clock = 0, active_count = 0,
     curr_time = 0, last_tset = 0, cond_q = Map.empty, mutexes = Map.empty\<rparr>"

text \<open>
  \<open>st_init\<close>: the idle thread \<open>i\<close> is created and taken off the run queue and out of the count, the
  caller becomes the primordial thread \<open>p\<close>. \<open>io_ok\<close> and \<open>ev_ok\<close> are the results of \<open>_st_io_init\<close>
  and of the event system's \<open>init\<close>, \<open>mem_i\<close> and \<open>mem_p\<close> those of the two allocations.
\<close>

definition st_init ::
  "bool \<Rightarrow> bool \<Rightarrow> bool \<Rightarrow> bool \<Rightarrow> utime \<Rightarrow> tid \<Rightarrow> tid \<Rightarrow> vp \<Rightarrow> int \<times> vp"
where
  "st_init io_ok ev_ok mem_i mem_p now i p v =
     (if active_count v \<noteq> 0 then (0, v)
      else if \<not> io_ok then (-1, v)
      else
        (let v0 = vp_zero\<lparr>active_count := active_count v, curr_time := curr_time v,
                    last_tset := last_tset v\<rparr>
         in if \<not> ev_ok then (-1, v0)
            else
              (let v1 = v0\<lparr>last_clock := now\<rparr>
               in if \<not> mem_i then (-1, v1)
                  else
                    (let v2 = st_thread_create i None v1;
                         v3 = upd i (\<lambda>x. x\<lparr>flags := {FL_IDLE_THREAD}\<rparr>)
                                (v2\<lparr>idle_thread := i, active_count := active_count v2 - 1,
                                   run_q := remove1 i (run_q v2)\<rparr>)
                     in if \<not> mem_p then (-1, v3)
                        else (0, v3\<lparr>live := insert p (live v3),
                               thr := (thr v3)(p := (new_thread None)\<lparr>state := ST_RUNNING,
                                                       flags := {FL_PRIMORDIAL}\<rparr>),
                               this_thread := p, active_count := active_count v3 + 1\<rparr>)))))"

section \<open>Signalling a condition variable\<close>

text \<open>The walk over the wait queue; a thread that is no longer waiting is passed over.\<close>

fun cond_signal_walk :: "bool \<Rightarrow> tid list \<Rightarrow> vp \<Rightarrow> vp option" where
  "cond_signal_walk broadcast [] v = Some v"
| "cond_signal_walk broadcast (t # ts) v =
     (if state_of t v = ST_COND_WAIT
      then Option.bind (unsleep t v) (\<lambda>v1.
             if broadcast then cond_signal_walk broadcast ts (wake t v1) else Some (wake t v1))
      else cond_signal_walk broadcast ts v)"

definition st_cond_signal' :: "cond \<Rightarrow> bool \<Rightarrow> vp \<Rightarrow> vp option" where
  "st_cond_signal' c broadcast v =
     (case cond_q v c of None \<Rightarrow> None | Some ts \<Rightarrow> cond_signal_walk broadcast ts v)"

definition st_cond_signal :: "cond \<Rightarrow> vp \<Rightarrow> vp option" where
  "st_cond_signal c = st_cond_signal' c False"

definition st_cond_broadcast :: "cond \<Rightarrow> vp \<Rightarrow> vp option" where
  "st_cond_broadcast c = st_cond_signal' c True"

lemmas sched_exec [exec_simps] = upd_def set_state_def set_flag_def clear_flag_def has_flag_def
  add_runq_def add_sleepq_def del_sleepq_def wake_def unsleep_def resume_def st_vp_schedule_def
  st_vp_check_clock_def st_thread_interrupt_def st_thread_create_def new_thread_def vp_zero_def
  st_init_def st_cond_signal'_def st_cond_signal_def st_cond_broadcast_def ST_UTIME_NO_TIMEOUT_def
  ST_KEYS_MAX_def

section \<open>The invariant\<close>

text \<open>
  \<open>wf_queues\<close> holds at all times, also between a thread's change of state and the switch away from
  it: the run queue holds the runnable threads but the idle one, the sleep queue the threads with
  \<open>FL_ON_SLEEPQ\<close>, all of them waiting; the zombie queue the dead ones. \<open>wf_vp\<close> adds that exactly
  the current thread is running.
\<close>

definition waiting :: "tstate set" where
  "waiting = {ST_SLEEPING, ST_IO_WAIT, ST_COND_WAIT}"

definition wf_queues :: "vp \<Rightarrow> bool" where
  "wf_queues v \<longleftrightarrow>
     sleepq_inv (sleepq v)
     \<and> (\<forall>t. sleepq_due (sleepq v) t \<noteq> None \<longleftrightarrow> t \<in> live v \<and> has_flag t FL_ON_SLEEPQ v)
     \<and> (\<forall>t \<in> live v. has_flag t FL_ON_SLEEPQ v \<longrightarrow> state_of t v \<in> waiting)
     \<and> distinct (run_q v)
     \<and> (\<forall>t. t \<in> set (run_q v) \<longleftrightarrow> t \<in> live v \<and> state_of t v = ST_RUNNABLE \<and> t \<noteq> idle_thread v)
     \<and> distinct (zombie_q v)
     \<and> (\<forall>t. t \<in> set (zombie_q v) \<longleftrightarrow> t \<in> live v \<and> state_of t v = ST_ZOMBIE)
     \<and> idle_thread v \<in> live v
     \<and> (\<forall>t \<in> live v. t \<noteq> idle_thread v \<longrightarrow> \<not> has_flag t FL_IDLE_THREAD v)
     \<and> state_of (idle_thread v) v \<in> {ST_RUNNING, ST_RUNNABLE}"

definition wf_vp :: "vp \<Rightarrow> bool" where
  "wf_vp v \<longleftrightarrow> wf_queues v \<and> this_thread v \<in> live v
     \<and> (\<forall>t \<in> live v. state_of t v = ST_RUNNING \<longleftrightarrow> t = this_thread v)"

lemma upd_simps [simp]:
  "thr (upd t f v) u = (if u = t then f (thr v t) else thr v u)"
  "live (upd t f v) = live v" "this_thread (upd t f v) = this_thread v"
  "idle_thread (upd t f v) = idle_thread v" "run_q (upd t f v) = run_q v"
  "zombie_q (upd t f v) = zombie_q v" "sleepq (upd t f v) = sleepq v"
  "io_q (upd t f v) = io_q v" "pollqs (upd t f v) = pollqs v" "last_clock (upd t f v) = last_clock v"
  "active_count (upd t f v) = active_count v" "cond_q (upd t f v) = cond_q v"
  "mutexes (upd t f v) = mutexes v"
  by (simp_all add: upd_def)

lemmas thread_ops = set_state_def set_flag_def clear_flag_def has_flag_def wake_def add_runq_def

lemma wf_queuesD:
  assumes "wf_queues v"
  shows "sleepq_inv (sleepq v)"
    and "sleepq_due (sleepq v) t \<noteq> None \<longleftrightarrow> t \<in> live v \<and> has_flag t FL_ON_SLEEPQ v"
    and "t \<in> live v \<Longrightarrow> has_flag t FL_ON_SLEEPQ v \<Longrightarrow> state_of t v \<in> waiting"
    and "distinct (run_q v)"
    and "t \<in> set (run_q v) \<longleftrightarrow> t \<in> live v \<and> state_of t v = ST_RUNNABLE \<and> t \<noteq> idle_thread v"
    and "distinct (zombie_q v)"
    and "t \<in> set (zombie_q v) \<longleftrightarrow> t \<in> live v \<and> state_of t v = ST_ZOMBIE"
    and "idle_thread v \<in> live v"
    and "state_of (idle_thread v) v \<in> {ST_RUNNING, ST_RUNNABLE}"
    and "t \<in> live v \<Longrightarrow> t \<noteq> idle_thread v \<Longrightarrow> \<not> has_flag t FL_IDLE_THREAD v"
  using assms unfolding wf_queues_def by blast+

text \<open>The building blocks keep \<open>wf_queues\<close>.\<close>

lemma wf_flag:
  assumes "wf_queues v" and "fl \<noteq> FL_ON_SLEEPQ" and "fl \<noteq> FL_IDLE_THREAD"
  shows "wf_queues (set_flag t fl v)" and "wf_queues (clear_flag t fl v)"
  using assms unfolding wf_queues_def by (auto simp: thread_ops)

lemma wf_park:
  assumes "wf_queues v" and "state_of t v = ST_RUNNING" and "t \<noteq> idle_thread v"
    and "st \<notin> {ST_RUNNABLE, ST_ZOMBIE}"
  shows "wf_queues (set_state t st v)"
  using assms unfolding wf_queues_def by (auto simp: thread_ops waiting_def)

lemma wf_wake:
  assumes "wf_queues v" and "t \<in> live v" and "t \<noteq> idle_thread v" and "\<not> has_flag t FL_ON_SLEEPQ v"
    and "state_of t v \<notin> {ST_RUNNABLE, ST_ZOMBIE}"
  shows "wf_queues (wake t v)"
  using assms unfolding wf_queues_def by (auto simp: thread_ops)

lemma add_sleepq_ok:
  assumes "wf_queues v" and "t \<in> live v" and "\<not> has_flag t FL_ON_SLEEPQ v" and "state_of t v \<in> waiting"
  shows "\<exists>q. add_sleepq t d v = Some (set_flag t FL_ON_SLEEPQ (v\<lparr>sleepq := q\<rparr>))
    \<and> sleepq_due q = (sleepq_due (sleepq v))(t \<mapsto> last_clock v + d)
    \<and> wf_queues (set_flag t FL_ON_SLEEPQ (v\<lparr>sleepq := q\<rparr>))"
proof -
  have "sleepq_due (sleepq v) t = None" using wf_queuesD(2) [OF assms(1), of t] assms(3) by auto
  from sq.add_ok [OF wf_queuesD(1) [OF assms(1)] this] obtain q where q:
    "st_add_sleep_q t (last_clock v + d) (sleepq v) = Some q" "sleepq_inv q"
    "sleepq_due q = (sleepq_due (sleepq v))(t \<mapsto> last_clock v + d)" by blast
  moreover have "wf_queues (set_flag t FL_ON_SLEEPQ (v\<lparr>sleepq := q\<rparr>))"
    using assms q(2,3) unfolding wf_queues_def by (auto simp: thread_ops)
  ultimately show ?thesis by (auto simp: add_sleepq_def)
qed

lemma del_sleepq_ok:
  assumes "wf_queues v" and "t \<in> live v" and "has_flag t FL_ON_SLEEPQ v"
  shows "\<exists>q. del_sleepq t v = Some (clear_flag t FL_ON_SLEEPQ (v\<lparr>sleepq := q\<rparr>))
    \<and> sleepq_due q = (sleepq_due (sleepq v))(t := None)
    \<and> wf_queues (clear_flag t FL_ON_SLEEPQ (v\<lparr>sleepq := q\<rparr>))"
proof -
  have "sleepq_due (sleepq v) t \<noteq> None" using wf_queuesD(2) [OF assms(1), of t] assms by simp
  from sq.del_ok [OF wf_queuesD(1) [OF assms(1)] this] obtain q where q:
    "st_del_sleep_q t (sleepq v) = Some q" "sleepq_inv q"
    "sleepq_due q = (sleepq_due (sleepq v))(t := None)" by blast
  moreover have "wf_queues (clear_flag t FL_ON_SLEEPQ (v\<lparr>sleepq := q\<rparr>))"
    using assms q(2,3) unfolding wf_queues_def by (auto simp: thread_ops)
  ultimately show ?thesis by (auto simp: del_sleepq_def)
qed

lemma clear_flag_absent:
  assumes "\<not> has_flag t fl v"
  shows "clear_flag t fl (v\<lparr>sleepq := sleepq v\<rparr>) = v"
proof -
  have "(thr v t)\<lparr>flags := flags (thr v t) - {fl}\<rparr> = thr v t"
    using assms by (cases "thr v t") (auto simp: has_flag_def)
  then show ?thesis by (cases v) (auto simp: clear_flag_def upd_def fun_upd_idem)
qed

lemma unsleep_ok:
  assumes "wf_queues v" and "t \<in> live v"
  shows "\<exists>q. unsleep t v = Some (clear_flag t FL_ON_SLEEPQ (v\<lparr>sleepq := q\<rparr>))
    \<and> wf_queues (clear_flag t FL_ON_SLEEPQ (v\<lparr>sleepq := q\<rparr>))"
proof (cases "has_flag t FL_ON_SLEEPQ v")
  case True
  then show ?thesis using del_sleepq_ok [OF assms True] by (auto simp: unsleep_def)
next
  case False
  then show ?thesis using assms clear_flag_absent [OF False]
    by (intro exI [of _ "sleepq v"]) (simp add: unsleep_def)
qed

text \<open>Once nothing runs, the scheduler finds a thread: the longest runnable one, or the idle one.\<close>

lemma schedule_ok:
  assumes "wf_queues v" and "\<forall>t \<in> live v. state_of t v \<noteq> ST_RUNNING"
  shows "\<exists>v'. st_vp_schedule v = Some v' \<and> wf_vp v'
    \<and> this_thread v' = (case run_q v of [] \<Rightarrow> idle_thread v | t # q \<Rightarrow> t)
    \<and> run_q v' = tl (run_q v)"
proof (cases "run_q v")
  case Nil
  let ?i = "idle_thread v"
  have i: "?i \<in> live v" "state_of ?i v = ST_RUNNABLE"
    using wf_queuesD(8,9) [OF assms(1)] assms(2) by auto
  have fl: "\<not> has_flag ?i FL_ON_SLEEPQ v"
    using wf_queuesD(3) [OF assms(1) i(1)] i(2) by (auto simp: waiting_def)
  let ?v = "(set_state ?i ST_RUNNING v)\<lparr>this_thread := ?i\<rparr>"
  have "st_vp_schedule v = Some ?v" using i Nil by (simp add: st_vp_schedule_def resume_def)
  moreover have "wf_vp ?v"
    using assms i fl unfolding wf_vp_def wf_queues_def
    by (intro conjI ballI allI impI) (simp_all add: thread_ops split: if_splits)
  ultimately show ?thesis using Nil by (auto simp: set_state_def)
next
  case (Cons t q)
  have t: "t \<in> live v" "state_of t v = ST_RUNNABLE" "t \<noteq> idle_thread v"
    using wf_queuesD(5) [OF assms(1), of t] Cons by auto
  have fl: "\<not> has_flag t FL_ON_SLEEPQ v"
    using wf_queuesD(3) [OF assms(1) t(1)] t(2) by (auto simp: waiting_def)
  let ?v = "(set_state t ST_RUNNING (v\<lparr>run_q := q\<rparr>))\<lparr>this_thread := t\<rparr>"
  have "st_vp_schedule v = Some ?v" using t Cons by (simp add: st_vp_schedule_def resume_def)
  moreover have "wf_vp ?v"
    using assms t fl Cons unfolding wf_vp_def wf_queues_def
    by (intro conjI ballI allI impI) (auto simp: thread_ops)
  ultimately show ?thesis using Cons by (auto simp: set_state_def)
qed

text \<open>
  A tick of the clock wakes exactly the sleepers that are due, in any state of the heap, and sets
  the time-out flag of those that wait on a condition variable.
\<close>

definition due_now :: "utime \<Rightarrow> vp \<Rightarrow> tid set" where
  "due_now now v = {t. \<exists>d. sleepq_due (sleepq v) t = Some d \<and> d \<le> now}"

definition awake :: "thread \<Rightarrow> thread" where
  "awake x = x\<lparr>state := ST_RUNNABLE,
     flags := (if state x = ST_COND_WAIT then insert FL_TIMEDOUT (flags x) else flags x)
              - {FL_ON_SLEEPQ}\<rparr>"

definition ticked :: "utime \<Rightarrow> vp \<Rightarrow> vp \<Rightarrow> bool" where
  "ticked now v v' \<longleftrightarrow>
     thr v' = (\<lambda>t. if t \<in> due_now now v then awake (thr v t) else thr v t)
     \<and> sleepq_due (sleepq v') = sleepq_due (sleepq v) |` (- due_now now v)
     \<and> (\<exists>w. run_q v' = run_q v @ w \<and> set w = due_now now v)
     \<and> live v' = live v \<and> this_thread v' = this_thread v \<and> idle_thread v' = idle_thread v
     \<and> zombie_q v' = zombie_q v \<and> io_q v' = io_q v \<and> pollqs v' = pollqs v \<and> cond_q v' = cond_q v
     \<and> mutexes v' = mutexes v \<and> active_count v' = active_count v"

lemma check_clock_pop:
  assumes wf: "wf_queues v" and f: "heap_first (sleepq v) = Some (t, d)" and d: "d \<le> now"
  shows "\<exists>v1. check_clock_loop now v = check_clock_loop now v1 \<and> wf_queues v1
    \<and> due_now now v = insert t (due_now now v1) \<and> t \<notin> due_now now v1
    \<and> card (dom (sleepq_due (sleepq v1))) < card (dom (sleepq_due (sleepq v)))
    \<and> sleepq_due (sleepq v1) = (sleepq_due (sleepq v))(t := None)
    \<and> v1 = v\<lparr>sleepq := sleepq v1, run_q := run_q v @ [t], thr := (thr v)(t := awake (thr v t))\<rparr>"
proof -
  note q = wf_queuesD [OF wf]
  have due: "sleepq_due (sleepq v) t = Some d" using sq.first_Some [OF q(1) f] by simp
  then have t: "t \<in> live v" "has_flag t FL_ON_SLEEPQ v" using q(2) [of t] by auto
  then have st: "state_of t v \<in> waiting" using q(3) by blast
  then have ni: "t \<noteq> idle_thread v" using q(9) by (auto simp: waiting_def)
  obtain h where h: "del_sleepq t v = Some (clear_flag t FL_ON_SLEEPQ (v\<lparr>sleepq := h\<rparr>))"
    "sleepq_due h = (sleepq_due (sleepq v))(t := None)"
    "wf_queues (clear_flag t FL_ON_SLEEPQ (v\<lparr>sleepq := h\<rparr>))"
    using del_sleepq_ok [OF wf t] by blast
  let ?v = "clear_flag t FL_ON_SLEEPQ (v\<lparr>sleepq := h\<rparr>)"
  let ?w = "if state_of t ?v = ST_COND_WAIT then set_flag t FL_TIMEDOUT ?v else ?v"
  have w: "wf_queues ?w" using h(3) by (auto intro: wf_flag)
  have "wf_queues (wake t ?w)"
    by (rule wf_wake [OF w]) (use t st ni in \<open>auto simp: thread_ops waiting_def\<close>)
  moreover have "check_clock_loop now v = check_clock_loop now (wake t ?w)"
    using t q(10) [of t] ni d
    by (subst check_clock_loop.simps) (auto simp: f h(1) clear_flag_def has_flag_def)
  moreover have "wake t ?w = v\<lparr>sleepq := h, run_q := run_q v @ [t],
      thr := (thr v)(t := awake (thr v t))\<rparr>"
    by (cases v) (auto simp: thread_ops upd_def awake_def insert_Diff_if)
  moreover have "card (dom (sleepq_due h)) < card (dom (sleepq_due (sleepq v)))"
    unfolding h(2) by (rule psubset_card_mono [OF sq.due_finite [OF q(1)]]) (use due in auto)
  ultimately show ?thesis using due d h(2)
    by (intro exI [of _ "wake t ?w"]) (auto simp: due_now_def)
qed

lemma check_clock_loop_ok:
  "wf_queues v \<Longrightarrow> \<exists>v'. check_clock_loop now v = Some v' \<and> wf_queues v' \<and> ticked now v v'"
proof (induction "card (dom (sleepq_due (sleepq v)))" arbitrary: v rule: less_induct)
  case less
  note q = wf_queuesD [OF less.prems]
  show ?case
  proof (cases "due_now now v = {}")
    case True
    have "check_clock_loop now v = Some v"
    proof (cases "heap_first (sleepq v)")
      case None
      then show ?thesis by (subst check_clock_loop.simps) simp
    next
      case (Some p)
      obtain t d where p: "p = (t, d)" by (cases p)
      have "sleepq_due (sleepq v) t = Some d" using sq.first_Some [OF q(1)] Some p by blast
      then have "now < d" "has_flag t FL_ON_SLEEPQ v"
        using True q(2) [of t] by (auto simp: due_now_def not_le)
      then show ?thesis using Some p by (subst check_clock_loop.simps) simp
    qed
    then show ?thesis using less.prems True
      by (auto simp: ticked_def)
  next
    case False
    then obtain u e where u: "sleepq_due (sleepq v) u = Some e" "e \<le> now" by (auto simp: due_now_def)
    then obtain t d where f: "heap_first (sleepq v) = Some (t, d)"
      using sq.first_None [OF q(1)] by (cases "heap_first (sleepq v)") auto
    have "d \<le> now" using sq.first_Some [OF q(1) f] u by fastforce
    from check_clock_pop [OF less.prems f this] obtain v1 where v1:
      "check_clock_loop now v = check_clock_loop now v1" "wf_queues v1"
      "due_now now v = insert t (due_now now v1)" "t \<notin> due_now now v1"
      "card (dom (sleepq_due (sleepq v1))) < card (dom (sleepq_due (sleepq v)))"
      "sleepq_due (sleepq v1) = (sleepq_due (sleepq v))(t := None)"
      "v1 = v\<lparr>sleepq := sleepq v1, run_q := run_q v @ [t], thr := (thr v)(t := awake (thr v t))\<rparr>"
      by blast
    obtain v' where v': "check_clock_loop now v1 = Some v'" "wf_queues v'" "ticked now v1 v'"
      using less.hyps [OF v1(5,2)] by blast
    have eq: "thr v1 = (thr v)(t := awake (thr v t))" "run_q v1 = run_q v @ [t]" "live v1 = live v"
      "this_thread v1 = this_thread v" "idle_thread v1 = idle_thread v" "zombie_q v1 = zombie_q v"
      "io_q v1 = io_q v" "pollqs v1 = pollqs v" "cond_q v1 = cond_q v" "mutexes v1 = mutexes v"
      "active_count v1 = active_count v"
      by (subst v1(7), simp)+
    have "ticked now v v'"
      using v'(3) v1(3,4) unfolding ticked_def eq v1(6)
      by (auto simp: restrict_map_def fun_eq_iff)
    then show ?thesis using v1(1) v' by auto
  qed
qed

lemma check_clock_ok:
  assumes "wf_queues v"
  shows "\<exists>v'. st_vp_check_clock now wall v = Some v' \<and> wf_queues v' \<and> ticked now v v'"
proof -
  let ?v = "(if curr_time v \<noteq> 0 \<and> 999000 < now - last_tset v
             then v\<lparr>last_clock := now, curr_time := wall, last_tset := now\<rparr>
             else v\<lparr>last_clock := now\<rparr>)"
  have "wf_queues ?v" using assms unfolding wf_queues_def by (simp add: has_flag_def)
  moreover have "st_vp_check_clock now wall v = check_clock_loop now ?v"
    by (simp add: st_vp_check_clock_def)
  moreover have "ticked now ?v v' = ticked now v v'" for v'
    by (simp add: ticked_def due_now_def cong: if_cong)
  ultimately show ?thesis using check_clock_loop_ok by metis
qed

lemma ticked_running:
  assumes "wf_vp v" and "wf_queues v'" and "ticked now v v'"
  shows "wf_vp v'"
proof -
  have "t \<in> due_now now v \<Longrightarrow> t \<in> live v \<and> state_of t v \<in> waiting" for t
    using assms(1) wf_queuesD(2,3) [of v t] by (auto simp: wf_vp_def due_now_def)
  then have w: "t \<in> due_now now v \<Longrightarrow> state_of t v \<noteq> ST_RUNNING" for t
    by (fastforce simp: waiting_def)
  then have "this_thread v \<notin> due_now now v" using assms(1) by (auto simp: wf_vp_def)
  then show ?thesis using assms w unfolding wf_vp_def ticked_def
    by (auto simp: awake_def)
qed

text \<open>The other operations keep the invariant, and none of them changes which thread runs.\<close>

lemma wake_flag:
  assumes "wf_vp v" and "t \<in> live v" and "state_of t v \<notin> {ST_RUNNING, ST_RUNNABLE, ST_ZOMBIE}"
  shows "\<exists>q. unsleep t v = Some (clear_flag t FL_ON_SLEEPQ (v\<lparr>sleepq := q\<rparr>))
    \<and> wf_vp (wake t (clear_flag t FL_ON_SLEEPQ (v\<lparr>sleepq := q\<rparr>)))"
proof -
  have wf: "wf_queues v" using assms(1) by (simp add: wf_vp_def)
  obtain q where q: "unsleep t v = Some (clear_flag t FL_ON_SLEEPQ (v\<lparr>sleepq := q\<rparr>))"
    "wf_queues (clear_flag t FL_ON_SLEEPQ (v\<lparr>sleepq := q\<rparr>))"
    using unsleep_ok [OF wf assms(2)] by blast
  let ?v = "clear_flag t FL_ON_SLEEPQ (v\<lparr>sleepq := q\<rparr>)"
  have "t \<noteq> idle_thread v" using assms(3) wf_queuesD(9) [OF wf] by auto
  then have "wf_queues (wake t ?v)"
    by (intro wf_wake [OF q(2)]) (use assms in \<open>auto simp: thread_ops\<close>)
  then have "wf_vp (wake t ?v)" using assms unfolding wf_vp_def by (auto simp: thread_ops)
  with q(1) show ?thesis by blast
qed

lemma interrupt_ok:
  assumes "wf_vp v" and "t \<in> live v"
  shows "\<exists>v'. st_thread_interrupt t v = Some v' \<and> wf_vp v' \<and> live v' = live v
    \<and> (state_of t v \<noteq> ST_ZOMBIE \<longrightarrow> has_flag t FL_INTERRUPT v'
       \<and> state_of t v' = (if state_of t v = ST_RUNNING then ST_RUNNING else ST_RUNNABLE))
    \<and> (\<forall>u. u \<noteq> t \<longrightarrow> thr v' u = thr v u)"
proof -
  let ?v = "set_flag t FL_INTERRUPT v"
  have w: "wf_vp ?v"
    using assms(1) wf_flag(1) [of v FL_INTERRUPT t] unfolding wf_vp_def by (simp add: thread_ops)
  show ?thesis
  proof (cases "state_of t v \<in> {ST_RUNNING, ST_RUNNABLE, ST_ZOMBIE}")
    case True
    then show ?thesis using w assms
      by (auto simp: st_thread_interrupt_def Let_def) (auto simp: thread_ops)
  next
    case False
    then obtain q where "unsleep t ?v = Some (clear_flag t FL_ON_SLEEPQ (?v\<lparr>sleepq := q\<rparr>))"
      "wf_vp (wake t (clear_flag t FL_ON_SLEEPQ (?v\<lparr>sleepq := q\<rparr>)))"
      using wake_flag [OF w, of t] assms(2) by (auto simp: set_flag_def)
    then show ?thesis using False
      by (auto simp: st_thread_interrupt_def Let_def) (auto simp: thread_ops)
  qed
qed

lemma create_ok:
  assumes "wf_vp v" and "t \<notin> live v"
  shows "wf_vp (st_thread_create t c v)"
  using assms unfolding wf_vp_def wf_queues_def
  by (auto simp: st_thread_create_def new_thread_def thread_ops)

lemma init_ok:
  assumes "active_count v = 0" and "i \<noteq> p"
  shows "\<exists>v'. st_init True True True True now i p v = (0, v') \<and> wf_vp v' \<and> active_count v' = 1
    \<and> this_thread v' = p \<and> idle_thread v' = i \<and> live v' = {i, p}"
  using assms sq.empty_inv sq.empty_due
  by (auto simp: st_init_def vp_zero_def st_thread_create_def new_thread_def add_runq_def wf_vp_def
      wf_queues_def has_flag_def upd_def)

lemma signal_walk_ok:
  "wf_vp v \<Longrightarrow> set ts \<subseteq> live v \<Longrightarrow>
   \<exists>v'. cond_signal_walk b ts v = Some v' \<and> wf_vp v' \<and> live v' = live v"
proof (induction ts arbitrary: v)
  case (Cons t ts)
  show ?case
  proof (cases "state_of t v = ST_COND_WAIT")
    case True
    then obtain q where q: "unsleep t v = Some (clear_flag t FL_ON_SLEEPQ (v\<lparr>sleepq := q\<rparr>))"
      "wf_vp (wake t (clear_flag t FL_ON_SLEEPQ (v\<lparr>sleepq := q\<rparr>)))"
      using wake_flag [OF Cons.prems(1), of t] Cons.prems(2) by auto
    have l: "live (wake t (clear_flag t FL_ON_SLEEPQ (v\<lparr>sleepq := q\<rparr>))) = live v"
      by (simp add: thread_ops)
    show ?thesis using Cons.IH [OF q(2)] Cons.prems(2) q True l by auto
  next
    case False
    then show ?thesis using Cons by auto
  qed
qed simp

end
