(* ===== verification/Event.thy ===== *)
theory Event
  imports Sched
begin

text \<open>
  The event systems of \<^verbatim>\<open>3rdpart/st-1.9/event.c\<close>: select (the default, and the one the server runs
  on), poll and epoll, behind the table of functions \<open>_st_eventsys_t\<close>. The answers of the kernel
  (\<open>select\<close>, \<open>poll\<close>, \<open>epoll_wait\<close>, \<open>epoll_ctl\<close>, \<open>fcntl\<close>) and of the allocator are arguments.
  \<open>None\<close> means that an assertion of the source fails or that an array is indexed out of range.
\<close>

section \<open>The walk over the I/O queue\<close>

definition FD_SETSIZE :: int where "FD_SETSIZE = 1024"

definition POLL_EVENTS :: "16 word" where "POLL_EVENTS = POLLIN OR POLLOUT OR POLLPRI"

definition wants :: "16 word \<Rightarrow> pollfd \<Rightarrow> bool" where
  "wants ev pd \<longleftrightarrow> events pd AND ev \<noteq> 0"

definition fired :: "pollfd \<Rightarrow> bool" where
  "fired pd \<longleftrightarrow> revents pd \<noteq> 0"

text \<open>
  Every \<open>dispatch\<close> walks the I/O queue in order. For each request it works out the new \<open>revents\<close>
  and whether the thread is to be notified; a notified request leaves the queue and its thread is
  made runnable. \<open>look\<close> is what one event system does for one request with its own data: the
  notification, the descriptors with their new \<open>revents\<close>, and the data.
\<close>

definition store_pds :: "tid \<Rightarrow> pollfd list \<Rightarrow> vp \<Rightarrow> vp" where
  "store_pds t ps v = v\<lparr>pollqs := (pollqs v)(t := (pollqs v t)\<lparr>pds := ps\<rparr>)\<rparr>"

definition unlink_pollq :: "tid \<Rightarrow> vp \<Rightarrow> vp" where
  "unlink_pollq t v = v\<lparr>io_q := remove1 t (io_q v),
     pollqs := (pollqs v)(t := (pollqs v t)\<lparr>on_ioq := False\<rparr>)\<rparr>"

definition notify :: "tid \<Rightarrow> vp \<Rightarrow> vp option" where
  "notify t v = map_option (wake t) (unsleep t v)"

fun ioq_walk ::
  "('e \<Rightarrow> pollfd list \<Rightarrow> bool \<times> pollfd list \<times> 'e option) \<Rightarrow> tid list \<Rightarrow> 'e \<Rightarrow> vp \<Rightarrow> ('e \<times> vp) option"
where
  "ioq_walk look [] e v = Some (e, v)"
| "ioq_walk look (t # ts) e v =
     (case look e (pds (pollqs v t)) of
        (b, ps, None) \<Rightarrow> None
      | (b, ps, Some e1) \<Rightarrow>
          (if b then
             (case notify t (unlink_pollq t (store_pds t ps v)) of
                None \<Rightarrow> None
              | Some v1 \<Rightarrow> ioq_walk look ts e1 v1)
           else ioq_walk look ts e1 (store_pds t ps v)))"

text \<open>How long the processor may idle: until the first sleeper is due, forever when there is none.\<close>

definition min_timeout :: "vp \<Rightarrow> utime option" where
  "min_timeout v = (case heap_first (sleepq v) of
      None \<Rightarrow> None
    | Some (t, d) \<Rightarrow> Some (if d \<le> last_clock v then 0 else d - last_clock v))"

definition select_timeout :: "vp \<Rightarrow> (32 word \<times> 32 word) option" where
  "select_timeout v =
     map_option (\<lambda>m. (ucast (m div 1000000), ucast (m mod 1000000))) (min_timeout v)"

definition poll_timeout :: "vp \<Rightarrow> 32 word" where
  "poll_timeout v = (case min_timeout v of None \<Rightarrow> -1 | Some m \<Rightarrow> ucast (m div 1000))"

section \<open>The select event system\<close>

record seldata =
  fd_read_set :: "int set"
  fd_write_set :: "int set"
  fd_exception_set :: "int set"
  rd_cnt :: "int \<Rightarrow> int"
  wr_cnt :: "int \<Rightarrow> int"
  ex_cnt :: "int \<Rightarrow> int"
  maxfd :: int

definition st_select_init :: seldata where
  "st_select_init = \<lparr>fd_read_set = {}, fd_write_set = {}, fd_exception_set = {},
     rd_cnt = (\<lambda>_. 0), wr_cnt = (\<lambda>_. 0), ex_cnt = (\<lambda>_. 0), maxfd = -1\<rparr>"

definition select_valid :: "pollfd \<Rightarrow> bool" where
  "select_valid pd \<longleftrightarrow> \<not> (fd pd < 0 \<or> fd pd \<ge> FD_SETSIZE \<or> events pd = 0
     \<or> events pd AND NOT POLL_EVENTS \<noteq> 0)"

definition select_add1 :: "pollfd \<Rightarrow> seldata \<Rightarrow> seldata" where
  "select_add1 pd d =
     (let f = fd pd;
          d1 = (if wants POLLIN pd
                then d\<lparr>fd_read_set := insert f (fd_read_set d), rd_cnt := (rd_cnt d)(f := rd_cnt d f + 1)\<rparr>
                else d);
          d2 = (if wants POLLOUT pd
                then d1\<lparr>fd_write_set := insert f (fd_write_set d1), wr_cnt := (wr_cnt d1)(f := wr_cnt d1 f + 1)\<rparr>
                else d1);
          d3 = (if wants POLLPRI pd
                then d2\<lparr>fd_exception_set := insert f (fd_exception_set d2),
                        ex_cnt := (ex_cnt d2)(f := ex_cnt d2 f + 1)\<rparr>
                else d2)
      in if maxfd d3 < f then d3\<lparr>maxfd := f\<rparr> else d3)"

definition st_select_pollset_add :: "pollfd list \<Rightarrow> seldata \<Rightarrow> rv \<times> seldata" where
  "st_select_pollset_add ps d =
     (if list_all select_valid ps then (Ret 0, fold select_add1 ps d) else (Fail EINVAL, d))"

definition select_del1 :: "pollfd \<Rightarrow> seldata \<Rightarrow> seldata" where
  "select_del1 pd d =
     (let f = fd pd;
          d1 = (if wants POLLIN pd
                then d\<lparr>rd_cnt := (rd_cnt d)(f := rd_cnt d f - 1),
                       fd_read_set := (if rd_cnt d f - 1 = 0 then fd_read_set d - {f} else fd_read_set d)\<rparr>
                else d);
          d2 = (if wants POLLOUT pd
                then d1\<lparr>wr_cnt := (wr_cnt d1)(f := wr_cnt d1 f - 1),
                        fd_write_set := (if wr_cnt d1 f - 1 = 0 then fd_write_set d1 - {f} else fd_write_set d1)\<rparr>
                else d1)
      in if wants POLLPRI pd
         then d2\<lparr>ex_cnt := (ex_cnt d2)(f := ex_cnt d2 f - 1),
                 fd_exception_set := (if ex_cnt d2 f - 1 = 0 then fd_exception_set d2 - {f}
                                      else fd_exception_set d2)\<rparr>
         else d2)"

definition st_select_pollset_del :: "pollfd list \<Rightarrow> seldata \<Rightarrow> seldata" where
  "st_select_pollset_del ps d = fold select_del1 ps d"

text \<open>What the kernel says: descriptors that are ready, or the failure of the call.\<close>

datatype select_ans = Selected "int set" "int set" "int set" | SelectNone | SelectFail errno

definition select_revents :: "int set \<Rightarrow> int set \<Rightarrow> int set \<Rightarrow> pollfd \<Rightarrow> pollfd" where
  "select_revents r w e pd = pd\<lparr>revents :=
     (if wants POLLIN pd \<and> fd pd \<in> r then POLLIN else 0)
     OR (if wants POLLOUT pd \<and> fd pd \<in> w then POLLOUT else 0)
     OR (if wants POLLPRI pd \<and> fd pd \<in> e then POLLPRI else 0)\<rparr>"

definition pq_max_osfd :: "(pollfd \<Rightarrow> bool) \<Rightarrow> pollfd list \<Rightarrow> int" where
  "pq_max_osfd P ps = fold (\<lambda>pd m. if P pd \<and> m < fd pd then fd pd else m) ps (-1)"

definition select_release ::
  "(pollfd \<Rightarrow> bool) \<Rightarrow> pollfd list \<Rightarrow> seldata \<Rightarrow> bool \<times> pollfd list \<times> seldata option"
where
  "select_release P ps d =
     (if list_ex fired ps then (True, ps, Some (fold select_del1 ps d))
      else (False, ps, Some (if maxfd d < pq_max_osfd P ps then d\<lparr>maxfd := pq_max_osfd P ps\<rparr> else d)))"

definition select_look ::
  "int set \<Rightarrow> int set \<Rightarrow> int set \<Rightarrow> seldata \<Rightarrow> pollfd list \<Rightarrow> bool \<times> pollfd list \<times> seldata option"
where
  "select_look r w e d ps = select_release (\<lambda>_. True) (map (select_revents r w e) ps) d"

text \<open>\<open>bad\<close> tells for which descriptors \<open>fcntl(osfd, F_GETFL, 0)\<close> fails.\<close>

definition bad_revents :: "(int \<Rightarrow> bool) \<Rightarrow> pollfd \<Rightarrow> pollfd" where
  "bad_revents bad pd = pd\<lparr>revents := (if events pd \<noteq> 0 \<and> bad (fd pd) then POLLNVAL else 0)\<rparr>"

definition bad_look ::
  "(int \<Rightarrow> bool) \<Rightarrow> seldata \<Rightarrow> pollfd list \<Rightarrow> bool \<times> pollfd list \<times> seldata option"
where
  "bad_look bad d ps = select_release (\<lambda>pd. events pd \<noteq> 0) (map (bad_revents bad) ps) d"

definition st_select_find_bad_fd :: "(int \<Rightarrow> bool) \<Rightarrow> seldata \<Rightarrow> vp \<Rightarrow> (seldata \<times> vp) option" where
  "st_select_find_bad_fd bad d v = ioq_walk (bad_look bad) (io_q v) (d\<lparr>maxfd := -1\<rparr>) v"

definition st_select_dispatch ::
  "select_ans \<Rightarrow> (int \<Rightarrow> bool) \<Rightarrow> seldata \<Rightarrow> vp \<Rightarrow> (seldata \<times> vp) option"
where
  "st_select_dispatch a bad d v =
     (case a of
        Selected r w e \<Rightarrow> ioq_walk (select_look r w e) (io_q v) (d\<lparr>maxfd := -1\<rparr>) v
      | SelectNone \<Rightarrow> Some (d, v)
      | SelectFail err \<Rightarrow> (if err = EBADF then st_select_find_bad_fd bad d v else Some (d, v)))"

definition st_select_fd_new :: "int \<Rightarrow> rv" where
  "st_select_fd_new osfd = (if osfd \<ge> FD_SETSIZE then Fail EMFILE else Ret 0)"

definition st_select_fd_close :: "int \<Rightarrow> seldata \<Rightarrow> rv" where
  "st_select_fd_close osfd d =
     (if rd_cnt d osfd \<noteq> 0 \<or> wr_cnt d osfd \<noteq> 0 \<or> ex_cnt d osfd \<noteq> 0 then Fail EBUSY else Ret 0)"

section \<open>The poll event system\<close>

text \<open>The array of descriptors handed to the kernel is rebuilt by each dispatch; only its size stays.\<close>

record polldata =
  pollfds_size :: int
  fdcnt :: int

definition ST_MIN_POLLFDS_SIZE :: int where "ST_MIN_POLLFDS_SIZE = 64"

definition st_poll_init :: polldata where
  "st_poll_init = \<lparr>pollfds_size = ST_MIN_POLLFDS_SIZE, fdcnt = 0\<rparr>"

definition st_poll_pollset_add :: "pollfd list \<Rightarrow> polldata \<Rightarrow> rv \<times> polldata" where
  "st_poll_pollset_add ps d =
     (if list_ex (\<lambda>pd. fd pd < 0 \<or> events pd = 0) ps then (Fail EINVAL, d)
      else (Ret 0, d\<lparr>fdcnt := fdcnt d + int (length ps)\<rparr>))"

definition st_poll_pollset_del :: "pollfd list \<Rightarrow> polldata \<Rightarrow> polldata option" where
  "st_poll_pollset_del ps d =
     (let d1 = d\<lparr>fdcnt := fdcnt d - int (length ps)\<rparr> in if fdcnt d1 < 0 then None else Some d1)"

text \<open>One request against its slice of the answered array; the rest of the array is kept.\<close>

definition poll_look ::
  "pollfd list \<times> polldata \<Rightarrow> pollfd list \<Rightarrow> bool \<times> pollfd list \<times> (pollfd list \<times> polldata) option"
where
  "poll_look s ps =
     (let (arr, d) = s; mine = take (length ps) arr; rest = drop (length ps) arr
      in if list_ex fired mine
         then (True, mine, map_option (\<lambda>d'. (rest, d')) (st_poll_pollset_del ps d))
         else (False, ps, Some (rest, d)))"

definition gathered :: "vp \<Rightarrow> pollfd list" where
  "gathered v = concat (map (\<lambda>t. pds (pollqs v t)) (io_q v))"

text \<open>
  \<open>rs\<close> are the \<open>revents\<close> the kernel writes into the array when it returns a positive count, \<open>None\<close>
  when it returns 0 or fails; \<open>mem\<close> is the result of \<open>malloc\<close>. The kernel fills exactly the
  \<open>fdcnt\<close> entries it is told about.
\<close>

definition set_revents :: "16 word list \<Rightarrow> pollfd list \<Rightarrow> pollfd list" where
  "set_revents rs ps = map (\<lambda>(pd, r). pd\<lparr>revents := r\<rparr>) (zip ps rs)"

definition poll_grow :: "bool \<Rightarrow> polldata \<Rightarrow> polldata option" where
  "poll_grow mem d =
     (if fdcnt d < 0 then None
      else if fdcnt d > pollfds_size d
           then (if mem then Some (d\<lparr>pollfds_size := fdcnt d + 10\<rparr>) else None)
      else Some d)"

definition st_poll_dispatch ::
  "16 word list option \<Rightarrow> bool \<Rightarrow> polldata \<Rightarrow> vp \<Rightarrow> (polldata \<times> vp) option"
where
  "st_poll_dispatch rs mem d v =
     (case poll_grow mem d of
        None \<Rightarrow> None
      | Some d1 \<Rightarrow>
          (if int (length (gathered v)) > pollfds_size d1 then None
           else case rs of
             None \<Rightarrow> Some (d1, v)
           | Some r \<Rightarrow>
               map_option (\<lambda>((arr, d2), v'). (d2, v'))
                 (ioq_walk poll_look (io_q v) (set_revents r (gathered v), d1) v)))"

section \<open>The contract of an event system\<close>

text \<open>
  What a system has to know: the requests that wait, as a multiset of descriptors with their
  events. \<open>tracks e M\<close> says that the data \<open>e\<close> is right for the requests \<open>M\<close>; \<open>walking e K T\<close> says
  the same in the middle of a walk, with \<open>K\<close> the requests passed over and \<open>T\<close> those to come.
\<close>

type_synonym request = "int \<times> 16 word"

definition keys :: "pollfd list \<Rightarrow> request list" where
  "keys ps = map (\<lambda>pd. (fd pd, events pd)) ps"

definition cnt :: "16 word \<Rightarrow> int \<Rightarrow> request multiset \<Rightarrow> nat" where
  "cnt ev f M = size (filter_mset (\<lambda>p. fst p = f \<and> snd p AND ev \<noteq> 0) M)"

definition queued :: "vp \<Rightarrow> tid list \<Rightarrow> request list list" where
  "queued v ts = map (\<lambda>t. keys (pds (pollqs v t))) ts"

definition walked :: "tid list \<Rightarrow> tid list \<Rightarrow> vp \<Rightarrow> vp \<Rightarrow> bool" where
  "walked ts w v v' \<longleftrightarrow> set w \<subseteq> set ts \<and> run_q v' = run_q v @ w
     \<and> io_q v' = filter (\<lambda>t. t \<notin> set w) (io_q v)
     \<and> (\<forall>t. keys (pds (pollqs v' t)) = keys (pds (pollqs v t)))
     \<and> (\<forall>t. t \<notin> set ts \<longrightarrow> pollqs v' t = pollqs v t)
     \<and> (\<forall>t. on_ioq (pollqs v' t) = (on_ioq (pollqs v t) \<and> t \<notin> set w))
     \<and> (\<forall>t \<in> set w. list_ex fired (pds (pollqs v' t)))
     \<and> (\<forall>t. flags (thr v' t) = flags (thr v t) - (if t \<in> set w then {FL_ON_SLEEPQ} else {}))
     \<and> (\<forall>t. state_of t v' = (if t \<in> set w then ST_RUNNABLE else state_of t v))
     \<and> (\<forall>t. term_cv (thr v' t) = term_cv (thr v t))
     \<and> live v' = live v \<and> this_thread v' = this_thread v \<and> idle_thread v' = idle_thread v
     \<and> zombie_q v' = zombie_q v \<and> cond_q v' = cond_q v \<and> mutexes v' = mutexes v
     \<and> active_count v' = active_count v"

lemma walked_refl: "walked [] [] v v"
  by (simp add: walked_def)

lemma walked_trans:
  assumes "walked [t] w1 v v1" and "walked ts w v1 v'" and "t \<notin> set ts"
  shows "walked (t # ts) (w1 @ w) v v'"
proof -
  have "set w1 \<subseteq> {t}" "set w \<subseteq> set ts" using assms(1,2) by (auto simp: walked_def)
  then have "u \<in> set w1 \<Longrightarrow> u \<notin> set w \<and> u \<notin> set ts" "u \<in> set w \<Longrightarrow> u \<in> set ts" for u
    using assms(3) by auto
  moreover have "pollqs v' u = pollqs v1 u" if "u \<in> set w1" for u
    using calculation(1) [OF that] assms(2) by (simp add: walked_def)
  ultimately show ?thesis using assms(1,2) unfolding walked_def
    by (intro conjI) (auto simp: filter_filter)
qed

lemma wf_pollqs [simp]: "wf_vp (v\<lparr>pollqs := p\<rparr>) = wf_vp v" "wf_vp (v\<lparr>io_q := q\<rparr>) = wf_vp v"
  by (simp_all add: wf_vp_def wf_queues_def has_flag_def)

lemma notify_ok:
  assumes "wf_vp v" and "t \<in> live v" and "state_of t v = ST_IO_WAIT"
    and "keys ps = keys (pds (pollqs v t))" and "list_ex fired ps"
    and "distinct (io_q v)" and "t \<in> set (io_q v)"
  shows "\<exists>v1. notify t (unlink_pollq t (store_pds t ps v)) = Some v1 \<and> wf_vp v1 \<and> walked [t] [t] v v1"
proof -
  let ?v = "unlink_pollq t (store_pds t ps v)"
  have "wf_vp ?v" using assms(1) by (simp add: unlink_pollq_def store_pds_def)
  moreover have "t \<in> live ?v" "state_of t ?v \<notin> {ST_RUNNING, ST_RUNNABLE, ST_ZOMBIE}"
    using assms(2,3) by (simp_all add: unlink_pollq_def store_pds_def)
  ultimately obtain q where q: "unsleep t ?v = Some (clear_flag t FL_ON_SLEEPQ (?v\<lparr>sleepq := q\<rparr>))"
    "wf_vp (wake t (clear_flag t FL_ON_SLEEPQ (?v\<lparr>sleepq := q\<rparr>)))" using wake_flag by blast
  have f: "filter ((\<noteq>) t) xs = filter (\<lambda>u. u \<noteq> t) xs" for xs by (rule filter_cong) auto
  have "walked [t] [t] v (wake t (clear_flag t FL_ON_SLEEPQ (?v\<lparr>sleepq := q\<rparr>)))"
    using assms(4-7)
    by (simp add: walked_def thread_ops unlink_pollq_def store_pds_def distinct_remove1_removeAll
        removeAll_filter_not_eq f)
  with q show ?thesis by (simp add: notify_def)
qed

locale event_system =
  fixes add :: "pollfd list \<Rightarrow> 'e \<Rightarrow> (rv \<times> 'e) option"
    and del :: "pollfd list \<Rightarrow> 'e \<Rightarrow> 'e option"
    and tracks :: "'e \<Rightarrow> request multiset \<Rightarrow> bool"
  assumes add_ok: "tracks e M \<Longrightarrow> \<exists>r e'. add ps e = Some (r, e')
      \<and> tracks e' (case r of Ret x \<Rightarrow> M + mset (keys ps) | Fail er \<Rightarrow> M)"
    and del_ok: "tracks e (M + mset (keys ps)) \<Longrightarrow> \<exists>e'. del ps e = Some e' \<and> tracks e' M"
begin

lemma add_del:
  assumes "tracks e M" and "add ps e = Some (Ret x, e1)"
  shows "\<exists>e2. del ps e1 = Some e2 \<and> tracks e2 M"
  using add_ok [OF assms(1), of ps] assms(2) by (auto intro: del_ok)

end

locale event_walk =
  fixes look :: "'e \<Rightarrow> pollfd list \<Rightarrow> bool \<times> pollfd list \<times> 'e option"
    and walking :: "'e \<Rightarrow> request multiset \<Rightarrow> request list list \<Rightarrow> bool"
  assumes look_ok: "walking e K (keys ps # T) \<Longrightarrow> look e ps = (b, ps', eo) \<Longrightarrow>
      keys ps' = keys ps \<and> (b \<longrightarrow> list_ex fired ps')
      \<and> (\<exists>e'. eo = Some e' \<and> walking e' (if b then K else K + mset (keys ps)) T)"
begin

lemma walk_ok:
  assumes "wf_vp v" and "distinct (io_q v)" and "set ts \<subseteq> set (io_q v)" and "distinct ts"
    and "\<And>t. t \<in> set ts \<Longrightarrow> t \<in> live v \<and> state_of t v = ST_IO_WAIT"
    and "walking e K (queued v ts)"
  shows "\<exists>e' v' w. ioq_walk look ts e v = Some (e', v') \<and> wf_vp v' \<and> walked ts w v v'
    \<and> walking e' (K + mset (concat (queued v (filter (\<lambda>t. t \<notin> set w) ts)))) []"
  using assms
proof (induction ts arbitrary: e v K)
  case Nil
  then show ?case by (intro exI [of _ e] exI [of _ v] exI [of _ "[]"]) (simp add: walked_refl queued_def)
next
  case (Cons t ts)
  obtain b ps eo where l: "look e (pds (pollqs v t)) = (b, ps, eo)" by (metis prod_cases3)
  have "walking e K (keys (pds (pollqs v t)) # queued v ts)" using Cons.prems(6) by (simp add: queued_def)
  from look_ok [OF this l] obtain e1 where e1: "keys ps = keys (pds (pollqs v t))" "b \<longrightarrow> list_ex fired ps"
    "eo = Some e1" "walking e1 (if b then K else K + mset (keys (pds (pollqs v t)))) (queued v ts)"
    by blast
  have t: "t \<in> live v" "state_of t v = ST_IO_WAIT" "t \<notin> set ts" "t \<in> set (io_q v)"
    using Cons.prems by auto
  show ?case
  proof (cases b)
    case True
    from notify_ok [OF Cons.prems(1) t(1,2) e1(1)] e1(2) True obtain v1 where v1:
      "notify t (unlink_pollq t (store_pds t ps v)) = Some v1" "wf_vp v1" "walked [t] [t] v v1"
      using Cons.prems(2) t(4) by auto
    have q: "queued v1 = queued v" using v1(3) by (auto simp: walked_def queued_def fun_eq_iff)
    have e4: "walking e1 K (queued v1 ts)" using e1(4) True by (simp add: q)
    have "\<exists>e' v' w. ioq_walk look ts e1 v1 = Some (e', v') \<and> wf_vp v' \<and> walked ts w v1 v'
      \<and> walking e' (K + mset (concat (queued v1 (filter (\<lambda>t. t \<notin> set w) ts)))) []"
      by (rule Cons.IH) (use Cons.prems v1(2,3) e4 t(3) in \<open>auto simp: walked_def\<close>)
    then obtain e' v' w where "ioq_walk look ts e1 v1 = Some (e', v')" "wf_vp v'" "walked ts w v1 v'"
      "walking e' (K + mset (concat (queued v (filter (\<lambda>t. t \<notin> set w) ts)))) []"
      unfolding q by blast
    moreover have "filter (\<lambda>u. u \<notin> set (t # w)) (t # ts) = filter (\<lambda>u. u \<notin> set w) ts"
      using t(3) by (auto intro: filter_cong)
    ultimately show ?thesis using l e1(3) True v1(1) walked_trans [OF v1(3), of ts w v'] t(3)
      by (intro exI [of _ e'] exI [of _ v'] exI [of _ "t # w"]) simp
  next
    case False
    let ?v = "store_pds t ps v"
    have q: "queued ?v = queued v" using e1(1) by (auto simp: queued_def store_pds_def fun_eq_iff)
    have w1: "wf_vp ?v" using Cons.prems(1) by (simp add: store_pds_def wf_pollqs)
    have st: "walked [t] [] v ?v" using e1(1) by (auto simp: walked_def store_pds_def)
    have e4: "walking e1 (K + mset (keys (pds (pollqs v t)))) (queued ?v ts)"
      using e1(4) False by (simp add: q)
    have "\<exists>e' v' w. ioq_walk look ts e1 ?v = Some (e', v') \<and> wf_vp v' \<and> walked ts w ?v v'
      \<and> walking e' ((K + mset (keys (pds (pollqs v t)))) + mset (concat (queued ?v (filter (\<lambda>t. t \<notin> set w) ts)))) []"
      by (rule Cons.IH) (use Cons.prems w1 e4 t(3) in \<open>auto simp: store_pds_def\<close>)
    then obtain e' v' w where w: "ioq_walk look ts e1 ?v = Some (e', v')" "wf_vp v'" "walked ts w ?v v'"
      "walking e' ((K + mset (keys (pds (pollqs v t)))) + mset (concat (queued v (filter (\<lambda>t. t \<notin> set w) ts)))) []"
      unfolding q by blast
    moreover have "t \<notin> set w" using w(3) t(3) by (auto simp: walked_def)
    ultimately show ?thesis using l e1(3) False walked_trans [OF st w(3)] t(3)
      by (intro exI [of _ e'] exI [of _ v'] exI [of _ w]) (simp add: queued_def add.assoc)
  qed
qed

end

section \<open>Select keeps its contract\<close>

text \<open>
  The reference counts are the numbers of waiting requests, a descriptor is in a set exactly when
  its count is not zero, and \<open>maxfd\<close> bounds them all, so that \<open>select\<close> looks at each of them.
\<close>

definition select_counts :: "seldata \<Rightarrow> request multiset \<Rightarrow> bool" where
  "select_counts d M \<longleftrightarrow>
     (\<forall>f. rd_cnt d f = int (cnt POLLIN f M)) \<and> (\<forall>f. f \<in> fd_read_set d \<longleftrightarrow> 0 < cnt POLLIN f M)
     \<and> (\<forall>f. wr_cnt d f = int (cnt POLLOUT f M)) \<and> (\<forall>f. f \<in> fd_write_set d \<longleftrightarrow> 0 < cnt POLLOUT f M)
     \<and> (\<forall>f. ex_cnt d f = int (cnt POLLPRI f M)) \<and> (\<forall>f. f \<in> fd_exception_set d \<longleftrightarrow> 0 < cnt POLLPRI f M)
     \<and> (\<forall>p \<in># M. 0 \<le> fst p \<and> fst p < FD_SETSIZE \<and> snd p \<noteq> 0)"

definition select_tracks :: "seldata \<Rightarrow> request multiset \<Rightarrow> bool" where
  "select_tracks d M \<longleftrightarrow> select_counts d M \<and> (\<forall>p \<in># M. fst p \<le> maxfd d)"

definition select_walking :: "seldata \<Rightarrow> request multiset \<Rightarrow> request list list \<Rightarrow> bool" where
  "select_walking d K T \<longleftrightarrow> select_counts d (K + mset (concat T)) \<and> (\<forall>p \<in># K. fst p \<le> maxfd d)"

lemma cnt_simps [simp]:
  "cnt ev f {#} = 0"
  "cnt ev f (add_mset (g, x) M) = (if g = f \<and> x AND ev \<noteq> 0 then Suc (cnt ev f M) else cnt ev f M)"
  by (simp_all add: cnt_def)

lemma keys_simps [simp]: "keys [] = []" "keys (pd # ps) = (fd pd, events pd) # keys ps"
  by (simp_all add: keys_def)

lemma select_add1_ok:
  assumes "select_tracks d M" and "select_valid pd"
  shows "select_tracks (select_add1 pd d) (add_mset (fd pd, events pd) M)"
proof -
  have m: "maxfd (select_add1 pd d) = max (maxfd d) (fd pd)"
    by (simp add: select_add1_def Let_def)
  have "select_counts (select_add1 pd d) (add_mset (fd pd, events pd) M)"
    using assms unfolding select_tracks_def select_counts_def
    by (intro conjI) (auto simp: select_add1_def Let_def wants_def select_valid_def)
  then show ?thesis using assms(1) m by (auto simp: select_tracks_def intro: max.coboundedI1)
qed

lemma select_del1_ok:
  assumes "select_counts d (add_mset (fd pd, events pd) M)"
  shows "select_counts (select_del1 pd d) M" and "maxfd (select_del1 pd d) = maxfd d"
proof -
  show "maxfd (select_del1 pd d) = maxfd d" by (simp add: select_del1_def Let_def)
  show "select_counts (select_del1 pd d) M"
    using assms unfolding select_counts_def
    by (intro conjI) (auto simp: select_del1_def Let_def wants_def)
qed

lemma select_add_fold:
  "list_all select_valid ps \<Longrightarrow> select_tracks d M \<Longrightarrow>
   select_tracks (fold select_add1 ps d) (M + mset (keys ps))"
proof (induction ps arbitrary: d M)
  case (Cons pd ps)
  then show ?case using select_add1_ok [of d M pd] Cons.IH [of "select_add1 pd d" "add_mset (fd pd, events pd) M"]
    by simp
qed simp

lemma select_del_fold:
  "select_counts d (M + mset (keys ps)) \<Longrightarrow>
   select_counts (fold select_del1 ps d) M \<and> maxfd (fold select_del1 ps d) = maxfd d"
proof (induction ps arbitrary: d)
  case (Cons pd ps)
  then show ?case using select_del1_ok [of d pd "M + mset (keys ps)"] Cons.IH [of "select_del1 pd d"]
    by simp
qed simp

interpretation se: event_system "\<lambda>ps d. Some (st_select_pollset_add ps d)"
  "\<lambda>ps d. Some (st_select_pollset_del ps d)" select_tracks
proof unfold_locales
  fix e M ps assume "select_tracks e M"
  then show "\<exists>r e'. Some (st_select_pollset_add ps e) = Some (r, e')
      \<and> select_tracks e' (case r of Ret x \<Rightarrow> M + mset (keys ps) | Fail er \<Rightarrow> M)"
    by (auto simp: st_select_pollset_add_def intro!: select_add_fold)
next
  fix e M ps assume "select_tracks e (M + mset (keys ps))"
  then show "\<exists>e'. Some (st_select_pollset_del ps e) = Some e' \<and> select_tracks e' M"
    using select_del_fold [of e M ps] by (auto simp: select_tracks_def st_select_pollset_del_def)
qed

lemma fold_max_ge: "m \<le> fold (\<lambda>pd m. if P pd \<and> m < fd pd then fd pd else m) ps (m :: int)"
proof (induction ps arbitrary: m)
  case (Cons q qs)
  have "m \<le> (if P q \<and> m < fd q then fd q else m)" by simp
  also have "\<dots> \<le> fold (\<lambda>pd m. if P pd \<and> m < fd pd then fd pd else m) (q # qs) m"
    by (simp only: fold_Cons o_apply) (rule Cons.IH)
  finally show ?case .
qed simp

lemma pq_max_bound:
  assumes "pd \<in> set ps" and "P pd"
  shows "fd pd \<le> pq_max_osfd P ps"
proof -
  obtain l r where ps: "ps = l @ pd # r" using split_list [OF assms(1)] by blast
  let ?f = "\<lambda>pd m. if P pd \<and> m < fd pd then fd pd else m"
  let ?m = "fold ?f l (-1)"
  have "fd pd \<le> ?f pd ?m" using assms(2) by simp
  also have "\<dots> \<le> fold ?f r (?f pd ?m)" by (rule fold_max_ge)
  finally show ?thesis by (simp add: pq_max_osfd_def ps)
qed

lemma select_counts_maxfd [simp]: "select_counts (d\<lparr>maxfd := m\<rparr>) M = select_counts d M"
  by (simp add: select_counts_def)

lemma select_release_ok:
  assumes "select_walking d K (keys ps # T)" and "select_release P ps d = (b, ps', eo)"
    and "\<And>pd. pd \<in> set ps \<Longrightarrow> events pd \<noteq> 0 \<Longrightarrow> P pd"
  shows "ps' = ps \<and> (b \<longrightarrow> list_ex fired ps)
    \<and> (\<exists>e'. eo = Some e' \<and> select_walking e' (if b then K else K + mset (keys ps)) T)"
proof (cases "list_ex fired ps")
  case True
  have "select_counts d ((K + mset (concat T)) + mset (keys ps))"
    using assms(1) by (simp add: select_walking_def ac_simps)
  then show ?thesis using assms(1,2) True select_del_fold
    by (fastforce simp: select_release_def select_walking_def)
next
  case False
  have nz: "\<forall>p \<in># K + mset (concat (keys ps # T)). snd p \<noteq> 0"
    using assms(1) unfolding select_walking_def select_counts_def by blast
  have "P pd" if "pd \<in> set ps" for pd
  proof -
    have "(fd pd, events pd) \<in># K + mset (concat (keys ps # T))" using that by (auto simp: keys_def)
    with nz show ?thesis using assms(3) [OF that] by force
  qed
  then have "\<forall>p \<in> set (keys ps). fst p \<le> pq_max_osfd P ps"
    using pq_max_bound by (auto simp: keys_def)
  moreover have "select_counts d (K + mset (keys ps) + mset (concat T))"
    using assms(1) by (simp add: select_walking_def add.assoc)
  ultimately show ?thesis using assms(1,2) False
    by (fastforce simp: select_release_def select_walking_def split: if_splits)
qed

lemma keys_revents: "(\<And>pd. fd (g pd) = fd pd \<and> events (g pd) = events pd) \<Longrightarrow> keys (map g ps) = keys ps"
  by (simp add: keys_def)

lemma release_look:
  assumes "select_walking d K (keys ps # T)" and "select_release P (map g ps) d = (b, ps', eo)"
    and "\<And>pd. fd (g pd) = fd pd \<and> events (g pd) = events pd" and "\<And>pd. events pd \<noteq> 0 \<Longrightarrow> P pd"
  shows "keys ps' = keys ps \<and> (b \<longrightarrow> list_ex fired ps')
    \<and> (\<exists>e'. eo = Some e' \<and> select_walking e' (if b then K else K + mset (keys ps)) T)"
proof -
  have k: "keys (map g ps) = keys ps" using assms(3) by (rule keys_revents)
  from assms(1) have "select_walking d K (keys (map g ps) # T)" unfolding k .
  from select_release_ok [OF this assms(2)] assms(4) show ?thesis unfolding k using k by blast
qed

interpretation sw: event_walk "select_look r w e" select_walking
  by unfold_locales (erule release_look, unfold select_look_def, assumption, auto simp: select_revents_def)

interpretation sb: event_walk "bad_look bad" select_walking
  by unfold_locales (erule release_look, unfold bad_look_def, assumption, auto simp: bad_revents_def)

section \<open>Dispatch with select and with poll\<close>

text \<open>
  When the processor idles, every linked request belongs to a thread that waits for I/O. A dispatch
  then keeps the invariant and the contract, whatever the kernel answers.
\<close>

definition ioq_idle :: "vp \<Rightarrow> bool" where
  "ioq_idle v \<longleftrightarrow> distinct (io_q v)
     \<and> (\<forall>t \<in> set (io_q v). t \<in> live v \<and> state_of t v = ST_IO_WAIT)"

lemma gathered_queued: "keys (gathered v) = concat (queued v (io_q v))"
  by (simp add: gathered_def queued_def keys_def map_concat comp_def)

lemma walked_gathered:
  assumes "walked (io_q v) w v v'"
  shows "keys (gathered v') = concat (queued v (filter (\<lambda>t. t \<notin> set w) (io_q v)))"
proof -
  have q: "queued v' = queued v" using assms by (auto simp: walked_def queued_def fun_eq_iff)
  show ?thesis using assms unfolding gathered_queued q by (simp add: walked_def)
qed

context event_walk
begin

lemma dispatch_ok:
  assumes "wf_vp v" and "ioq_idle v" and "walking e {#} (queued v (io_q v))"
  shows "\<exists>e' v' w. ioq_walk look (io_q v) e v = Some (e', v') \<and> wf_vp v' \<and> walked (io_q v) w v v'
    \<and> walking e' (mset (keys (gathered v'))) []"
proof -
  obtain e' v' w where "ioq_walk look (io_q v) e v = Some (e', v')" "wf_vp v'" "walked (io_q v) w v v'"
    "walking e' ({#} + mset (concat (queued v (filter (\<lambda>t. t \<notin> set w) (io_q v))))) []"
    using walk_ok [of v "io_q v" e "{#}"] assms by (auto simp: ioq_idle_def)
  then show ?thesis using walked_gathered by fastforce
qed

end

text \<open>
  A walk whose decision for a request is the predicate \<open>P\<close>, in all states of the event system that occur,
  wakes exactly the threads whose requests satisfy it, in order.
\<close>

lemma walk_woken_inv:
  assumes "\<And>e ps b qs e1. I e \<Longrightarrow> look e ps = (b, qs, Some e1) \<Longrightarrow> b = P ps \<and> I e1"
  shows "ioq_walk look ts e v = Some (e', v') \<Longrightarrow> I e \<Longrightarrow> distinct ts \<Longrightarrow>
    run_q v' = run_q v @ filter (\<lambda>t. P (pds (pollqs v t))) ts"
proof (induction ts arbitrary: e v)
  case (Cons t ts)
  obtain b qs eo where l: "look e (pds (pollqs v t)) = (b, qs, eo)" by (metis prod_cases3)
  then obtain e1 where e1: "eo = Some e1" using Cons.prems(1) by (cases eo) auto
  have b: "b = P (pds (pollqs v t))" "I e1" using assms [OF Cons.prems(2)] l e1 by auto
  let ?v = "store_pds t qs v"
  show ?case
  proof (cases b)
    case True
    then obtain v1 where v1: "notify t (unlink_pollq t ?v) = Some v1" "ioq_walk look ts e1 v1 = Some (e', v')"
      using Cons.prems(1) l e1 by (auto split: option.splits)
    have r1: "run_q v1 = run_q v @ [t]" "\<And>u. u \<noteq> t \<Longrightarrow> pollqs v1 u = pollqs v u"
      using v1(1) by (auto simp: notify_def unsleep_def del_sleepq_def thread_ops unlink_pollq_def
          store_pds_def split: if_splits)
    have "filter (\<lambda>u. P (pds (pollqs v1 u))) ts = filter (\<lambda>u. P (pds (pollqs v u))) ts"
      using Cons.prems(3) r1(2) by (intro filter_cong) (auto, metis+)
    then show ?thesis using Cons.IH [OF v1(2) b(2)] Cons.prems(3) True b(1) r1(1) by simp
  next
    case False
    then have "ioq_walk look ts e1 ?v = Some (e', v')" using Cons.prems(1) l e1 by auto
    then show ?thesis using Cons.IH [of e1 ?v] Cons.prems(3) False b
      by (auto simp: store_pds_def intro!: filter_cong)
  qed
qed simp

lemma walk_woken:
  assumes "\<And>e ps. \<exists>eo. look e ps = (list_ex fired (map g ps), map g ps, eo)"
    and "ioq_walk look ts e v = Some (e', v')" and "distinct ts"
  shows "run_q v' = run_q v @ filter (\<lambda>t. list_ex fired (map g (pds (pollqs v t)))) ts"
proof (rule walk_woken_inv [where look = look and I = "\<lambda>_. True", OF _ assms(2) _ assms(3)])
  fix e ps b qs e1 assume "look e ps = (b, qs, Some e1)"
  then show "b = list_ex fired (map g ps) \<and> True" using assms(1) [of e ps] by auto
qed simp

definition ready :: "int set \<Rightarrow> int set \<Rightarrow> int set \<Rightarrow> pollfd \<Rightarrow> bool" where
  "ready r w e pd \<longleftrightarrow> wants POLLIN pd \<and> fd pd \<in> r \<or> wants POLLOUT pd \<and> fd pd \<in> w
     \<or> wants POLLPRI pd \<and> fd pd \<in> e"

lemma fired_select: "fired (select_revents r w e pd) = ready r w e pd"
  by (auto simp: fired_def select_revents_def ready_def POLLIN_def POLLOUT_def POLLPRI_def or_eq_0_iff)

lemma select_start:
  "select_tracks d (mset (keys (gathered v))) \<Longrightarrow>
   select_walking (d\<lparr>maxfd := -1\<rparr>) {#} (queued v (io_q v))"
  by (simp add: select_tracks_def select_walking_def gathered_queued)

lemma select_end: "select_walking d M [] \<Longrightarrow> select_tracks d M"
  by (simp add: select_tracks_def select_walking_def)

lemma walked_none: "walked (io_q v) [] v v"
  by (simp add: walked_def)

lemma select_dispatch_ok:
  assumes "wf_vp v" and "ioq_idle v" and "select_tracks d (mset (keys (gathered v)))"
  shows "\<exists>d' v' w. st_select_dispatch a bad d v = Some (d', v') \<and> wf_vp v' \<and> walked (io_q v) w v v'
    \<and> select_tracks d' (mset (keys (gathered v')))"
proof (cases a)
  case (Selected r w e)
  show ?thesis using sw.dispatch_ok [OF assms(1,2) select_start [OF assms(3)], of r w e]
    by (auto simp: st_select_dispatch_def Selected dest: select_end)
next
  case SelectNone
  then show ?thesis using assms walked_none by (auto simp: st_select_dispatch_def)
next
  case (SelectFail er)
  then show ?thesis
    using sb.dispatch_ok [OF assms(1,2) select_start [OF assms(3)], of bad] assms walked_none
    by (auto simp: st_select_dispatch_def st_select_find_bad_fd_def dest: select_end)
qed

definition poll_tracks :: "polldata \<Rightarrow> request multiset \<Rightarrow> bool" where
  "poll_tracks d M \<longleftrightarrow> fdcnt d = int (size M)"

definition poll_walking :: "pollfd list \<times> polldata \<Rightarrow> request multiset \<Rightarrow> request list list \<Rightarrow> bool" where
  "poll_walking s K T \<longleftrightarrow> keys (fst s) = concat T \<and> poll_tracks (snd s) (K + mset (concat T))"

lemma length_keys [simp]: "length (keys ps) = length ps"
  by (simp add: keys_def)

interpretation po: event_system "\<lambda>ps d. Some (st_poll_pollset_add ps d)" st_poll_pollset_del poll_tracks
  by unfold_locales
     (auto simp: st_poll_pollset_add_def st_poll_pollset_del_def poll_tracks_def Let_def split: if_splits)

interpretation pw: event_walk poll_look poll_walking
proof unfold_locales
  fix s K ps T b ps' eo
  assume a: "poll_walking s K (keys ps # T)" "poll_look s ps = (b, ps', eo)"
  obtain arr d where s: "s = (arr, d)" by (cases s)
  have k: "keys arr = keys ps @ concat T" using a(1) s by (simp add: poll_walking_def)
  have "keys (take (length ps) arr) = keys ps" "keys (drop (length ps) arr) = concat T"
    using arg_cong [OF k, of "take (length ps)"] arg_cong [OF k, of "drop (length ps)"]
    by (simp_all add: keys_def take_map drop_map)
  with a s show "keys ps' = keys ps \<and> (b \<longrightarrow> list_ex fired ps')
      \<and> (\<exists>e'. eo = Some e' \<and> poll_walking e' (if b then K else K + mset (keys ps)) T)"
    by (auto simp: poll_look_def poll_walking_def poll_tracks_def st_poll_pollset_del_def Let_def
        split: if_splits)
qed

lemma keys_set_revents: "length rs = length ps \<Longrightarrow> keys (set_revents rs ps) = keys ps"
  by (induction rs ps rule: list_induct2) (simp_all add: set_revents_def keys_def)

lemma poll_dispatch_ok:
  assumes "wf_vp v" and "ioq_idle v" and "poll_tracks d (mset (keys (gathered v)))"
    and "\<And>r. rs = Some r \<Longrightarrow> length r = length (gathered v)"
  shows "\<exists>d' v' w. st_poll_dispatch rs True d v = Some (d', v') \<and> wf_vp v' \<and> walked (io_q v) w v v'
    \<and> poll_tracks d' (mset (keys (gathered v')))"
proof -
  obtain d1 where d1: "poll_grow True d = Some d1" "poll_tracks d1 (mset (keys (gathered v)))"
    "int (length (gathered v)) \<le> pollfds_size d1"
    using assms(3) by (cases "fdcnt d > pollfds_size d") (auto simp: poll_grow_def poll_tracks_def)
  show ?thesis
  proof (cases rs)
    case None
    then show ?thesis using d1 assms(1) walked_none by (auto simp: st_poll_dispatch_def)
  next
    case (Some r)
    have "poll_walking (set_revents r (gathered v), d1) {#} (queued v (io_q v))"
      using d1(2) keys_set_revents [OF assms(4) [OF Some]]
      by (simp add: poll_walking_def gathered_queued)
    from pw.dispatch_ok [OF assms(1,2) this] show ?thesis
      using d1 Some by (fastforce simp: st_poll_dispatch_def poll_walking_def)
  qed
qed

end
