(* ===== verification/Epoll.thy ===== *)
theory Epoll
  imports Event
begin

text \<open>
  The epoll event system of \<^verbatim>\<open>3rdpart/st-1.9/event.c\<close> (lines 116-151 and 1028-1394). The array
  \<open>fd_data\<close> is a list and every access outside it is \<open>None\<close>. The kernel's interest list \<open>kset\<close> and
  its answers are part of the state: \<open>ctl_ans\<close> lists failures of coming \<open>epoll_ctl\<close> calls, \<open>mem_ans\<close>
  the results of coming \<open>realloc\<close> calls; when a list is used up the calls succeed.
\<close>

section \<open>Data\<close>

record epoll_fd =
  rd_ref_cnt :: int
  wr_ref_cnt :: int
  ex_ref_cnt :: int
  ep_revents :: "32 word"

record epolldata =
  fd_data :: "epoll_fd list"
  evtlist_size :: int
  evtlist_cnt :: int
  fd_hint :: int
  epfd :: int
  ep_pid :: nat
  kset :: "int \<rightharpoonup> 32 word"
  ctl_ans :: "errno option list"
  mem_ans :: "bool list"

datatype ctl_op = EPOLL_CTL_ADD | EPOLL_CTL_MOD | EPOLL_CTL_DEL

definition EPOLLIN :: "32 word" where "EPOLLIN = 1"
definition EPOLLPRI :: "32 word" where "EPOLLPRI = 2"
definition EPOLLOUT :: "32 word" where "EPOLLOUT = 4"
definition EPOLLERR :: "32 word" where "EPOLLERR = 8"
definition EPOLLHUP :: "32 word" where "EPOLLHUP = 16"

definition EEXIST :: errno where "EEXIST = EOTHER 17"
definition ENOENT :: errno where "ENOENT = EOTHER 2"
definition ENOMEM :: errno where "ENOMEM = EOTHER 12"

definition ST_EPOLL_EVTLIST_SIZE :: int where "ST_EPOLL_EVTLIST_SIZE = 4096"

definition fd_zero :: epoll_fd where
  "fd_zero = \<lparr>rd_ref_cnt = 0, wr_ref_cnt = 0, ex_ref_cnt = 0, ep_revents = 0\<rparr>"

definition EPOLL_EVENTS :: "epoll_fd \<Rightarrow> 32 word" where
  "EPOLL_EVENTS x = (if rd_ref_cnt x \<noteq> 0 then EPOLLIN else 0) OR (if wr_ref_cnt x \<noteq> 0 then EPOLLOUT else 0)
     OR (if ex_ref_cnt x \<noteq> 0 then EPOLLPRI else 0)"

definition fd_get :: "int \<Rightarrow> epolldata \<Rightarrow> epoll_fd option" where
  "fd_get f d = (if 0 \<le> f \<and> f < int (length (fd_data d)) then Some (fd_data d ! nat f) else None)"

definition fd_put :: "int \<Rightarrow> epoll_fd \<Rightarrow> epolldata \<Rightarrow> epolldata" where
  "fd_put f x d = d\<lparr>fd_data := (fd_data d)[nat f := x]\<rparr>"

text \<open>\<open>epoll_ctl\<close> as \<^verbatim>\<open>epoll_ctl(2)\<close> documents it.\<close>

definition epoll_ctl :: "ctl_op \<Rightarrow> int \<Rightarrow> 32 word \<Rightarrow> epolldata \<Rightarrow> errno option \<times> epolldata" where
  "epoll_ctl op f ev d =
     (let ans = (case ctl_ans d of [] \<Rightarrow> None | a # as \<Rightarrow> a); d1 = d\<lparr>ctl_ans := tl (ctl_ans d)\<rparr>
      in if epfd d < 0 then (Some EBADF, d)
         else case ans of
           Some e \<Rightarrow> (Some e, d1)
         | None \<Rightarrow>
             (case op of
                EPOLL_CTL_ADD \<Rightarrow>
                  (if kset d f \<noteq> None then (Some EEXIST, d1) else (None, d1\<lparr>kset := (kset d)(f \<mapsto> ev)\<rparr>))
              | EPOLL_CTL_MOD \<Rightarrow>
                  (if kset d f = None then (Some ENOENT, d1) else (None, d1\<lparr>kset := (kset d)(f \<mapsto> ev)\<rparr>))
              | EPOLL_CTL_DEL \<Rightarrow>
                  (if kset d f = None then (Some ENOENT, d1) else (None, d1\<lparr>kset := (kset d)(f := None)\<rparr>))))"

definition realloc_ok :: "epolldata \<Rightarrow> bool \<times> epolldata" where
  "realloc_ok d = (case mem_ans d of [] \<Rightarrow> (True, d) | b # bs \<Rightarrow> (b, d\<lparr>mem_ans := bs\<rparr>))"

section \<open>Operations\<close>

text \<open>
  \<open>fdlim\<close> is the result of \<open>st_getfdlimit\<close>, \<open>ep\<close> of \<open>epoll_create\<close>, \<open>mem_fd\<close> and \<open>mem_ev\<close> of the
  two allocations.
\<close>

definition st_epoll_init :: "int \<Rightarrow> int \<Rightarrow> bool \<Rightarrow> bool \<Rightarrow> nat \<Rightarrow> epolldata option" where
  "st_epoll_init fdlim ep mem_fd mem_ev pid =
     (let hint = (if fdlim > 0 \<and> fdlim < ST_EPOLL_EVTLIST_SIZE then fdlim else ST_EPOLL_EVTLIST_SIZE)
      in if ep < 0 \<or> \<not> mem_fd \<or> \<not> mem_ev then None
         else Some \<lparr>fd_data = replicate (nat hint) fd_zero, evtlist_size = hint, evtlist_cnt = 0,
                fd_hint = hint, epfd = ep, ep_pid = pid, kset = Map.empty, ctl_ans = [], mem_ans = []\<rparr>)"

text \<open>\<open>while (maxfd >= n) n <<= 1\<close>; the array is never empty.\<close>

function double_until :: "int \<Rightarrow> nat \<Rightarrow> nat" where
  "double_until m n = (if 0 < n \<and> int n \<le> m then double_until m (2 * n) else n)"
  by auto
termination by (relation "measure (\<lambda>(m, n). nat (m + 1) - n)") auto

declare double_until.simps [simp del]

definition st_epoll_fd_data_expand :: "int \<Rightarrow> epolldata \<Rightarrow> bool \<times> epolldata" where
  "st_epoll_fd_data_expand m d =
     (let n = double_until m (length (fd_data d)); (ok, d1) = realloc_ok d
      in if ok then (True, d1\<lparr>fd_data := fd_data d @ replicate (n - length (fd_data d)) fd_zero\<rparr>)
         else (False, d1))"

definition st_epoll_evtlist_expand :: "epolldata \<Rightarrow> epolldata" where
  "st_epoll_evtlist_expand d =
     (let n = double_until (evtlist_cnt d - 1) (nat (evtlist_size d)); (ok, d1) = realloc_ok d
      in if ok then d1\<lparr>evtlist_size := int n\<rparr> else d1)"

definition bump :: "int \<Rightarrow> pollfd \<Rightarrow> epoll_fd \<Rightarrow> epoll_fd" where
  "bump k pd x = x\<lparr>rd_ref_cnt := rd_ref_cnt x + (if wants POLLIN pd then k else 0),
     wr_ref_cnt := wr_ref_cnt x + (if wants POLLOUT pd then k else 0),
     ex_ref_cnt := ex_ref_cnt x + (if wants POLLPRI pd then k else 0)\<rparr>"

definition epoll_del1 :: "pollfd \<Rightarrow> epolldata \<Rightarrow> epolldata option" where
  "epoll_del1 pd d =
     (case fd_get (fd pd) d of
        None \<Rightarrow> None
      | Some x \<Rightarrow>
          (let y = bump (-1) pd x; d1 = fd_put (fd pd) y d; ev = EPOLL_EVENTS y
           in if ev \<noteq> EPOLL_EVENTS x \<and> ep_revents y = 0
              then (let op = (if ev \<noteq> 0 then EPOLL_CTL_MOD else EPOLL_CTL_DEL);
                        (r, d2) = epoll_ctl op (fd pd) ev d1
                    in Some (if r = None \<and> op = EPOLL_CTL_DEL
                             then d2\<lparr>evtlist_cnt := evtlist_cnt d2 - 1\<rparr> else d2))
              else Some d1))"

fun st_epoll_pollset_del :: "pollfd list \<Rightarrow> epolldata \<Rightarrow> epolldata option" where
  "st_epoll_pollset_del [] d = Some d"
| "st_epoll_pollset_del (pd # ps) d = Option.bind (epoll_del1 pd d) (st_epoll_pollset_del ps)"

text \<open>The checks up front; the array grows to hold every descriptor.\<close>

fun epoll_check :: "pollfd list \<Rightarrow> epolldata \<Rightarrow> errno option \<times> epolldata" where
  "epoll_check [] d = (None, d)"
| "epoll_check (pd # ps) d =
     (if fd pd < 0 \<or> events pd = 0 \<or> events pd AND NOT POLL_EVENTS \<noteq> 0 then (Some EINVAL, d)
      else if fd pd \<ge> int (length (fd_data d))
      then (case st_epoll_fd_data_expand (fd pd) d of
              (False, d1) \<Rightarrow> (Some ENOMEM, d1)
            | (True, d1) \<Rightarrow> epoll_check ps d1)
      else epoll_check ps d)"

text \<open>One round of the second loop: an \<open>errno\<close> when it breaks out.\<close>

definition epoll_add1 :: "pollfd \<Rightarrow> epolldata \<Rightarrow> (errno option \<times> epolldata) option" where
  "epoll_add1 pd d =
     (case fd_get (fd pd) d of
        None \<Rightarrow> None
      | Some x \<Rightarrow>
          (let y = bump 1 pd x; d1 = fd_put (fd pd) y d; ev = EPOLL_EVENTS y
           in if ev \<noteq> EPOLL_EVENTS x
              then (let op = (if EPOLL_EVENTS x \<noteq> 0 then EPOLL_CTL_MOD else EPOLL_CTL_ADD);
                        (r, d2) = epoll_ctl op (fd pd) ev d1
                    in if r \<noteq> None \<and> (op \<noteq> EPOLL_CTL_ADD \<or> r \<noteq> Some EEXIST) then Some (r, d2)
                       else if op = EPOLL_CTL_ADD
                       then (let d3 = d2\<lparr>evtlist_cnt := evtlist_cnt d2 + 1\<rparr>
                             in Some (None, if evtlist_cnt d3 > evtlist_size d3
                                            then st_epoll_evtlist_expand d3 else d3))
                       else Some (None, d2))
              else Some (None, d1)))"

text \<open>The loop, with the number of rounds it entered.\<close>

fun epoll_add_loop :: "pollfd list \<Rightarrow> nat \<Rightarrow> epolldata \<Rightarrow> (errno option \<times> nat \<times> epolldata) option" where
  "epoll_add_loop [] i d = Some (None, i, d)"
| "epoll_add_loop (pd # ps) i d =
     (case epoll_add1 pd d of
        None \<Rightarrow> None
      | Some (Some e, d1) \<Rightarrow> Some (Some e, i, d1)
      | Some (None, d1) \<Rightarrow> epoll_add_loop ps (i + 1) d1)"

definition st_epoll_pollset_add :: "pollfd list \<Rightarrow> epolldata \<Rightarrow> (rv \<times> epolldata) option" where
  "st_epoll_pollset_add ps d =
     (case epoll_check ps d of
        (Some e, d1) \<Rightarrow> Some (Fail e, d1)
      | (None, d1) \<Rightarrow>
          (case epoll_add_loop ps 0 d1 of
             None \<Rightarrow> None
           | Some (None, i, d2) \<Rightarrow> Some (Ret 0, d2)
           | Some (Some e, i, d2) \<Rightarrow>
               map_option (\<lambda>d3. (Fail e, d3)) (st_epoll_pollset_del (take (i + 1) ps) d2)))"

text \<open>Dispatch: note what fired, walk the queue, then bring the kernel's list up to date.\<close>

fun epoll_note :: "(int \<times> 32 word) list \<Rightarrow> epolldata \<Rightarrow> epolldata option" where
  "epoll_note [] d = Some d"
| "epoll_note ((f, ev) # es) d =
     (case fd_get f d of
        None \<Rightarrow> None
      | Some x \<Rightarrow>
          epoll_note es (fd_put f (x\<lparr>ep_revents :=
            (if ev AND (EPOLLERR OR EPOLLHUP) \<noteq> 0 then ev OR EPOLL_EVENTS x else ev)\<rparr>) d))"

definition epoll_revents :: "32 word \<Rightarrow> pollfd \<Rightarrow> 16 word" where
  "epoll_revents fi pd =
     (if wants POLLIN pd \<and> fi AND EPOLLIN \<noteq> 0 then POLLIN else 0)
     OR (if wants POLLOUT pd \<and> fi AND EPOLLOUT \<noteq> 0 then POLLOUT else 0)
     OR (if wants POLLPRI pd \<and> fi AND EPOLLPRI \<noteq> 0 then POLLPRI else 0)
     OR (if fi AND EPOLLERR \<noteq> 0 then POLLERR else 0)
     OR (if fi AND EPOLLHUP \<noteq> 0 then POLLHUP else 0)"

definition epoll_mark :: "epolldata \<Rightarrow> pollfd \<Rightarrow> pollfd option" where
  "epoll_mark d pd = map_option (\<lambda>x. pd\<lparr>revents :=
     (if ep_revents x = 0 then 0 else epoll_revents (ep_revents x) pd)\<rparr>) (fd_get (fd pd) d)"

definition epoll_look :: "epolldata \<Rightarrow> pollfd list \<Rightarrow> bool \<times> pollfd list \<times> epolldata option" where
  "epoll_look d ps =
     (case those (map (epoll_mark d) ps) of
        None \<Rightarrow> (False, ps, None)
      | Some qs \<Rightarrow>
          (if list_ex fired qs then (True, qs, st_epoll_pollset_del qs d) else (False, qs, Some d)))"

fun epoll_settle :: "(int \<times> 32 word) list \<Rightarrow> epolldata \<Rightarrow> epolldata option" where
  "epoll_settle [] d = Some d"
| "epoll_settle ((f, ev) # es) d =
     (case fd_get f d of
        None \<Rightarrow> None
      | Some x \<Rightarrow>
          (let d1 = fd_put f (x\<lparr>ep_revents := 0\<rparr>) d; now = EPOLL_EVENTS x;
               op = (if now \<noteq> 0 then EPOLL_CTL_MOD else EPOLL_CTL_DEL);
               (r, d2) = epoll_ctl op f now d1
           in epoll_settle es (if r = None \<and> op = EPOLL_CTL_DEL
                               then d2\<lparr>evtlist_cnt := evtlist_cnt d2 - 1\<rparr> else d2)))"

text \<open>After a fork a new epoll set is filled with every linked request; the results are ignored.\<close>

fun epoll_refill :: "pollfd list list \<Rightarrow> epolldata \<Rightarrow> epolldata option" where
  "epoll_refill [] d = Some d"
| "epoll_refill (ps # pss) d = Option.bind (st_epoll_pollset_add ps d) (\<lambda>(r, d1). epoll_refill pss d1)"

definition epoll_wait_step ::
  "(int \<times> 32 word) list \<Rightarrow> epolldata \<Rightarrow> vp \<Rightarrow> (epolldata \<times> vp) option"
where
  "epoll_wait_step es d v =
     (if es = [] then Some (d, v)
      else Option.bind (epoll_note es d) (\<lambda>d1.
             Option.bind (ioq_walk epoll_look (io_q v) d1 v) (\<lambda>(d2, v1).
               map_option (\<lambda>d3. (d3, v1)) (epoll_settle es d2))))"

definition st_epoll_dispatch ::
  "nat \<Rightarrow> int \<Rightarrow> (int \<times> 32 word) list \<Rightarrow> epolldata \<Rightarrow> vp \<Rightarrow> (epolldata \<times> vp) option"
where
  "st_epoll_dispatch pid newfd es d v =
     (if ep_pid d = pid then epoll_wait_step es d v
      else
        (let d1 = d\<lparr>epfd := newfd\<rparr>
         in if newfd < 0 then Some (d1, v)
            else Option.bind
                   (epoll_refill (map (\<lambda>t. pds (pollqs v t)) (io_q v))
                      (d1\<lparr>ep_pid := pid, fd_data := replicate (length (fd_data d)) fd_zero,
                          evtlist_cnt := 0, kset := Map.empty\<rparr>))
                   (\<lambda>d2. epoll_wait_step es d2 v)))"

definition st_epoll_fd_new :: "int \<Rightarrow> epolldata \<Rightarrow> rv \<times> epolldata" where
  "st_epoll_fd_new osfd d =
     (if osfd \<ge> int (length (fd_data d))
      then (case st_epoll_fd_data_expand osfd d of (ok, d1) \<Rightarrow> (if ok then Ret 0 else Fail ENOMEM, d1))
      else (Ret 0, d))"

definition st_epoll_fd_close :: "int \<Rightarrow> epolldata \<Rightarrow> rv option" where
  "st_epoll_fd_close osfd d =
     map_option (\<lambda>x. if rd_ref_cnt x \<noteq> 0 \<or> wr_ref_cnt x \<noteq> 0 \<or> ex_ref_cnt x \<noteq> 0 then Fail EBUSY else Ret 0)
       (fd_get osfd d)"

section \<open>Epoll keeps the contract\<close>

text \<open>The counts are right and every waiting descriptor is inside the array.\<close>

definition fd_counts :: "epoll_fd list \<Rightarrow> request multiset \<Rightarrow> bool" where
  "fd_counts xs M \<longleftrightarrow> xs \<noteq> [] \<and> (\<forall>p \<in># M. 0 \<le> fst p \<and> fst p < int (length xs))
     \<and> (\<forall>f < length xs. rd_ref_cnt (xs ! f) = int (cnt POLLIN (int f) M)
          \<and> wr_ref_cnt (xs ! f) = int (cnt POLLOUT (int f) M)
          \<and> ex_ref_cnt (xs ! f) = int (cnt POLLPRI (int f) M))"

definition epoll_tracks :: "epolldata \<Rightarrow> request multiset \<Rightarrow> bool" where
  "epoll_tracks d M \<longleftrightarrow> fd_counts (fd_data d) M"

definition epoll_walking :: "epolldata \<Rightarrow> request multiset \<Rightarrow> request list list \<Rightarrow> bool" where
  "epoll_walking d K T \<longleftrightarrow> fd_counts (fd_data d) (K + mset (concat T))"

lemma double_until_gt: "0 < n \<Longrightarrow> m < int (double_until m n) \<and> n \<le> double_until m n"
proof (induction m n rule: double_until.induct)
  case (1 m n)
  then show ?case by (subst (1 2) double_until.simps) auto
qed

lemma ctl_fd_data [simp]: "epoll_ctl op f ev d = (r, d') \<Longrightarrow> fd_data d' = fd_data d"
  by (auto simp: epoll_ctl_def Let_def split: if_splits option.splits ctl_op.splits)

lemma realloc_fd_data [simp]: "realloc_ok d = (ok, d') \<Longrightarrow> fd_data d' = fd_data d"
  by (auto simp: realloc_ok_def split: list.splits)

lemma evtlist_fd_data [simp]: "fd_data (st_epoll_evtlist_expand d) = fd_data d"
  by (auto simp: st_epoll_evtlist_expand_def Let_def split: prod.splits)

lemma cnt_outside: "\<forall>p \<in># M. fst p \<noteq> f \<Longrightarrow> cnt ev f M = 0"
  by (induction M) auto

lemma fd_counts_grow:
  assumes "fd_counts xs M"
  shows "fd_counts (xs @ replicate k fd_zero) M"
proof -
  have "cnt ev (int f) M = 0" if "length xs \<le> f" for ev f
    by (rule cnt_outside) (use assms that in \<open>auto simp: fd_counts_def\<close>)
  then show ?thesis using assms by (auto simp: fd_counts_def nth_append fd_zero_def)
qed

lemma fd_counts_add:
  assumes "fd_counts xs M" and "0 \<le> fd pd" and "fd pd < int (length xs)"
  shows "fd_counts (xs[nat (fd pd) := bump 1 pd (xs ! nat (fd pd))]) (add_mset (fd pd, events pd) M)"
  using assms by (auto simp: fd_counts_def bump_def nth_list_update wants_def)

lemma fd_counts_del:
  assumes "fd_counts xs (add_mset (fd pd, events pd) M)"
  shows "fd_counts (xs[nat (fd pd) := bump (-1) pd (xs ! nat (fd pd))]) M"
  using assms by (auto simp: fd_counts_def bump_def nth_list_update wants_def)

lemma epoll_del1_ok:
  assumes "fd_counts (fd_data d) (add_mset (fd pd, events pd) M)"
  shows "\<exists>d'. epoll_del1 pd d = Some d' \<and> fd_counts (fd_data d') M"
proof -
  have "fd_get (fd pd) d = Some (fd_data d ! nat (fd pd))"
    using assms by (auto simp: fd_get_def fd_counts_def)
  then show ?thesis using fd_counts_del [OF assms]
    by (auto simp: epoll_del1_def fd_put_def Let_def split: prod.splits)
qed

lemma epoll_del_ok:
  "fd_counts (fd_data d) (M + mset (keys ps)) \<Longrightarrow>
   \<exists>d'. st_epoll_pollset_del ps d = Some d' \<and> fd_counts (fd_data d') M"
proof (induction ps arbitrary: d)
  case (Cons pd ps)
  then obtain d1 where "epoll_del1 pd d = Some d1" "fd_counts (fd_data d1) (M + mset (keys ps))"
    using epoll_del1_ok [of d pd "M + mset (keys ps)"] by auto
  then show ?case using Cons.IH by auto
qed simp

lemma epoll_add1_ok:
  assumes "fd_counts (fd_data d) M" and "0 \<le> fd pd" and "fd pd < int (length (fd_data d))"
  shows "\<exists>r d'. epoll_add1 pd d = Some (r, d') \<and> length (fd_data d') = length (fd_data d)
    \<and> fd_counts (fd_data d') (add_mset (fd pd, events pd) M)"
proof -
  have "fd_get (fd pd) d = Some (fd_data d ! nat (fd pd))" using assms by (auto simp: fd_get_def)
  then show ?thesis using fd_counts_add [OF assms]
    by (auto simp: epoll_add1_def fd_put_def Let_def split: prod.splits)
qed

lemma epoll_add_loop_ok:
  "fd_counts (fd_data d) M \<Longrightarrow> list_all (\<lambda>pd. 0 \<le> fd pd \<and> fd pd < int (length (fd_data d))) ps \<Longrightarrow>
   \<exists>r k d'. epoll_add_loop ps i d = Some (r, i + k, d')
     \<and> fd_counts (fd_data d') (M + mset (keys (if r = None then ps else take (k + 1) ps)))"
proof (induction ps arbitrary: d M i)
  case (Cons pd ps)
  obtain r d1 where d1: "epoll_add1 pd d = Some (r, d1)" "length (fd_data d1) = length (fd_data d)"
    "fd_counts (fd_data d1) (add_mset (fd pd, events pd) M)"
    using epoll_add1_ok [of d M pd] Cons.prems by auto
  show ?case
  proof (cases r)
    case None
    then obtain s k d' where "epoll_add_loop ps (i + 1) d1 = Some (s, (i + 1) + k, d')"
      "fd_counts (fd_data d') (add_mset (fd pd, events pd) M + mset (keys (if s = None then ps else take (k + 1) ps)))"
      using Cons.IH [OF d1(3), of "i + 1"] Cons.prems(2) d1(2) by auto
    then show ?thesis using d1(1) None
      by (intro exI [of _ s] exI [of _ "k + 1"] exI [of _ d']) (auto split: if_splits)
  next
    case (Some e)
    then show ?thesis using d1(1,3) by (intro exI [of _ r] exI [of _ 0] exI [of _ d1]) simp
  qed
qed simp

lemma epoll_check_ok:
  "fd_counts (fd_data d) M \<Longrightarrow> epoll_check ps d = (r, d') \<Longrightarrow>
   fd_counts (fd_data d') M \<and> length (fd_data d) \<le> length (fd_data d')
   \<and> (r = None \<longrightarrow> list_all (\<lambda>pd. 0 \<le> fd pd \<and> fd pd < int (length (fd_data d'))) ps)"
proof (induction ps arbitrary: d)
  case (Cons pd ps)
  have ne: "0 < length (fd_data d)" using Cons.prems(1) by (simp add: fd_counts_def)
  show ?case
  proof (cases "fd pd < 0 \<or> events pd = 0 \<or> events pd AND NOT POLL_EVENTS \<noteq> 0")
    case True
    then show ?thesis using Cons.prems by auto
  next
    case False
    show ?thesis
    proof (cases "fd pd \<ge> int (length (fd_data d))")
      case True
      obtain ok d1 where e: "st_epoll_fd_data_expand (fd pd) d = (ok, d1)" by fastforce
      have g: "fd_counts (fd_data d1) M" "length (fd_data d) \<le> length (fd_data d1)"
        "ok \<Longrightarrow> fd pd < int (length (fd_data d1))"
        using e fd_counts_grow [OF Cons.prems(1)] double_until_gt [OF ne, of "fd pd"] Cons.prems(1)
        by (auto simp: st_epoll_fd_data_expand_def Let_def split: prod.splits if_splits)
      show ?thesis
      proof (cases ok)
        case True
        then show ?thesis using Cons.IH [OF g(1)] Cons.prems(2) False \<open>fd pd \<ge> _\<close> e g by auto
      next
        case False
        then show ?thesis using Cons.prems(2) \<open>\<not> (fd pd < 0 \<or> _)\<close> \<open>fd pd \<ge> _\<close> e g by auto
      qed
    next
      case F: False
      then show ?thesis using Cons.IH [OF Cons.prems(1)] Cons.prems(2) False by auto
    qed
  qed
qed auto

lemma epoll_add_ok:
  assumes "fd_counts (fd_data d) M"
  shows "\<exists>r d'. st_epoll_pollset_add ps d = Some (r, d')
    \<and> fd_counts (fd_data d') (case r of Ret x \<Rightarrow> M + mset (keys ps) | Fail er \<Rightarrow> M)"
proof -
  obtain c d1 where c: "epoll_check ps d = (c, d1)" by fastforce
  note ok = epoll_check_ok [OF assms c]
  show ?thesis
  proof (cases c)
    case None
    then obtain r k d2 where l: "epoll_add_loop ps 0 d1 = Some (r, 0 + k, d2)"
      "fd_counts (fd_data d2) (M + mset (keys (if r = None then ps else take (k + 1) ps)))"
      using epoll_add_loop_ok [of d1 M ps 0] ok by auto
    then show ?thesis using None c epoll_del_ok [of d2 M "take (k + 1) ps"]
      by (cases r) (auto simp: st_epoll_pollset_add_def)
  next
    case (Some e)
    then show ?thesis using ok c by (simp add: st_epoll_pollset_add_def)
  qed
qed

interpretation ep: event_system st_epoll_pollset_add st_epoll_pollset_del epoll_tracks
  by unfold_locales (auto simp: epoll_tracks_def intro: epoll_add_ok epoll_del_ok)


lemma epoll_mark_ok:
  assumes "fd_counts (fd_data d) (K + mset (keys ps))"
  shows "\<exists>qs. those (map (epoll_mark d) ps) = Some qs \<and> keys qs = keys ps"
  using assms
proof (induction ps arbitrary: K)
  case (Cons pd ps)
  have "fd_get (fd pd) d = Some (fd_data d ! nat (fd pd))"
    using Cons.prems by (auto simp: fd_counts_def fd_get_def)
  then obtain r where "epoll_mark d pd = Some (pd\<lparr>revents := r\<rparr>)" by (auto simp: epoll_mark_def)
  moreover obtain qs where "those (map (epoll_mark d) ps) = Some qs" "keys qs = keys ps"
    using Cons.IH [of "add_mset (fd pd, events pd) K"] Cons.prems by auto
  ultimately show ?case by simp
qed simp

interpretation ew: event_walk epoll_look epoll_walking
proof unfold_locales
  fix d K ps T b ps' eo
  assume a: "epoll_walking d K (keys ps # T)" "epoll_look d ps = (b, ps', eo)"
  have c: "fd_counts (fd_data d) ((K + mset (concat T)) + mset (keys ps))"
    using a(1) by (simp add: epoll_walking_def ac_simps)
  obtain qs where q: "those (map (epoll_mark d) ps) = Some qs" "keys qs = keys ps"
    using epoll_mark_ok [OF c] by blast
  obtain d' where h: "st_epoll_pollset_del qs d = Some d'" "fd_counts (fd_data d') (K + mset (concat T))"
    using epoll_del_ok [of d "K + mset (concat T)" qs] c q(2) by auto
  show "keys ps' = keys ps \<and> (b \<longrightarrow> list_ex fired ps')
      \<and> (\<exists>e'. eo = Some e' \<and> epoll_walking e' (if b then K else K + mset (keys ps)) T)"
    using a q(2) h(2) by (auto simp: epoll_look_def epoll_walking_def ac_simps q(1) h(1) split: if_splits)
qed

lemma fd_counts_revents:
  assumes "fd_counts xs M" and "f < length xs"
  shows "fd_counts (xs[f := (xs ! f)\<lparr>ep_revents := r\<rparr>]) M"
  using assms by (auto simp: fd_counts_def nth_list_update)

lemma epoll_note_ok:
  "fd_counts (fd_data d) M \<Longrightarrow> \<forall>p \<in> set es. 0 \<le> fst p \<and> fst p < int (length (fd_data d)) \<Longrightarrow>
   \<exists>d'. epoll_note es d = Some d' \<and> fd_counts (fd_data d') M \<and> length (fd_data d') = length (fd_data d)"
proof (induction es arbitrary: d)
  case (Cons p es)
  obtain f ev where p: "p = (f, ev)" by (cases p)
  have g: "fd_get f d = Some (fd_data d ! nat f)" "nat f < length (fd_data d)"
    using Cons.prems(2) p by (auto simp: fd_get_def)
  let ?d = "fd_put f ((fd_data d ! nat f)\<lparr>ep_revents :=
    (if ev AND (EPOLLERR OR EPOLLHUP) \<noteq> 0 then ev OR EPOLL_EVENTS (fd_data d ! nat f) else ev)\<rparr>) d"
  have "fd_counts (fd_data ?d) M"
    using fd_counts_revents [OF Cons.prems(1) g(2)] by (simp add: fd_put_def)
  moreover have "length (fd_data ?d) = length (fd_data d)" by (simp add: fd_put_def)
  ultimately show ?case using Cons.IH [of ?d] Cons.prems(2) g p by simp
qed simp

lemma epoll_settle_ok:
  "fd_counts (fd_data d) M \<Longrightarrow> \<forall>p \<in> set es. 0 \<le> fst p \<and> fst p < int (length (fd_data d)) \<Longrightarrow>
   \<exists>d'. epoll_settle es d = Some d' \<and> fd_counts (fd_data d') M"
proof (induction es arbitrary: d)
  case (Cons p es)
  obtain f ev where p: "p = (f, ev)" by (cases p)
  have g: "fd_get f d = Some (fd_data d ! nat f)" "nat f < length (fd_data d)"
    using Cons.prems(2) p by (auto simp: fd_get_def)
  let ?d = "fd_put f ((fd_data d ! nat f)\<lparr>ep_revents := 0\<rparr>) d"
  have c: "fd_counts (fd_data ?d) M" "length (fd_data ?d) = length (fd_data d)"
    using fd_counts_revents [OF Cons.prems(1) g(2)] by (simp_all add: fd_put_def)
  obtain r d2 where r: "epoll_ctl (if EPOLL_EVENTS (fd_data d ! nat f) \<noteq> 0 then EPOLL_CTL_MOD else EPOLL_CTL_DEL)
      f (EPOLL_EVENTS (fd_data d ! nat f)) ?d = (r, d2)" by fastforce
  have "fd_data d2 = fd_data ?d" using r by simp
  then show ?case using Cons.IH [of d2] Cons.IH [of "d2\<lparr>evtlist_cnt := evtlist_cnt d2 - 1\<rparr>"]
      Cons.prems(2) g p c r by (auto simp: Let_def)
qed simp

lemma walk_keeps_size:
  assumes "\<And>e ps b ps' e'. look e ps = (b, ps', Some e') \<Longrightarrow> n e' = n e"
  shows "ioq_walk look ts e v = Some (e', v') \<Longrightarrow> n e' = n e"
proof (induction ts arbitrary: e v)
  case (Cons t ts)
  then show ?case using assms by (fastforce split: prod.splits option.splits if_splits)
qed simp

lemma del_keeps_size: "st_epoll_pollset_del ps d = Some d' \<Longrightarrow> length (fd_data d') = length (fd_data d)"
proof (induction ps arbitrary: d)
  case (Cons pd ps)
  then obtain d1 where d1: "epoll_del1 pd d = Some d1" "st_epoll_pollset_del ps d1 = Some d'"
    by (auto simp: bind_eq_Some_conv)
  have "length (fd_data d1) = length (fd_data d)"
    using d1(1) by (auto simp: epoll_del1_def fd_put_def Let_def split: option.splits if_splits prod.splits)
  then show ?case using Cons.IH [OF d1(2)] by simp
qed simp

lemma epoll_dispatch_ok:
  assumes "wf_vp v" and "ioq_idle v" and "epoll_tracks d (mset (keys (gathered v)))" and "ep_pid d = pid"
    and "\<forall>p \<in> set es. 0 \<le> fst p \<and> fst p < int (length (fd_data d))"
  shows "\<exists>d' v' w. st_epoll_dispatch pid newfd es d v = Some (d', v') \<and> wf_vp v'
    \<and> walked (io_q v) w v v' \<and> epoll_tracks d' (mset (keys (gathered v')))"
proof (cases "es = []")
  case True
  then show ?thesis using assms walked_none by (auto simp: st_epoll_dispatch_def epoll_wait_step_def)
next
  case False
  obtain d1 where d1: "epoll_note es d = Some d1" "fd_counts (fd_data d1) (mset (keys (gathered v)))"
    "length (fd_data d1) = length (fd_data d)"
    using epoll_note_ok [of d "mset (keys (gathered v))" es] assms(3,5) by (auto simp: epoll_tracks_def)
  have "epoll_walking d1 {#} (queued v (io_q v))"
    using d1(2) by (simp add: epoll_walking_def gathered_queued)
  from ew.dispatch_ok [OF assms(1,2) this] obtain d2 v' w where d2:
    "ioq_walk epoll_look (io_q v) d1 v = Some (d2, v')" "wf_vp v'" "walked (io_q v) w v v'"
    "fd_counts (fd_data d2) (mset (keys (gathered v')))" by (auto simp: epoll_walking_def)
  have "length (fd_data d2) = length (fd_data d1)"
    by (rule walk_keeps_size [OF _ d2(1)])
       (auto simp: epoll_look_def del_keeps_size split: option.splits if_splits)
  then obtain d3 where "epoll_settle es d2 = Some d3" "fd_counts (fd_data d3) (mset (keys (gathered v')))"
    using epoll_settle_ok [OF d2(4)] assms(5) d1(3) by auto
  then show ?thesis using False assms(4) d1(1) d2
    by (auto simp: st_epoll_dispatch_def epoll_wait_step_def epoll_tracks_def)
qed

end
