(* ===== verification/Kqueue.thy ===== *)
theory Kqueue
  imports Epoll
begin

text \<open>
  The kqueue event system of \<^verbatim>\<open>3rdpart/st-1.9/event.c\<close> (lines 84-113 and 599-1023), the one of the BSD
  systems. A registration is a pair of descriptor and filter. It is asked for with an \<open>EV_ADD\<close> in
  \<open>addlist\<close>, which the next \<open>kevent\<close> call hands to the kernel, and it fires once; it is withdrawn at
  once, with an \<open>EV_DELETE\<close> in \<open>dellist\<close>. \<open>registered\<close> is the kernel's side. \<open>kq_mem\<close> lists the results of
  coming \<open>realloc\<close> calls, \<open>kq_intr\<close> how often coming deletions are interrupted; when a list is used up
  the calls succeed. The lists are the used parts of the arrays, so \<open>addlist_cnt\<close> is a length. The
  platform's \<open>NOTE_EOF\<close> is left to the kernel's answers.
\<close>

section \<open>Data\<close>

record kq_fd =
  kq_rd :: int
  kq_wr :: int
  kq_revents :: "16 word"

datatype kq_filter = EVFILT_READ | EVFILT_WRITE

record kevent =
  ident :: int
  evfilter :: kq_filter
  kev_flags :: "16 word"
  kev_data :: errno

record kqdata =
  kq_fd_data :: "kq_fd list"
  kq_evtlist_size :: int
  addlist :: "kevent list"
  addlist_size :: int
  dellist :: "kevent list"
  dellist_size :: int
  kq :: int
  kq_pid :: nat
  registered :: "(int \<times> kq_filter) set"
  kq_mem :: "bool list"
  kq_intr :: "nat list"

definition EV_ADD :: "16 word" where "EV_ADD = 1"
definition EV_DELETE :: "16 word" where "EV_DELETE = 2"
definition EV_ONESHOT :: "16 word" where "EV_ONESHOT = 16"
definition EV_ERROR :: "16 word" where "EV_ERROR = 0x4000"

definition ST_KQ_MIN_EVTLIST_SIZE :: int where "ST_KQ_MIN_EVTLIST_SIZE = 64"

definition kq_zero :: kq_fd where "kq_zero = \<lparr>kq_rd = 0, kq_wr = 0, kq_revents = 0\<rparr>"

definition kq_change :: "int \<Rightarrow> kq_filter \<Rightarrow> 16 word \<Rightarrow> kevent" where
  "kq_change f flt fl = \<lparr>ident = f, evfilter = flt, kev_flags = fl, kev_data = EOTHER 0\<rparr>"

definition kq_get :: "int \<Rightarrow> kqdata \<Rightarrow> kq_fd option" where
  "kq_get f d = (if 0 \<le> f \<and> f < int (length (kq_fd_data d)) then Some (kq_fd_data d ! nat f) else None)"

definition kq_put :: "int \<Rightarrow> kq_fd \<Rightarrow> kqdata \<Rightarrow> kqdata" where
  "kq_put f x d = d\<lparr>kq_fd_data := (kq_fd_data d)[nat f := x]\<rparr>"

definition kq_realloc :: "kqdata \<Rightarrow> bool \<times> kqdata" where
  "kq_realloc d = (case kq_mem d of [] \<Rightarrow> (True, d) | b # bs \<Rightarrow> (b, d\<lparr>kq_mem := bs\<rparr>))"

text \<open>
  The kernel's part of the \<open>kevent\<close> calls, as \<^verbatim>\<open>kevent(2)\<close> documents it. A call with a result list
  applies its changes (those that fail come back as events with \<open>EV_ERROR\<close>), also when it is then
  interrupted; what is reported is not registered any more. A call without a result list ends with the
  first change that fails, here the deletion of what is not registered.
\<close>

definition kev_key :: "kevent \<Rightarrow> int \<times> kq_filter" where "kev_key k = (ident k, evfilter k)"

datatype kq_answer = Kevents "kevent list" | Kfail errno

definition kevent_submit :: "kq_answer \<Rightarrow> kqdata \<Rightarrow> (int \<times> kq_filter) set" where
  "kevent_submit a d = (case a of
      Kevents es \<Rightarrow> registered d \<union> kev_key ` set (addlist d) - kev_key ` set es
    | Kfail e \<Rightarrow> if e = EINTR then registered d \<union> kev_key ` set (addlist d) else registered d)"

fun apply_deletes :: "kevent list \<Rightarrow> (int \<times> kq_filter) set \<Rightarrow> (int \<times> kq_filter) set" where
  "apply_deletes [] R = R"
| "apply_deletes (k # ks) R = (if kev_key k \<in> R then apply_deletes ks (R - {kev_key k}) else R)"

definition kevent_delete :: "kqdata \<Rightarrow> kqdata" where
  "kevent_delete d = d\<lparr>registered := (apply_deletes (dellist d) ^^ (case kq_intr d of [] \<Rightarrow> 1 | n # ns \<Rightarrow> n + 1)) (registered d),
     kq_intr := tl (kq_intr d)\<rparr>"

section \<open>Operations\<close>

text \<open>
  The results of the allocations and of \<open>kqueue\<close> are arguments; \<open>mem_ls\<close> is whether all three lists
  were found. The result comes with the descriptors that were closed again.
\<close>

definition st_kq_init ::
  "bool \<Rightarrow> errno + int \<Rightarrow> bool \<Rightarrow> bool \<Rightarrow> nat \<Rightarrow> rv \<times> int list \<times> kqdata option"
where
  "st_kq_init mem_data kqr mem_fd mem_ls pid =
     (if \<not> mem_data then (Fail ENOMEM, [], None)
      else case kqr of
        Inl e \<Rightarrow> (Fail e, [], None)
      | Inr k \<Rightarrow>
          (if \<not> mem_fd then (Fail ENOMEM, [k], None)
           else if \<not> mem_ls then (Fail ENOMEM, [k], None)
           else (Ret 0, [], Some \<lparr>kq_fd_data = replicate (nat FD_SETSIZE) kq_zero,
              kq_evtlist_size = ST_KQ_MIN_EVTLIST_SIZE, addlist = [], addlist_size = ST_KQ_MIN_EVTLIST_SIZE,
              dellist = [], dellist_size = ST_KQ_MIN_EVTLIST_SIZE, kq = k, kq_pid = pid, registered = {},
              kq_mem = [], kq_intr = []\<rparr>)))"

definition st_kq_fd_data_expand :: "int \<Rightarrow> kqdata \<Rightarrow> bool \<times> kqdata" where
  "st_kq_fd_data_expand m d =
     (let n = double_until m (length (kq_fd_data d)); (ok, d1) = kq_realloc d
      in if ok then (True, d1\<lparr>kq_fd_data := kq_fd_data d @ replicate (n - length (kq_fd_data d)) kq_zero\<rparr>)
         else (False, d1))"

definition st_kq_addlist_expand :: "int \<Rightarrow> kqdata \<Rightarrow> bool \<times> kqdata" where
  "st_kq_addlist_expand avail d =
     (let n = int (double_until (avail + int (length (addlist d)) - 1) (nat (addlist_size d)));
          (ok, d1) = kq_realloc d
      in if \<not> ok then (False, d1)
         else (let (ok2, d2) = kq_realloc (d1\<lparr>addlist_size := n\<rparr>)
               in (True, if ok2 then d2\<lparr>kq_evtlist_size := n\<rparr> else d2)))"

text \<open>\<open>None\<close> is the failed assertion.\<close>

definition st_kq_addlist_add :: "kevent \<Rightarrow> kqdata \<Rightarrow> kqdata option" where
  "st_kq_addlist_add k d =
     (if int (length (addlist d)) < addlist_size d then Some (d\<lparr>addlist := addlist d @ [k]\<rparr>) else None)"

text \<open>Without memory the deletion is dropped.\<close>

definition st_kq_dellist_add :: "kevent \<Rightarrow> kqdata \<Rightarrow> kqdata" where
  "st_kq_dellist_add k d =
     (if int (length (dellist d)) \<ge> dellist_size d
      then (case kq_realloc d of
              (False, d1) \<Rightarrow> d1
            | (True, d1) \<Rightarrow> d1\<lparr>dellist_size := 2 * dellist_size d, dellist := dellist d @ [k]\<rparr>)
      else d\<lparr>dellist := dellist d @ [k]\<rparr>)"

fun kq_check :: "pollfd list \<Rightarrow> kqdata \<Rightarrow> errno option \<times> kqdata" where
  "kq_check [] d = (None, d)"
| "kq_check (pd # ps) d =
     (if fd pd < 0 \<or> events pd = 0 \<or> events pd AND NOT (POLLIN OR POLLOUT) \<noteq> 0 then (Some EINVAL, d)
      else if fd pd \<ge> int (length (kq_fd_data d))
      then (case st_kq_fd_data_expand (fd pd) d of
              (False, d1) \<Rightarrow> (Some ENOMEM, d1)
            | (True, d1) \<Rightarrow> kq_check ps d1)
      else kq_check ps d)"

definition kq_bump :: "int \<Rightarrow> pollfd \<Rightarrow> kq_fd \<Rightarrow> kq_fd" where
  "kq_bump k pd x = x\<lparr>kq_rd := kq_rd x + (if wants POLLIN pd then k else 0),
     kq_wr := kq_wr x + (if wants POLLOUT pd then k else 0)\<rparr>"

definition kq_add1 :: "pollfd \<Rightarrow> kqdata \<Rightarrow> kqdata option" where
  "kq_add1 pd d =
     (case kq_get (fd pd) d of
        None \<Rightarrow> None
      | Some x \<Rightarrow>
          Option.bind
            (let d1 = kq_put (fd pd) (kq_bump 1 pd x) d
             in if wants POLLIN pd \<and> kq_rd x = 0
                then st_kq_addlist_add (kq_change (fd pd) EVFILT_READ (EV_ADD OR EV_ONESHOT)) d1 else Some d1)
            (\<lambda>d2. if wants POLLOUT pd \<and> kq_wr x = 0
                  then st_kq_addlist_add (kq_change (fd pd) EVFILT_WRITE (EV_ADD OR EV_ONESHOT)) d2 else Some d2))"

fun kq_add_loop :: "pollfd list \<Rightarrow> kqdata \<Rightarrow> kqdata option" where
  "kq_add_loop [] d = Some d"
| "kq_add_loop (pd # ps) d = Option.bind (kq_add1 pd d) (kq_add_loop ps)"

definition st_kq_pollset_add :: "pollfd list \<Rightarrow> kqdata \<Rightarrow> (rv \<times> kqdata) option" where
  "st_kq_pollset_add ps d =
     (case kq_check ps d of
        (Some e, d1) \<Rightarrow> Some (Fail e, d1)
      | (None, d1) \<Rightarrow>
          (let n = 2 * int (length ps);
               (ok, d2) = (if n > addlist_size d1 - int (length (addlist d1)) then st_kq_addlist_expand n d1 else (True, d1))
           in if \<not> ok then Some (Fail ENOMEM, d2) else map_option (\<lambda>d3. (Ret 0, d3)) (kq_add_loop ps d2)))"

text \<open>
  One descriptor of a request that leaves: its counts go down and a filter that nobody waits for is
  deleted, unless it has fired in this round (\<open>spare\<close>), which deletes it by itself.
\<close>

definition kq_release1 :: "bool \<Rightarrow> pollfd \<Rightarrow> kqdata \<Rightarrow> kqdata option" where
  "kq_release1 spare pd d =
     map_option (\<lambda>x.
       let y = kq_bump (-1) pd x;
           d1 = kq_put (fd pd) y d;
           d2 = (if wants POLLIN pd \<and> kq_rd y = 0 \<and> \<not> (spare \<and> kq_revents x AND POLLIN \<noteq> 0)
                 then st_kq_dellist_add (kq_change (fd pd) EVFILT_READ EV_DELETE) d1 else d1)
       in if wants POLLOUT pd \<and> kq_wr y = 0 \<and> \<not> (spare \<and> kq_revents x AND POLLOUT \<noteq> 0)
          then st_kq_dellist_add (kq_change (fd pd) EVFILT_WRITE EV_DELETE) d2 else d2)
     (kq_get (fd pd) d)"

fun kq_release :: "bool \<Rightarrow> pollfd list \<Rightarrow> kqdata \<Rightarrow> kqdata option" where
  "kq_release spare [] d = Some d"
| "kq_release spare (pd # ps) d = Option.bind (kq_release1 spare pd d) (kq_release spare ps)"

definition kq_flush :: "kqdata \<Rightarrow> kqdata" where
  "kq_flush d = (if dellist d \<noteq> [] then kevent_delete d else d)"

definition st_kq_pollset_del :: "pollfd list \<Rightarrow> kqdata \<Rightarrow> kqdata option" where
  "st_kq_pollset_del ps d = map_option kq_flush (kq_release False ps (d\<lparr>dellist := []\<rparr>))"

definition kq_timeout :: "vp \<Rightarrow> (64 word \<times> 64 word) option" where
  "kq_timeout v = map_option (\<lambda>m. (m div 1000000, (m mod 1000000) * 1000)) (min_timeout v)"

definition kq_bits :: "kevent \<Rightarrow> 16 word" where
  "kq_bits k = (case evfilter k of EVFILT_READ \<Rightarrow> POLLIN | EVFILT_WRITE \<Rightarrow> POLLOUT)
     OR (if kev_flags k AND EV_ERROR \<noteq> 0 then (if kev_data k = EBADF then POLLNVAL else POLLERR) else 0)"

fun kq_note :: "kevent list \<Rightarrow> kqdata \<Rightarrow> kqdata option" where
  "kq_note [] d = Some d"
| "kq_note (k # ks) d =
     Option.bind (kq_get (ident k) d)
       (\<lambda>x. kq_note ks (kq_put (ident k) (x\<lparr>kq_revents := kq_revents x OR kq_bits k\<rparr>) d))"

definition kq_mark :: "16 word \<Rightarrow> pollfd \<Rightarrow> pollfd" where
  "kq_mark r pd = pd\<lparr>revents := r AND NOT (POLLIN OR POLLOUT)
     OR (if wants POLLIN pd \<and> r AND POLLIN \<noteq> 0 then POLLIN else 0)
     OR (if wants POLLOUT pd \<and> r AND POLLOUT \<noteq> 0 then POLLOUT else 0)\<rparr>"

definition kq_look :: "kqdata \<Rightarrow> pollfd list \<Rightarrow> bool \<times> pollfd list \<times> kqdata option" where
  "kq_look d ps =
     (case those (map (\<lambda>pd. map_option (\<lambda>x. kq_mark (kq_revents x) pd) (kq_get (fd pd) d)) ps) of
        None \<Rightarrow> (False, ps, None)
      | Some qs \<Rightarrow> (if list_ex fired qs then (True, qs, kq_release True qs d) else (False, qs, Some d)))"

fun kq_settle :: "kevent list \<Rightarrow> kqdata \<Rightarrow> kqdata option" where
  "kq_settle [] d = Some d"
| "kq_settle (k # ks) d =
     Option.bind (kq_get (ident k) d) (\<lambda>x. kq_settle ks (kq_put (ident k) (x\<lparr>kq_revents := 0\<rparr>) d))"

text \<open>What follows a \<open>kevent\<close> call that reported events.\<close>

definition kq_events :: "kevent list \<Rightarrow> kqdata \<Rightarrow> vp \<Rightarrow> (kqdata \<times> vp) option" where
  "kq_events es d v =
     (if es = [] then Some (d, v)
      else Option.bind (kq_note es d) (\<lambda>d1.
             Option.bind (ioq_walk kq_look (io_q v) (d1\<lparr>dellist := []\<rparr>) v) (\<lambda>(d2, v1).
               map_option (\<lambda>d3. (d3, v1)) (kq_settle es (kq_flush d2)))))"

definition kq_submit :: "kq_answer \<Rightarrow> kqdata \<Rightarrow> kqdata" where
  "kq_submit a d = d\<lparr>registered := kevent_submit a d, addlist := []\<rparr>"

fun kq_refill :: "pollfd list list \<Rightarrow> kqdata \<Rightarrow> kqdata option" where
  "kq_refill [] d = Some d"
| "kq_refill (ps # pss) d = Option.bind (st_kq_pollset_add ps d) (\<lambda>(r, d1). kq_refill pss d1)"

text \<open>
  After a fork the kernel queue is gone: \<open>kevent\<close> fails with \<open>EBADF\<close> and the process id has changed. A
  new queue \<open>newkq\<close> gets every linked request and \<open>kevent\<close> is called again.
\<close>

definition kq_reinit :: "nat \<Rightarrow> int \<Rightarrow> vp \<Rightarrow> kqdata \<Rightarrow> kqdata option" where
  "kq_reinit pid newkq v d =
     kq_refill (map (\<lambda>t. pds (pollqs v t)) (io_q v))
       (d\<lparr>kq := newkq, registered := {}, kq_pid := pid, kq_fd_data := replicate (length (kq_fd_data d)) kq_zero\<rparr>)"

definition st_kq_dispatch ::
  "nat \<Rightarrow> int \<Rightarrow> kq_answer \<Rightarrow> kq_answer \<Rightarrow> kqdata \<Rightarrow> vp \<Rightarrow> (kqdata \<times> vp) option"
where
  "st_kq_dispatch pid newkq a1 a2 d v =
     (let d1 = kq_submit a1 d
      in case a1 of
           Kevents es \<Rightarrow> kq_events es d1 v
         | Kfail e \<Rightarrow>
             (if e = EBADF \<and> kq_pid d \<noteq> pid
              then (if newkq < 0 then Some (d1\<lparr>kq := newkq, registered := {}\<rparr>, v)
                    else Option.bind (kq_reinit pid newkq v d1) (\<lambda>d2.
                           case a2 of Kevents es \<Rightarrow> kq_events es (kq_submit a2 d2) v
                                    | Kfail e2 \<Rightarrow> Some (kq_submit a2 d2, v)))
              else Some (d1, v)))"

definition st_kq_fd_new :: "int \<Rightarrow> kqdata \<Rightarrow> rv \<times> kqdata" where
  "st_kq_fd_new osfd d =
     (if osfd \<ge> int (length (kq_fd_data d))
      then (case st_kq_fd_data_expand osfd d of (ok, d1) \<Rightarrow> (if ok then Ret 0 else Fail ENOMEM, d1))
      else (Ret 0, d))"

definition st_kq_fd_close :: "int \<Rightarrow> kqdata \<Rightarrow> rv option" where
  "st_kq_fd_close osfd d =
     map_option (\<lambda>x. if kq_rd x \<noteq> 0 \<or> kq_wr x \<noteq> 0 then Fail EBUSY else Ret 0) (kq_get osfd d)"

section \<open>Kqueue keeps the contract\<close>

text \<open>
  The counts are the numbers of waiting requests, which are for input and output only; no \<open>revents\<close>
  is left over between two rounds; every filter that a request waits for is registered or about to be.
\<close>

definition kbit :: "kq_filter \<Rightarrow> 16 word" where
  "kbit flt = (case flt of EVFILT_READ \<Rightarrow> POLLIN | EVFILT_WRITE \<Rightarrow> POLLOUT)"

definition kcnt :: "kq_filter \<Rightarrow> kq_fd \<Rightarrow> int" where
  "kcnt flt x = (case flt of EVFILT_READ \<Rightarrow> kq_rd x | EVFILT_WRITE \<Rightarrow> kq_wr x)"

definition kq_request :: "nat \<Rightarrow> request \<Rightarrow> bool" where
  "kq_request n p \<longleftrightarrow> 0 \<le> fst p \<and> fst p < int n \<and> snd p \<noteq> 0 \<and> snd p AND NOT (POLLIN OR POLLOUT) = 0"

definition kq_counts :: "kq_fd list \<Rightarrow> request multiset \<Rightarrow> bool" where
  "kq_counts xs M \<longleftrightarrow> xs \<noteq> [] \<and> (\<forall>p \<in># M. kq_request (length xs) p)
     \<and> (\<forall>flt. \<forall>f < length xs. kcnt flt (xs ! f) = int (cnt (kbit flt) (int f) M))"

definition kq_asked :: "kqdata \<Rightarrow> (int \<times> kq_filter) set" where
  "kq_asked d = registered d \<union> kev_key ` set (addlist d)"

definition kq_covers :: "kqdata \<Rightarrow> request multiset \<Rightarrow> bool" where
  "kq_covers d M \<longleftrightarrow> (0 \<le> kq d \<longrightarrow> (\<forall>flt f. 0 < cnt (kbit flt) f M \<longrightarrow> (f, flt) \<in> kq_asked d))"

definition kq_fits :: "kqdata \<Rightarrow> bool" where
  "kq_fits d \<longleftrightarrow> 0 < addlist_size d \<and> int (length (addlist d)) \<le> addlist_size d
     \<and> (\<forall>k \<in> kq_asked d. 0 \<le> fst k \<and> fst k < int (length (kq_fd_data d)))"

definition kq_quiet :: "kqdata \<Rightarrow> bool" where
  "kq_quiet d \<longleftrightarrow> (\<forall>x \<in> set (kq_fd_data d). kq_revents x = 0)"

definition kq_tracks :: "kqdata \<Rightarrow> request multiset \<Rightarrow> bool" where
  "kq_tracks d M \<longleftrightarrow> kq_counts (kq_fd_data d) M \<and> kq_covers d M \<and> kq_fits d \<and> kq_quiet d"

lemma kbit_simps [simp]: "kbit EVFILT_READ = POLLIN" "kbit EVFILT_WRITE = POLLOUT"
  by (simp_all add: kbit_def)

lemma kcnt_simps [simp]: "kcnt EVFILT_READ x = kq_rd x" "kcnt EVFILT_WRITE x = kq_wr x"
  by (simp_all add: kcnt_def)

lemma all_filters: "(\<forall>flt. P flt) \<longleftrightarrow> P EVFILT_READ \<and> P EVFILT_WRITE"
  by (metis kq_filter.exhaust)

lemma ex_filters: "(\<exists>flt. P flt) \<longleftrightarrow> P EVFILT_READ \<or> P EVFILT_WRITE"
  by (metis kq_filter.exhaust)

lemma kev_key_change [simp]: "kev_key (kq_change f flt fl) = (f, flt)"
  by (simp add: kev_key_def kq_change_def)

lemma kq_realloc_ok: "kq_realloc d = (ok, d') \<Longrightarrow> \<exists>bs. d' = d\<lparr>kq_mem := bs\<rparr>"
  by (cases "kq_mem d") (auto simp: kq_realloc_def intro: exI [of _ "kq_mem d"])

lemma kcnt_bump: "kcnt flt (kq_bump k pd x) = kcnt flt x + (if wants (kbit flt) pd then k else 0)"
  by (cases flt) (simp_all add: kq_bump_def)

lemma revents_bump [simp]: "kq_revents (kq_bump k pd x) = kq_revents x"
  by (simp add: kq_bump_def)

lemma kq_counts_get:
  assumes "kq_counts xs M" and "0 \<le> f" and "f < int (length xs)"
  shows "kcnt flt (xs ! nat f) = int (cnt (kbit flt) f M)"
  using assms by (auto simp: kq_counts_def)

lemma kq_counts_add:
  assumes "kq_counts xs M" and "kq_request (length xs) (fd pd, events pd)"
  shows "kq_counts (xs[nat (fd pd) := kq_bump 1 pd (xs ! nat (fd pd))]) (add_mset (fd pd, events pd) M)"
  using assms by (auto simp: kq_counts_def kcnt_bump nth_list_update wants_def kq_request_def)

lemma kq_counts_del:
  assumes "kq_counts xs (add_mset (fd pd, events pd) M)"
  shows "kq_counts (xs[nat (fd pd) := kq_bump (-1) pd (xs ! nat (fd pd))]) M"
  using assms by (auto simp: kq_counts_def kcnt_bump nth_list_update wants_def kq_request_def)

lemma kq_quiet_update:
  "kq_quiet d \<Longrightarrow> n < length (kq_fd_data d) \<Longrightarrow>
   kq_quiet (d\<lparr>kq_fd_data := (kq_fd_data d)[n := kq_bump k pd (kq_fd_data d ! n)]\<rparr>)"
  by (auto simp: kq_quiet_def dest!: set_update_subset_insert [THEN subsetD])

subsection \<open>Adding\<close>

text \<open>A piece of the change list that asks for the filters \<open>fs\<close>.\<close>

lemma addlist_add_ok:
  "int (length (addlist d)) < addlist_size d \<Longrightarrow> st_kq_addlist_add k d = Some (d\<lparr>addlist := addlist d @ [k]\<rparr>)"
  by (simp add: st_kq_addlist_add_def)

lemma kq_add1_ok:
  assumes "kq_tracks d M" and "kq_request (length (kq_fd_data d)) (fd pd, events pd)"
    and "int (length (addlist d)) + 2 \<le> addlist_size d"
  shows "\<exists>d'. kq_add1 pd d = Some d' \<and> kq_tracks d' (add_mset (fd pd, events pd) M)
    \<and> length (addlist d') \<le> length (addlist d) + 2 \<and> addlist_size d' = addlist_size d
    \<and> length (kq_fd_data d') = length (kq_fd_data d) \<and> kq_mem d' = kq_mem d"
proof -
  let ?x = "kq_fd_data d ! nat (fd pd)"
  have f: "0 \<le> fd pd" "fd pd < int (length (kq_fd_data d))" "nat (fd pd) < length (kq_fd_data d)"
    using assms(2) by (auto simp: kq_request_def)
  have c: "kq_counts (kq_fd_data d) M" using assms(1) by (simp add: kq_tracks_def)
  note z = kq_counts_get [OF c f(1,2), of EVFILT_READ] kq_counts_get [OF c f(1,2), of EVFILT_WRITE]
  let ?new = "(if wants POLLIN pd \<and> kq_rd ?x = 0 then [kq_change (fd pd) EVFILT_READ (EV_ADD OR EV_ONESHOT)] else [])
    @ (if wants POLLOUT pd \<and> kq_wr ?x = 0 then [kq_change (fd pd) EVFILT_WRITE (EV_ADD OR EV_ONESHOT)] else [])"
  let ?d = "d\<lparr>kq_fd_data := (kq_fd_data d)[nat (fd pd) := kq_bump 1 pd ?x], addlist := addlist d @ ?new\<rparr>"
  have e: "kq_add1 pd d = Some ?d"
    using f assms(3) by (auto simp: kq_add1_def kq_get_def kq_put_def st_kq_addlist_add_def Let_def)
  have "kq_covers ?d (add_mset (fd pd, events pd) M)"
    unfolding kq_covers_def
  proof (intro impI allI)
    fix flt g assume a: "0 \<le> kq ?d" "0 < cnt (kbit flt) g (add_mset (fd pd, events pd) M)"
    show "(g, flt) \<in> kq_asked ?d"
    proof (cases "0 < cnt (kbit flt) g M")
      case True
      then show ?thesis using assms(1) a(1) by (auto simp: kq_tracks_def kq_covers_def kq_asked_def)
    next
      case False
      then have "g = fd pd" "wants (kbit flt) pd" "cnt (kbit flt) (fd pd) M = 0"
        using a(2) by (auto simp: wants_def split: if_splits)
      then show ?thesis using z by (cases flt) (simp_all add: kq_asked_def)
    qed
  qed
  moreover have "kq_fits ?d" using assms(1,3) f by (auto simp: kq_tracks_def kq_fits_def kq_asked_def)
  moreover have "kq_quiet ?d" using kq_quiet_update [of d "nat (fd pd)" 1 pd] assms(1) f
    by (simp add: kq_tracks_def kq_quiet_def)
  ultimately have "kq_tracks ?d (add_mset (fd pd, events pd) M)"
    using kq_counts_add [OF c assms(2)] by (simp add: kq_tracks_def)
  then show ?thesis using e by (intro exI [of _ ?d]) simp
qed

lemma kq_add_loop_ok:
  "kq_tracks d M \<Longrightarrow> list_all (\<lambda>pd. kq_request (length (kq_fd_data d)) (fd pd, events pd)) ps \<Longrightarrow>
   int (length (addlist d)) + 2 * int (length ps) \<le> addlist_size d \<Longrightarrow>
   \<exists>d'. kq_add_loop ps d = Some d' \<and> kq_tracks d' (M + mset (keys ps))
     \<and> length (kq_fd_data d') = length (kq_fd_data d) \<and> kq_mem d' = kq_mem d"
proof (induction ps arbitrary: d M)
  case (Cons pd ps)
  obtain d1 where d1: "kq_add1 pd d = Some d1" "kq_tracks d1 (add_mset (fd pd, events pd) M)"
    "length (addlist d1) \<le> length (addlist d) + 2" "addlist_size d1 = addlist_size d"
    "length (kq_fd_data d1) = length (kq_fd_data d)" "kq_mem d1 = kq_mem d"
    using kq_add1_ok [of d M pd] Cons.prems by auto
  then show ?case using Cons.IH [OF d1(2)] Cons.prems by auto
qed simp

lemma kq_fits_mono:
  assumes "kq_fits d" and "kq_asked d' \<subseteq> kq_asked d" and "length (kq_fd_data d) \<le> length (kq_fd_data d')"
    and "0 < addlist_size d'" and "int (length (addlist d')) \<le> addlist_size d'"
  shows "kq_fits d'"
proof -
  have "0 \<le> fst k \<and> fst k < int (length (kq_fd_data d'))" if "k \<in> kq_asked d'" for k
    using assms(1-3) that unfolding kq_fits_def by (meson of_nat_le_iff order_less_le_trans subsetD)
  then show ?thesis using assms(4,5) by (simp add: kq_fits_def)
qed

lemma kq_counts_grow:
  assumes "kq_counts xs M"
  shows "kq_counts (xs @ replicate k kq_zero) M"
proof -
  have "cnt ev (int f) M = 0" if "length xs \<le> f" for ev f
    by (rule cnt_outside) (use assms that in \<open>auto simp: kq_counts_def kq_request_def\<close>)
  then show ?thesis using assms
    by (auto simp: kq_counts_def nth_append kq_zero_def kq_request_def kcnt_def split: kq_filter.splits)
qed

lemma kq_tracks_irrelevant [simp]:
  "kq_tracks (d\<lparr>kq_mem := bs\<rparr>) M = kq_tracks d M" "kq_tracks (d\<lparr>kq_evtlist_size := n\<rparr>) M = kq_tracks d M"
  "kq_tracks (d\<lparr>dellist := ks\<rparr>) M = kq_tracks d M" "kq_tracks (d\<lparr>dellist_size := n\<rparr>) M = kq_tracks d M"
  by (simp_all add: kq_tracks_def kq_covers_def kq_fits_def kq_asked_def kq_quiet_def)

lemma kq_tracks_room:
  "kq_tracks d M \<Longrightarrow> 0 < n \<Longrightarrow> int (length (addlist d)) \<le> n \<Longrightarrow> kq_tracks (d\<lparr>addlist_size := n\<rparr>) M"
  by (simp add: kq_tracks_def kq_covers_def kq_fits_def kq_asked_def kq_quiet_def)

lemma kq_tracks_grow:
  assumes "kq_tracks d M"
  shows "kq_tracks (d\<lparr>kq_fd_data := kq_fd_data d @ replicate k kq_zero\<rparr>) M"
proof -
  let ?d = "d\<lparr>kq_fd_data := kq_fd_data d @ replicate k kq_zero\<rparr>"
  have "kq_asked ?d = kq_asked d" by (simp add: kq_asked_def)
  moreover have "kq_fits ?d"
    by (rule kq_fits_mono [of d]) (use assms in \<open>simp_all add: kq_tracks_def kq_fits_def kq_asked_def\<close>)
  moreover have "kq_covers ?d M" using assms \<open>kq_asked ?d = _\<close> by (simp add: kq_tracks_def kq_covers_def)
  moreover have "kq_quiet ?d" using assms by (simp add: kq_tracks_def kq_quiet_def kq_zero_def ball_Un)
  ultimately show ?thesis using assms kq_counts_grow [of "kq_fd_data d" M k] by (simp add: kq_tracks_def)
qed

lemma kq_expand_ok:
  assumes "kq_tracks d M" and "st_kq_fd_data_expand m d = (ok, d')"
  shows "kq_tracks d' M" and "length (kq_fd_data d) \<le> length (kq_fd_data d')"
    and "ok \<Longrightarrow> m < int (length (kq_fd_data d'))"
proof -
  obtain ok1 d1 where r: "kq_realloc d = (ok1, d1)" by fastforce
  obtain bs where d1: "d1 = d\<lparr>kq_mem := bs\<rparr>" using kq_realloc_ok [OF r] by blast
  have ne: "0 < length (kq_fd_data d)" using assms(1) by (simp add: kq_tracks_def kq_counts_def)
  let ?xs = "replicate (double_until m (length (kq_fd_data d)) - length (kq_fd_data d)) kq_zero"
  have e: "d' = (if ok then d1\<lparr>kq_fd_data := kq_fd_data d @ ?xs\<rparr> else d1)" "ok = ok1"
    using assms(2) r by (auto simp: st_kq_fd_data_expand_def Let_def split: if_splits)
  have "kq_tracks (d1\<lparr>kq_fd_data := kq_fd_data d1 @ ?xs\<rparr>) M"
    by (rule kq_tracks_grow) (simp add: d1 assms(1))
  then show "kq_tracks d' M" using assms(1) by (simp add: e d1)
  show "length (kq_fd_data d) \<le> length (kq_fd_data d')" by (simp add: e d1)
  show "m < int (length (kq_fd_data d'))" if ok using double_until_gt [OF ne, of m] that by (simp add: e)
qed

lemma kq_check_ok:
  "kq_tracks d M \<Longrightarrow> kq_check ps d = (r, d') \<Longrightarrow>
   kq_tracks d' M \<and> length (kq_fd_data d) \<le> length (kq_fd_data d')
   \<and> (r = None \<longrightarrow> list_all (\<lambda>pd. kq_request (length (kq_fd_data d')) (fd pd, events pd)) ps)"
proof (induction ps arbitrary: d)
  case (Cons pd ps)
  show ?case
  proof (cases "fd pd < 0 \<or> events pd = 0 \<or> events pd AND NOT (POLLIN OR POLLOUT) \<noteq> 0")
    case True
    then show ?thesis using Cons.prems by auto
  next
    case False
    obtain ok d1 where e: "(if fd pd \<ge> int (length (kq_fd_data d)) then st_kq_fd_data_expand (fd pd) d else (True, d)) = (ok, d1)"
      by fastforce
    have g: "kq_tracks d1 M" "length (kq_fd_data d) \<le> length (kq_fd_data d1)"
      "ok \<Longrightarrow> fd pd < int (length (kq_fd_data d1))"
      using e kq_expand_ok [OF Cons.prems(1), of "fd pd" ok d1] Cons.prems(1) by (auto split: if_splits)
    have "kq_check (pd # ps) d = (if ok then kq_check ps d1 else (Some ENOMEM, d1))"
      using False e by (auto split: if_splits)
    then show ?thesis using Cons.IH [OF g(1)] Cons.prems(2) False g
      by (cases ok) (auto simp: kq_request_def)
  qed
qed auto

lemma kq_addlist_expand_ok:
  assumes "kq_tracks d M" and "st_kq_addlist_expand n d = (ok, d')"
  shows "kq_tracks d' M" and "kq_fd_data d' = kq_fd_data d" and "addlist d' = addlist d"
    and "ok \<Longrightarrow> int (length (addlist d')) + n \<le> addlist_size d'"
proof -
  obtain ok1 d1 where r: "kq_realloc d = (ok1, d1)" by fastforce
  obtain bs where d1: "d1 = d\<lparr>kq_mem := bs\<rparr>" using kq_realloc_ok [OF r] by blast
  let ?n = "int (double_until (n + int (length (addlist d)) - 1) (nat (addlist_size d)))"
  obtain ok2 d2 where r2: "kq_realloc (d1\<lparr>addlist_size := ?n\<rparr>) = (ok2, d2)" by fastforce
  obtain bs2 where d2: "d2 = d1\<lparr>addlist_size := ?n, kq_mem := bs2\<rparr>" using kq_realloc_ok [OF r2] by auto
  have e: "d' = (if ok then (if ok2 then d2\<lparr>kq_evtlist_size := ?n\<rparr> else d2) else d1)" "ok = ok1"
    using assms(2) r r2 by (auto simp: st_kq_addlist_expand_def Let_def split: if_splits)
  have s: "0 < addlist_size d" "int (length (addlist d)) \<le> addlist_size d"
    using assms(1) by (simp_all add: kq_tracks_def kq_fits_def)
  then have p: "0 < nat (addlist_size d)" by simp
  note g = double_until_gt [OF p, of "n + int (length (addlist d)) - 1"]
  have n: "0 < ?n" "int (length (addlist d)) \<le> ?n" "int (length (addlist d)) + n \<le> ?n" using g s by linarith+
  have "kq_tracks (d\<lparr>addlist_size := ?n\<rparr>) M" by (rule kq_tracks_room [OF assms(1)]) (use n in simp_all)
  then show "kq_tracks d' M" using assms(1) by (simp add: e d1 d2)
  show "kq_fd_data d' = kq_fd_data d" "addlist d' = addlist d" by (simp_all add: e d1 d2)
  show "int (length (addlist d')) + n \<le> addlist_size d'" if ok using n(3) that by (simp add: e d1 d2)
qed

lemma kq_room_ok:
  assumes "kq_tracks d M" and "(if n > addlist_size d - int (length (addlist d)) then st_kq_addlist_expand n d else (True, d)) = (ok, d')"
  shows "kq_tracks d' M \<and> kq_fd_data d' = kq_fd_data d \<and> addlist d' = addlist d
    \<and> (ok \<longrightarrow> int (length (addlist d')) + n \<le> addlist_size d')"
  using assms kq_addlist_expand_ok [OF assms(1)] by (simp split: if_splits)

lemma kq_add_ok:
  assumes "kq_tracks d M"
  shows "\<exists>r d'. st_kq_pollset_add ps d = Some (r, d')
    \<and> kq_tracks d' (case r of Ret x \<Rightarrow> M + mset (keys ps) | Fail er \<Rightarrow> M)"
proof -
  obtain c d1 where c: "kq_check ps d = (c, d1)" by fastforce
  note ok = kq_check_ok [OF assms c]
  obtain b d2 where r: "(if 2 * int (length ps) > addlist_size d1 - int (length (addlist d1))
      then st_kq_addlist_expand (2 * int (length ps)) d1 else (True, d1)) = (b, d2)" by fastforce
  have q: "kq_tracks d2 M" "kq_fd_data d2 = kq_fd_data d1" "b \<longrightarrow> int (length (addlist d2)) + 2 * int (length ps) \<le> addlist_size d2"
    using kq_room_ok [OF _ r] ok by auto
  show ?thesis
  proof (cases "c = None \<and> b")
    case True
    then show ?thesis using kq_add_loop_ok [OF q(1)] ok q c r by (auto simp: st_kq_pollset_add_def Let_def)
  next
    case False
    then show ?thesis using ok q c r by (cases c) (auto simp: st_kq_pollset_add_def Let_def)
  qed
qed

subsection \<open>Deleting\<close>

text \<open>What is on the way to be deleted is waited for by nobody.\<close>

definition kq_doomed :: "kqdata \<Rightarrow> request multiset \<Rightarrow> bool" where
  "kq_doomed d M \<longleftrightarrow> (\<forall>k \<in> set (dellist d). cnt (kbit (evfilter k)) (ident k) M = 0)"

definition kq_same :: "kqdata \<Rightarrow> kqdata \<Rightarrow> bool" where
  "kq_same d d' \<longleftrightarrow> registered d' = registered d \<and> addlist d' = addlist d \<and> addlist_size d' = addlist_size d
     \<and> kq d' = kq d \<and> kq_pid d' = kq_pid d \<and> map kq_revents (kq_fd_data d') = map kq_revents (kq_fd_data d)"

lemma kq_same_refl [simp]: "kq_same d d"
  by (simp add: kq_same_def)

lemma kq_same_trans: "kq_same d d' \<Longrightarrow> kq_same d' d'' \<Longrightarrow> kq_same d d''"
  by (simp add: kq_same_def)

lemma kq_same_length: "kq_same d d' \<Longrightarrow> length (kq_fd_data d') = length (kq_fd_data d)"
  unfolding kq_same_def by (metis length_map)

lemma kq_same_asked: "kq_same d d' \<Longrightarrow> kq_asked d' = kq_asked d"
  by (simp add: kq_same_def kq_asked_def)

lemma kq_quiet_map: "kq_quiet d \<longleftrightarrow> (\<forall>r \<in> set (map kq_revents (kq_fd_data d)). r = 0)"
  by (simp add: kq_quiet_def)

lemma dellist_add_ok:
  assumes "kq_doomed d M" and "cnt (kbit flt) f M = 0"
  shows "kq_doomed (st_kq_dellist_add (kq_change f flt fl) d) M"
    and "kq_same d (st_kq_dellist_add (kq_change f flt fl) d)"
    and "kq_fd_data (st_kq_dellist_add (kq_change f flt fl) d) = kq_fd_data d"
proof -
  obtain ok d1 where r: "kq_realloc d = (ok, d1)" by fastforce
  obtain bs where "d1 = d\<lparr>kq_mem := bs\<rparr>" using kq_realloc_ok [OF r] by blast
  then show "kq_doomed (st_kq_dellist_add (kq_change f flt fl) d) M"
    and "kq_same d (st_kq_dellist_add (kq_change f flt fl) d)"
    and "kq_fd_data (st_kq_dellist_add (kq_change f flt fl) d) = kq_fd_data d"
    using assms r by (auto simp: st_kq_dellist_add_def kq_doomed_def kq_same_def kq_change_def split: bool.splits)
qed

lemma kq_doomed_less: "kq_doomed d (add_mset p M) \<Longrightarrow> kq_doomed d M"
  by (cases p) (auto simp: kq_doomed_def split: if_splits)

lemma kq_release1_ok:
  assumes "kq_counts (kq_fd_data d) (add_mset (fd pd, events pd) M)" and "kq_doomed d (add_mset (fd pd, events pd) M)"
  shows "\<exists>d'. kq_release1 s pd d = Some d' \<and> kq_counts (kq_fd_data d') M \<and> kq_doomed d' M \<and> kq_same d d'"
proof -
  let ?x = "kq_fd_data d ! nat (fd pd)"
  let ?y = "kq_bump (-1) pd ?x"
  have f: "0 \<le> fd pd" "fd pd < int (length (kq_fd_data d))" "nat (fd pd) < length (kq_fd_data d)"
    using assms(1) by (auto simp: kq_counts_def kq_request_def)
  define d1 where "d1 = kq_put (fd pd) ?y d"
  have c: "kq_counts (kq_fd_data d1) M" using kq_counts_del [OF assms(1)] by (simp add: d1_def kq_put_def)
  have y: "kcnt flt ?y = int (cnt (kbit flt) (fd pd) M)" for flt
    using kq_counts_get [OF c f(1)] f by (simp add: d1_def kq_put_def)
  have s1: "kq_same d d1"
    using f by (simp add: d1_def kq_put_def kq_same_def map_update list_update_same_conv)
  have dm: "kq_doomed d1 M" using kq_doomed_less [OF assms(2)] by (simp add: d1_def kq_put_def kq_doomed_def)
  define d2 where "d2 = (if wants POLLIN pd \<and> kq_rd ?y = 0 \<and> \<not> (s \<and> kq_revents ?x AND POLLIN \<noteq> 0)
    then st_kq_dellist_add (kq_change (fd pd) EVFILT_READ EV_DELETE) d1 else d1)"
  define d3 where "d3 = (if wants POLLOUT pd \<and> kq_wr ?y = 0 \<and> \<not> (s \<and> kq_revents ?x AND POLLOUT \<noteq> 0)
    then st_kq_dellist_add (kq_change (fd pd) EVFILT_WRITE EV_DELETE) d2 else d2)"
  have d2: "kq_doomed d2 M" "kq_same d1 d2" "kq_fd_data d2 = kq_fd_data d1"
    using dellist_add_ok [OF dm, of EVFILT_READ "fd pd" EV_DELETE] y [of EVFILT_READ] dm by (simp_all add: d2_def)
  have d3: "kq_doomed d3 M" "kq_same d2 d3" "kq_fd_data d3 = kq_fd_data d2"
    using dellist_add_ok [OF d2(1), of EVFILT_WRITE "fd pd" EV_DELETE] y [of EVFILT_WRITE] d2(1) by (simp_all add: d3_def)
  have "kq_release1 s pd d = Some d3"
    using f unfolding d3_def d2_def d1_def kq_release1_def kq_get_def Let_def by (simp only: if_True simp_thms option.map)
  moreover have "kq_same d d3" using s1 d2(2) d3(2) by (blast intro: kq_same_trans)
  ultimately show ?thesis using c d2(3) d3 by auto
qed

lemma kq_release_ok:
  "kq_counts (kq_fd_data d) (M + mset (keys ps)) \<Longrightarrow> kq_doomed d (M + mset (keys ps)) \<Longrightarrow>
   \<exists>d'. kq_release s ps d = Some d' \<and> kq_counts (kq_fd_data d') M \<and> kq_doomed d' M \<and> kq_same d d'"
proof (induction ps arbitrary: d)
  case (Cons pd ps)
  obtain d1 where d1: "kq_release1 s pd d = Some d1" "kq_counts (kq_fd_data d1) (M + mset (keys ps))"
    "kq_doomed d1 (M + mset (keys ps))" "kq_same d d1"
    using kq_release1_ok [of d pd "M + mset (keys ps)" s] Cons.prems by auto
  then show ?case using Cons.IH [OF d1(2,3)] by (auto intro: kq_same_trans)
qed simp

lemma apply_deletes_bounds: "apply_deletes ks R \<subseteq> R" "R - kev_key ` set ks \<subseteq> apply_deletes ks R"
proof (induction ks arbitrary: R)
  case (Cons k ks)
  {
    case 1
    show ?case using Cons.IH(1) [of "R - {kev_key k}"] by auto
  next
    case 2
    show ?case using Cons.IH(2) [of "R - {kev_key k}"] by auto
  }
qed auto

lemma apply_deletes_power:
  "(apply_deletes ks ^^ n) R \<subseteq> R \<and> R - kev_key ` set ks \<subseteq> (apply_deletes ks ^^ n) R"
proof (induction n)
  case (Suc n)
  show ?case
    using Suc apply_deletes_bounds [where ks = ks and R = "(apply_deletes ks ^^ n) R"] by auto
qed simp

lemma kq_flush_fields [simp]:
  "kq_fd_data (kq_flush d) = kq_fd_data d" "addlist (kq_flush d) = addlist d" "kq (kq_flush d) = kq d"
  "addlist_size (kq_flush d) = addlist_size d" "kq_pid (kq_flush d) = kq_pid d" "kq_mem (kq_flush d) = kq_mem d"
  by (simp_all add: kq_flush_def kevent_delete_def)

lemma kq_flush_registered:
  "registered (kq_flush d) \<subseteq> registered d" "registered d - kev_key ` set (dellist d) \<subseteq> registered (kq_flush d)"
  using apply_deletes_power [where ks = "dellist d"] unfolding kq_flush_def kevent_delete_def by simp_all

lemma kq_flush_ok:
  assumes "kq_tracks d M" and "kq_doomed d M"
  shows "kq_tracks (kq_flush d) M"
proof -
  have "kq_asked (kq_flush d) \<subseteq> kq_asked d" using kq_flush_registered(1) by (auto simp: kq_asked_def)
  then have "kq_fits (kq_flush d)" using assms(1)
    by (auto simp: kq_tracks_def kq_fits_def)
  moreover have "(f, flt) \<in> kq_asked (kq_flush d)" if "(f, flt) \<in> kq_asked d" "0 < cnt (kbit flt) f M" for f flt
    using that assms(2) kq_flush_registered(2) [of d] by (auto simp: kq_asked_def kq_doomed_def kev_key_def)
  then have "kq_covers (kq_flush d) M" using assms(1) by (simp add: kq_tracks_def kq_covers_def)
  ultimately show ?thesis using assms(1) by (simp add: kq_tracks_def kq_quiet_def)
qed

lemma cnt_union [simp]: "cnt ev f (M + N) = cnt ev f M + cnt ev f N"
  by (simp add: cnt_def)

lemma kq_del_ok:
  assumes "kq_tracks d (M + mset (keys ps))"
  shows "\<exists>d'. st_kq_pollset_del ps d = Some d' \<and> kq_tracks d' M"
proof -
  let ?d = "d\<lparr>dellist := []\<rparr>"
  obtain d1 where d1: "kq_release False ps ?d = Some d1" "kq_counts (kq_fd_data d1) M" "kq_doomed d1 M" "kq_same ?d d1"
    using kq_release_ok [of ?d M ps False] assms by (auto simp: kq_tracks_def kq_doomed_def)
  have a: "kq_asked d1 = kq_asked d" "length (kq_fd_data d1) = length (kq_fd_data d)"
    using kq_same_asked [OF d1(4)] kq_same_length [OF d1(4)] by (simp_all add: kq_asked_def)
  have "kq_fits d1" using assms a d1(4) by (simp add: kq_tracks_def kq_fits_def kq_same_def)
  moreover have "kq_quiet d1" using assms d1(4) by (simp add: kq_tracks_def kq_quiet_map kq_same_def)
  moreover have "kq_covers d1 M" using assms a d1(4) by (simp add: kq_tracks_def kq_covers_def kq_same_def)
  ultimately have "kq_tracks d1 M" using d1(2) by (simp add: kq_tracks_def)
  then show ?thesis using kq_flush_ok [OF _ d1(3)] d1(1) by (simp add: st_kq_pollset_del_def)
qed

interpretation kqs: event_system st_kq_pollset_add st_kq_pollset_del kq_tracks
  by unfold_locales (auto intro: kq_add_ok kq_del_ok)

subsection \<open>The walk\<close>

definition kq_rev :: "kqdata \<Rightarrow> int \<Rightarrow> 16 word" where
  "kq_rev d f = map kq_revents (kq_fd_data d) ! nat f"

text \<open>
  During the walk only counts and deletions change. Requests that stay in the queue have not fired, and
  what the waiting requests want is registered or has just fired.
\<close>

definition kq_walking :: "kqdata \<Rightarrow> kqdata \<Rightarrow> request multiset \<Rightarrow> request list list \<Rightarrow> bool" where
  "kq_walking d0 d K T \<longleftrightarrow> kq_same d0 d \<and> kq_counts (kq_fd_data d) (K + mset (concat T))
     \<and> kq_doomed d (K + mset (concat T))
     \<and> (0 \<le> kq d0 \<longrightarrow> (\<forall>flt f. 0 < cnt (kbit flt) f (K + mset (concat T)) \<longrightarrow>
          (f, flt) \<in> registered d0 \<or> kq_rev d0 f AND kbit flt \<noteq> 0))
     \<and> (\<forall>p \<in># K. \<forall>flt. snd p AND kbit flt \<noteq> 0 \<longrightarrow> kq_rev d0 (fst p) AND kbit flt = 0)"

lemma fired_kq_mark:
  "fired (kq_mark r pd) \<longleftrightarrow> r AND NOT (POLLIN OR POLLOUT) \<noteq> 0 \<or> (\<exists>flt. wants (kbit flt) pd \<and> r AND kbit flt \<noteq> 0)"
proof -
  have "(\<exists>flt. wants (kbit flt) pd \<and> r AND kbit flt \<noteq> 0)
      \<longleftrightarrow> wants POLLIN pd \<and> r AND POLLIN \<noteq> 0 \<or> wants POLLOUT pd \<and> r AND POLLOUT \<noteq> 0"
    by (simp add: ex_filters)
  moreover have "POLLIN \<noteq> 0" "POLLOUT \<noteq> 0" by (simp_all add: POLLIN_def POLLOUT_def)
  ultimately show ?thesis by (auto simp: fired_def kq_mark_def or_eq_0_iff)
qed

lemma keys_kq_mark: "keys (map (\<lambda>pd. kq_mark (g pd) pd) ps) = keys ps"
  by (rule keys_revents) (simp add: kq_mark_def)

lemma kq_look_eq:
  assumes "kq_counts (kq_fd_data d) (K + mset (keys ps))"
  shows "kq_look d ps = (let qs = map (\<lambda>pd. kq_mark (kq_rev d (fd pd)) pd) ps
    in if list_ex fired qs then (True, qs, kq_release True qs d) else (False, qs, Some d))"
proof -
  have "those (map (\<lambda>pd. map_option (\<lambda>x. kq_mark (kq_revents x) pd) (kq_get (fd pd) d)) ps)
      = Some (map (\<lambda>pd. kq_mark (kq_rev d (fd pd)) pd) ps)"
    using assms
  proof (induction ps arbitrary: K)
    case (Cons pd ps)
    have "0 \<le> fd pd" "fd pd < int (length (kq_fd_data d))"
      using Cons.prems by (auto simp: kq_counts_def kq_request_def)
    then have "kq_get (fd pd) d = Some (kq_fd_data d ! nat (fd pd))" "kq_revents (kq_fd_data d ! nat (fd pd)) = kq_rev d (fd pd)"
      by (auto simp: kq_get_def kq_rev_def)
    then show ?case using Cons.IH [of "add_mset (fd pd, events pd) K"] Cons.prems by simp
  qed simp
  then show ?thesis by (simp add: kq_look_def Let_def)
qed

interpretation kqw: event_walk kq_look "kq_walking d0"
proof unfold_locales
  fix d K ps T b ps' eo
  assume w: "kq_walking d0 d K (keys ps # T)" and l: "kq_look d ps = (b, ps', eo)"
  let ?qs = "map (\<lambda>pd. kq_mark (kq_rev d (fd pd)) pd) ps"
  let ?N = "K + mset (concat T)"
  have c: "kq_counts (kq_fd_data d) (?N + mset (keys ps))" "kq_doomed d (?N + mset (keys ps))" "kq_same d0 d"
    using w by (simp_all add: kq_walking_def ac_simps)
  have r: "kq_rev d = kq_rev d0" using c(3) by (simp add: kq_rev_def kq_same_def fun_eq_iff)
  have k: "keys ?qs = keys ps" by (rule keys_kq_mark)
  have b: "b = list_ex fired ?qs" "ps' = ?qs" "eo = (if list_ex fired ?qs then kq_release True ?qs d else Some d)"
    using l by (auto simp: kq_look_eq [OF c(1)] Let_def split: if_splits)
  have cov: "(f, flt) \<in> registered d0 \<or> kq_rev d0 f AND kbit flt \<noteq> 0"
    if "0 \<le> kq d0" "0 < cnt (kbit flt) f ?N \<or> 0 < cnt (kbit flt) f (mset (keys ps))" for f flt
    using w that by (auto simp: kq_walking_def)
  have old: "kq_rev d0 (fst p) AND kbit flt = 0" if "p \<in># K" "snd p AND kbit flt \<noteq> 0" for p flt
    using w that by (simp add: kq_walking_def)
  have "\<exists>e'. eo = Some e' \<and> kq_walking d0 e' (if b then K else K + mset (keys ps)) T"
  proof (cases b)
    case True
    obtain d' where d': "kq_release True ?qs d = Some d'" "kq_counts (kq_fd_data d') ?N" "kq_doomed d' ?N" "kq_same d d'"
      using kq_release_ok [of d ?N ?qs True] c k by auto
    have "kq_walking d0 d' K T" using d' c(3) cov old kq_same_trans by (auto simp: kq_walking_def)
    then show ?thesis using True b d'(1) by simp
  next
    case False
    have "kq_rev d0 (fst p) AND kbit flt = 0" if p: "p \<in> set (keys ps)" "snd p AND kbit flt \<noteq> 0" for p flt
    proof -
      obtain pd where pd: "pd \<in> set ps" "p = (fd pd, events pd)" using p(1) by (auto simp: keys_def)
      then have "\<not> fired (kq_mark (kq_rev d0 (fd pd)) pd)" using False b(1) by (auto simp: list_ex_iff r)
      then show ?thesis using pd(2) p(2) unfolding fired_kq_mark wants_def by (metis fst_conv snd_conv)
    qed
    then have "kq_walking d0 d (K + mset (keys ps)) T"
      using c cov old by (auto simp: kq_walking_def ac_simps)
    then show ?thesis using False b by simp
  qed
  then show "keys ps' = keys ps \<and> (b \<longrightarrow> list_ex fired ps')
      \<and> (\<exists>e'. eo = Some e' \<and> kq_walking d0 e' (if b then K else K + mset (keys ps)) T)"
    using k b by auto
qed

subsection \<open>Noting and settling\<close>

lemma kq_bits_filter: "kq_bits k AND kbit flt \<noteq> 0 \<longleftrightarrow> evfilter k = flt"
  by (cases flt; cases "evfilter k")
     (simp_all add: kq_bits_def POLLIN_def POLLOUT_def POLLERR_def POLLNVAL_def bit.conj_disj_distrib2)

lemma kq_bits_error: "kq_bits k AND NOT (POLLIN OR POLLOUT) \<noteq> 0 \<longleftrightarrow> kev_flags k AND EV_ERROR \<noteq> 0"
  by (cases "evfilter k")
     (simp_all add: kq_bits_def POLLIN_def POLLOUT_def POLLERR_def POLLNVAL_def bit.conj_disj_distrib2)

lemma kq_counts_revents:
  "kq_counts xs M \<Longrightarrow> n < length xs \<Longrightarrow> kq_counts (xs[n := (xs ! n)\<lparr>kq_revents := r\<rparr>]) M"
  by (auto simp: kq_counts_def nth_list_update kcnt_def split: kq_filter.splits)

text \<open>Only the \<open>revents\<close> fields change.\<close>

definition kq_noted :: "kqdata \<Rightarrow> kqdata \<Rightarrow> bool" where
  "kq_noted d d' \<longleftrightarrow> (\<exists>xs. d' = d\<lparr>kq_fd_data := xs\<rparr> \<and> length xs = length (kq_fd_data d)
     \<and> (\<forall>M. kq_counts (kq_fd_data d) M \<longrightarrow> kq_counts xs M))"

lemma kq_noted_refl [simp]: "kq_noted d d"
  unfolding kq_noted_def by (intro exI [of _ "kq_fd_data d"]) simp

lemma kq_noted_step:
  assumes "0 \<le> f" and "f < int (length (kq_fd_data d))"
    and "kq_noted (kq_put f ((kq_fd_data d ! nat f)\<lparr>kq_revents := r\<rparr>) d) d'"
  shows "kq_noted d d'"
proof -
  have "nat f < length (kq_fd_data d)" using assms(1,2) by auto
  then show ?thesis using assms(3) kq_counts_revents [of "kq_fd_data d" _ "nat f" r]
    by (auto simp: kq_noted_def kq_put_def)
qed

lemma kq_note_ok:
  "\<forall>k \<in> set es. 0 \<le> ident k \<and> ident k < int (length (kq_fd_data d)) \<Longrightarrow>
   \<exists>d'. kq_note es d = Some d' \<and> kq_noted d d'
     \<and> (\<forall>f m. 0 \<le> f \<and> f < int (length (kq_fd_data d)) \<longrightarrow> (kq_rev d' f AND m \<noteq> 0 \<longleftrightarrow>
          kq_rev d f AND m \<noteq> 0 \<or> (\<exists>k \<in> set es. ident k = f \<and> kq_bits k AND m \<noteq> 0)))"
proof (induction es arbitrary: d)
  case (Cons k es)
  let ?x = "kq_fd_data d ! nat (ident k)"
  let ?d = "kq_put (ident k) (?x\<lparr>kq_revents := kq_revents ?x OR kq_bits k\<rparr>) d"
  have k: "0 \<le> ident k" "ident k < int (length (kq_fd_data d))" using Cons.prems by auto
  have l: "length (kq_fd_data ?d) = length (kq_fd_data d)" by (simp add: kq_put_def)
  obtain d' where d': "kq_note es ?d = Some d'" "kq_noted ?d d'"
    "\<forall>f m. 0 \<le> f \<and> f < int (length (kq_fd_data d)) \<longrightarrow> (kq_rev d' f AND m \<noteq> 0 \<longleftrightarrow>
        kq_rev ?d f AND m \<noteq> 0 \<or> (\<exists>k \<in> set es. ident k = f \<and> kq_bits k AND m \<noteq> 0))"
    using Cons.IH [of ?d] Cons.prems l by auto
  have "kq_rev ?d f AND m \<noteq> 0 \<longleftrightarrow> kq_rev d f AND m \<noteq> 0 \<or> ident k = f \<and> kq_bits k AND m \<noteq> 0"
    if "0 \<le> f" "f < int (length (kq_fd_data d))" for f m
    using k that by (auto simp: kq_rev_def kq_put_def nth_list_update bit.conj_disj_distrib2 or_eq_0_iff)
  then show ?case using d' k kq_noted_step [OF k d'(2)] by (auto simp: kq_get_def)
qed simp

lemma kq_settle_ok:
  "\<forall>k \<in> set es. 0 \<le> ident k \<and> ident k < int (length (kq_fd_data d)) \<Longrightarrow>
   \<exists>d'. kq_settle es d = Some d' \<and> kq_noted d d'
     \<and> (\<forall>f. 0 \<le> f \<and> f < int (length (kq_fd_data d)) \<longrightarrow>
          kq_rev d' f = (if f \<in> ident ` set es then 0 else kq_rev d f))"
proof (induction es arbitrary: d)
  case (Cons k es)
  let ?d = "kq_put (ident k) ((kq_fd_data d ! nat (ident k))\<lparr>kq_revents := 0\<rparr>) d"
  have k: "0 \<le> ident k" "ident k < int (length (kq_fd_data d))" using Cons.prems by auto
  have l: "length (kq_fd_data ?d) = length (kq_fd_data d)" by (simp add: kq_put_def)
  obtain d' where d': "kq_settle es ?d = Some d'" "kq_noted ?d d'"
    "\<forall>f. 0 \<le> f \<and> f < int (length (kq_fd_data d)) \<longrightarrow> kq_rev d' f = (if f \<in> ident ` set es then 0 else kq_rev ?d f)"
    using Cons.IH [of ?d] Cons.prems l by auto
  have "kq_rev ?d f = (if ident k = f then 0 else kq_rev d f)"
    if "0 \<le> f" "f < int (length (kq_fd_data d))" for f
    using k that by (auto simp: kq_rev_def kq_put_def nth_list_update)
  then show ?case using d' k kq_noted_step [OF k d'(2)] by (auto simp: kq_get_def)
qed simp

subsection \<open>Dispatch\<close>

text \<open>After the events \<open>es\<close> were taken: the registrations that fired are gone.\<close>

definition kq_fired :: "kevent list \<Rightarrow> kqdata \<Rightarrow> request multiset \<Rightarrow> bool" where
  "kq_fired es d M \<longleftrightarrow> kq_counts (kq_fd_data d) M \<and> kq_fits d \<and> kq_quiet d \<and> addlist d = []
     \<and> (\<forall>k \<in> set es. 0 \<le> ident k \<and> ident k < int (length (kq_fd_data d)))
     \<and> (0 \<le> kq d \<longrightarrow> (\<forall>flt f. 0 < cnt (kbit flt) f M \<longrightarrow> (f, flt) \<in> registered d \<union> kev_key ` set es))"

definition kq_ready :: "kevent list \<Rightarrow> pollfd \<Rightarrow> bool" where
  "kq_ready es pd \<longleftrightarrow> (\<exists>k \<in> set es. ident k = fd pd \<and> (wants (kbit (evfilter k)) pd \<or> kev_flags k AND EV_ERROR \<noteq> 0))"

lemma kq_quiet_rev: "kq_quiet d \<Longrightarrow> 0 \<le> f \<Longrightarrow> f < int (length (kq_fd_data d)) \<Longrightarrow> kq_rev d f = 0"
  by (auto simp: kq_quiet_def kq_rev_def)

lemma cnt_pos: "0 < cnt ev f M \<longleftrightarrow> (\<exists>p \<in># M. fst p = f \<and> snd p AND ev \<noteq> 0)"
  by (induction M) auto

lemma kq_note_fired:
  assumes "kq_fired es d M"
  shows "\<exists>d1. kq_note es d = Some d1 \<and> kq_noted d d1
    \<and> (\<forall>f. 0 \<le> f \<and> f < int (length (kq_fd_data d)) \<longrightarrow>
        (\<forall>flt. kq_rev d1 f AND kbit flt \<noteq> 0 \<longleftrightarrow> (f, flt) \<in> kev_key ` set es)
        \<and> (kq_rev d1 f AND NOT (POLLIN OR POLLOUT) \<noteq> 0 \<longleftrightarrow> (\<exists>k \<in> set es. ident k = f \<and> kev_flags k AND EV_ERROR \<noteq> 0))
        \<and> (f \<notin> ident ` set es \<longrightarrow> kq_rev d1 f = 0))"
proof -
  have es: "\<forall>k \<in> set es. 0 \<le> ident k \<and> ident k < int (length (kq_fd_data d))"
    using assms by (simp add: kq_fired_def)
  obtain d1 where d1: "kq_note es d = Some d1" "kq_noted d d1"
    "\<forall>f m. 0 \<le> f \<and> f < int (length (kq_fd_data d)) \<longrightarrow> (kq_rev d1 f AND m \<noteq> 0 \<longleftrightarrow>
      kq_rev d f AND m \<noteq> 0 \<or> (\<exists>k \<in> set es. ident k = f \<and> kq_bits k AND m \<noteq> 0))"
    using kq_note_ok [OF es] by (elim exE conjE)
  have r: "kq_rev d1 f AND m \<noteq> 0 \<longleftrightarrow> (\<exists>k \<in> set es. ident k = f \<and> kq_bits k AND m \<noteq> 0)"
    if "0 \<le> f" "f < int (length (kq_fd_data d))" for f m
    using d1(3) that kq_quiet_rev [OF _ that] assms by (simp add: kq_fired_def)
  have "kq_rev d1 f = 0" if "0 \<le> f" "f < int (length (kq_fd_data d))" "f \<notin> ident ` set es" for f
  proof -
    have "\<not> (\<exists>k \<in> set es. ident k = f \<and> kq_bits k AND - 1 \<noteq> 0)" using that(3) by blast
    then show ?thesis using r [OF that(1,2), of "-1"] by auto
  qed
  moreover have "kq_rev d1 f AND kbit flt \<noteq> 0 \<longleftrightarrow> (f, flt) \<in> kev_key ` set es"
    if "0 \<le> f" "f < int (length (kq_fd_data d))" for f flt
    unfolding r [OF that] kq_bits_filter by (auto simp: kev_key_def)
  ultimately show ?thesis using d1(1,2) r [of _ "NOT (POLLIN OR POLLOUT)"] unfolding kq_bits_error by blast
qed

lemma kq_release1_same: "kq_release1 s pd d = Some d' \<Longrightarrow> kq_rev d' = kq_rev d"
proof -
  assume a: "kq_release1 s pd d = Some d'"
  then have f: "0 \<le> fd pd" "fd pd < int (length (kq_fd_data d))"
    by (auto simp: kq_release1_def kq_get_def split: if_splits)
  have "kq_fd_data (st_kq_dellist_add k e) = kq_fd_data e" for k e
  proof -
    obtain ok e1 where r: "kq_realloc e = (ok, e1)" by fastforce
    then show ?thesis using kq_realloc_ok [OF r] by (auto simp: st_kq_dellist_add_def split: bool.splits)
  qed
  then have "kq_fd_data d' = (kq_fd_data d)[nat (fd pd) := kq_bump (-1) pd (kq_fd_data d ! nat (fd pd))]"
    using a f by (auto simp: kq_release1_def kq_get_def kq_put_def Let_def split: if_splits)
  then show ?thesis using f by (auto simp: kq_rev_def fun_eq_iff nth_list_update map_update list_update_same_conv)
qed

lemma kq_release_same: "kq_release s ps d = Some d' \<Longrightarrow> kq_rev d' = kq_rev d"
proof (induction ps arbitrary: d)
  case (Cons pd ps)
  then obtain d1 where d1: "kq_release1 s pd d = Some d1" "kq_release s ps d1 = Some d'"
    by (auto simp: bind_eq_Some_conv)
  then show ?case using kq_release1_same [OF d1(1)] Cons.IH [OF d1(2)] by simp
qed simp

text \<open>The end of a round: the deletions are made and the notes of \<open>es\<close> wiped out.\<close>

lemma kq_round_end:
  assumes "kq_walking d1 d2 M []" and "addlist d1 = []" and "kq_fits d1"
    and "\<forall>k \<in> set es. 0 \<le> ident k \<and> ident k < int (length (kq_fd_data d1))"
    and "\<And>f. 0 \<le> f \<Longrightarrow> f < int (length (kq_fd_data d1)) \<Longrightarrow> f \<notin> ident ` set es \<Longrightarrow> kq_rev d1 f = 0"
  shows "\<exists>d3. kq_settle es (kq_flush d2) = Some d3 \<and> kq_tracks d3 M \<and> kq_pid d3 = kq_pid d1"
proof -
  let ?n = "int (length (kq_fd_data d1))" and ?e = "kq_flush d2"
  have s: "kq_same d1 d2" "kq_counts (kq_fd_data d2) M" "kq_doomed d2 M" using assms(1) by (simp_all add: kq_walking_def)
  have n2: "int (length (kq_fd_data d2)) = ?n" using kq_same_length [OF s(1)] by simp
  obtain d3 where d3: "kq_settle es ?e = Some d3" "kq_noted ?e d3"
    "\<And>f. 0 \<le> f \<Longrightarrow> f < ?n \<Longrightarrow> kq_rev d3 f = (if f \<in> ident ` set es then 0 else kq_rev ?e f)"
    using kq_settle_ok [of es ?e] assms(4) n2 by auto
  obtain ys where ys: "d3 = ?e\<lparr>kq_fd_data := ys\<rparr>" "length ys = length (kq_fd_data d2)" "kq_counts ys M"
    using d3(2) s(2) by (auto simp: kq_noted_def)
  have "kq_rev ?e f = kq_rev d1 f" for f using s(1) by (simp add: kq_rev_def kq_same_def)
  then have z: "kq_rev d3 f = 0" if "0 \<le> f" "f < ?n" for f using d3(3) assms(5) that by simp
  have "kq_revents x = 0" if x: "x \<in> set (kq_fd_data d3)" for x
  proof -
    obtain f where "f < length (kq_fd_data d3)" "x = kq_fd_data d3 ! f" using x by (auto simp: in_set_conv_nth)
    then show ?thesis using z [of "int f"] n2 ys by (simp add: kq_rev_def)
  qed
  then have "kq_quiet d3" by (simp add: kq_quiet_def)
  moreover have "kq_asked d3 \<subseteq> kq_asked d1"
    using kq_flush_registered(1) [of d2] s(1) by (auto simp: kq_asked_def ys(1) kq_same_def)
  then have "kq_fits d3" using assms(2,3) s(1) n2 ys by (auto simp: kq_fits_def kq_same_def)
  moreover have "(f, flt) \<in> kq_asked d3" if c: "0 \<le> kq d3" "0 < cnt (kbit flt) f M" for f flt
  proof -
    obtain p where p: "p \<in># M" "fst p = f" "snd p AND kbit flt \<noteq> 0" using c(2) by (auto simp: cnt_pos)
    then have "kq_rev d1 f AND kbit flt = 0" using assms(1) unfolding kq_walking_def by blast
    then have "(f, flt) \<in> registered d2" using assms(1) c s(1) unfolding kq_walking_def
      by (auto simp: kq_same_def ys(1))
    then show ?thesis using kq_flush_registered(2) [of d2] s(3) c(2)
      by (auto simp: kq_asked_def kq_doomed_def kev_key_def ys(1))
  qed
  ultimately have "kq_tracks d3 M" using ys by (simp add: kq_tracks_def kq_covers_def)
  then show ?thesis using d3(1) s(1) by (simp add: ys(1) kq_same_def)
qed

lemma kq_walk_begin:
  assumes "kq_fired es d M" and "kq_note es d = Some d1" and "kq_noted d d1"
    and "\<And>f flt. 0 \<le> f \<Longrightarrow> f < int (length (kq_fd_data d)) \<Longrightarrow> kq_rev d1 f AND kbit flt \<noteq> 0 \<longleftrightarrow> (f, flt) \<in> kev_key ` set es"
    and "M = mset (concat T)"
  shows "kq_walking (d1\<lparr>dellist := []\<rparr>) (d1\<lparr>dellist := []\<rparr>) {#} T"
proof -
  obtain xs where xs: "d1 = d\<lparr>kq_fd_data := xs\<rparr>" "length xs = length (kq_fd_data d)" "kq_counts xs M"
    using assms(1,3) by (auto simp: kq_noted_def kq_fired_def)
  let ?d = "d1\<lparr>dellist := []\<rparr>"
  have rev: "kq_rev ?d = kq_rev d1" by (simp add: kq_rev_def fun_eq_iff)
  have "(f, flt) \<in> registered ?d \<or> kq_rev ?d f AND kbit flt \<noteq> 0" if "0 \<le> kq ?d" "0 < cnt (kbit flt) f M" for f flt
  proof -
    have "0 \<le> f" "f < int (length (kq_fd_data d))" using that(2) xs(2,3) by (auto simp: cnt_pos kq_counts_def kq_request_def)
    moreover have "(f, flt) \<in> registered d \<union> kev_key ` set es" using assms(1) that xs(1) by (simp add: kq_fired_def)
    moreover have "registered ?d = registered d" by (simp add: xs(1))
    ultimately show ?thesis using assms(4) unfolding rev by blast
  qed
  then show ?thesis using xs assms(5) by (simp add: kq_walking_def kq_doomed_def)
qed

lemma kq_events_ok:
  assumes "wf_vp v" and "ioq_idle v" and "kq_fired es d (mset (keys (gathered v)))"
  shows "\<exists>d' v' w. kq_events es d v = Some (d', v') \<and> wf_vp v' \<and> walked (io_q v) w v v'
    \<and> kq_tracks d' (mset (keys (gathered v'))) \<and> kq_pid d' = kq_pid d"
proof (cases "es = []")
  case True
  then show ?thesis using assms walked_none
    by (auto simp: kq_events_def kq_tracks_def kq_fired_def kq_covers_def kq_asked_def)
next
  case False
  obtain d1 where d1: "kq_note es d = Some d1" "kq_noted d d1"
    "\<And>f flt. 0 \<le> f \<Longrightarrow> f < int (length (kq_fd_data d)) \<Longrightarrow> kq_rev d1 f AND kbit flt \<noteq> 0 \<longleftrightarrow> (f, flt) \<in> kev_key ` set es"
    "\<And>f. 0 \<le> f \<Longrightarrow> f < int (length (kq_fd_data d)) \<Longrightarrow> f \<notin> ident ` set es \<Longrightarrow> kq_rev d1 f = 0"
    using kq_note_fired [OF assms(3)] by blast
  obtain xs where xs: "d1 = d\<lparr>kq_fd_data := xs\<rparr>" "length xs = length (kq_fd_data d)" using d1(2) by (auto simp: kq_noted_def)
  let ?d = "d1\<lparr>dellist := []\<rparr>"
  from kqw.dispatch_ok [OF assms(1,2) kq_walk_begin [OF assms(3) d1(1-3) gathered_queued [THEN arg_cong [where f = mset]]]]
  obtain d2 v' w where w: "ioq_walk kq_look (io_q v) ?d v = Some (d2, v')" "wf_vp v'" "walked (io_q v) w v v'"
    "kq_walking ?d d2 (mset (keys (gathered v'))) []" by blast
  have "kq_rev ?d f = 0" if "0 \<le> f" "f < int (length (kq_fd_data ?d))" "f \<notin> ident ` set es" for f
    using d1(4) [of f] that xs by (simp add: kq_rev_def)
  moreover have "addlist ?d = []" "kq_fits ?d" "\<forall>k \<in> set es. 0 \<le> ident k \<and> ident k < int (length (kq_fd_data ?d))"
    using assms(3) xs by (simp_all add: kq_fired_def kq_fits_def kq_asked_def)
  ultimately obtain d3 where "kq_settle es (kq_flush d2) = Some d3" "kq_tracks d3 (mset (keys (gathered v')))" "kq_pid d3 = kq_pid ?d"
    using kq_round_end [OF w(4)] by blast
  moreover have "kq_pid ?d = kq_pid d" by (simp add: xs(1))
  ultimately show ?thesis using False d1(1) w(1-3) by (auto simp: kq_events_def)
qed

text \<open>What the documentation promises of the kernel's answers: only what was asked for is reported.\<close>

definition kq_reply_ok :: "kq_answer \<Rightarrow> kqdata \<Rightarrow> bool" where
  "kq_reply_ok a d \<longleftrightarrow> (case a of Kevents es \<Rightarrow> kev_key ` set es \<subseteq> kq_asked d | Kfail e \<Rightarrow> e = EINTR)"

definition kq_answer_ok :: "nat \<Rightarrow> int \<Rightarrow> kq_answer \<Rightarrow> kq_answer \<Rightarrow> kqdata \<Rightarrow> vp \<Rightarrow> bool" where
  "kq_answer_ok pid newkq a1 a2 d v \<longleftrightarrow> kq_reply_ok a1 d
     \<or> a1 = Kfail EBADF \<and> kq_pid d \<noteq> pid \<and> (0 \<le> newkq \<longrightarrow> False \<notin> set (kq_mem d)
         \<and> (\<forall>d2. kq_reinit pid newkq v (kq_submit a1 d) = Some d2 \<longrightarrow> kq_reply_ok a2 d2))"

lemma kq_submit_events:
  assumes "kq_tracks d M" and "kq_reply_ok (Kevents es) d"
  shows "kq_fired es (kq_submit (Kevents es) d) M"
proof -
  have f: "\<forall>k \<in> kq_asked d. 0 \<le> fst k \<and> fst k < int (length (kq_fd_data d))"
    using assms(1) by (simp add: kq_tracks_def kq_fits_def)
  have "\<forall>k \<in> set es. kev_key k \<in> kq_asked d" using assms(2) by (auto simp: kq_reply_ok_def)
  then have "\<forall>k \<in> set es. 0 \<le> ident k \<and> ident k < int (length (kq_fd_data d))" using f by (fastforce simp: kev_key_def)
  then show ?thesis using assms(1) f
    by (auto simp: kq_fired_def kq_tracks_def kq_submit_def kevent_submit_def kq_fits_def kq_asked_def kq_covers_def kq_quiet_def)
qed

lemma kq_submit_interrupted:
  "kq_tracks d M \<Longrightarrow> kq_tracks (kq_submit (Kfail EINTR) d) M"
  by (simp add: kq_tracks_def kq_submit_def kevent_submit_def kq_fits_def kq_asked_def kq_covers_def kq_quiet_def)

lemma kq_reply_dispatch:
  assumes "wf_vp v" and "ioq_idle v" and "kq_tracks d (mset (keys (gathered v)))" and "kq_reply_ok a d"
  shows "\<exists>d' v' w. (case a of Kevents es \<Rightarrow> kq_events es (kq_submit a d) v | Kfail e \<Rightarrow> Some (kq_submit a d, v)) = Some (d', v')
    \<and> wf_vp v' \<and> walked (io_q v) w v v' \<and> kq_tracks d' (mset (keys (gathered v')))"
proof (cases a)
  case (Kevents es)
  then show ?thesis using kq_events_ok [OF assms(1,2) kq_submit_events [OF assms(3)]] assms(4) by fastforce
next
  case (Kfail e)
  then show ?thesis using kq_submit_interrupted [OF assms(3)] assms walked_none by (auto simp: kq_reply_ok_def)
qed

subsection \<open>After a fork\<close>

lemma kq_check_valid:
  "list_all (\<lambda>pd. kq_request (length (kq_fd_data d)) (fd pd, events pd)) ps \<Longrightarrow> kq_check ps d = (None, d)"
  by (induction ps) (auto simp: kq_request_def)

lemma kq_realloc_good:
  assumes "False \<notin> set (kq_mem d)" and "kq_realloc d = (ok, d')"
  shows "ok \<and> (\<exists>bs. d' = d\<lparr>kq_mem := bs\<rparr> \<and> False \<notin> set bs)"
  using assms by (cases "kq_mem d") (auto simp: kq_realloc_def intro: exI [of _ "[]"])

lemma kq_addlist_expand_good:
  assumes "False \<notin> set (kq_mem d)" and "st_kq_addlist_expand n d = (ok, d')"
  shows "ok" and "False \<notin> set (kq_mem d')"
proof -
  obtain ok1 d1 where r: "kq_realloc d = (ok1, d1)" by fastforce
  obtain bs where d1: "ok1" "d1 = d\<lparr>kq_mem := bs\<rparr>" "False \<notin> set bs" using kq_realloc_good [OF assms(1) r] by blast
  let ?n = "int (double_until (n + int (length (addlist d)) - 1) (nat (addlist_size d)))"
  obtain ok2 d2 where r2: "kq_realloc (d1\<lparr>addlist_size := ?n\<rparr>) = (ok2, d2)" by fastforce
  have "False \<notin> set (kq_mem d2)" using kq_realloc_good [OF _ r2] d1(2,3) by auto
  then show "ok" and "False \<notin> set (kq_mem d')"
    using assms(2) r r2 d1(1) by (auto simp: st_kq_addlist_expand_def Let_def split: if_splits)
qed

lemma kq_add_good:
  assumes "kq_tracks d M" and "False \<notin> set (kq_mem d)"
    and "list_all (\<lambda>pd. kq_request (length (kq_fd_data d)) (fd pd, events pd)) ps"
  shows "\<exists>d'. st_kq_pollset_add ps d = Some (Ret 0, d') \<and> kq_tracks d' (M + mset (keys ps))
    \<and> length (kq_fd_data d') = length (kq_fd_data d) \<and> False \<notin> set (kq_mem d')"
proof -
  obtain ok d2 where r: "(if 2 * int (length ps) > addlist_size d - int (length (addlist d))
      then st_kq_addlist_expand (2 * int (length ps)) d else (True, d)) = (ok, d2)" by fastforce
  have g: "ok" "False \<notin> set (kq_mem d2)"
    using r kq_addlist_expand_good [OF assms(2)] assms(2) by (auto split: if_splits)
  note room = kq_room_ok [OF assms(1) r]
  obtain d3 where "kq_add_loop ps d2 = Some d3" "kq_tracks d3 (M + mset (keys ps))"
    "length (kq_fd_data d3) = length (kq_fd_data d2)" "kq_mem d3 = kq_mem d2"
    using kq_add_loop_ok [of d2 M ps] room g(1) assms(3) by auto
  then show ?thesis using r g room kq_check_valid [OF assms(3)] by (simp add: st_kq_pollset_add_def Let_def)
qed

lemma kq_refill_ok:
  "kq_tracks d M \<Longrightarrow> False \<notin> set (kq_mem d) \<Longrightarrow>
   list_all (list_all (\<lambda>pd. kq_request (length (kq_fd_data d)) (fd pd, events pd))) pss \<Longrightarrow>
   \<exists>d'. kq_refill pss d = Some d' \<and> kq_tracks d' (M + mset (keys (concat pss)))"
proof (induction pss arbitrary: d M)
  case (Cons ps pss)
  obtain d1 where d1: "st_kq_pollset_add ps d = Some (Ret 0, d1)" "kq_tracks d1 (M + mset (keys ps))"
    "length (kq_fd_data d1) = length (kq_fd_data d)" "False \<notin> set (kq_mem d1)"
    using kq_add_good [OF Cons.prems(1,2), of ps] Cons.prems(3) by auto
  then show ?case using Cons.IH [OF d1(2,4)] Cons.prems(3) by (auto simp: keys_def ac_simps)
qed (simp add: keys_def)

lemma kq_reinit_ok:
  assumes "kq_tracks d (mset (keys (gathered v)))" and "False \<notin> set (kq_mem d)"
  shows "\<exists>d'. kq_reinit pid newkq v (kq_submit a d) = Some d' \<and> kq_tracks d' (mset (keys (gathered v)))"
proof -
  let ?d = "(kq_submit a d)\<lparr>kq := newkq, registered := {}, kq_pid := pid,
    kq_fd_data := replicate (length (kq_fd_data d)) kq_zero\<rparr>"
  have "kq_tracks ?d {#}" using assms(1)
    by (auto simp: kq_tracks_def kq_counts_def kq_covers_def kq_fits_def kq_quiet_def kq_asked_def kq_submit_def kq_zero_def
        kcnt_def split: kq_filter.splits)
  moreover have "kq_request (length (kq_fd_data d)) (fd pd, events pd)" if "pd \<in> set (gathered v)" for pd
    using assms(1) that by (auto simp: kq_tracks_def kq_counts_def keys_def)
  then have "list_all (list_all (\<lambda>pd. kq_request (length (kq_fd_data ?d)) (fd pd, events pd)))
      (map (\<lambda>t. pds (pollqs v t)) (io_q v))"
    by (auto simp: list_all_iff gathered_def)
  ultimately show ?thesis using kq_refill_ok [of ?d "{#}" "map (\<lambda>t. pds (pollqs v t)) (io_q v)"] assms(2)
    by (auto simp: kq_reinit_def kq_submit_def gathered_def)
qed

lemma kq_dispatch_ok:
  assumes "wf_vp v" and "ioq_idle v" and "kq_tracks d (mset (keys (gathered v)))" and "kq_answer_ok pid newkq a1 a2 d v"
  shows "\<exists>d' v' w. st_kq_dispatch pid newkq a1 a2 d v = Some (d', v') \<and> wf_vp v'
    \<and> walked (io_q v) w v v' \<and> kq_tracks d' (mset (keys (gathered v')))"
proof (cases "kq_reply_ok a1 d")
  case True
  then have "st_kq_dispatch pid newkq a1 a2 d v
      = (case a1 of Kevents es \<Rightarrow> kq_events es (kq_submit a1 d) v | Kfail e \<Rightarrow> Some (kq_submit a1 d, v))"
    by (auto simp: st_kq_dispatch_def kq_reply_ok_def split: kq_answer.splits)
  then show ?thesis using kq_reply_dispatch [OF assms(1-3) True] by metis
next
  case False
  then have f: "a1 = Kfail EBADF" "kq_pid d \<noteq> pid" "0 \<le> newkq \<Longrightarrow> False \<notin> set (kq_mem d)"
    "\<And>d2. 0 \<le> newkq \<Longrightarrow> kq_reinit pid newkq v (kq_submit a1 d) = Some d2 \<Longrightarrow> kq_reply_ok a2 d2"
    using assms(4) unfolding kq_answer_ok_def by blast+
  show ?thesis
  proof (cases "newkq < 0")
    case True
    have "kq_tracks ((kq_submit a1 d)\<lparr>kq := newkq, registered := {}\<rparr>) (mset (keys (gathered v)))"
      using assms(3) True by (auto simp: kq_tracks_def kq_submit_def kq_covers_def kq_fits_def kq_asked_def kq_quiet_def)
    then show ?thesis using assms(1) walked_none f(1,2) True by (auto simp: st_kq_dispatch_def)
  next
    case False
    obtain d2 where d2: "kq_reinit pid newkq v (kq_submit a1 d) = Some d2" "kq_tracks d2 (mset (keys (gathered v)))"
      using kq_reinit_ok [OF assms(3)] f(3) False by fastforce
    have "st_kq_dispatch pid newkq a1 a2 d v
        = (case a2 of Kevents es \<Rightarrow> kq_events es (kq_submit a2 d2) v | Kfail e \<Rightarrow> Some (kq_submit a2 d2, v))"
      using f(1,2) False d2(1) by (simp add: st_kq_dispatch_def)
    then show ?thesis using kq_reply_dispatch [OF assms(1,2) d2(2) f(4) [OF _ d2(1)]] False by (metis linorder_not_less)
  qed
qed

subsection \<open>Who is woken\<close>

lemma kq_look_decides:
  assumes "kq_look d ps = (b, qs, Some d1)"
  shows "b = list_ex (\<lambda>pd. fired (kq_mark (kq_rev d (fd pd)) pd)) ps" and "kq_rev d1 = kq_rev d"
proof -
  have m: "those (map (\<lambda>pd. map_option (\<lambda>x. kq_mark (kq_revents x) pd) (kq_get (fd pd) d)) ps) = Some xs \<Longrightarrow>
      xs = map (\<lambda>pd. kq_mark (kq_rev d (fd pd)) pd) ps" for xs
    by (induction ps arbitrary: xs) (auto simp: kq_get_def kq_rev_def split: if_splits option.splits)
  obtain xs where xs: "those (map (\<lambda>pd. map_option (\<lambda>x. kq_mark (kq_revents x) pd) (kq_get (fd pd) d)) ps) = Some xs"
    using assms by (auto simp: kq_look_def split: option.splits)
  then have l: "b = list_ex fired xs" "d1 = d \<or> kq_release True xs d = Some d1"
    using assms by (auto simp: kq_look_def split: if_splits)
  show "b = list_ex (\<lambda>pd. fired (kq_mark (kq_rev d (fd pd)) pd)) ps"
    unfolding l(1) m [OF xs] by (simp add: list_ex_iff)
  show "kq_rev d1 = kq_rev d" using l(2) kq_release_same by blast
qed

lemma kq_fired_ready:
  assumes "\<And>flt. kq_rev d1 (fd pd) AND kbit flt \<noteq> 0 \<longleftrightarrow> (fd pd, flt) \<in> kev_key ` set es"
    and "kq_rev d1 (fd pd) AND NOT (POLLIN OR POLLOUT) \<noteq> 0 \<longleftrightarrow> (\<exists>k \<in> set es. ident k = fd pd \<and> kev_flags k AND EV_ERROR \<noteq> 0)"
  shows "fired (kq_mark (kq_rev d1 (fd pd)) pd) \<longleftrightarrow> kq_ready es pd"
proof -
  have "(\<exists>flt. wants (kbit flt) pd \<and> kq_rev d1 (fd pd) AND kbit flt \<noteq> 0)
      \<longleftrightarrow> (\<exists>k \<in> set es. ident k = fd pd \<and> wants (kbit (evfilter k)) pd)"
    unfolding assms(1) kev_key_def image_iff by (auto, metis)
  then show ?thesis unfolding fired_kq_mark assms(2) kq_ready_def by blast
qed

lemma kq_events_wakes:
  assumes "ioq_idle v" and "kq_fired es d (mset (keys (gathered v)))" and "kq_events es d v = Some (d', v')"
  shows "run_q v' = run_q v @ filter (\<lambda>t. list_ex (kq_ready es) (pds (pollqs v t))) (io_q v)"
proof (cases "es = []")
  case True
  then show ?thesis using assms(3) by (simp add: kq_events_def kq_ready_def list_ex_iff)
next
  case False
  obtain d1 where d1: "kq_note es d = Some d1"
    "\<forall>f. 0 \<le> f \<and> f < int (length (kq_fd_data d)) \<longrightarrow>
        (\<forall>flt. kq_rev d1 f AND kbit flt \<noteq> 0 \<longleftrightarrow> (f, flt) \<in> kev_key ` set es)
        \<and> (kq_rev d1 f AND NOT (POLLIN OR POLLOUT) \<noteq> 0 \<longleftrightarrow> (\<exists>k \<in> set es. ident k = f \<and> kev_flags k AND EV_ERROR \<noteq> 0))"
    using kq_note_fired [OF assms(2)] by blast
  let ?P = "list_ex (\<lambda>pd. fired (kq_mark (kq_rev d1 (fd pd)) pd))"
  obtain d2 where "ioq_walk kq_look (io_q v) (d1\<lparr>dellist := []\<rparr>) v = Some (d2, v')"
    using assms(3) False d1(1) by (auto simp: kq_events_def bind_eq_Some_conv)
  then have r: "run_q v' = run_q v @ filter (\<lambda>t. ?P (pds (pollqs v t))) (io_q v)"
  proof (rule walk_woken_inv [where I = "\<lambda>d. kq_rev d = kq_rev d1", rotated])
    show "kq_rev (d1\<lparr>dellist := []\<rparr>) = kq_rev d1" by (simp add: kq_rev_def fun_eq_iff)
    show "distinct (io_q v)" using assms(1) by (simp add: ioq_idle_def)
    fix e ps b qs e1 assume "kq_rev e = kq_rev d1" "kq_look e ps = (b, qs, Some e1)"
    then show "b = ?P ps \<and> kq_rev e1 = kq_rev d1" using kq_look_decides [of e ps b qs e1] by simp
  qed
  have "?P (pds (pollqs v t)) = list_ex (kq_ready es) (pds (pollqs v t))" if "t \<in> set (io_q v)" for t
  proof -
    have "fired (kq_mark (kq_rev d1 (fd pd)) pd) = kq_ready es pd" if "pd \<in> set (pds (pollqs v t))" for pd
    proof (rule kq_fired_ready)
      have "(fd pd, events pd) \<in># mset (keys (gathered v))"
        using that \<open>t \<in> set (io_q v)\<close> by (force simp: gathered_def keys_def)
      then have "0 \<le> fd pd" "fd pd < int (length (kq_fd_data d))"
        using assms(2) by (auto simp: kq_fired_def kq_counts_def kq_request_def)
      then show "\<And>flt. kq_rev d1 (fd pd) AND kbit flt \<noteq> 0 \<longleftrightarrow> (fd pd, flt) \<in> kev_key ` set es"
        "kq_rev d1 (fd pd) AND NOT (POLLIN OR POLLOUT) \<noteq> 0 \<longleftrightarrow> (\<exists>k \<in> set es. ident k = fd pd \<and> kev_flags k AND EV_ERROR \<noteq> 0)"
        using d1(2) by blast+
    qed
    then show ?thesis by (simp add: list_ex_iff)
  qed
  then show ?thesis using r by (simp cong: filter_cong)
qed

end
