(* ===== verification/Eventsys.thy ===== *)
theory Eventsys
  imports Kqueue
begin

text \<open>
  The event system in use: the pointer \<open>_st_eventsys\<close> to one of the tables of functions of
  \<^verbatim>\<open>event.c\<close>, with the data that belongs to it.
\<close>

datatype evkind = KSelect | KPoll | KEpoll | KKqueue

datatype evsys = Select seldata | Poll polldata | Epoll epolldata | Kqueue kqdata

definition ST_EVENTSYS_DEFAULT :: int where "ST_EVENTSYS_DEFAULT = 0"
definition ST_EVENTSYS_SELECT :: int where "ST_EVENTSYS_SELECT = 1"
definition ST_EVENTSYS_POLL :: int where "ST_EVENTSYS_POLL = 2"
definition ST_EVENTSYS_ALT :: int where "ST_EVENTSYS_ALT = 3"

text \<open>
  The alternative of the platform: kqueue, epoll, or none. Whether the kernel has epoll is seen from
  the \<open>errno\<close> of a call with impossible arguments.
\<close>

datatype platform = HaveKqueue | HaveEpoll errno | HaveNone

definition st_epoll_is_supported :: "errno \<Rightarrow> bool" where
  "st_epoll_is_supported e \<longleftrightarrow> e \<noteq> ENOSYS"

definition st_set_eventsys :: "platform \<Rightarrow> int \<Rightarrow> evkind option \<Rightarrow> rv \<times> evkind option" where
  "st_set_eventsys pf k cur =
     (if cur \<noteq> None then (Fail EBUSY, cur)
      else if k = ST_EVENTSYS_DEFAULT \<or> k = ST_EVENTSYS_SELECT then (Ret 0, Some KSelect)
      else if k = ST_EVENTSYS_POLL then (Ret 0, Some KPoll)
      else if k = ST_EVENTSYS_ALT
      then (Ret 0, case pf of HaveKqueue \<Rightarrow> Some KKqueue
                            | HaveEpoll e \<Rightarrow> (if st_epoll_is_supported e then Some KEpoll else None)
                            | HaveNone \<Rightarrow> None)
      else (Fail EINVAL, None))"

definition st_get_eventsys :: "evkind option \<Rightarrow> int" where
  "st_get_eventsys cur = (case cur of
      None \<Rightarrow> -1
    | Some KSelect \<Rightarrow> ST_EVENTSYS_SELECT
    | Some KPoll \<Rightarrow> ST_EVENTSYS_POLL
    | Some KEpoll \<Rightarrow> ST_EVENTSYS_ALT
    | Some KKqueue \<Rightarrow> ST_EVENTSYS_ALT)"

definition st_get_eventsys_name :: "evkind option \<Rightarrow> string" where
  "st_get_eventsys_name cur = (case cur of
      None \<Rightarrow> ''''
    | Some KSelect \<Rightarrow> ''select''
    | Some KPoll \<Rightarrow> ''poll''
    | Some KEpoll \<Rightarrow> ''epoll''
    | Some KKqueue \<Rightarrow> ''kqueue'')"

section \<open>The table of functions\<close>

fun pollset_add :: "pollfd list \<Rightarrow> evsys \<Rightarrow> (rv \<times> evsys) option" where
  "pollset_add ps (Select d) = (case st_select_pollset_add ps d of (r, d') \<Rightarrow> Some (r, Select d'))"
| "pollset_add ps (Poll d) = (case st_poll_pollset_add ps d of (r, d') \<Rightarrow> Some (r, Poll d'))"
| "pollset_add ps (Epoll d) = map_option (map_prod id Epoll) (st_epoll_pollset_add ps d)"
| "pollset_add ps (Kqueue d) = map_option (map_prod id Kqueue) (st_kq_pollset_add ps d)"

fun pollset_del :: "pollfd list \<Rightarrow> evsys \<Rightarrow> evsys option" where
  "pollset_del ps (Select d) = Some (Select (st_select_pollset_del ps d))"
| "pollset_del ps (Poll d) = map_option Poll (st_poll_pollset_del ps d)"
| "pollset_del ps (Epoll d) = map_option Epoll (st_epoll_pollset_del ps d)"
| "pollset_del ps (Kqueue d) = map_option Kqueue (st_kq_pollset_del ps d)"

text \<open>What the kernel and the allocator answer during one dispatch.\<close>

record answer =
  sel_ans :: select_ans
  sel_bad :: "int \<Rightarrow> bool"
  poll_ans :: "16 word list option"
  poll_mem :: bool
  epoll_ans :: "(int \<times> 32 word) list"
  epoll_newfd :: int
  epoll_pid :: nat
  kq_ans :: kq_answer
  kq_again :: kq_answer
  kq_newkq :: int

fun dispatch :: "answer \<Rightarrow> evsys \<Rightarrow> vp \<Rightarrow> (evsys \<times> vp) option" where
  "dispatch a (Select d) v = map_option (map_prod Select id) (st_select_dispatch (sel_ans a) (sel_bad a) d v)"
| "dispatch a (Poll d) v = map_option (map_prod Poll id) (st_poll_dispatch (poll_ans a) (poll_mem a) d v)"
| "dispatch a (Epoll d) v =
     map_option (map_prod Epoll id) (st_epoll_dispatch (epoll_pid a) (epoll_newfd a) (epoll_ans a) d v)"
| "dispatch a (Kqueue d) v =
     map_option (map_prod Kqueue id) (st_kq_dispatch (epoll_pid a) (kq_newkq a) (kq_ans a) (kq_again a) d v)"

fun fd_new :: "int \<Rightarrow> evsys \<Rightarrow> rv \<times> evsys" where
  "fd_new f (Select d) = (st_select_fd_new f, Select d)"
| "fd_new f (Poll d) = (Ret 0, Poll d)"
| "fd_new f (Epoll d) = map_prod id Epoll (st_epoll_fd_new f d)"
| "fd_new f (Kqueue d) = map_prod id Kqueue (st_kq_fd_new f d)"

fun fd_close :: "int \<Rightarrow> evsys \<Rightarrow> rv option" where
  "fd_close f (Select d) = Some (st_select_fd_close f d)"
| "fd_close f (Poll d) = Some (Ret 0)"
| "fd_close f (Epoll d) = st_epoll_fd_close f d"
| "fd_close f (Kqueue d) = st_kq_fd_close f d"

fun fd_getlimit :: "evsys \<Rightarrow> int" where
  "fd_getlimit (Select d) = FD_SETSIZE"
| "fd_getlimit (Poll d) = 0"
| "fd_getlimit (Epoll d) = 0"
| "fd_getlimit (Kqueue d) = 0"

section \<open>Every table keeps the contract\<close>

fun es_tracks :: "evsys \<Rightarrow> request multiset \<Rightarrow> bool" where
  "es_tracks (Select d) M = select_tracks d M"
| "es_tracks (Poll d) M = poll_tracks d M"
| "es_tracks (Epoll d) M = epoll_tracks d M"
| "es_tracks (Kqueue d) M = kq_tracks d M"

text \<open>
  What the documentation promises of the answers: \<open>poll\<close> fills the array it is given and memory for
  it is found; \<open>epoll_wait\<close> reports descriptors that were registered, and the process has not forked;
  \<open>kevent\<close> reports filters that were asked for, or that the queue is gone after a fork.
\<close>

fun answer_ok :: "answer \<Rightarrow> evsys \<Rightarrow> vp \<Rightarrow> bool" where
  "answer_ok a (Select d) v = True"
| "answer_ok a (Poll d) v = (poll_mem a \<and> (\<forall>r. poll_ans a = Some r \<longrightarrow> length r = length (gathered v)))"
| "answer_ok a (Epoll d) v = (epoll_pid a = ep_pid d
     \<and> (\<forall>p \<in> set (epoll_ans a). 0 \<le> fst p \<and> fst p < int (length (fd_data d))))"
| "answer_ok a (Kqueue d) v = kq_answer_ok (epoll_pid a) (kq_newkq a) (kq_ans a) (kq_again a) d v"

interpretation es: event_system pollset_add pollset_del es_tracks
proof unfold_locales
  fix e M ps assume a: "es_tracks e M"
  show "\<exists>r e'. pollset_add ps e = Some (r, e')
      \<and> es_tracks e' (case r of Ret x \<Rightarrow> M + mset (keys ps) | Fail er \<Rightarrow> M)"
  proof (cases e)
    case (Select d)
    then show ?thesis using se.add_ok [of d M ps] a by (auto split: prod.splits)
  next
    case (Poll d)
    then show ?thesis using po.add_ok [of d M ps] a by (auto split: prod.splits)
  next
    case (Epoll d)
    then show ?thesis using ep.add_ok [of d M ps] a by (auto split: rv.splits)
  next
    case (Kqueue d)
    then show ?thesis using kqs.add_ok [of d M ps] a by (auto split: rv.splits)
  qed
next
  fix e M ps assume a: "es_tracks e (M + mset (keys ps))"
  show "\<exists>e'. pollset_del ps e = Some e' \<and> es_tracks e' M"
  proof (cases e)
    case (Select d)
    then show ?thesis using se.del_ok [of d M ps] a by auto
  next
    case (Poll d)
    then show ?thesis using po.del_ok [of d M ps] a by auto
  next
    case (Epoll d)
    then show ?thesis using ep.del_ok [of d M ps] a by auto
  next
    case (Kqueue d)
    then show ?thesis using kqs.del_ok [of d M ps] a by auto
  qed
qed

lemma es_dispatch_ok:
  assumes "wf_vp v" and "ioq_idle v" and "es_tracks e (mset (keys (gathered v)))" and "answer_ok a e v"
  shows "\<exists>e' v' w. dispatch a e v = Some (e', v') \<and> wf_vp v' \<and> walked (io_q v) w v v'
    \<and> es_tracks e' (mset (keys (gathered v')))"
proof (cases e)
  case (Select d)
  then show ?thesis
    using select_dispatch_ok [OF assms(1,2), of d "sel_ans a" "sel_bad a"] assms(3) by auto
next
  case (Poll d)
  then show ?thesis using poll_dispatch_ok [OF assms(1,2), of d "poll_ans a"] assms(3,4) by auto
next
  case (Epoll d)
  then show ?thesis
    using epoll_dispatch_ok [OF assms(1,2), of d "epoll_pid a" "epoll_ans a" "epoll_newfd a"] assms(3,4)
    by auto
next
  case (Kqueue d)
  then show ?thesis
    using kq_dispatch_ok [OF assms(1,2), of d "epoll_pid a" "kq_newkq a" "kq_ans a" "kq_again a"] assms(3,4)
    by auto
qed

lemma masked_or:
  fixes x :: "16 word"
  assumes "x AND NOT (a OR b) = 0" and "x \<noteq> 0"
  shows "x AND a \<noteq> 0 \<or> x AND b \<noteq> 0"
proof -
  have "x = (x AND (a OR b)) OR (x AND NOT (a OR b))"
    by (simp only: bit.conj_disj_distrib [symmetric] bit.disj_cancel_right bit.conj_one_right)
  then show ?thesis using assms by (auto simp: bit.conj_disj_distrib)
qed

text \<open>A descriptor that no thread waits on may be closed, one that is waited on may not (poll apart).\<close>

lemma fd_close_tracked:
  assumes "es_tracks e M" and "fd_close f e = Some (Ret 0)" and "\<And>d. e \<noteq> Poll d" and "p \<in># M"
    and "snd p AND POLL_EVENTS \<noteq> 0"
  shows "fst p \<noteq> f"
proof
  assume f: "fst p = f"
  have "snd p AND POLLIN \<noteq> 0 \<or> snd p AND POLLOUT \<noteq> 0 \<or> snd p AND POLLPRI \<noteq> 0"
    using assms(5) by (auto simp: POLL_EVENTS_def bit.conj_disj_distrib)
  moreover have "0 < cnt ev f M" if "snd p AND ev \<noteq> 0" for ev
    using multi_member_split [OF assms(4)] f that by (cases p) auto
  ultimately have c: "cnt POLLIN f M \<noteq> 0 \<or> cnt POLLOUT f M \<noteq> 0 \<or> cnt POLLPRI f M \<noteq> 0" by (metis less_numeral_extra(3))
  show False
  proof (cases e)
    case (Select d)
    then show ?thesis using assms(1,2) c
      by (auto simp: st_select_fd_close_def select_tracks_def select_counts_def split: if_splits)
  next
    case (Poll d)
    then show ?thesis using assms(3) by simp
  next
    case (Epoll d)
    have n: "0 \<le> f" "nat f < length (fd_data d)" "int (nat f) = f"
      using assms(1,4) Epoll f by (auto simp: epoll_tracks_def fd_counts_def)
    have "\<forall>g < length (fd_data d). rd_ref_cnt (fd_data d ! g) = int (cnt POLLIN (int g) M)
      \<and> wr_ref_cnt (fd_data d ! g) = int (cnt POLLOUT (int g) M)
      \<and> ex_ref_cnt (fd_data d ! g) = int (cnt POLLPRI (int g) M)"
      using assms(1) Epoll by (simp add: epoll_tracks_def fd_counts_def)
    from this [rule_format, OF n(2)] show ?thesis using assms(2) Epoll c n
      by (simp add: st_epoll_fd_close_def fd_get_def split: if_splits)
  next
    case (Kqueue d)
    have k: "kq_counts (kq_fd_data d) M" using assms(1) Kqueue by (simp add: kq_tracks_def)
    then have r: "kq_request (length (kq_fd_data d)) p" using assms(4) by (auto simp: kq_counts_def)
    then have "snd p AND POLLIN \<noteq> 0 \<or> snd p AND POLLOUT \<noteq> 0"
      using masked_or [of "snd p" POLLIN POLLOUT] by (auto simp: kq_request_def)
    then have "0 < cnt POLLIN f M \<or> 0 < cnt POLLOUT f M" using assms(4) f by (auto simp: cnt_pos)
    then show ?thesis using assms(2) Kqueue kq_counts_get [OF k, of f EVFILT_READ] kq_counts_get [OF k, of f EVFILT_WRITE] r f
      by (auto simp: st_kq_fd_close_def kq_get_def kq_request_def split: if_splits)
  qed
qed

end
