(* ===== verification/Key_Stk.thy ===== *)
theory Key_Stk
  imports Sched
begin

text \<open>
  Thread-specific data (\<^verbatim>\<open>3rdpart/st-1.9/key.c\<close>) and the pool of thread stacks (\<^verbatim>\<open>stk.c\<close>), with the
  layout of a new thread on its stack (\<open>st_thread_create\<close> of \<^verbatim>\<open>sched.c\<close>).
\<close>

section \<open>Thread-specific data\<close>

text \<open>
  The destructors are functions of the client, named by numbers (0 is the null pointer). What an
  operation returns lists the calls it makes: which destructor on which datum.
\<close>

record keytab =
  destructors :: "nat list"
  key_max :: nat

type_synonym dcalls = "(nat \<times> nat) list"

definition keytab_init :: keytab where
  "keytab_init = \<lparr>destructors = replicate ST_KEYS_MAX 0, key_max = 0\<rparr>"

definition st_key_create :: "nat \<Rightarrow> keytab \<Rightarrow> rv \<times> keytab" where
  "st_key_create f k =
     (if key_max k \<ge> ST_KEYS_MAX then (Fail EAGAIN, k)
      else (Ret (int (key_max k)),
            k\<lparr>key_max := key_max k + 1, destructors := (destructors k)[key_max k := f]\<rparr>))"

definition st_key_getlimit :: nat where "st_key_getlimit = ST_KEYS_MAX"

definition set_private :: "nat \<Rightarrow> nat \<Rightarrow> thread \<Rightarrow> thread" where
  "set_private key val x = x\<lparr>private_data := (private_data x)[key := val]\<rparr>"

definition st_thread_setspecific :: "keytab \<Rightarrow> int \<Rightarrow> nat \<Rightarrow> thread \<Rightarrow> rv \<times> dcalls \<times> thread" where
  "st_thread_setspecific k key val x =
     (if key < 0 \<or> key \<ge> int (key_max k) then (Fail EINVAL, [], x)
      else
        (let n = nat key; old = private_data x ! n; f = destructors k ! n
         in if val \<noteq> old
            then (Ret 0, if old \<noteq> 0 \<and> f \<noteq> 0 then [(f, old)] else [], set_private n val x)
            else (Ret 0, [], x)))"

definition st_thread_getspecific :: "keytab \<Rightarrow> int \<Rightarrow> thread \<Rightarrow> nat" where
  "st_thread_getspecific k key x =
     (if key < 0 \<or> key \<ge> int (key_max k) then 0 else private_data x ! nat key)"

text \<open>The loop of \<open>_st_thread_cleanup\<close> over the keys from \<open>n\<close> on.\<close>

fun cleanup_loop :: "keytab \<Rightarrow> nat list \<Rightarrow> thread \<Rightarrow> dcalls \<times> thread" where
  "cleanup_loop k [] x = ([], x)"
| "cleanup_loop k (n # ns) x =
     (let old = private_data x ! n; f = destructors k ! n
      in if old \<noteq> 0 \<and> f \<noteq> 0
         then (case cleanup_loop k ns (set_private n 0 x) of (cs, y) \<Rightarrow> ((f, old) # cs, y))
         else cleanup_loop k ns x)"

definition st_thread_cleanup :: "keytab \<Rightarrow> thread \<Rightarrow> dcalls \<times> thread" where
  "st_thread_cleanup k x = cleanup_loop k [0..<key_max k] x"

definition keytab_ok :: "keytab \<Rightarrow> bool" where
  "keytab_ok k \<longleftrightarrow> length (destructors k) = ST_KEYS_MAX \<and> key_max k \<le> ST_KEYS_MAX"

definition thread_ok :: "thread \<Rightarrow> bool" where
  "thread_ok x \<longleftrightarrow> length (private_data x) = ST_KEYS_MAX"

lemma keytab_init_ok: "keytab_ok keytab_init"
  by (simp add: keytab_ok_def keytab_init_def)

lemma key_create_ok: "keytab_ok k \<Longrightarrow> keytab_ok (snd (st_key_create f k))"
  by (auto simp: keytab_ok_def st_key_create_def)

lemma set_get_specific:
  assumes "keytab_ok k" and "thread_ok x" and "st_thread_setspecific k key val x = (Ret 0, cs, x')"
  shows "st_thread_getspecific k key x' = val \<and> thread_ok x'"
    and "key' \<noteq> key \<Longrightarrow> st_thread_getspecific k key' x' = st_thread_getspecific k key' x"
  using assms by (auto simp: st_thread_setspecific_def st_thread_getspecific_def set_private_def
      thread_ok_def keytab_ok_def Let_def nth_list_update split: if_splits)

text \<open>
  Cleaning up calls each destructor exactly once, in the order of the keys, on the datum of its key,
  and leaves no datum with a destructor behind.
\<close>

definition owned :: "keytab \<Rightarrow> thread \<Rightarrow> nat \<Rightarrow> bool" where
  "owned k x n \<longleftrightarrow> private_data x ! n \<noteq> 0 \<and> destructors k ! n \<noteq> 0"

lemma cleanup_loop_ok:
  "distinct ns \<Longrightarrow> \<forall>n \<in> set ns. n < length (private_data x) \<Longrightarrow> cleanup_loop k ns x = (cs, y) \<Longrightarrow>
   cs = map (\<lambda>n. (destructors k ! n, private_data x ! n)) (filter (owned k x) ns)
   \<and> length (private_data y) = length (private_data x)
   \<and> (\<forall>n < length (private_data x). private_data y ! n =
        (if n \<in> set ns \<and> owned k x n then 0 else private_data x ! n))
   \<and> y = x\<lparr>private_data := private_data y\<rparr>"
proof (induction ns arbitrary: x cs y)
  case (Cons n ns)
  show ?case
  proof (cases "owned k x n")
    case True
    obtain cs' where l: "cleanup_loop k ns (set_private n 0 x) = (cs', y)"
      "cs = (destructors k ! n, private_data x ! n) # cs'"
      using Cons.prems(3) True by (auto simp: owned_def Let_def split: prod.splits)
    have o: "owned k (set_private n 0 x) m = owned k x m" if "m \<noteq> n" for m
      using that by (simp add: owned_def set_private_def)
    have IH: "cs' = map (\<lambda>m. (destructors k ! m, private_data (set_private n 0 x) ! m))
          (filter (owned k (set_private n 0 x)) ns)"
      "length (private_data y) = length (private_data x)"
      "\<forall>m < length (private_data x). private_data y ! m =
        (if m \<in> set ns \<and> owned k (set_private n 0 x) m then 0 else private_data (set_private n 0 x) ! m)"
      "y = (set_private n 0 x)\<lparr>private_data := private_data y\<rparr>"
      using Cons.IH [OF _ _ l(1)] Cons.prems by (auto simp: set_private_def)
    have f: "filter (owned k (set_private n 0 x)) ns = filter (owned k x) ns"
      by (rule filter_cong [OF refl], rule o) (use Cons.prems(1) in auto)
    have "m \<in> set ns \<Longrightarrow> private_data (set_private n 0 x) ! m = private_data x ! m" for m
      using Cons.prems(1) by (cases "m = n") (auto simp: set_private_def)
    then have "cs' = map (\<lambda>m. (destructors k ! m, private_data x ! m)) (filter (owned k x) ns)"
      unfolding IH(1) f by simp
    moreover have "y = x\<lparr>private_data := private_data y\<rparr>"
      using IH(4) by (metis thread.surjective thread.update_convs(4) set_private_def)
    ultimately show ?thesis using IH(2,3) l(2) True o Cons.prems(1,2)
      by (auto simp: set_private_def nth_list_update)
  next
    case False
    then have l: "cleanup_loop k ns x = (cs, y)" using Cons.prems(3) by (auto simp: owned_def Let_def)
    then show ?thesis using Cons.IH [OF _ _ l] Cons.prems False by auto
  qed
qed auto

text \<open>The destructors run once for every key that has a value and a destructor, in the order of the keys.\<close>

lemma thread_cleanup_ok:
  assumes "keytab_ok k" and "thread_ok x" and "st_thread_cleanup k x = (cs, y)"
  shows "cs = map (\<lambda>n. (destructors k ! n, private_data x ! n)) (filter (owned k x) [0..<key_max k])
    \<and> (\<forall>n < key_max k. owned k x n \<longrightarrow> private_data y ! n = 0)"
  using cleanup_loop_ok [of "[0..<key_max k]" x k cs y] assms
  by (auto simp: st_thread_cleanup_def keytab_ok_def thread_ok_def)

section \<open>Stacks\<close>

record stack =
  vaddr :: int
  vaddr_size :: int
  stk_size :: int
  stk_bottom :: int
  stk_top :: int

record stkpool =
  free_stacks :: "stack list"
  num_free_stacks :: int
  randomize :: int
  pagesize :: int

text \<open>The first free stack that is big enough.\<close>

fun find_stack :: "int \<Rightarrow> stack list \<Rightarrow> (stack \<times> stack list) option" where
  "find_stack sz [] = None"
| "find_stack sz (ts # q) =
     (if stk_size ts \<ge> sz then Some (ts, q)
      else map_option (\<lambda>(r, q'). (r, ts # q')) (find_stack sz q))"

text \<open>\<open>mem\<close> is the result of \<open>calloc\<close>, \<open>seg\<close> that of \<open>_st_new_stk_segment\<close>, \<open>rnd\<close> that of \<open>random\<close>.\<close>

definition st_stack_new :: "bool \<Rightarrow> int option \<Rightarrow> int \<Rightarrow> int \<Rightarrow> stkpool \<Rightarrow> stack option \<times> stkpool" where
  "st_stack_new mem seg rnd sz p =
     (case find_stack sz (free_stacks p) of
        Some (ts, q) \<Rightarrow> (Some ts, p\<lparr>free_stacks := q, num_free_stacks := num_free_stacks p - 1\<rparr>)
      | None \<Rightarrow>
          (if \<not> mem then (None, p)
           else case seg of
             None \<Rightarrow> (None, p)
           | Some a \<Rightarrow>
               (let extra = (if randomize p \<noteq> 0 then pagesize p else 0);
                    offset = (if extra \<noteq> 0 then (rnd mod extra) AND NOT 15 else 0);
                    bottom = a + pagesize p
                in (Some \<lparr>vaddr = a, vaddr_size = sz + 2 * pagesize p + extra, stk_size = sz,
                      stk_bottom = bottom + offset, stk_top = bottom + sz + offset\<rparr>, p))))"

text \<open>
  The link goes in front of \<open>_st_free_stacks.prev\<close>, the last stack of the list, so a freed stack
  becomes the last but one.
\<close>

definition st_stack_free :: "stack option \<Rightarrow> stkpool \<Rightarrow> stkpool" where
  "st_stack_free ts p =
     (case ts of
        None \<Rightarrow> p
      | Some s \<Rightarrow> p\<lparr>free_stacks := (case free_stacks p of
                        [] \<Rightarrow> [s] | q \<Rightarrow> butlast q @ [s, last q]),
                    num_free_stacks := num_free_stacks p + 1\<rparr>)"

definition st_randomize_stacks :: "int \<Rightarrow> stkpool \<Rightarrow> int \<times> stkpool" where
  "st_randomize_stacks on p = (randomize p, p\<lparr>randomize := on\<rparr>)"

text \<open>A new thread: the size is rounded up to pages, then the stack is carved from its top.\<close>

definition ST_DEFAULT_STACK_SIZE :: int where "ST_DEFAULT_STACK_SIZE = 64 * 1024"

definition adjust_size :: "int \<Rightarrow> int \<Rightarrow> int" where
  "adjust_size page sz =
     (let s = (if sz = 0 then ST_DEFAULT_STACK_SIZE else sz) in ((s + page - 1) div page) * page)"

record layout =
  l_ptds :: int
  l_thread :: int
  l_sp :: int

text \<open>\<open>tsize\<close> is \<open>sizeof(_st_thread_t)\<close>; the pad is \<open>MD_STACK_PAD_SIZE\<close>.\<close>

definition carve :: "int \<Rightarrow> int \<Rightarrow> stack \<Rightarrow> layout" where
  "carve tsize pad ts =
     (let ptds = stk_top ts - int ST_KEYS_MAX * 8;
          thread = ptds - tsize;
          sp = (if thread AND 63 \<noteq> 0 then thread - (thread AND 63) else thread)
      in \<lparr>l_ptds = ptds, l_thread = thread, l_sp = sp - pad\<rparr>)"

definition pool_ok :: "stkpool \<Rightarrow> bool" where
  "pool_ok p \<longleftrightarrow> num_free_stacks p = int (length (free_stacks p)) \<and> 16 \<le> pagesize p
     \<and> (\<forall>ts \<in> set (free_stacks p). stk_top ts = stk_bottom ts + stk_size ts
          \<and> vaddr ts + pagesize p \<le> stk_bottom ts
          \<and> stk_top ts + pagesize p \<le> vaddr ts + vaddr_size ts)"

definition stack_ok :: "int \<Rightarrow> stack \<Rightarrow> bool" where
  "stack_ok page ts \<longleftrightarrow> stk_top ts = stk_bottom ts + stk_size ts \<and> vaddr ts + page \<le> stk_bottom ts
     \<and> stk_top ts + page \<le> vaddr ts + vaddr_size ts"

lemma pool_ok_alt: "pool_ok p \<longleftrightarrow> num_free_stacks p = int (length (free_stacks p)) \<and> 16 \<le> pagesize p
    \<and> list_all (stack_ok (pagesize p)) (free_stacks p)"
  by (auto simp: pool_ok_def stack_ok_def list_all_iff)

lemma find_stack_ok:
  "find_stack sz q = Some (ts, q') \<Longrightarrow>
   sz \<le> stk_size ts \<and> (\<exists>l r. q = l @ ts # r \<and> q' = l @ r \<and> list_all (\<lambda>t. stk_size t < sz) l)"
proof (induction q arbitrary: q')
  case (Cons t q)
  show ?case
  proof (cases "stk_size t \<ge> sz")
    case True
    then show ?thesis using Cons.prems by (auto intro: exI [of _ "[]"])
  next
    case False
    then obtain q1 where q1: "find_stack sz q = Some (ts, q1)" "q' = t # q1" using Cons.prems by auto
    obtain l r where "q = l @ ts # r" "q1 = l @ r" "list_all (\<lambda>t. stk_size t < sz) l" "sz \<le> stk_size ts"
      using Cons.IH [OF q1(1)] by blast
    then show ?thesis using q1(2) False by (intro conjI exI [of _ "t # l"] exI [of _ r]) auto
  qed
qed simp

lemma and_not_mask: "(x :: int) AND NOT (mask n) = x - x mod 2 ^ n"
proof -
  have "x AND NOT (mask n) = push_bit n (drop_bit n x)"
    by (rule bit_eqI) (auto simp: bit_simps)
  then show ?thesis using bits_ident [of n x] by (simp add: take_bit_eq_mod)
qed

lemma mask_offset:
  assumes "0 < m"
  shows "0 \<le> (r mod m) AND NOT (15 :: int) \<and> (r mod m) AND NOT 15 \<le> r mod m"
proof -
  have "(r mod m) AND NOT 15 = (r mod m) - (r mod m) mod 16"
    using and_not_mask [of "r mod m" 4] by (simp add: mask_eq_exp_minus_1)
  moreover have "0 \<le> r mod m" "(r mod m) mod 16 \<le> r mod m"
    using assms by (auto intro: zmod_le_nonneg_dividend)
  ultimately show ?thesis by simp
qed

text \<open>
  A stack from the pool or a fresh one is at least as big as asked for and lies between its red
  zones; the pool stays consistent.
\<close>

lemma stack_new_ok:
  assumes "pool_ok p" and "st_stack_new mem seg rnd sz p = (Some ts, p')"
  shows "sz \<le> stk_size ts \<and> stack_ok (pagesize p) ts \<and> pool_ok p' \<and> pagesize p' = pagesize p"
proof (cases "find_stack sz (free_stacks p)")
  case None
  then obtain a where a: "seg = Some a" "p' = p" using assms(2)
    by (auto simp: st_stack_new_def Let_def split: if_splits option.splits)
  have "0 \<le> (rnd mod pagesize p) AND NOT 15 \<and> (rnd mod pagesize p) AND NOT 15 < pagesize p"
    using mask_offset [of "pagesize p" rnd] pos_mod_bound [of "pagesize p" rnd] assms(1)
    by (auto simp: pool_ok_def)
  then show ?thesis using None a assms
    by (auto simp: st_stack_new_def stack_ok_def Let_def split: if_splits)
next
  case (Some r)
  obtain l q where "free_stacks p = l @ ts # q" "p' = p\<lparr>free_stacks := l @ q, num_free_stacks := num_free_stacks p - 1\<rparr>"
    "sz \<le> stk_size ts"
    using Some assms(2) find_stack_ok [of sz "free_stacks p"]
    by (cases r) (auto simp: st_stack_new_def)
  then show ?thesis using assms(1) by (auto simp: pool_ok_alt list_all_iff)
qed

lemma stack_free_ok:
  assumes "pool_ok p" and "stack_ok (pagesize p) ts"
  shows "pool_ok (st_stack_free (Some ts) p)
    \<and> mset (free_stacks (st_stack_free (Some ts) p)) = add_mset ts (mset (free_stacks p))"
proof (cases "free_stacks p = []")
  case True
  then show ?thesis using assms by (simp add: st_stack_free_def pool_ok_alt)
next
  case False
  let ?q = "free_stacks p"
  have q: "?q = butlast ?q @ [last ?q]" using False by simp
  have e: "free_stacks (st_stack_free (Some ts) p) = butlast ?q @ [ts, last ?q]"
    using False by (cases ?q) (auto simp: st_stack_free_def)
  have "mset (butlast ?q @ [ts, last ?q]) = add_mset ts (mset ?q)"
    by (subst (3) q) simp
  moreover have "list_all (stack_ok (pagesize p)) (butlast ?q @ [ts, last ?q])"
    using assms False by (auto simp: pool_ok_alt list_all_iff dest: in_set_butlastD)
  ultimately show ?thesis using assms e False
    by (simp add: pool_ok_alt) (simp add: st_stack_free_def split: list.splits)
qed

lemma adjust_size_ok:
  assumes "0 < page" and "0 \<le> sz"
  shows "page dvd adjust_size page sz \<and> sz \<le> adjust_size page sz
    \<and> adjust_size page sz < (if sz = 0 then ST_DEFAULT_STACK_SIZE else sz) + page"
proof -
  define s where "s = (if sz = 0 then ST_DEFAULT_STACK_SIZE else sz)"
  define r where "r = (s + page - 1) mod page"
  have a: "adjust_size page sz = ((s + page - 1) div page) * page" by (simp add: adjust_size_def s_def Let_def)
  then have "adjust_size page sz = s + page - 1 - r" by (simp add: r_def minus_mod_eq_div_mult)
  moreover have "0 \<le> r" "r < page" using assms(1) by (simp_all add: r_def)
  moreover have "sz \<le> s" by (simp add: s_def ST_DEFAULT_STACK_SIZE_def)
  moreover have "page dvd adjust_size page sz" by (simp add: a)
  ultimately show ?thesis unfolding s_def [symmetric] by simp
qed

text \<open>The thread object, its data and the first frame do not overlap and lie within the stack.\<close>

lemma carve_ok:
  assumes "stack_ok page ts" and "0 \<le> tsize" and "0 \<le> pad" and "64 dvd pad"
    and "int ST_KEYS_MAX * 8 + tsize + 63 + pad \<le> stk_size ts"
  shows "64 dvd l_sp (carve tsize pad ts)" and "stk_bottom ts \<le> l_sp (carve tsize pad ts)"
    and "l_sp (carve tsize pad ts) + pad \<le> l_thread (carve tsize pad ts)"
    and "l_thread (carve tsize pad ts) + tsize = l_ptds (carve tsize pad ts)"
    and "l_ptds (carve tsize pad ts) + int ST_KEYS_MAX * 8 = stk_top ts"
proof -
  let ?t = "stk_top ts - int ST_KEYS_MAX * 8 - tsize"
  have m: "?t AND 63 = ?t mod 64"
    using take_bit_eq_mask [of 6 ?t] by (simp add: mask_eq_exp_minus_1 take_bit_eq_mod)
  have sp: "l_sp (carve tsize pad ts) = ?t - ?t mod 64 - pad"
    by (simp add: carve_def Let_def m)
  show "64 dvd l_sp (carve tsize pad ts)" unfolding sp using assms(4) by (simp add: dvd_minus_mod)
  have "0 \<le> ?t mod 64" "?t mod 64 < 64" by simp_all
  then show "stk_bottom ts \<le> l_sp (carve tsize pad ts)" unfolding sp
    using assms by (simp add: stack_ok_def)
  show "l_sp (carve tsize pad ts) + pad \<le> l_thread (carve tsize pad ts)"
    unfolding sp by (simp add: carve_def Let_def)
qed (simp_all add: carve_def Let_def)

text \<open>A stack from the pool is big enough, and can be given back.\<close>

lemma stack_pool_correct:
  assumes "pool_ok p" and "st_stack_new mem sg rnd sz p = (Some ts, p')"
  shows "sz \<le> stk_size ts \<and> stack_ok (pagesize p) ts \<and> pool_ok p'
    \<and> pool_ok (st_stack_free (Some ts) p')
    \<and> mset (free_stacks (st_stack_free (Some ts) p')) = add_mset ts (mset (free_stacks p'))"
  using stack_new_ok [OF assms] stack_free_ok [of p' ts] by simp

end
