(* ===== verification/Sync.thy ===== *)
theory Sync
  imports Eventsys Key_Stk
begin

text \<open>
  Blocking operations: sleeping, condition variables and mutexes of \<^verbatim>\<open>3rdpart/st-1.9/sync.c\<close>,
  \<open>st_poll\<close>, \<open>st_thread_exit\<close>, \<open>st_thread_join\<close> and the idle thread of \<^verbatim>\<open>sched.c\<close>. A call that
  switches context is two definitions: what runs before the switch and what runs when the thread is
  resumed. The outcome of the first half is a return, a switch (with the processor after the
  scheduler has chosen another thread), or \<open>Abort\<close>, a failed assertion.
\<close>

section \<open>Time\<close>

datatype outcome = Return rv vp | Block vp | Abort

definition st_utime_last_clock :: "vp \<Rightarrow> utime" where
  "st_utime_last_clock v = last_clock v"

text \<open>\<open>wall\<close> is what \<open>time(NULL)\<close> returns, \<open>now\<close> what \<open>st_utime()\<close> returns.\<close>

definition st_timecache_set :: "bool \<Rightarrow> nat \<Rightarrow> utime \<Rightarrow> vp \<Rightarrow> int \<times> vp" where
  "st_timecache_set on wall now v =
     (if curr_time v \<noteq> 0 then 1 else 0,
      if on then v\<lparr>curr_time := wall, last_tset := now\<rparr> else v\<lparr>curr_time := 0\<rparr>)"

definition st_time :: "nat \<Rightarrow> vp \<Rightarrow> nat" where
  "st_time wall v = (if curr_time v \<noteq> 0 then curr_time v else wall)"

definition st_set_utime_function :: "'f \<Rightarrow> 'f option \<Rightarrow> vp \<Rightarrow> rv \<times> 'f option" where
  "st_set_utime_function f cur v = (if active_count v \<noteq> 0 then (Fail EINVAL, cur) else (Ret 0, Some f))"

section \<open>Context switches and interrupts\<close>

definition switch_context :: "vp option \<Rightarrow> outcome" where
  "switch_context vo =
     (case vo of None \<Rightarrow> Abort
      | Some v \<Rightarrow> (case st_vp_schedule v of None \<Rightarrow> Abort | Some v' \<Rightarrow> Block v'))"

text \<open>The test at the beginning and at the end of every blocking call.\<close>

definition interrupted :: "vp \<Rightarrow> bool" where
  "interrupted v = has_flag (this_thread v) FL_INTERRUPT v"

definition ack_interrupt :: "vp \<Rightarrow> vp" where
  "ack_interrupt v = clear_flag (this_thread v) FL_INTERRUPT v"

definition opt_sleepq :: "tid \<Rightarrow> utime \<Rightarrow> vp \<Rightarrow> vp option" where
  "opt_sleepq t timeout v = (if timeout \<noteq> ST_UTIME_NO_TIMEOUT then add_sleepq t timeout v else Some v)"

section \<open>Sleeping\<close>

definition st_usleep :: "utime \<Rightarrow> vp \<Rightarrow> outcome" where
  "st_usleep usecs v =
     (let me = this_thread v
      in if interrupted v then Return (Fail EINTR) (ack_interrupt v)
         else switch_context
                (if usecs \<noteq> ST_UTIME_NO_TIMEOUT then add_sleepq me usecs (set_state me ST_SLEEPING v)
                 else Some (set_state me ST_SUSPENDED v)))"

definition st_usleep_end :: "vp \<Rightarrow> rv \<times> vp" where
  "st_usleep_end v = (if interrupted v then (Fail EINTR, ack_interrupt v) else (Ret 0, v))"

definition st_sleep :: "int \<Rightarrow> vp \<Rightarrow> outcome" where
  "st_sleep secs = st_usleep (if secs \<ge> 0 then of_int secs * 1000000 else ST_UTIME_NO_TIMEOUT)"

section \<open>Condition variables\<close>

text \<open>A new condition variable gets a number not in use, the address \<open>calloc\<close> returns.\<close>

definition st_cond_new :: "cond \<Rightarrow> vp \<Rightarrow> vp" where
  "st_cond_new c v = v\<lparr>cond_q := (cond_q v)(c \<mapsto> [])\<rparr>"

definition st_cond_destroy :: "cond \<Rightarrow> vp \<Rightarrow> (rv \<times> vp) option" where
  "st_cond_destroy c v =
     (case cond_q v c of
        None \<Rightarrow> None
      | Some q \<Rightarrow> Some (if q \<noteq> [] then (Fail EBUSY, v) else (Ret 0, v\<lparr>cond_q := (cond_q v)(c := None)\<rparr>)))"

definition st_cond_timedwait :: "cond \<Rightarrow> utime \<Rightarrow> vp \<Rightarrow> outcome" where
  "st_cond_timedwait c timeout v =
     (let me = this_thread v
      in if interrupted v then Return (Fail EINTR) (ack_interrupt v)
         else
           (let v1 = set_state me ST_COND_WAIT v
            in case cond_q v1 c of
                 None \<Rightarrow> Abort
               | Some q \<Rightarrow>
                   switch_context (opt_sleepq me timeout (v1\<lparr>cond_q := (cond_q v1)(c \<mapsto> q @ [me])\<rparr>))))"

definition st_cond_timedwait_end :: "cond \<Rightarrow> vp \<Rightarrow> rv \<times> vp" where
  "st_cond_timedwait_end c v =
     (let me = this_thread v;
          v1 = v\<lparr>cond_q := (cond_q v)(c := map_option (remove1 me) (cond_q v c))\<rparr>;
          (r2, v2) = (if has_flag me FL_TIMEDOUT v1 then (Fail ETIME, clear_flag me FL_TIMEDOUT v1)
                      else (Ret 0, v1))
      in if interrupted v2 then (Fail EINTR, ack_interrupt v2) else (r2, v2))"

definition st_cond_wait :: "cond \<Rightarrow> vp \<Rightarrow> outcome" where
  "st_cond_wait c = st_cond_timedwait c ST_UTIME_NO_TIMEOUT"

section \<open>Mutexes\<close>

definition set_mutex :: "lock \<Rightarrow> mutex \<Rightarrow> vp \<Rightarrow> vp" where
  "set_mutex l m v = v\<lparr>mutexes := (mutexes v)(l \<mapsto> m)\<rparr>"

definition st_mutex_new :: "lock \<Rightarrow> vp \<Rightarrow> vp" where
  "st_mutex_new l = set_mutex l \<lparr>owner = None, lock_q = []\<rparr>"

definition st_mutex_destroy :: "lock \<Rightarrow> vp \<Rightarrow> (rv \<times> vp) option" where
  "st_mutex_destroy l v =
     (case mutexes v l of
        None \<Rightarrow> None
      | Some m \<Rightarrow> Some (if owner m \<noteq> None \<or> lock_q m \<noteq> [] then (Fail EBUSY, v)
                       else (Ret 0, v\<lparr>mutexes := (mutexes v)(l := None)\<rparr>)))"

definition st_mutex_lock :: "lock \<Rightarrow> vp \<Rightarrow> outcome" where
  "st_mutex_lock l v =
     (let me = this_thread v
      in if interrupted v then Return (Fail EINTR) (ack_interrupt v)
         else case mutexes v l of
           None \<Rightarrow> Abort
         | Some m \<Rightarrow>
             (if owner m = None then Return (Ret 0) (set_mutex l (m\<lparr>owner := Some me\<rparr>) v)
              else if owner m = Some me then Return (Fail EDEADLK) v
              else switch_context
                     (Some (set_mutex l (m\<lparr>lock_q := lock_q m @ [me]\<rparr>) (set_state me ST_LOCK_WAIT v)))))"

definition st_mutex_lock_end :: "lock \<Rightarrow> vp \<Rightarrow> (rv \<times> vp) option" where
  "st_mutex_lock_end l v =
     (case mutexes v l of
        None \<Rightarrow> None
      | Some m \<Rightarrow>
          (let me = this_thread v; v1 = set_mutex l (m\<lparr>lock_q := remove1 me (lock_q m)\<rparr>) v
           in Some (if interrupted v1 \<and> owner m \<noteq> Some me then (Fail EINTR, ack_interrupt v1)
                    else (Ret 0, v1))))"

text \<open>The walk of \<open>st_mutex_unlock\<close>: the first thread that still waits gets the mutex.\<close>

fun first_waiter :: "tid list \<Rightarrow> vp \<Rightarrow> tid option" where
  "first_waiter [] v = None"
| "first_waiter (t # ts) v = (if state_of t v = ST_LOCK_WAIT then Some t else first_waiter ts v)"

definition st_mutex_unlock :: "lock \<Rightarrow> vp \<Rightarrow> (rv \<times> vp) option" where
  "st_mutex_unlock l v =
     (case mutexes v l of
        None \<Rightarrow> None
      | Some m \<Rightarrow>
          (if owner m \<noteq> Some (this_thread v) then Some (Fail EPERM, v)
           else case first_waiter (lock_q m) v of
             Some t \<Rightarrow> Some (Ret 0, wake t (set_mutex l (m\<lparr>owner := Some t\<rparr>) v))
           | None \<Rightarrow> Some (Ret 0, set_mutex l (m\<lparr>owner := None\<rparr>) v)))"

definition st_mutex_trylock :: "lock \<Rightarrow> vp \<Rightarrow> (rv \<times> vp) option" where
  "st_mutex_trylock l v =
     (case mutexes v l of
        None \<Rightarrow> None
      | Some m \<Rightarrow> Some (if owner m \<noteq> None then (Fail EBUSY, v)
                       else (Ret 0, set_mutex l (m\<lparr>owner := Some (this_thread v)\<rparr>) v)))"

section \<open>Waiting for I/O\<close>

text \<open>With the event system; the outcome of the first half carries its data.\<close>

definition st_poll :: "pollfd list \<Rightarrow> utime \<Rightarrow> evsys \<Rightarrow> vp \<Rightarrow> outcome \<times> evsys" where
  "st_poll ps timeout e v =
     (let me = this_thread v
      in if interrupted v then (Return (Fail EINTR) (ack_interrupt v), e)
         else case pollset_add ps e of
           None \<Rightarrow> (Abort, e)
         | Some (Fail er, e1) \<Rightarrow> (Return (Fail er) v, e1)
         | Some (Ret r, e1) \<Rightarrow>
             (let v1 = v\<lparr>pollqs := (pollqs v)(me := \<lparr>pds = ps, on_ioq = True\<rparr>), io_q := io_q v @ [me]\<rparr>
              in (switch_context (map_option (set_state me ST_IO_WAIT) (opt_sleepq me timeout v1)), e1)))"

definition st_poll_end :: "evsys \<Rightarrow> vp \<Rightarrow> (rv \<times> evsys \<times> vp) option" where
  "st_poll_end e v =
     (let me = this_thread v; pq = pollqs v me
      in case (if on_ioq pq
               then map_option (\<lambda>e1. (0, e1, v\<lparr>io_q := remove1 me (io_q v)\<rparr>)) (pollset_del (pds pq) e)
               else Some (int (length (filter fired (pds pq))), e, v)) of
           None \<Rightarrow> None
         | Some (n, e1, v1) \<Rightarrow>
             Some (if interrupted v1 then (Fail EINTR, e1, ack_interrupt v1) else (Ret n, e1, v1)))"

section \<open>The end of a thread\<close>

definition st_thread_exit :: "keytab \<Rightarrow> nat \<Rightarrow> vp \<Rightarrow> (dcalls \<times> outcome) option" where
  "st_thread_exit k val v =
     (let me = this_thread v;
          (cs, x) = st_thread_cleanup k ((thr v me)\<lparr>retval := val\<rparr>);
          v1 = v\<lparr>thr := (thr v)(me := x), active_count := active_count v - 1\<rparr>
      in case term_cv x of
           None \<Rightarrow> Some (cs, switch_context (Some (v1\<lparr>live := live v1 - {me}\<rparr>)))
         | Some c \<Rightarrow>
             (let v2 = (set_state me ST_ZOMBIE v1)\<lparr>zombie_q := zombie_q v1 @ [me]\<rparr>
              in map_option (\<lambda>v3. (cs, switch_context (Some v3))) (st_cond_signal c v2)))"

text \<open>A joined thread comes back for the rest: its condition variable and its stack are freed.\<close>

definition st_thread_exit_end :: "vp \<Rightarrow> outcome option" where
  "st_thread_exit_end v =
     (let me = this_thread v
      in case term_cv (thr v me) of
           None \<Rightarrow> None
         | Some c \<Rightarrow>
             map_option (\<lambda>(r, v1). switch_context
               (Some ((upd me (\<lambda>x. x\<lparr>term_cv := None\<rparr>) v1)\<lparr>live := live v1 - {me}\<rparr>)))
               (st_cond_destroy c v))"

definition exit_free :: "(tid \<Rightarrow> stack option) \<Rightarrow> vp \<Rightarrow> stkpool \<Rightarrow> stkpool" where
  "exit_free stk v p =
     (if has_flag (this_thread v) FL_PRIMORDIAL v then p else st_stack_free (stk (this_thread v)) p)"

definition join_finish :: "tid \<Rightarrow> vp \<Rightarrow> outcome" where
  "join_finish t v =
     Return (Ret 0) (add_runq t ((set_state t ST_RUNNABLE v)\<lparr>zombie_q := remove1 t (zombie_q v)\<rparr>))"

definition st_thread_join :: "tid \<Rightarrow> vp \<Rightarrow> outcome" where
  "st_thread_join t v =
     (case term_cv (thr v t) of
        None \<Rightarrow> Return (Fail EINVAL) v
      | Some c \<Rightarrow>
          (if this_thread v = t then Return (Fail EDEADLK) v
           else case cond_q v c of
             None \<Rightarrow> Abort
           | Some q \<Rightarrow>
               (if q \<noteq> [] then Return (Fail EINVAL) v
                else if state_of t v = ST_ZOMBIE then join_finish t v
                else st_cond_timedwait c ST_UTIME_NO_TIMEOUT v)))"

text \<open>When a wait inside \<open>st_thread_join\<close> ends.\<close>

definition st_thread_join_end :: "tid \<Rightarrow> cond \<Rightarrow> vp \<Rightarrow> outcome" where
  "st_thread_join_end t c v =
     (case st_cond_timedwait_end c v of
        (Fail e, v1) \<Rightarrow> Return (Fail e) v1
      | (Ret r, v1) \<Rightarrow>
          (if r \<noteq> 0 then Return (Ret (-1)) v1
           else if state_of t v1 = ST_ZOMBIE then join_finish t v1
           else st_cond_timedwait c ST_UTIME_NO_TIMEOUT v1))"

section \<open>The idle thread\<close>

text \<open>One round of its loop, \<open>None\<close> also when the process exits for want of threads.\<close>

definition st_idle_round :: "answer \<Rightarrow> utime \<Rightarrow> nat \<Rightarrow> evsys \<Rightarrow> vp \<Rightarrow> (evsys \<times> outcome) option" where
  "st_idle_round a now wall e v =
     (if active_count v \<le> 0 then None
      else case dispatch a e v of
        None \<Rightarrow> Some (e, Abort)
      | Some (e1, v1) \<Rightarrow>
          Some (e1, switch_context
                      (map_option (set_state (this_thread v) ST_RUNNABLE) (st_vp_check_clock now wall v1))))"

end
