(* ===== verification/Threads.thy ===== *)
theory Threads
  imports Sync
begin

text \<open>
  The library as a state machine: a processor, its event system, and for each thread the call it is
  blocked in. A step is one call of the running thread up to its return or its context switch, the
  resumption of a blocked call, or a round of the idle thread; the kernel and the clients are free.
  Threads are not joinable, as all threads of the server are.
\<close>

datatype pend = User | InSleep | InCond cond | InLock lock | InPoll

datatype call =
    CSleep utime | CCondNew cond | CCondDestroy cond | CCondWait cond utime | CSignal cond
  | CBroadcast cond | CMutexNew lock | CMutexDestroy lock | CLock lock | CUnlock lock
  | CTrylock lock | CInterrupt tid | CCreate tid | CPoll "pollfd list" utime | CExit keytab nat

definition ret :: "vp option \<Rightarrow> outcome" where
  "ret vo = (case vo of None \<Rightarrow> Abort | Some v \<Rightarrow> Return (Ret 0) v)"

definition ret_rv :: "(rv \<times> vp) option \<Rightarrow> outcome" where
  "ret_rv ro = (case ro of None \<Rightarrow> Abort | Some (r, v) \<Rightarrow> Return r v)"

fun exec :: "call \<Rightarrow> evsys \<Rightarrow> vp \<Rightarrow> outcome \<times> evsys" where
  "exec (CSleep d) e v = (st_usleep d v, e)"
| "exec (CCondNew c) e v = (Return (Ret 0) (st_cond_new c v), e)"
| "exec (CCondDestroy c) e v = (ret_rv (st_cond_destroy c v), e)"
| "exec (CCondWait c d) e v = (st_cond_timedwait c d v, e)"
| "exec (CSignal c) e v = (ret (st_cond_signal c v), e)"
| "exec (CBroadcast c) e v = (ret (st_cond_broadcast c v), e)"
| "exec (CMutexNew l) e v = (Return (Ret 0) (st_mutex_new l v), e)"
| "exec (CMutexDestroy l) e v = (ret_rv (st_mutex_destroy l v), e)"
| "exec (CLock l) e v = (st_mutex_lock l v, e)"
| "exec (CUnlock l) e v = (ret_rv (st_mutex_unlock l v), e)"
| "exec (CTrylock l) e v = (ret_rv (st_mutex_trylock l v), e)"
| "exec (CInterrupt t) e v = (ret (st_thread_interrupt t v), e)"
| "exec (CCreate t) e v = (Return (Ret 0) (st_thread_create t None v), e)"
| "exec (CPoll ps d) e v = st_poll ps d e v"
| "exec (CExit k val) e v =
     (case st_thread_exit k val v of None \<Rightarrow> (Abort, e) | Some (cs, r) \<Rightarrow> (r, e))"

fun pend_of :: "call \<Rightarrow> pend" where
  "pend_of (CSleep d) = InSleep"
| "pend_of (CCondWait c d) = InCond c"
| "pend_of (CLock l) = InLock l"
| "pend_of (CPoll ps d) = InPoll"
| "pend_of _ = User"

text \<open>
  What a client owes the library: it passes condition variables, mutexes and threads that exist, and
  the allocator hands out addresses that are not in use.
\<close>

fun permitted :: "call \<Rightarrow> vp \<Rightarrow> bool" where
  "permitted (CCondNew c) v = (cond_q v c = None)"
| "permitted (CCondDestroy c) v = (cond_q v c \<noteq> None)"
| "permitted (CCondWait c d) v = (cond_q v c \<noteq> None)"
| "permitted (CSignal c) v = (cond_q v c \<noteq> None)"
| "permitted (CBroadcast c) v = (cond_q v c \<noteq> None)"
| "permitted (CMutexNew l) v = (mutexes v l = None)"
| "permitted (CMutexDestroy l) v = (mutexes v l \<noteq> None)"
| "permitted (CLock l) v = (mutexes v l \<noteq> None)"
| "permitted (CUnlock l) v = (mutexes v l \<noteq> None)"
| "permitted (CTrylock l) v = (mutexes v l \<noteq> None)"
| "permitted (CInterrupt t) v = (t \<in> live v)"
| "permitted (CCreate t) v = (t \<notin> live v)"
| "permitted _ v = True"

fun resumed :: "pend \<Rightarrow> evsys \<Rightarrow> vp \<Rightarrow> (rv \<times> evsys \<times> vp) option" where
  "resumed User e v = None"
| "resumed InSleep e v = (case st_usleep_end v of (r, v') \<Rightarrow> Some (r, e, v'))"
| "resumed (InCond c) e v = (case st_cond_timedwait_end c v of (r, v') \<Rightarrow> Some (r, e, v'))"
| "resumed (InLock l) e v = map_option (\<lambda>(r, v'). (r, e, v')) (st_mutex_lock_end l v)"
| "resumed InPoll e v = st_poll_end e v"

record sys =
  cpu :: vp
  evs :: evsys
  pc :: "tid \<Rightarrow> pend"

definition current :: "sys \<Rightarrow> tid" where
  "current s = this_thread (cpu s)"

definition user_turn :: "sys \<Rightarrow> bool" where
  "user_turn s \<longleftrightarrow> current s \<noteq> idle_thread (cpu s)"

inductive step :: "sys \<Rightarrow> sys \<Rightarrow> bool" where
  step_return: "\<lbrakk>user_turn s; pc s (current s) = User; permitted c (cpu s);
    exec c (evs s) (cpu s) = (Return r v', e')\<rbrakk> \<Longrightarrow>
    step s (s\<lparr>cpu := v', evs := e',
      pc := (case c of CCreate t \<Rightarrow> (pc s)(t := User) | _ \<Rightarrow> pc s)\<rparr>)"
| step_block: "\<lbrakk>user_turn s; pc s (current s) = User; permitted c (cpu s);
    exec c (evs s) (cpu s) = (Block v', e')\<rbrakk> \<Longrightarrow>
    step s (s\<lparr>cpu := v', evs := e', pc := (pc s)(current s := pend_of c)\<rparr>)"
| step_resume: "\<lbrakk>user_turn s; resumed (pc s (current s)) (evs s) (cpu s) = Some (r, e', v')\<rbrakk> \<Longrightarrow>
    step s (s\<lparr>cpu := v', evs := e', pc := (pc s)(current s := User)\<rparr>)"
| step_idle: "\<lbrakk>\<not> user_turn s; answer_ok a (evs s) (cpu s);
    st_idle_round a now wall (evs s) (cpu s) = Some (e', Block v')\<rbrakk> \<Longrightarrow>
    step s (s\<lparr>cpu := v', evs := e'\<rparr>)"

inductive reachable :: "sys \<Rightarrow> sys \<Rightarrow> bool" for s0 where
  reach_start: "reachable s0 s0"
| reach_step: "reachable s0 s \<Longrightarrow> step s s' \<Longrightarrow> reachable s0 s'"

section \<open>The invariant\<close>

abbreviation runs :: "tid \<Rightarrow> vp \<Rightarrow> bool" where
  "runs t v \<equiv> state_of t v = ST_RUNNING \<or> state_of t v = ST_RUNNABLE"

text \<open>
  A blocked thread waits in the state of its call or has been woken. A thread woken in
  \<open>st_mutex_lock\<close> has been handed the mutex or has been interrupted.
\<close>

fun pc_ok :: "vp \<Rightarrow> tid \<Rightarrow> pend \<Rightarrow> bool" where
  "pc_ok v t User = runs t v"
| "pc_ok v t InSleep = (state_of t v = ST_SLEEPING \<or> state_of t v = ST_SUSPENDED \<or> runs t v)"
| "pc_ok v t (InCond c) = (state_of t v = ST_COND_WAIT \<or> runs t v)"
| "pc_ok v t (InLock l) = (state_of t v = ST_LOCK_WAIT
     \<or> runs t v \<and> (has_flag t FL_INTERRUPT v \<or> map_option owner (mutexes v l) = Some (Some t)))"
| "pc_ok v t InPoll = (state_of t v = ST_IO_WAIT \<and> on_ioq (pollqs v t) \<or> runs t v)"

definition queue_ok :: "tid set \<Rightarrow> (tid \<Rightarrow> bool) \<Rightarrow> tid list option \<Rightarrow> bool" where
  "queue_ok L P qo \<longleftrightarrow> (case qo of
      None \<Rightarrow> (\<forall>t \<in> L. \<not> P t)
    | Some q \<Rightarrow> distinct q \<and> set q = {t \<in> L. P t})"

definition pcs_ok :: "vp \<Rightarrow> (tid \<Rightarrow> pend) \<Rightarrow> bool" where
  "pcs_ok v pcs \<longleftrightarrow> (\<forall>t \<in> live v. pc_ok v t (pcs t))
     \<and> (\<forall>c. queue_ok (live v) (\<lambda>t. pcs t = InCond c) (cond_q v c))
     \<and> (\<forall>l. queue_ok (live v) (\<lambda>t. pcs t = InLock l) (map_option lock_q (mutexes v l)))
     \<and> queue_ok (live v) (\<lambda>t. pcs t = InPoll \<and> on_ioq (pollqs v t)) (Some (io_q v))
     \<and> pcs (idle_thread v) = User
     \<and> finite (live v) \<and> idle_thread v \<in> live v \<and> active_count v = int (card (live v)) - 1
     \<and> (\<forall>t \<in> live v. term_cv (thr v t) = None)"

text \<open>The idle thread runs only when no other thread can.\<close>

definition idle_ok :: "vp \<Rightarrow> bool" where
  "idle_ok v \<longleftrightarrow> (this_thread v = idle_thread v \<longrightarrow> run_q v = [])"

definition sys_inv :: "sys \<Rightarrow> bool" where
  "sys_inv s \<longleftrightarrow> wf_vp (cpu s) \<and> pcs_ok (cpu s) (pc s) \<and> idle_ok (cpu s)
     \<and> es_tracks (evs s) (mset (keys (gathered (cpu s))))"

text \<open>What a wake-up or a switch may change.\<close>

lemma pcs_ok_mono:
  assumes "pcs_ok v pcs"
    and "live v' = live v" "idle_thread v' = idle_thread v" "cond_q v' = cond_q v"
    "mutexes v' = mutexes v" "io_q v' = io_q v" "pollqs v' = pollqs v"
    "active_count v' = active_count v"
    and "\<And>t. t \<in> live v \<Longrightarrow> term_cv (thr v' t) = term_cv (thr v t)"
    and "\<And>t. t \<in> live v \<Longrightarrow> has_flag t FL_INTERRUPT v \<Longrightarrow> has_flag t FL_INTERRUPT v'"
    and "\<And>t. t \<in> live v \<Longrightarrow> state_of t v' = state_of t v \<or> runs t v'"
    and "\<And>t. t \<in> live v \<Longrightarrow> state_of t v = ST_LOCK_WAIT \<Longrightarrow> runs t v' \<Longrightarrow> has_flag t FL_INTERRUPT v'"
  shows "pcs_ok v' pcs"
proof -
  have "pc_ok v' t (pcs t)" if t: "t \<in> live v" for t
    using assms(1) t assms(5,7) assms(10-12) [OF t] unfolding pcs_ok_def
    by (cases "pcs t") fastforce+
  then show ?thesis using assms unfolding pcs_ok_def by simp
qed

lemma schedule_pcs:
  assumes "st_vp_schedule v = Some v'" and "pcs_ok v pcs"
  shows "pcs_ok v' pcs \<and> gathered v' = gathered v"
proof -
  have "\<exists>t q. v' = (set_state t ST_RUNNING (v\<lparr>run_q := q\<rparr>))\<lparr>this_thread := t\<rparr>
    \<and> state_of t v = ST_RUNNABLE"
  proof (cases "run_q v")
    case Nil
    then have "v\<lparr>run_q := []\<rparr> = v" by (cases v) simp
    moreover have "v' = (set_state (idle_thread v) ST_RUNNING v)\<lparr>this_thread := idle_thread v\<rparr>"
      "state_of (idle_thread v) v = ST_RUNNABLE"
      using assms(1) Nil by (auto simp: st_vp_schedule_def resume_def split: if_splits)
    ultimately show ?thesis by metis
  next
    case (Cons t q)
    then show ?thesis using assms(1)
      by (intro exI [of _ t] exI [of _ q]) (auto simp: st_vp_schedule_def resume_def split: if_splits)
  qed
  then obtain t q where "v' = (set_state t ST_RUNNING (v\<lparr>run_q := q\<rparr>))\<lparr>this_thread := t\<rparr>"
    "state_of t v = ST_RUNNABLE" by blast
  then show ?thesis
    by (intro conjI pcs_ok_mono [OF assms(2)]) (auto simp: thread_ops gathered_def)
qed

lemma switch_inv:
  assumes "wf_queues v" and "\<forall>t \<in> live v. state_of t v \<noteq> ST_RUNNING" and "pcs_ok v pcs"
    and "es_tracks e (mset (keys (gathered v)))"
  shows "\<exists>v'. switch_context (Some v) = Block v' \<and> sys_inv \<lparr>cpu = v', evs = e, pc = pcs\<rparr>"
proof -
  obtain v' where v': "st_vp_schedule v = Some v'" "wf_vp v'"
    "this_thread v' = (case run_q v of [] \<Rightarrow> idle_thread v | t # q \<Rightarrow> t)" "run_q v' = tl (run_q v)"
    using schedule_ok [OF assms(1,2)] by blast
  have "idle_thread v' = idle_thread v"
    using v'(1) by (auto simp: st_vp_schedule_def resume_def set_state_def split: list.splits if_splits)
  then have "idle_ok v'" using v'(3,4) wf_queuesD(5) [OF assms(1), of "hd (run_q v)"]
    by (auto simp: idle_ok_def split: list.splits)
  then show ?thesis using schedule_pcs [of v v' pcs] v' assms(3,4)
    by (auto simp: switch_context_def sys_inv_def)
qed

lemma opt_sleepq_ok:
  assumes "wf_queues v" and "t \<in> live v" and "\<not> has_flag t FL_ON_SLEEPQ v" and "state_of t v \<in> waiting"
  shows "\<exists>q F. opt_sleepq t d v = Some (upd t (\<lambda>x. x\<lparr>flags := F\<rparr>) (v\<lparr>sleepq := q\<rparr>))
    \<and> wf_queues (upd t (\<lambda>x. x\<lparr>flags := F\<rparr>) (v\<lparr>sleepq := q\<rparr>))
    \<and> F - {FL_ON_SLEEPQ} = flags (thr v t) - {FL_ON_SLEEPQ}"
proof (cases "d = ST_UTIME_NO_TIMEOUT")
  case True
  have "upd t (\<lambda>x. x\<lparr>flags := flags (thr v t)\<rparr>) (v\<lparr>sleepq := sleepq v\<rparr>) = v"
    by (cases v, cases "thr v t") (auto simp: upd_def fun_upd_idem_iff)
  then show ?thesis using True assms(1)
    by (intro exI [of _ "sleepq v"] exI [of _ "flags (thr v t)"]) (simp add: opt_sleepq_def)
next
  case False
  obtain q where q: "add_sleepq t d v = Some (set_flag t FL_ON_SLEEPQ (v\<lparr>sleepq := q\<rparr>))"
    "wf_queues (set_flag t FL_ON_SLEEPQ (v\<lparr>sleepq := q\<rparr>))"
    using add_sleepq_ok [OF assms] by blast
  have "set_flag t FL_ON_SLEEPQ (v\<lparr>sleepq := q\<rparr>)
    = upd t (\<lambda>x. x\<lparr>flags := insert FL_ON_SLEEPQ (flags (thr v t))\<rparr>) (v\<lparr>sleepq := q\<rparr>)"
    by (simp add: set_flag_def upd_def)
  then show ?thesis using q False
    by (intro exI [of _ q] exI [of _ "insert FL_ON_SLEEPQ (flags (thr v t))"]) (simp add: opt_sleepq_def)
qed

text \<open>The running thread of a state with the invariant.\<close>

lemma running_thread:
  assumes "sys_inv s" and "user_turn s"
  shows "current s \<in> live (cpu s)" and "state_of (current s) (cpu s) = ST_RUNNING"
    and "\<not> has_flag (current s) FL_ON_SLEEPQ (cpu s)" and "current s \<noteq> idle_thread (cpu s)"
    and "\<And>t. t \<in> live (cpu s) \<Longrightarrow> t \<noteq> current s \<Longrightarrow> state_of t (cpu s) \<noteq> ST_RUNNING"
    and "wf_queues (cpu s)"
proof -
  show l: "current s \<in> live (cpu s)" and r: "state_of (current s) (cpu s) = ST_RUNNING"
    and w: "wf_queues (cpu s)"
    using assms(1) by (auto simp: sys_inv_def wf_vp_def current_def)
  show "\<not> has_flag (current s) FL_ON_SLEEPQ (cpu s)"
    using wf_queuesD(3) [OF w l] r by (auto simp: waiting_def)
  show "current s \<noteq> idle_thread (cpu s)" using assms(2) by (simp add: user_turn_def)
  show "\<And>t. t \<in> live (cpu s) \<Longrightarrow> t \<noteq> current s \<Longrightarrow> state_of t (cpu s) \<noteq> ST_RUNNING"
    using assms(1) by (auto simp: sys_inv_def wf_vp_def current_def)
qed

text \<open>
  Parking the running thread: its state changes, it may go on the sleep queue, and the queue of
  what it waits for changes (\<open>g\<close>), so that the program counters stay right.
\<close>

lemma park_inv:
  assumes "sys_inv s" and "user_turn s" and "st \<notin> {ST_RUNNING, ST_RUNNABLE, ST_ZOMBIE}"
    and "d \<noteq> ST_UTIME_NO_TIMEOUT \<longrightarrow> st \<in> waiting"
    and w: "v1 = set_state (current s) st (cpu s)\<lparr>cond_q := cq, mutexes := mx, io_q := iq, pollqs := pq\<rparr>"
    and p: "pcs_ok v1 pcs" and e: "es_tracks e (mset (keys (gathered v1)))"
  shows "\<exists>v'. switch_context (opt_sleepq (current s) d v1) = Block v'
    \<and> sys_inv \<lparr>cpu = v', evs = e, pc = pcs\<rparr>"
proof -
  note r = running_thread [OF assms(1,2)]
  let ?t = "current s"
  have q1: "wf_queues (set_state ?t st (cpu s))" by (rule wf_park) (use r assms(3) in auto)
  then have q: "wf_queues v1" unfolding w wf_queues_def by (simp add: has_flag_def)
  have n: "\<forall>t \<in> live v1. state_of t v1 \<noteq> ST_RUNNING"
    using r(5) assms(3) by (auto simp: w set_state_def)
  show ?thesis
  proof (cases "d = ST_UTIME_NO_TIMEOUT")
    case True
    then show ?thesis using switch_inv [OF q n p e] by (simp add: opt_sleepq_def)
  next
    case False
    have t: "?t \<in> live v1" "\<not> has_flag ?t FL_ON_SLEEPQ v1" "state_of ?t v1 \<in> waiting"
      using r False assms(4) by (auto simp: w thread_ops)
    obtain q' F where o: "opt_sleepq ?t d v1 = Some (upd ?t (\<lambda>x. x\<lparr>flags := F\<rparr>) (v1\<lparr>sleepq := q'\<rparr>))"
      "wf_queues (upd ?t (\<lambda>x. x\<lparr>flags := F\<rparr>) (v1\<lparr>sleepq := q'\<rparr>))"
      "F - {FL_ON_SLEEPQ} = flags (thr v1 ?t) - {FL_ON_SLEEPQ}"
      using opt_sleepq_ok [OF q t] by blast
    have f: "FL_INTERRUPT \<in> F \<longleftrightarrow> FL_INTERRUPT \<in> flags (thr v1 ?t)" using o(3) by auto
    let ?v = "upd ?t (\<lambda>x. x\<lparr>flags := F\<rparr>) (v1\<lparr>sleepq := q'\<rparr>)"
    have "pcs_ok ?v pcs" using f n by (intro pcs_ok_mono [OF p]) (auto simp: has_flag_def split: if_splits)
    moreover have "gathered ?v = gathered v1" by (simp add: gathered_def)
    ultimately show ?thesis using switch_inv [OF o(2), of pcs e] n e o(1) by simp
  qed
qed

section \<open>Every call keeps the invariant\<close>

text \<open>The state after a call that returns, and after one that blocks; an assertion never fails.\<close>

definition after_call :: "call \<Rightarrow> sys \<Rightarrow> bool" where
  "after_call c s \<longleftrightarrow> (case exec c (evs s) (cpu s) of
      (Return r v', e') \<Rightarrow> sys_inv \<lparr>cpu = v', evs = e',
        pc = (case c of CCreate t \<Rightarrow> (pc s)(t := User) | _ \<Rightarrow> pc s)\<rparr>
    | (Block v', e') \<Rightarrow> sys_inv \<lparr>cpu = v', evs = e', pc = (pc s)(current s := pend_of c)\<rparr>
    | (Abort, e') \<Rightarrow> False)"

lemma pcs_okD:
  assumes "pcs_ok v pcs"
  shows "t \<in> live v \<Longrightarrow> pc_ok v t (pcs t)"
    and "queue_ok (live v) (\<lambda>t. pcs t = InCond c) (cond_q v c)"
    and "queue_ok (live v) (\<lambda>t. pcs t = InLock l) (map_option lock_q (mutexes v l))"
    and "queue_ok (live v) (\<lambda>t. pcs t = InPoll \<and> on_ioq (pollqs v t)) (Some (io_q v))"
    and "pcs (idle_thread v) = User" and "finite (live v)" and "idle_thread v \<in> live v"
    and "active_count v = int (card (live v)) - 1" and "t \<in> live v \<Longrightarrow> term_cv (thr v t) = None"
  using assms unfolding pcs_ok_def by blast+

lemma sys_invD:
  assumes "sys_inv s"
  shows "wf_vp (cpu s)" and "pcs_ok (cpu s) (pc s)" and "es_tracks (evs s) (mset (keys (gathered (cpu s))))"
    and "idle_ok (cpu s)"
  using assms by (simp_all add: sys_inv_def)

text \<open>Clearing a flag of the running thread once it is not blocked any more.\<close>

lemma ack_pcs:
  assumes "pcs_ok v pcs" and "pcs t = User"
  shows "pcs_ok (clear_flag t fl v) pcs"
proof -
  have "pc_ok (clear_flag t fl v) u (pcs u)" if "u \<in> live v" for u
    using pcs_okD(1) [OF assms(1) that] assms(2)
    by (cases "u = t"; cases "pcs u") (auto simp: clear_flag_def has_flag_def)
  then show ?thesis using assms(1) unfolding pcs_ok_def by (simp add: clear_flag_def)
qed

lemma ack_wf: "wf_vp v \<Longrightarrow> fl \<noteq> FL_ON_SLEEPQ \<Longrightarrow> fl \<noteq> FL_IDLE_THREAD \<Longrightarrow> wf_vp (clear_flag t fl v)"
  using wf_flag(2) [of v fl t] by (simp add: wf_vp_def clear_flag_def)

lemma gathered_clear [simp]: "gathered (clear_flag t fl v) = gathered v"
  by (simp add: gathered_def clear_flag_def)

lemma ack_inv:
  assumes "wf_vp v" and "pcs_ok v pcs" and "es_tracks e (mset (keys (gathered v)))"
    and "pcs (this_thread v) = User" and "idle_ok v"
  shows "sys_inv \<lparr>cpu = ack_interrupt v, evs = e, pc = pcs\<rparr>"
  using ack_pcs [OF assms(2,4)] ack_wf [OF assms(1)] assms(3,5)
  by (simp add: sys_inv_def ack_interrupt_def idle_ok_def clear_flag_def gathered_def)

lemma clear_inv:
  assumes "sys_inv s" and "pc s (current s) = User"
  shows "sys_inv \<lparr>cpu = ack_interrupt (cpu s), evs = evs s, pc = pc s\<rparr>"
  using ack_inv sys_invD [OF assms(1)] assms(2) by (simp add: current_def)

text \<open>The program counters when the running thread parks.\<close>

lemma park_pcs:
  assumes "pcs_ok v pcs" and "pcs t = User" and "t \<in> live v" and "t \<noteq> idle_thread v"
    and v1: "v1 = set_state t st v\<lparr>cond_q := cq, mutexes := mx, io_q := iq, pollqs := pq\<rparr>"
    and "pc_ok v1 t p"
    and "\<And>l. map_option owner (mx l) = map_option owner (mutexes v l)"
    and "\<And>u. u \<noteq> t \<Longrightarrow> pq u = pollqs v u"
    and "\<And>c. queue_ok (live v) (\<lambda>u. (pcs(t := p)) u = InCond c) (cq c)"
    and "\<And>l. queue_ok (live v) (\<lambda>u. (pcs(t := p)) u = InLock l) (map_option lock_q (mx l))"
    and "queue_ok (live v) (\<lambda>u. (pcs(t := p)) u = InPoll \<and> on_ioq (pq u)) (Some iq)"
  shows "pcs_ok v1 (pcs(t := p))"
proof -
  have "pc_ok v1 u ((pcs(t := p)) u)" if u: "u \<in> live v" for u
  proof (cases "u = t")
    case False
    then show ?thesis using pcs_okD(1) [OF assms(1) u] assms(7,8)
      by (cases "pcs u") (auto simp: v1 set_state_def has_flag_def)
  qed (use assms(6) in simp)
  then show ?thesis using assms(4,9-11) pcs_okD(5-9) [OF assms(1)]
    unfolding pcs_ok_def by (simp add: v1 set_state_def)
qed

lemma queue_keep:
  assumes "queue_ok L (\<lambda>u. pcs u = x) q" and "pcs t = User" and "p \<noteq> x" and "x \<noteq> User"
  shows "queue_ok L (\<lambda>u. (pcs(t := p)) u = x) q"
proof -
  have "((pcs(t := p)) u = x) = (pcs u = x)" for u using assms(2-4) by auto
  then show ?thesis using assms(1) by (simp add: fun_eq_iff)
qed

lemma queue_append:
  assumes "queue_ok L (\<lambda>u. pcs u = x) (Some q)" and "pcs t = User" and "t \<in> L" and "x \<noteq> User"
  shows "queue_ok L (\<lambda>u. (pcs(t := x)) u = x) (Some (q @ [t]))"
  using assms by (auto simp: queue_ok_def)

lemma vp_same [simp]:
  "v\<lparr>cond_q := cond_q v, mutexes := mutexes v, io_q := io_q v, pollqs := pollqs v\<rparr> = (v :: vp)"
  by simp

lemma set_state_same:
  "set_state t st v\<lparr>cond_q := cond_q v, mutexes := mutexes v, io_q := io_q v, pollqs := pollqs v\<rparr>
     = set_state t st v"
  "set_state t st v\<lparr>cond_q := cq, mutexes := mutexes v, io_q := io_q v, pollqs := pollqs v\<rparr>
     = (set_state t st v)\<lparr>cond_q := cq\<rparr>"
  "set_state t st v\<lparr>cond_q := cond_q v, mutexes := mx, io_q := io_q v, pollqs := pollqs v\<rparr>
     = (set_state t st v)\<lparr>mutexes := mx\<rparr>"
  "set_state t st v\<lparr>cond_q := cond_q v, mutexes := mutexes v, io_q := iq, pollqs := pq\<rparr>
     = set_state t st (v\<lparr>pollqs := pq, io_q := iq\<rparr>)"
  by (cases v, simp add: set_state_def upd_def)+

lemma gathered_set_state [simp]: "gathered (set_state t st v) = gathered v"
  by (simp add: gathered_def set_state_def)

lemma gathered_upd [simp]:
  "gathered (v\<lparr>cond_q := cq\<rparr>) = gathered v" "gathered (v\<lparr>mutexes := mx\<rparr>) = gathered v"
  by (simp_all add: gathered_def)

lemma keep_queues:
  assumes "pcs_ok v pcs" and "pcs t = User"
  shows "p \<noteq> InCond c \<Longrightarrow> queue_ok (live v) (\<lambda>u. (pcs(t := p)) u = InCond c) (cond_q v c)"
    and "p \<noteq> InLock l \<Longrightarrow> queue_ok (live v) (\<lambda>u. (pcs(t := p)) u = InLock l) (map_option lock_q (mutexes v l))"
    and "p \<noteq> InPoll \<Longrightarrow> queue_ok (live v) (\<lambda>u. (pcs(t := p)) u = InPoll \<and> on_ioq (pollqs v u)) (Some (io_q v))"
proof -
  have "((pcs(t := p)) u = InPoll \<and> on_ioq (pollqs v u)) = (pcs u = InPoll \<and> on_ioq (pollqs v u))"
    if "p \<noteq> InPoll" for u using assms(2) that by auto
  then show "p \<noteq> InPoll \<Longrightarrow> queue_ok (live v) (\<lambda>u. (pcs(t := p)) u = InPoll \<and> on_ioq (pollqs v u)) (Some (io_q v))"
    using pcs_okD(4) [OF assms(1)] by (simp add: fun_eq_iff)
  show "p \<noteq> InCond c \<Longrightarrow> queue_ok (live v) (\<lambda>u. (pcs(t := p)) u = InCond c) (cond_q v c)"
    by (rule queue_keep [OF pcs_okD(2) [OF assms(1)] assms(2)]) simp_all
  show "p \<noteq> InLock l \<Longrightarrow> queue_ok (live v) (\<lambda>u. (pcs(t := p)) u = InLock l) (map_option lock_q (mutexes v l))"
    by (rule queue_keep [OF pcs_okD(3) [OF assms(1)] assms(2)]) simp_all
qed

lemma sys_inv_parts [simp]: "sys_inv \<lparr>cpu = cpu s, evs = evs s, pc = pc s\<rparr> = sys_inv s"
  by (simp add: sys_inv_def)

text \<open>
  A mutex changes hands: no thread woken in \<open>st_mutex_lock\<close> may count on the old owner, unless it
  is the new one.
\<close>

lemma owner_pcs:
  assumes "pcs_ok v pcs" and "mutexes v l = Some m"
    and "\<And>t. owner m = Some t \<Longrightarrow> t \<in> live v \<Longrightarrow> pcs t = InLock l \<Longrightarrow> state_of t v \<noteq> ST_LOCK_WAIT \<Longrightarrow> o' = Some t"
  shows "pcs_ok (set_mutex l (m\<lparr>owner := o'\<rparr>) v) pcs"
proof -
  let ?v = "set_mutex l (m\<lparr>owner := o'\<rparr>) v"
  have "pc_ok ?v t (pcs t)" if t: "t \<in> live v" for t
    using pcs_okD(1) [OF assms(1) t] assms(2) assms(3) [OF _ t]
    by (cases "pcs t") (auto simp: set_mutex_def has_flag_def)
  moreover have "map_option lock_q (mutexes ?v k) = map_option lock_q (mutexes v k)" for k
    using assms(2) by (simp add: set_mutex_def)
  ultimately show ?thesis using assms(1) unfolding pcs_ok_def by (simp add: set_mutex_def)
qed

lemma wf_set_mutex [simp]: "wf_vp (set_mutex l m v) = wf_vp v"
  by (simp add: wf_vp_def wf_queues_def has_flag_def set_mutex_def)

lemma idle_ok_mutex [simp]: "idle_ok (set_mutex l m v) = idle_ok v"
  by (simp add: idle_ok_def set_mutex_def)

lemma gathered_mutex [simp]: "gathered (set_mutex l m v) = gathered v"
  by (simp add: gathered_def set_mutex_def)

lemma owner_inv:
  assumes "sys_inv s" and "mutexes (cpu s) l = Some m"
    and "\<And>t. owner m = Some t \<Longrightarrow> pc s t \<noteq> InLock l"
  shows "sys_inv \<lparr>cpu = set_mutex l (m\<lparr>owner := o'\<rparr>) (cpu s), evs = evs s, pc = pc s\<rparr>"
  using owner_pcs [OF _ assms(2), of "pc s" o'] sys_invD [OF assms(1)] assms(3)
  by (auto simp: sys_inv_def)

lemma sleep_ok:
  assumes "sys_inv s" and "user_turn s" and "pc s (current s) = User"
  shows "after_call (CSleep d) s"
proof (cases "interrupted (cpu s)")
  case True
  then show ?thesis using clear_inv [OF assms(1,3)] by (simp add: after_call_def st_usleep_def Let_def)
next
  case False
  note i = sys_invD [OF assms(1)] and r = running_thread [OF assms(1,2)]
  let ?me = "current s" and ?v = "cpu s"
  let ?st = "if d \<noteq> ST_UTIME_NO_TIMEOUT then ST_SLEEPING else ST_SUSPENDED"
  have st: "?st \<notin> {ST_RUNNING, ST_RUNNABLE, ST_ZOMBIE}" "d \<noteq> ST_UTIME_NO_TIMEOUT \<longrightarrow> ?st \<in> waiting"
    by (simp_all add: waiting_def)
  have p: "pcs_ok (set_state ?me ?st ?v) ((pc s)(?me := InSleep))"
    by (rule park_pcs [OF i(2) assms(3) r(1,4) set_state_same(1) [symmetric]])
       (rule keep_queues [OF i(2) assms(3)] | simp add: set_state_def)+
  obtain v' where "switch_context (opt_sleepq ?me d (set_state ?me ?st ?v)) = Block v'"
    "sys_inv \<lparr>cpu = v', evs = evs s, pc = (pc s)(?me := InSleep)\<rparr>"
    using park_inv [OF assms(1,2) st set_state_same(1) [symmetric] p, of "evs s"] i(3) by auto
  then show ?thesis using False
    by (auto simp: after_call_def st_usleep_def Let_def opt_sleepq_def current_def split: if_splits)
qed

lemma cond_wait_ok:
  assumes "sys_inv s" and "user_turn s" and "pc s (current s) = User" and "permitted (CCondWait c d) (cpu s)"
  shows "after_call (CCondWait c d) s"
proof (cases "interrupted (cpu s)")
  case True
  then show ?thesis using clear_inv [OF assms(1,3)] by (simp add: after_call_def st_cond_timedwait_def Let_def)
next
  case False
  note i = sys_invD [OF assms(1)] and r = running_thread [OF assms(1,2)]
  let ?me = "current s" and ?v = "cpu s"
  obtain q where q: "cond_q ?v c = Some q" using assms(4) by auto
  let ?cq = "(cond_q ?v)(c \<mapsto> q @ [?me])"
  let ?v1 = "(set_state ?me ST_COND_WAIT ?v)\<lparr>cond_q := ?cq\<rparr>"
  have p: "pcs_ok ?v1 ((pc s)(?me := InCond c))"
  proof (rule park_pcs [OF i(2) assms(3) r(1,4) set_state_same(2) [symmetric]])
    fix k
    show "queue_ok (live ?v) (\<lambda>u. ((pc s)(?me := InCond c)) u = InCond k) (?cq k)"
      using queue_append [of "live ?v" "pc s" "InCond c" q ?me] pcs_okD(2) [OF i(2), of c] q assms(3) r(1)
        queue_keep [OF pcs_okD(2) [OF i(2), of k] assms(3), of "InCond c"] by (cases "k = c") simp_all
  qed (rule keep_queues [OF i(2) assms(3)] | simp add: set_state_def)+
  obtain v' where "switch_context (opt_sleepq ?me d ?v1) = Block v'"
    "sys_inv \<lparr>cpu = v', evs = evs s, pc = (pc s)(?me := InCond c)\<rparr>"
    using park_inv [OF assms(1,2) _ _ set_state_same(2) [symmetric] p, of d "evs s"] i(3)
    by (auto simp: waiting_def)
  then show ?thesis using False q
    by (simp add: after_call_def st_cond_timedwait_def Let_def current_def set_state_def)
qed

lemma lock_ok:
  assumes "sys_inv s" and "user_turn s" and "pc s (current s) = User" and "permitted (CLock l) (cpu s)"
  shows "after_call (CLock l) s"
proof -
  note i = sys_invD [OF assms(1)] and r = running_thread [OF assms(1,2)]
  let ?me = "current s" and ?v = "cpu s"
  obtain m where m: "mutexes ?v l = Some m" using assms(4) by auto
  consider "interrupted ?v" | "\<not> interrupted ?v" "owner m = None" | "\<not> interrupted ?v" "owner m = Some ?me"
    | "\<not> interrupted ?v" "owner m \<noteq> None" "owner m \<noteq> Some ?me" by blast
  then show ?thesis
  proof cases
    case 1
    then show ?thesis using clear_inv [OF assms(1,3)] by (simp add: after_call_def st_mutex_lock_def Let_def)
  next
    case 2
    have "sys_inv \<lparr>cpu = set_mutex l (m\<lparr>owner := Some ?me\<rparr>) ?v, evs = evs s, pc = pc s\<rparr>"
      using owner_inv [OF assms(1) m, of "Some ?me"] 2 by simp
    then show ?thesis using 2 m by (simp add: after_call_def st_mutex_lock_def Let_def current_def)
  next
    case 3
    then show ?thesis using assms(1) m
      by (simp add: after_call_def st_mutex_lock_def Let_def current_def)
  next
    case 4
    let ?mx = "(mutexes ?v)(l \<mapsto> m\<lparr>lock_q := lock_q m @ [?me]\<rparr>)"
    let ?v1 = "(set_state ?me ST_LOCK_WAIT ?v)\<lparr>mutexes := ?mx\<rparr>"
    have p: "pcs_ok ?v1 ((pc s)(?me := InLock l))"
    proof (rule park_pcs [OF i(2) assms(3) r(1,4) set_state_same(3) [symmetric]])
      fix k
      show "queue_ok (live ?v) (\<lambda>u. ((pc s)(?me := InLock l)) u = InLock k) (map_option lock_q (?mx k))"
        using queue_append [of "live ?v" "pc s" "InLock l" "lock_q m" ?me] pcs_okD(3) [OF i(2), of l] m assms(3)
          r(1) queue_keep [OF pcs_okD(3) [OF i(2), of k] assms(3), of "InLock l"] by (cases "k = l") simp_all
    qed (rule keep_queues [OF i(2) assms(3)] | simp add: set_state_def m)+
    obtain v' where "switch_context (Some ?v1) = Block v'"
      "sys_inv \<lparr>cpu = v', evs = evs s, pc = (pc s)(?me := InLock l)\<rparr>"
      using park_inv [OF assms(1,2) _ _ set_state_same(3) [symmetric] p, of ST_UTIME_NO_TIMEOUT "evs s"] i(3)
      by (auto simp: opt_sleepq_def)
    moreover obtain y where "owner m = Some y" using 4(2) by auto
    ultimately show ?thesis using 4 m
      by (simp add: after_call_def st_mutex_lock_def Let_def current_def set_mutex_def set_state_def)
  qed
qed

text \<open>Waiting for I/O.\<close>

lemma upd_upd: "upd t f (upd t g v) = upd t (\<lambda>x. f (g x)) v"
  by (simp add: upd_def)

lemma set_state_flag: "set_state t st (set_flag t fl (v\<lparr>sleepq := q\<rparr>)) = set_flag t fl ((set_state t st v)\<lparr>sleepq := q\<rparr>)"
proof -
  have "(\<lambda>x. (x :: thread)\<lparr>flags := insert fl (flags x), state := st\<rparr>)
    = (\<lambda>x. x\<lparr>state := st, flags := insert fl (flags x)\<rparr>)"
  proof
    fix x :: thread
    show "x\<lparr>flags := insert fl (flags x), state := st\<rparr> = x\<lparr>state := st, flags := insert fl (flags x)\<rparr>"
      by (cases x) simp
  qed
  moreover have "(set_state t st v)\<lparr>sleepq := q\<rparr> = set_state t st (v\<lparr>sleepq := q\<rparr>)"
    by (simp add: set_state_def upd_def)
  ultimately show ?thesis by (simp add: set_state_def set_flag_def upd_upd)
qed

lemma state_opt_sleepq: "map_option (set_state t st) (opt_sleepq t d v) = opt_sleepq t d (set_state t st v)"
proof -
  have "last_clock (set_state t st v) = last_clock v" "sleepq (set_state t st v) = sleepq v"
    by (simp_all add: set_state_def)
  then show ?thesis
    by (simp add: opt_sleepq_def add_sleepq_def option.map_comp comp_def set_state_flag)
qed

lemma poll_ok:
  assumes "sys_inv s" and "user_turn s" and "pc s (current s) = User"
  shows "after_call (CPoll ps d) s"
proof (cases "interrupted (cpu s)")
  case True
  then show ?thesis using clear_inv [OF assms(1,3)] by (simp add: after_call_def st_poll_def Let_def)
next
  case False
  note i = sys_invD [OF assms(1)] and r = running_thread [OF assms(1,2)]
  let ?me = "current s" and ?v = "cpu s"
  obtain rr e1 where a: "pollset_add ps (evs s) = Some (rr, e1)"
    "es_tracks e1 (case rr of Ret x \<Rightarrow> mset (keys (gathered ?v)) + mset (keys ps)
       | Fail er \<Rightarrow> mset (keys (gathered ?v)))"
    using es.add_ok [OF i(3), of ps] by blast
  show ?thesis
  proof (cases rr)
    case (Fail er)
    then show ?thesis using a i False by (simp add: after_call_def st_poll_def Let_def sys_inv_def)
  next
    case (Ret x)
    let ?pq = "(pollqs ?v)(?me := \<lparr>pds = ps, on_ioq = True\<rparr>)"
    let ?v1 = "set_state ?me ST_IO_WAIT (?v\<lparr>pollqs := ?pq, io_q := io_q ?v @ [?me]\<rparr>)"
    have nq: "?me \<notin> set (io_q ?v)" using pcs_okD(4) [OF i(2)] assms(3) by (auto simp: queue_ok_def)
    have p: "pcs_ok ?v1 ((pc s)(?me := InPoll))"
    proof (rule park_pcs [OF i(2) assms(3) r(1,4) set_state_same(4) [symmetric]])
      show "queue_ok (live ?v) (\<lambda>u. ((pc s)(?me := InPoll)) u = InPoll \<and> on_ioq (?pq u))
          (Some (io_q ?v @ [?me]))"
        using pcs_okD(4) [OF i(2)] nq r(1) assms(3) by (auto simp: queue_ok_def)
    qed (rule keep_queues [OF i(2) assms(3)] | simp add: set_state_def)+
    have "map (\<lambda>t. pds (?pq t)) (io_q ?v) = map (\<lambda>t. pds (pollqs ?v t)) (io_q ?v)"
      using nq by (intro map_cong) auto
    from arg_cong [OF this, of concat] have "gathered ?v1 = gathered ?v @ pds (?pq ?me)"
      unfolding gathered_def by (simp only: set_state_def upd_simps vp.simps map_append concat_append) simp
    then have "gathered ?v1 = gathered ?v @ ps" by simp
    then have g: "es_tracks e1 (mset (keys (gathered ?v1)))" using a(2) Ret by (simp add: keys_def)
    obtain v' where "switch_context (opt_sleepq ?me d ?v1) = Block v'"
      "sys_inv \<lparr>cpu = v', evs = e1, pc = (pc s)(?me := InPoll)\<rparr>"
      using park_inv [OF assms(1,2) _ _ set_state_same(4) [symmetric] p g, of d] by (auto simp: waiting_def)
    then show ?thesis using False a Ret
      by (simp add: after_call_def st_poll_def Let_def current_def state_opt_sleepq)
  qed
qed

text \<open>Waking a thread.\<close>

lemma wake_pcs:
  assumes "unsleep t v = Some v1" and "pcs_ok v pcs"
    and "state_of t v = ST_LOCK_WAIT \<Longrightarrow> has_flag t FL_INTERRUPT v"
  shows "pcs_ok (wake t v1) pcs" and "gathered (wake t v1) = gathered v" and "live (wake t v1) = live v"
    and "this_thread (wake t v1) = this_thread v" and "idle_thread (wake t v1) = idle_thread v"
    and "cond_q (wake t v1) = cond_q v"
proof -
  obtain q F where v1: "wake t v1 = (upd t (\<lambda>x. x\<lparr>state := ST_RUNNABLE, flags := F\<rparr>)
      (v\<lparr>sleepq := q, run_q := run_q v @ [t]\<rparr>))" "F \<supseteq> flags (thr v t) - {FL_ON_SLEEPQ}"
  proof (cases "has_flag t FL_ON_SLEEPQ v")
    case True
    then obtain q where "v1 = clear_flag t FL_ON_SLEEPQ (v\<lparr>sleepq := q\<rparr>)"
      using assms(1) by (auto simp: unsleep_def del_sleepq_def)
    then have "wake t v1 = (upd t (\<lambda>x. x\<lparr>state := ST_RUNNABLE, flags := flags (thr v t) - {FL_ON_SLEEPQ}\<rparr>)
      (v\<lparr>sleepq := q, run_q := run_q v @ [t]\<rparr>))" by (cases v) (auto simp: thread_ops upd_def)
    then show ?thesis using that by blast
  next
    case False
    then have "wake t v1 = (upd t (\<lambda>x. x\<lparr>state := ST_RUNNABLE, flags := flags (thr v t)\<rparr>)
      (v\<lparr>sleepq := sleepq v, run_q := run_q v @ [t]\<rparr>))"
      using assms(1) by (cases v) (auto simp: unsleep_def thread_ops upd_def)
    then show ?thesis using that by blast
  qed
  show "pcs_ok (wake t v1) pcs"
    using v1 assms(3) by (intro pcs_ok_mono [OF assms(2)]) (auto simp: has_flag_def)
qed (use assms(1) in \<open>auto simp: unsleep_def del_sleepq_def thread_ops gathered_def split: if_splits\<close>)

lemma signal_walk_pcs:
  "cond_signal_walk b ts v = Some v' \<Longrightarrow> pcs_ok v pcs \<Longrightarrow>
   pcs_ok v' pcs \<and> gathered v' = gathered v \<and> this_thread v' = this_thread v \<and> idle_thread v' = idle_thread v"
proof (induction ts arbitrary: v)
  case (Cons t ts)
  show ?case
  proof (cases "state_of t v = ST_COND_WAIT")
    case True
    then obtain v1 where v1: "unsleep t v = Some v1"
      "(if b then cond_signal_walk b ts (wake t v1) else Some (wake t v1)) = Some v'"
      using Cons.prems(1) by (auto simp: bind_eq_Some_conv)
    note w = wake_pcs [OF v1(1) Cons.prems(2)]
    show ?thesis using Cons.IH [of "wake t v1"] w True v1(2) by (auto split: if_splits)
  next
    case False
    then show ?thesis using Cons by simp
  qed
qed simp

lemma signal_ok:
  assumes "sys_inv s" and "user_turn s" and "permitted (CSignal c) (cpu s)"
  shows "\<exists>v'. st_cond_signal' c b (cpu s) = Some v' \<and> sys_inv \<lparr>cpu = v', evs = evs s, pc = pc s\<rparr>"
proof -
  note i = sys_invD [OF assms(1)] and r = running_thread [OF assms(1,2)]
  obtain q where q: "cond_q (cpu s) c = Some q" using assms(3) by auto
  then have "set q \<subseteq> live (cpu s)" using pcs_okD(2) [OF i(2), of c] by (auto simp: queue_ok_def)
  from signal_walk_ok [OF i(1) this] obtain v' where v': "cond_signal_walk b q (cpu s) = Some v'" "wf_vp v'"
    by blast
  then show ?thesis using signal_walk_pcs [OF v'(1) i(2)] i(3) q r(4)
    by (auto simp: st_cond_signal'_def sys_inv_def idle_ok_def current_def)
qed

lemma interrupt_inv:
  assumes "sys_inv s" and "user_turn s" and "t \<in> live (cpu s)"
  shows "\<exists>v'. st_thread_interrupt t (cpu s) = Some v' \<and> sys_inv \<lparr>cpu = v', evs = evs s, pc = pc s\<rparr>"
proof -
  note i = sys_invD [OF assms(1)] and r = running_thread [OF assms(1,2)]
  obtain v' where v': "st_thread_interrupt t (cpu s) = Some v'" "wf_vp v'"
    using interrupt_ok [OF i(1) assms(3)] by blast
  have f: "pcs_ok (set_flag t FL_INTERRUPT (cpu s)) (pc s)"
    by (rule pcs_ok_mono [OF i(2)]) (auto simp: set_flag_def has_flag_def)
  have g: "gathered (set_flag t FL_INTERRUPT v) = gathered v" for v by (simp add: gathered_def set_flag_def)
  have "pcs_ok v' (pc s) \<and> gathered v' = gathered (cpu s) \<and> this_thread v' = current s
    \<and> idle_thread v' = idle_thread (cpu s)"
  proof (cases "state_of t (cpu s) \<in> {ST_RUNNING, ST_RUNNABLE, ST_ZOMBIE}")
    case True
    then show ?thesis using v'(1) f i(2) g
      by (auto simp: st_thread_interrupt_def Let_def current_def) (auto simp: set_flag_def)
  next
    case False
    then obtain v1 where v1: "unsleep t (set_flag t FL_INTERRUPT (cpu s)) = Some v1" "v' = wake t v1"
      using v'(1) by (auto simp: st_thread_interrupt_def Let_def)
    from wake_pcs [OF v1(1) f] show ?thesis unfolding v1(2)
      by (simp add: g current_def) (simp add: set_flag_def has_flag_def)
  qed
  then show ?thesis using v' i(3) r(4) by (auto simp: sys_inv_def idle_ok_def)
qed

text \<open>Making and destroying condition variables and mutexes.\<close>

lemma cond_pcs:
  assumes "pcs_ok v pcs" and "queue_ok (live v) (\<lambda>t. pcs t = InCond c) qo"
  shows "pcs_ok (v\<lparr>cond_q := (cond_q v)(c := qo)\<rparr>) pcs"
proof -
  have "pc_ok (v\<lparr>cond_q := (cond_q v)(c := qo)\<rparr>) t p = pc_ok v t p" for t p
    by (cases p) (simp_all add: has_flag_def)
  then show ?thesis using assms unfolding pcs_ok_def by simp
qed

lemma mutex_pcs:
  assumes "pcs_ok v pcs" and "queue_ok (live v) (\<lambda>t. pcs t = InLock l) (map_option lock_q mo)"
    and "\<And>t. t \<in> live v \<Longrightarrow> pcs t \<noteq> InLock l"
  shows "pcs_ok (v\<lparr>mutexes := (mutexes v)(l := mo)\<rparr>) pcs"
proof -
  have "pc_ok (v\<lparr>mutexes := (mutexes v)(l := mo)\<rparr>) t (pcs t)" if "t \<in> live v" for t
    using pcs_okD(1) [OF assms(1) that] assms(3) [OF that] by (cases "pcs t") (auto simp: has_flag_def)
  then show ?thesis using assms unfolding pcs_ok_def by simp
qed

lemma wf_tables [simp]:
  "wf_vp (v\<lparr>cond_q := cq\<rparr>) = wf_vp v" "wf_vp (v\<lparr>mutexes := mx\<rparr>) = wf_vp v"
  "idle_ok (v\<lparr>cond_q := cq\<rparr>) = idle_ok v" "idle_ok (v\<lparr>mutexes := mx\<rparr>) = idle_ok v"
  by (simp_all add: wf_vp_def wf_queues_def has_flag_def idle_ok_def)

lemma tables_ok:
  assumes "sys_inv s" and "permitted k (cpu s)" and "k = CCondNew c \<or> k = CCondDestroy c \<or> k = CMutexNew l \<or> k = CMutexDestroy l"
  shows "after_call k s"
proof -
  note i = sys_invD [OF assms(1)]
  have new: "queue_ok (live (cpu s)) (\<lambda>t. pc s t = x) (Some [])"
    if "queue_ok (live (cpu s)) (\<lambda>t. pc s t = x) None" for x
    using that by (auto simp: queue_ok_def)
  have old: "queue_ok (live (cpu s)) (\<lambda>t. pc s t = x) None"
    if "queue_ok (live (cpu s)) (\<lambda>t. pc s t = x) (Some [])" for x
    using that by (auto simp: queue_ok_def)
  consider "k = CCondNew c" | "k = CCondDestroy c" | "k = CMutexNew l" | "k = CMutexDestroy l"
    using assms(3) by blast
  then show ?thesis
  proof cases
    case 1
    have "pcs_ok ((cpu s)\<lparr>cond_q := (cond_q (cpu s))(c := Some [])\<rparr>) (pc s)"
      using 1 assms(2) by (intro cond_pcs [OF i(2)] new) (use pcs_okD(2) [OF i(2), of c] in simp)
    then show ?thesis using 1 i by (simp add: after_call_def st_cond_new_def sys_inv_def)
  next
    case 2
    obtain q where q: "cond_q (cpu s) c = Some q" using 2 assms(2) by auto
    have "pcs_ok ((cpu s)\<lparr>cond_q := (cond_q (cpu s))(c := None)\<rparr>) (pc s)" if "q = []"
      using that by (intro cond_pcs [OF i(2)] old) (use pcs_okD(2) [OF i(2), of c] q in simp)
    then show ?thesis using 2 i q
      by (simp add: after_call_def st_cond_destroy_def ret_rv_def sys_inv_def)
  next
    case 3
    have n: "queue_ok (live (cpu s)) (\<lambda>t. pc s t = InLock l) None"
      using 3 assms(2) pcs_okD(3) [OF i(2), of l] by simp
    have "pcs_ok ((cpu s)\<lparr>mutexes := (mutexes (cpu s))(l \<mapsto> \<lparr>owner = None, lock_q = []\<rparr>)\<rparr>) (pc s)"
      by (rule mutex_pcs [OF i(2)]) (use new [OF n] n in \<open>auto simp: queue_ok_def\<close>)
    then show ?thesis using 3 i by (simp add: after_call_def st_mutex_new_def set_mutex_def sys_inv_def)
  next
    case 4
    obtain m where m: "mutexes (cpu s) l = Some m" using 4 assms(2) by auto
    have "pcs_ok ((cpu s)\<lparr>mutexes := (mutexes (cpu s))(l := None)\<rparr>) (pc s)" if "lock_q m = []"
    proof -
      have n: "queue_ok (live (cpu s)) (\<lambda>t. pc s t = InLock l) None"
        using pcs_okD(3) [OF i(2), of l] m that old by simp
      show ?thesis by (rule mutex_pcs [OF i(2)]) (use n in \<open>auto simp: queue_ok_def\<close>)
    qed
    then show ?thesis using 4 i m
      by (simp add: after_call_def st_mutex_destroy_def ret_rv_def sys_inv_def)
  qed
qed

text \<open>Handing a mutex over.\<close>

lemma first_waiter_Some: "first_waiter q v = Some t \<Longrightarrow> t \<in> set q \<and> state_of t v = ST_LOCK_WAIT"
  by (induction q) (auto split: if_splits)

lemma unlock_ok:
  assumes "sys_inv s" and "user_turn s" and "pc s (current s) = User" and "permitted (CUnlock l) (cpu s)"
  shows "after_call (CUnlock l) s"
proof -
  note i = sys_invD [OF assms(1)] and r = running_thread [OF assms(1,2)]
  let ?me = "current s" and ?v = "cpu s"
  obtain m where m: "mutexes ?v l = Some m" using assms(4) by auto
  show ?thesis
  proof (cases "owner m = Some ?me")
    case False
    then show ?thesis using assms(1) m
      by (simp add: after_call_def st_mutex_unlock_def ret_rv_def current_def)
  next
    case True
    then have o: "\<And>t. owner m = Some t \<Longrightarrow> pc s t \<noteq> InLock l" using assms(3) by auto
    show ?thesis
    proof (cases "first_waiter (lock_q m) ?v")
      case None
      then show ?thesis using owner_inv [OF assms(1) m o, of None] m True
        by (simp add: after_call_def st_mutex_unlock_def ret_rv_def current_def)
    next
      case (Some t)
      have t: "t \<in> live ?v" "pc s t = InLock l" "state_of t ?v = ST_LOCK_WAIT"
        using first_waiter_Some [OF Some] pcs_okD(3) [OF i(2), of l] m by (auto simp: queue_ok_def)
      have nf: "\<not> has_flag t FL_ON_SLEEPQ ?v"
        using wf_queuesD(3) [OF r(6) t(1)] t(3) by (auto simp: waiting_def)
      have ni: "t \<noteq> idle_thread ?v" using wf_queuesD(9) [OF r(6)] t(3) by auto
      let ?w = "set_mutex l (m\<lparr>owner := Some t\<rparr>) ?v"
      have p: "pcs_ok ?w (pc s)" by (rule owner_pcs [OF i(2) m]) (use o in auto)
      have w: "wf_vp (wake t ?v)"
        using wf_wake [OF r(6) t(1) ni nf] t(3) i(1) by (auto simp: wf_vp_def thread_ops)
      have e: "wake t ?w = set_mutex l (m\<lparr>owner := Some t\<rparr>) (wake t ?v)"
        by (simp add: thread_ops set_mutex_def upd_def)
      have "pc_ok (wake t ?w) u (pc s u)" if u: "u \<in> live ?v" for u
        using pcs_okD(1) [OF p, of u] u t by (cases "u = t"; cases "pc s u")
          (auto simp: thread_ops set_mutex_def)
      then have "pcs_ok (wake t ?w) (pc s)" using p unfolding pcs_ok_def
        by (simp add: thread_ops set_mutex_def)
      moreover have "gathered (wake t ?w) = gathered ?v" by (simp add: thread_ops set_mutex_def gathered_def)
      moreover have "idle_ok (wake t ?w)" using r(4) by (simp add: idle_ok_def thread_ops set_mutex_def current_def)
      ultimately show ?thesis using Some m True i(3) w e
        by (simp add: after_call_def st_mutex_unlock_def ret_rv_def current_def sys_inv_def)
    qed
  qed
qed

lemma trylock_ok:
  assumes "sys_inv s" and "permitted (CTrylock l) (cpu s)"
  shows "after_call (CTrylock l) s"
proof -
  obtain m where m: "mutexes (cpu s) l = Some m" using assms(2) by auto
  then show ?thesis using owner_inv [OF assms(1) m] assms(1)
    by (cases "owner m") (auto simp: after_call_def st_mutex_trylock_def ret_rv_def)
qed

text \<open>Birth and death of threads.\<close>

lemma create_inv:
  assumes "sys_inv s" and "user_turn s" and "t \<notin> live (cpu s)"
  shows "after_call (CCreate t) s"
proof -
  note i = sys_invD [OF assms(1)] and r = running_thread [OF assms(1,2)]
  let ?v = "st_thread_create t None (cpu s)" and ?pc = "(pc s)(t := User)"
  have v: "live ?v = insert t (live (cpu s))" "io_q ?v = io_q (cpu s)" "pollqs ?v = pollqs (cpu s)"
    "cond_q ?v = cond_q (cpu s)" "mutexes ?v = mutexes (cpu s)" "this_thread ?v = current s"
    "idle_thread ?v = idle_thread (cpu s)" "active_count ?v = active_count (cpu s) + 1"
    "thr ?v = (thr (cpu s))(t := new_thread None)"
    by (simp_all add: st_thread_create_def add_runq_def current_def)
  have q: "queue_ok (insert t L) P' qo" if "queue_ok L P qo" "\<And>u. u \<in> L \<Longrightarrow> P' u = P u" "\<not> P' t" for L P P' qo
    using that by (auto simp: queue_ok_def split: option.splits)
  have ne: "u \<noteq> t" if "u \<in> live (cpu s)" for u using assms(3) that by blast
  have "pc_ok ?v u (?pc u)" if "u \<in> insert t (live (cpu s))" for u
  proof (cases "u = t")
    case False
    then show ?thesis using pcs_okD(1) [OF i(2), of u] that
      by (cases "pc s u") (auto simp: v has_flag_def)
  qed (simp add: v new_thread_def)
  moreover have "\<And>c. queue_ok (insert t (live (cpu s))) (\<lambda>u. ?pc u = InCond c) (cond_q (cpu s) c)"
    by (rule q [OF pcs_okD(2) [OF i(2)]]) (auto dest: ne)
  moreover have "\<And>l. queue_ok (insert t (live (cpu s))) (\<lambda>u. ?pc u = InLock l) (map_option lock_q (mutexes (cpu s) l))"
    by (rule q [OF pcs_okD(3) [OF i(2)]]) (auto dest: ne)
  moreover have "queue_ok (insert t (live (cpu s))) (\<lambda>u. ?pc u = InPoll \<and> on_ioq (pollqs (cpu s) u)) (Some (io_q (cpu s)))"
    by (rule q [OF pcs_okD(4) [OF i(2)]]) (auto dest: ne)
  ultimately have "pcs_ok ?v ?pc"
    using pcs_okD(5-9) [OF i(2)] assms(3) unfolding pcs_ok_def v by (auto simp: new_thread_def)
  then show ?thesis using create_ok [OF i(1) assms(3), of None] i(3) r(4) v
    by (auto simp: after_call_def sys_inv_def idle_ok_def gathered_def)
qed

lemma cleanup_keeps:
  assumes "st_thread_cleanup k x = (cs, y)"
  shows "state y = state x \<and> flags y = flags x \<and> term_cv y = term_cv x"
proof -
  have "cleanup_loop k ns x = (cs, y) \<Longrightarrow> state y = state x \<and> flags y = flags x \<and> term_cv y = term_cv x" for ns
    by (induction ns arbitrary: x cs) (auto simp: Let_def set_private_def split: if_splits prod.splits)
  then show ?thesis using assms unfolding st_thread_cleanup_def by blast
qed

lemma exit_ok:
  assumes "sys_inv s" and "user_turn s" and "pc s (current s) = User"
  shows "after_call (CExit k val) s"
proof -
  note i = sys_invD [OF assms(1)] and r = running_thread [OF assms(1,2)]
  let ?me = "current s" and ?v = "cpu s"
  obtain cs x where x: "st_thread_cleanup k ((thr ?v ?me)\<lparr>retval := val\<rparr>) = (cs, x)" by fastforce
  have xf: "state x = ST_RUNNING" "flags x = flags (thr ?v ?me)" "term_cv x = None"
    using cleanup_keeps [OF x] r(2) pcs_okD(9) [OF i(2) r(1)] by auto
  let ?w = "?v\<lparr>thr := (thr ?v)(?me := x), active_count := active_count ?v - 1, live := live ?v - {?me}\<rparr>"
  have wf: "wf_queues ?w" using r xf unfolding wf_queues_def by (auto simp: has_flag_def)
  have n: "\<forall>t \<in> live ?w. state_of t ?w \<noteq> ST_RUNNING" using r(5) by auto
  have "pc_ok ?w u (pc s u)" if "u \<in> live ?v - {?me}" for u
    using pcs_okD(1) [OF i(2), of u] that by (cases "pc s u") (auto simp: has_flag_def)
  moreover have q: "queue_ok (L - {?me}) P qo" if "queue_ok L P qo" "\<not> P ?me" for L P qo
    using that by (auto simp: queue_ok_def split: option.splits)
  moreover have "card (live ?v - {?me}) = card (live ?v) - 1" "0 < card (live ?v)"
    using r(1) pcs_okD(6) [OF i(2)] by (auto simp: card_gt_0_iff)
  ultimately have p: "pcs_ok ?w (pc s)"
    using i(2) assms(3) r(4) unfolding pcs_ok_def by (auto intro!: q)
  have "gathered ?w = gathered ?v" by (simp add: gathered_def)
  then obtain v' where "switch_context (Some ?w) = Block v'" "sys_inv \<lparr>cpu = v', evs = evs s, pc = pc s\<rparr>"
    using switch_inv [OF wf n p, of "evs s"] i(3) by auto
  moreover have "(pc s)(?me := User) = pc s" using assms(3) by auto
  ultimately show ?thesis using x xf
    by (simp add: after_call_def st_thread_exit_def Let_def current_def)
qed

theorem call_ok:
  assumes "sys_inv s" and "user_turn s" and "pc s (current s) = User" and "permitted c (cpu s)"
  shows "after_call c s"
proof (cases c)
  case (CSignal k)
  then show ?thesis using signal_ok [OF assms(1,2), of k False] assms(4)
    by (auto simp: after_call_def ret_def st_cond_signal_def)
next
  case (CBroadcast k)
  then show ?thesis using signal_ok [OF assms(1,2), of k True] assms(4)
    by (auto simp: after_call_def ret_def st_cond_broadcast_def)
next
  case (CInterrupt t)
  then show ?thesis using interrupt_inv [OF assms(1,2), of t] assms(4) by (auto simp: after_call_def ret_def)
qed (use assms in \<open>auto intro: sleep_ok cond_wait_ok lock_ok poll_ok tables_ok unlock_ok trylock_ok create_inv exit_ok\<close>)

section \<open>Every resumption keeps the invariant\<close>

lemma resume_pcs:
  assumes "pcs_ok v pcs" and "t \<in> live v" and "state_of t v = ST_RUNNING"
    and "\<And>l. map_option owner (mx l) = map_option owner (mutexes v l)"
    and "\<And>c. queue_ok (live v) (\<lambda>u. (pcs(t := User)) u = InCond c) (cq c)"
    and "\<And>l. queue_ok (live v) (\<lambda>u. (pcs(t := User)) u = InLock l) (map_option lock_q (mx l))"
    and "queue_ok (live v) (\<lambda>u. (pcs(t := User)) u = InPoll \<and> on_ioq (pollqs v u)) (Some iq)"
  shows "pcs_ok (v\<lparr>cond_q := cq, mutexes := mx, io_q := iq\<rparr>) (pcs(t := User))"
proof -
  let ?v = "v\<lparr>cond_q := cq, mutexes := mx, io_q := iq\<rparr>"
  have "pc_ok ?v u ((pcs(t := User)) u)" if u: "u \<in> live v" for u
  proof (cases "u = t")
    case False
    then show ?thesis using pcs_okD(1) [OF assms(1) u] assms(4)
      by (cases "pcs u") (auto simp: has_flag_def)
  qed (use assms(3) in simp)
  then show ?thesis using assms(5-7) pcs_okD(5-9) [OF assms(1)] unfolding pcs_ok_def by simp
qed

lemma queue_drop:
  assumes "queue_ok L (\<lambda>u. pcs u = x \<and> P u) (Some q)" and "x \<noteq> User"
  shows "queue_ok L (\<lambda>u. (pcs(t := User)) u = x \<and> P u) (Some (remove1 t q))"
  using assms by (auto simp: queue_ok_def set_remove1_eq)

lemma queue_other:
  assumes "queue_ok L (\<lambda>u. pcs u = x \<and> P u) qo" and "pcs t = x \<Longrightarrow> \<not> P t" and "x \<noteq> User"
  shows "queue_ok L (\<lambda>u. (pcs(t := User)) u = x \<and> P u) qo"
proof -
  have "((pcs(t := User)) u = x \<and> P u) = (pcs u = x \<and> P u)" for u using assms(2,3) by auto
  then show ?thesis using assms(1) by (simp add: fun_eq_iff)
qed

lemma queue_drop':
  assumes "queue_ok L (\<lambda>u. pcs u = x) (Some q)" and "x \<noteq> User"
  shows "queue_ok L (\<lambda>u. (pcs(t := User)) u = x) (Some (remove1 t q))"
  using queue_drop [of L pcs x "\<lambda>_. True" q t] assms by simp

lemma queue_other':
  assumes "queue_ok L (\<lambda>u. pcs u = x) qo" and "pcs t \<noteq> x" and "x \<noteq> User"
  shows "queue_ok L (\<lambda>u. (pcs(t := User)) u = x) qo"
  using queue_other [of L pcs x "\<lambda>_. True" qo t] assms by simp

lemma other_queues:
  assumes "pcs_ok v pcs"
  shows "pcs t \<noteq> InCond c \<Longrightarrow> queue_ok (live v) (\<lambda>u. (pcs(t := User)) u = InCond c) (cond_q v c)"
    and "pcs t \<noteq> InLock l \<Longrightarrow> queue_ok (live v) (\<lambda>u. (pcs(t := User)) u = InLock l) (map_option lock_q (mutexes v l))"
    and "pcs t \<noteq> InPoll \<Longrightarrow> queue_ok (live v) (\<lambda>u. (pcs(t := User)) u = InPoll \<and> on_ioq (pollqs v u)) (Some (io_q v))"
  by (intro queue_other' pcs_okD(2,3) [OF assms] queue_other pcs_okD(4) [OF assms]; simp)+

text \<open>A call is resumed: the thread leaves its queue, its flags are acknowledged.\<close>

definition after_resume :: "sys \<Rightarrow> bool" where
  "after_resume s \<longleftrightarrow> (case resumed (pc s (current s)) (evs s) (cpu s) of
      Some (r, e', v') \<Rightarrow> sys_inv \<lparr>cpu = v', evs = e', pc = (pc s)(current s := User)\<rparr>
    | None \<Rightarrow> False)"

lemma tables_upd:
  "v\<lparr>cond_q := cond_q v, mutexes := mutexes v, io_q := io_q v\<rparr> = (v :: vp)"
  "v\<lparr>cond_q := cq, mutexes := mutexes v, io_q := io_q v\<rparr> = v\<lparr>cond_q := cq\<rparr>"
  "v\<lparr>cond_q := cond_q v, mutexes := mx, io_q := io_q v\<rparr> = v\<lparr>mutexes := mx\<rparr>"
  "v\<lparr>cond_q := cond_q v, mutexes := mutexes v, io_q := iq\<rparr> = v\<lparr>io_q := iq\<rparr>"
  by (cases v, simp)+

lemma resume_inv:
  assumes "sys_inv s" and "user_turn s" and "pcs_ok v' ((pc s)(current s := User))"
    and "wf_vp v'" and "this_thread v' = current s" and "idle_thread v' = idle_thread (cpu s)"
    and "es_tracks e (mset (keys (gathered v')))"
  shows "sys_inv \<lparr>cpu = v', evs = e, pc = (pc s)(current s := User)\<rparr>"
    and "sys_inv \<lparr>cpu = ack_interrupt v', evs = e, pc = (pc s)(current s := User)\<rparr>"
proof -
  have i: "idle_ok v'" using running_thread(4) [OF assms(1,2)] assms(5,6) by (simp add: idle_ok_def)
  then show "sys_inv \<lparr>cpu = v', evs = e, pc = (pc s)(current s := User)\<rparr>"
    using assms by (simp add: sys_inv_def)
  show "sys_inv \<lparr>cpu = ack_interrupt v', evs = e, pc = (pc s)(current s := User)\<rparr>"
    using ack_inv [OF assms(4,3,7) _ i] assms(5) by simp
qed

lemma resume_sleep:
  assumes "sys_inv s" and "user_turn s" and "pc s (current s) = InSleep"
  shows "after_resume s"
proof -
  note i = sys_invD [OF assms(1)] and r = running_thread [OF assms(1,2)]
  have "pcs_ok (cpu s) ((pc s)(current s := User))"
    using resume_pcs [OF i(2) r(1,2), of "mutexes (cpu s)" "cond_q (cpu s)" "io_q (cpu s)"]
      other_queues [OF i(2), of "current s"] assms(3) unfolding tables_upd by simp
  from resume_inv [OF assms(1,2) this i(1) _ _ i(3)] show ?thesis using assms(3)
    by (simp add: after_resume_def st_usleep_end_def current_def)
qed

lemma resume_cond:
  assumes "sys_inv s" and "user_turn s" and "pc s (current s) = InCond c"
  shows "after_resume s"
proof -
  note i = sys_invD [OF assms(1)] and r = running_thread [OF assms(1,2)]
  let ?me = "current s" and ?v = "cpu s"
  obtain q where q: "cond_q ?v c = Some q"
    using pcs_okD(2) [OF i(2), of c] r(1) assms(3) by (cases "cond_q ?v c") (auto simp: queue_ok_def)
  let ?w = "?v\<lparr>cond_q := (cond_q ?v)(c \<mapsto> remove1 ?me q)\<rparr>"
  have "queue_ok (live ?v) (\<lambda>u. ((pc s)(?me := User)) u = InCond k) (((cond_q ?v)(c \<mapsto> remove1 ?me q)) k)" for k
    using queue_drop' [of "live ?v" "pc s" "InCond c" q ?me] pcs_okD(2) [OF i(2), of c] q
      other_queues(1) [OF i(2), of ?me k] assms(3) by (cases "k = c") auto
  then have p: "pcs_ok ?w ((pc s)(?me := User))"
    using resume_pcs [OF i(2) r(1,2), of "mutexes ?v" "(cond_q ?v)(c \<mapsto> remove1 ?me q)" "io_q ?v"]
      other_queues(2,3) [OF i(2), of ?me] assms(3) unfolding tables_upd by simp
  let ?x = "if has_flag ?me FL_TIMEDOUT ?w then clear_flag ?me FL_TIMEDOUT ?w else ?w"
  have "pcs_ok ?x ((pc s)(?me := User))" using p ack_pcs [OF p, of ?me] by simp
  moreover have "wf_vp ?x" using i(1) ack_wf [of ?w FL_TIMEDOUT ?me] by simp
  moreover have "gathered ?x = gathered ?v" by simp
  moreover have "this_thread ?x = ?me" "idle_thread ?x = idle_thread ?v" by (simp_all add: clear_flag_def current_def)
  ultimately have "sys_inv \<lparr>cpu = ?x, evs = evs s, pc = (pc s)(?me := User)\<rparr>"
    "sys_inv \<lparr>cpu = ack_interrupt ?x, evs = evs s, pc = (pc s)(?me := User)\<rparr>"
    using resume_inv [OF assms(1,2), of ?x "evs s"] i(3) by (simp_all only:)
  then show ?thesis using assms(3) q
    by (auto simp: after_resume_def st_cond_timedwait_end_def Let_def current_def split: if_splits)
qed

lemma resume_lock:
  assumes "sys_inv s" and "user_turn s" and "pc s (current s) = InLock l"
  shows "after_resume s"
proof -
  note i = sys_invD [OF assms(1)] and r = running_thread [OF assms(1,2)]
  let ?me = "current s" and ?v = "cpu s"
  obtain m where m: "mutexes ?v l = Some m"
    using pcs_okD(3) [OF i(2), of l] r(1) assms(3) by (cases "mutexes ?v l") (auto simp: queue_ok_def)
  let ?mx = "(mutexes ?v)(l \<mapsto> m\<lparr>lock_q := remove1 ?me (lock_q m)\<rparr>)"
  have "queue_ok (live ?v) (\<lambda>u. ((pc s)(?me := User)) u = InLock k) (map_option lock_q (?mx k))" for k
    using queue_drop' [of "live ?v" "pc s" "InLock l" "lock_q m" ?me] pcs_okD(3) [OF i(2), of l] m
      other_queues(2) [OF i(2), of ?me k] assms(3) by (cases "k = l") auto
  then have p: "pcs_ok (?v\<lparr>mutexes := ?mx\<rparr>) ((pc s)(?me := User))"
    using resume_pcs [OF i(2) r(1,2), of ?mx "cond_q ?v" "io_q ?v"] other_queues(1,3) [OF i(2), of ?me]
      assms(3) m unfolding tables_upd by simp
  show ?thesis using resume_inv [OF assms(1,2) p, of "evs s"] i(1,3) assms(3) m
    by (auto simp: after_resume_def st_mutex_lock_end_def Let_def current_def set_mutex_def)
qed

lemma queued_remove1:
  "t \<in> set q \<Longrightarrow> mset (concat (queued v q)) = mset (concat (queued v (remove1 t q))) + mset (keys (pds (pollqs v t)))"
  by (induction q) (auto simp: queued_def)

lemma wf_ioq [simp]: "wf_vp (v\<lparr>io_q := q\<rparr>) = wf_vp v"
  by (simp add: wf_vp_def wf_queues_def has_flag_def)

lemma resume_poll:
  assumes "sys_inv s" and "user_turn s" and "pc s (current s) = InPoll"
  shows "after_resume s"
proof -
  note i = sys_invD [OF assms(1)] and r = running_thread [OF assms(1,2)]
  let ?me = "current s" and ?v = "cpu s"
  note o = other_queues(1,2) [OF i(2), of ?me] pcs_okD(4) [OF i(2)]
  show ?thesis
  proof (cases "on_ioq (pollqs ?v ?me)")
    case True
    let ?w = "?v\<lparr>io_q := remove1 ?me (io_q ?v)\<rparr>"
    have m: "?me \<in> set (io_q ?v)" using o(3) r(1) True assms(3) by (auto simp: queue_ok_def)
    have "es_tracks (evs s) (mset (keys (gathered ?w)) + mset (keys (pds (pollqs ?v ?me))))"
      using i(3) queued_remove1 [OF m, of ?v] by (simp add: gathered_queued queued_def)
    from es.del_ok [OF this] obtain e' where e: "pollset_del (pds (pollqs ?v ?me)) (evs s) = Some e'"
      "es_tracks e' (mset (keys (gathered ?w)))" by blast
    have p: "pcs_ok ?w ((pc s)(?me := User))"
      using resume_pcs [OF i(2) r(1,2), of "mutexes ?v" "cond_q ?v" "remove1 ?me (io_q ?v)"]
        queue_drop [OF o(3), of ?me] o(1,2) assms(3) unfolding tables_upd by simp
    have "wf_vp ?w" using i(1) by simp
    from resume_inv [OF assms(1,2) p this _ _ e(2)] show ?thesis using assms(3) True e(1)
      by (simp add: after_resume_def st_poll_end_def Let_def current_def)
  next
    case False
    have "queue_ok (live ?v) (\<lambda>u. ((pc s)(?me := User)) u = InPoll \<and> on_ioq (pollqs ?v u)) (Some (io_q ?v))"
      by (rule queue_other [OF o(3)]) (use False in auto)
    then have "pcs_ok ?v ((pc s)(?me := User))"
      using resume_pcs [OF i(2) r(1,2), of "mutexes ?v" "cond_q ?v" "io_q ?v"] o(1,2) assms(3)
      unfolding tables_upd by simp
    from resume_inv [OF assms(1,2) this i(1) _ _ i(3)] show ?thesis using assms(3) False
      by (simp add: after_resume_def st_poll_end_def Let_def current_def)
  qed
qed

theorem resume_ok:
  assumes "sys_inv s" and "user_turn s" and "pc s (current s) \<noteq> User"
  shows "after_resume s"
  using assms by (cases "pc s (current s)") (auto intro: resume_sleep resume_cond resume_lock resume_poll)

section \<open>The idle thread keeps the invariant\<close>

lemma idle_ioq:
  assumes "sys_inv s" and "\<not> user_turn s"
  shows "ioq_idle (cpu s)"
proof -
  note i = sys_invD [OF assms(1)]
  have w: "wf_queues (cpu s)" using i(1) by (simp add: wf_vp_def)
  have t: "this_thread (cpu s) = idle_thread (cpu s)" "run_q (cpu s) = []"
    using assms(2) i(4) by (simp_all add: user_turn_def current_def idle_ok_def)
  have "state_of u (cpu s) = ST_IO_WAIT" if u: "u \<in> live (cpu s)" "pc s u = InPoll" for u
  proof -
    have "u \<noteq> idle_thread (cpu s)" using u(2) pcs_okD(5) [OF i(2)] by auto
    then have "\<not> runs u (cpu s)"
      using wf_queuesD(5) [OF w, of u] t u(1) i(1) by (auto simp: wf_vp_def)
    then show ?thesis using pcs_okD(1) [OF i(2) u(1)] u(2) by auto
  qed
  then show ?thesis using pcs_okD(4) [OF i(2)] by (auto simp: ioq_idle_def queue_ok_def)
qed

lemma walked_pcs:
  assumes "pcs_ok v pcs" and "walked (io_q v) w v v'"
  shows "pcs_ok v' pcs"
proof -
  have q: "distinct (io_q v)" "set (io_q v) = {t \<in> live v. pcs t = InPoll \<and> on_ioq (pollqs v t)}"
    using pcs_okD(4) [OF assms(1)] by (auto simp: queue_ok_def)
  note k = assms(2) [unfolded walked_def]
  have "pc_ok v' t (pcs t)" if t: "t \<in> live v" for t
  proof (cases "t \<in> set w")
    case True
    then have "pcs t = InPoll" "state_of t v' = ST_RUNNABLE" using k q(2) by auto
    then show ?thesis by simp
  next
    case False
    then have "state_of t v' = state_of t v" "flags (thr v' t) = flags (thr v t)"
      "on_ioq (pollqs v' t) = on_ioq (pollqs v t)" "mutexes v' = mutexes v" using k by auto
    then show ?thesis using pcs_okD(1) [OF assms(1) t] by (cases "pcs t") (auto simp: has_flag_def)
  qed
  moreover have "queue_ok (live v) (\<lambda>t. pcs t = InPoll \<and> on_ioq (pollqs v' t)) (Some (io_q v'))"
    using k q by (auto simp: queue_ok_def)
  ultimately show ?thesis using assms(1) k unfolding pcs_ok_def by auto
qed

lemma ticked_pcs:
  assumes "pcs_ok v pcs" and "ticked now v v'" and "wf_queues v"
  shows "pcs_ok v' pcs"
proof -
  have d: "state_of t v \<in> waiting" if "t \<in> due_now now v" for t
    using that wf_queuesD(2,3) [OF assms(3), of t] by (auto simp: due_now_def)
  then have l: "t \<notin> due_now now v" if "state_of t v = ST_LOCK_WAIT" for t
    using that by (fastforce simp: waiting_def)
  note k = assms(2) [unfolded ticked_def]
  show ?thesis
    by (rule pcs_ok_mono [OF assms(1)]) (use k l in \<open>auto simp: awake_def has_flag_def\<close>)
qed

lemma wf_idle:
  assumes "wf_queues v" and "state_of (idle_thread v) v = ST_RUNNING"
  shows "wf_queues (set_state (idle_thread v) ST_RUNNABLE v)"
proof -
  have "\<not> has_flag (idle_thread v) FL_ON_SLEEPQ v"
    using wf_queuesD(3) [OF assms(1) wf_queuesD(8) [OF assms(1)]] assms(2) by (auto simp: waiting_def)
  then show ?thesis using assms unfolding wf_queues_def by (simp add: thread_ops)
qed

theorem idle_round_ok:
  assumes "sys_inv s" and "\<not> user_turn s" and "answer_ok a (evs s) (cpu s)" and "0 < active_count (cpu s)"
  shows "\<exists>e' v'. st_idle_round a now wall (evs s) (cpu s) = Some (e', Block v')
    \<and> sys_inv (s\<lparr>cpu := v', evs := e'\<rparr>)"
proof -
  note i = sys_invD [OF assms(1)]
  let ?v = "cpu s" and ?i = "idle_thread (cpu s)"
  have t: "this_thread ?v = ?i" using assms(2) by (simp add: user_turn_def current_def)
  obtain e' v1 w where d: "dispatch a (evs s) ?v = Some (e', v1)" "wf_vp v1" "walked (io_q ?v) w ?v v1"
    "es_tracks e' (mset (keys (gathered v1)))"
    using es_dispatch_ok [OF i(1) idle_ioq [OF assms(1,2)] i(3) assms(3)] by blast
  have q1: "wf_queues v1" using d(2) by (simp add: wf_vp_def)
  obtain v2 where c: "st_vp_check_clock now wall v1 = Some v2" "wf_queues v2" "ticked now v1 v2"
    using check_clock_ok [OF q1] by blast
  have v2: "this_thread v2 = ?i" "idle_thread v2 = ?i" "io_q v2 = io_q v1" "pollqs v2 = pollqs v1"
    using c(3) d(3) t by (simp_all add: ticked_def walked_def)
  have w2: "wf_vp v2" by (rule ticked_running [OF d(2) c(2,3)])
  let ?w = "set_state ?i ST_RUNNABLE v2"
  have st: "state_of ?i v2 = ST_RUNNING" using w2 v2(1) by (auto simp: wf_vp_def)
  have p: "pcs_ok ?w (pc s)"
    by (rule pcs_ok_mono [OF ticked_pcs [OF walked_pcs [OF i(2) d(3)] c(3) q1]])
      (use st in \<open>auto simp: thread_ops\<close>)
  have f: "wf_queues ?w" using wf_idle [OF c(2)] st v2(2) by simp
  have n: "\<forall>t \<in> live ?w. state_of t ?w \<noteq> ST_RUNNING" using w2 v2 by (auto simp: wf_vp_def thread_ops)
  have "es_tracks e' (mset (keys (gathered ?w)))" using d(4) v2 by (simp add: gathered_def thread_ops)
  from switch_inv [OF f n p this] show ?thesis using d(1) c(1) t assms(4)
    by (cases s) (auto simp: st_idle_round_def)
qed

section \<open>Runs of the library\<close>

lemma sys_upd: "s\<lparr>cpu := v, evs := e, pc := p\<rparr> = \<lparr>cpu = v, evs = e, pc = p\<rparr>" for s :: sys
  by (cases s) simp

lemma step_inv: "step s s' \<Longrightarrow> sys_inv s \<Longrightarrow> sys_inv s'"
proof (induction rule: step.induct)
  case (step_return s c r v' e')
  then show ?case using call_ok [of s c] by (simp add: after_call_def sys_upd)
next
  case (step_block s c v' e')
  then show ?case using call_ok [of s c] by (simp add: after_call_def sys_upd)
next
  case (step_resume s r e' v')
  then have "pc s (current s) \<noteq> User" by (cases "pc s (current s)") auto
  then show ?case using resume_ok [of s] step_resume by (simp add: after_resume_def sys_upd)
next
  case (step_idle s a now wall e' v')
  then have "0 < active_count (cpu s)" by (auto simp: st_idle_round_def split: if_splits)
  then show ?case using idle_round_ok [of s a now wall] step_idle by auto
qed

lemma reachable_inv: "reachable s0 s \<Longrightarrow> sys_inv s0 \<Longrightarrow> sys_inv s"
  by (induction rule: reachable.induct) (auto intro: step_inv)

text \<open>The processor \<open>st_init\<close> leaves behind, with an event system just initialised.\<close>

definition booted :: "tid \<Rightarrow> tid \<Rightarrow> utime \<Rightarrow> evsys \<Rightarrow> sys" where
  "booted i p now e = \<lparr>cpu = snd (st_init True True True True now i p vp_zero), evs = e, pc = (\<lambda>_. User)\<rparr>"

lemma booted_inv:
  assumes "i \<noteq> p" and "es_tracks e {#}"
  shows "sys_inv (booted i p now e)"
proof -
  obtain v where v: "st_init True True True True now i p vp_zero = (0, v)" "wf_vp v" "active_count v = 1"
    "this_thread v = p" "idle_thread v = i" "live v = {i, p}"
    using init_ok [of vp_zero i p now] assms(1) by (auto simp: vp_zero_def)
  have q: "cond_q v = (\<lambda>_. None)" "mutexes v = (\<lambda>_. None)" "io_q v = []"
    "term_cv (thr v i) = None" "term_cv (thr v p) = None"
    using v(1) by (auto simp: st_init_def vp_zero_def st_thread_create_def new_thread_def add_runq_def upd_def
        split: if_splits)
  have "runs t v" if "t \<in> {i, p}" for t
    using that v wf_queuesD(9) [of v] by (auto simp: wf_vp_def)
  then have "pcs_ok v (\<lambda>_. User)" using v q assms(1) by (auto simp: pcs_ok_def queue_ok_def)
  then show ?thesis using v q assms by (simp add: booted_def sys_inv_def idle_ok_def gathered_def keys_def)
qed

text \<open>Progress: while a thread is left, some step is possible and no assertion fails.\<close>

lemma some_answer: "\<exists>a. answer_ok a e v"
proof -
  let ?a = "\<lambda>p. \<lparr>sel_ans = SelectNone, sel_bad = (\<lambda>_. False), poll_ans = None, poll_mem = True, epoll_ans = [],
    epoll_newfd = 0, epoll_pid = p, kq_ans = Kevents [], kq_again = Kevents [], kq_newkq = 0\<rparr>"
  have "answer_ok (?a (case e of Epoll d \<Rightarrow> ep_pid d | _ \<Rightarrow> 0)) e v"
    by (cases e) (simp_all add: kq_answer_ok_def kq_reply_ok_def)
  then show ?thesis by blast
qed

lemma progress:
  assumes "sys_inv s" and "0 < active_count (cpu s)"
  shows "\<exists>s'. step s s'"
proof (cases "user_turn s")
  case False
  obtain a where "answer_ok a (evs s) (cpu s)" using some_answer by blast
  then show ?thesis using idle_round_ok [OF assms(1) False _ assms(2)] step_idle [OF False] by blast
next
  case True
  show ?thesis
  proof (cases "pc s (current s) = User")
    case True
    then have "after_call (CSleep 0) s" using call_ok [OF assms(1) \<open>user_turn s\<close>] by simp
    then show ?thesis using step_return [OF \<open>user_turn s\<close> True, of "CSleep 0"]
        step_block [OF \<open>user_turn s\<close> True, of "CSleep 0"]
      by (cases "st_usleep 0 (cpu s)") (auto simp: after_call_def)
  next
    case False
    then show ?thesis using resume_ok [OF assms(1) \<open>user_turn s\<close>] step_resume [OF \<open>user_turn s\<close>]
      by (cases "resumed (pc s (current s)) (evs s) (cpu s)") (auto simp: after_resume_def)
  qed
qed

text \<open>\<open>st_mutex_lock\<close> that had to wait: 0 is returned only to the owner.\<close>

lemma lock_owner:
  assumes "sys_inv s" and "user_turn s" and "pc s (current s) = InLock l"
    and "resumed (InLock l) (evs s) (cpu s) = Some (r, e', v')"
  shows "r = Ret 0 \<and> map_option owner (mutexes v' l) = Some (Some (current s))
    \<or> r = Fail EINTR \<and> map_option owner (mutexes v' l) \<noteq> Some (Some (current s))"
proof -
  have "has_flag (current s) FL_INTERRUPT (cpu s) \<or> map_option owner (mutexes (cpu s) l) = Some (Some (current s))"
    using pcs_okD(1) [OF sys_invD(2) [OF assms(1)] running_thread(1) [OF assms(1,2)]]
      running_thread(2) [OF assms(1,2)] assms(3) by simp
  then show ?thesis using assms(4)
    by (auto simp: st_mutex_lock_end_def Let_def set_mutex_def interrupted_def has_flag_def current_def
        ack_interrupt_def clear_flag_def split: option.splits if_splits)
qed

end
