(* ===== verification/Locks.thy ===== *)
theory Locks
  imports Threads
begin

text \<open>
  A second invariant of the state machine: \<open>st_mutex_unlock\<close> hands the mutex over directly, so a mutex
  that nobody owns has no thread blocked on it. Every operation but the mutex calls leaves the mutexes
  alone and blocks no thread on one (\<open>calm\<close>).
\<close>

definition calm :: "vp \<Rightarrow> vp \<Rightarrow> bool" where
  "calm v v' \<longleftrightarrow> mutexes v' = mutexes v
     \<and> (\<forall>t. state_of t v' = ST_LOCK_WAIT \<longrightarrow> state_of t v = ST_LOCK_WAIT)"

definition handed :: "vp \<Rightarrow> bool" where
  "handed v \<longleftrightarrow> (\<forall>l m. mutexes v l = Some m \<longrightarrow> owner m = None \<longrightarrow>
     (\<forall>t \<in> set (lock_q m). state_of t v \<noteq> ST_LOCK_WAIT))"

lemma handed_calm: "handed v \<Longrightarrow> calm v v' \<Longrightarrow> handed v'"
  unfolding handed_def calm_def by (metis (no_types))

lemma calm_trans: "calm v v1 \<Longrightarrow> calm v1 v2 \<Longrightarrow> calm v v2"
  by (auto simp: calm_def)

lemma calm_simps [simp]:
  "calm v v"
  "calm v (v\<lparr>run_q := q\<rparr>)" "calm v (v\<lparr>sleepq := sq\<rparr>)" "calm v (v\<lparr>this_thread := t\<rparr>)"
  "calm v (v\<lparr>cond_q := cq\<rparr>)" "calm v (v\<lparr>io_q := iq\<rparr>)" "calm v (v\<lparr>pollqs := pq, io_q := iq\<rparr>)"
  "st \<noteq> ST_LOCK_WAIT \<Longrightarrow> calm v (set_state t st v)"
  "calm v (set_flag t fl v)" "calm v (clear_flag t fl v)" "calm v (wake t v)" "calm v (ack_interrupt v)"
  by (auto simp: calm_def thread_ops ack_interrupt_def)

lemma calm_unsleep: "unsleep t v = Some v' \<Longrightarrow> calm v v'"
  by (auto simp: unsleep_def del_sleepq_def calm_def thread_ops split: if_splits)

lemma calm_sleepq: "opt_sleepq t d v = Some v' \<Longrightarrow> calm v v'"
  by (auto simp: opt_sleepq_def add_sleepq_def calm_def thread_ops split: if_splits)

lemma calm_schedule: "st_vp_schedule v = Some v' \<Longrightarrow> calm v v'"
  by (auto simp: st_vp_schedule_def resume_def calm_def thread_ops split: list.splits if_splits)

lemma calm_switch:
  assumes "switch_context (Some v) = Block v'"
  shows "calm v v'"
  using assms by (auto simp: switch_context_def intro: calm_schedule split: option.splits)

lemma switch_Block: "switch_context vo = Block v' \<Longrightarrow> \<exists>v. vo = Some v \<and> calm v v'"
  by (cases vo) (auto simp: switch_context_def calm_schedule split: option.splits)

lemma switch_not_Return [simp]: "switch_context vo \<noteq> Return r v"
  by (auto simp: switch_context_def split: option.splits)

lemma calm_signal: "cond_signal_walk b ts v = Some v' \<Longrightarrow> calm v v'"
proof (induction ts arbitrary: v)
  case (Cons t ts)
  show ?case
  proof (cases "state_of t v = ST_COND_WAIT")
    case True
    then obtain v1 where v1: "unsleep t v = Some v1" using Cons.prems by (cases "unsleep t v") auto
    have "calm v (wake t v1)" using calm_trans [OF calm_unsleep [OF v1], of "wake t v1"] by simp
    then show ?thesis using Cons True v1 by (auto intro: calm_trans split: if_splits)
  qed (use Cons in auto)
qed simp

lemma calm_interrupt: "st_thread_interrupt t v = Some v' \<Longrightarrow> calm v v'"
proof -
  assume a: "st_thread_interrupt t v = Some v'"
  have "calm v (wake t v1)" if "unsleep t (set_flag t FL_INTERRUPT v) = Some v1" for v1
    using calm_trans [OF calm_trans [OF _ calm_unsleep [OF that]], of v "wake t v1"] by simp
  then show ?thesis using a by (auto simp: st_thread_interrupt_def Let_def split: if_splits)
qed

lemma calm_create: "calm v (st_thread_create t None v)"
  by (simp add: calm_def st_thread_create_def add_runq_def new_thread_def)

lemma calm_exit:
  assumes "st_thread_exit k val v = Some (cs, Block v')" and "term_cv (thr v (this_thread v)) = None"
    and "state_of (this_thread v) v \<noteq> ST_LOCK_WAIT"
  shows "calm v v'"
proof -
  obtain cs' x where x: "st_thread_cleanup k ((thr v (this_thread v))\<lparr>retval := val\<rparr>) = (cs', x)" by fastforce
  let ?w = "v\<lparr>thr := (thr v)(this_thread v := x), active_count := active_count v - 1,
    live := live v - {this_thread v}\<rparr>"
  have f: "state x = state_of (this_thread v) v" "term_cv x = None" using cleanup_keeps [OF x] assms(2) by auto
  then have "calm v ?w" using assms(3) by (simp add: calm_def)
  moreover have "calm ?w v'" using assms(1) x f by (auto simp: st_thread_exit_def Let_def dest: calm_switch)
  ultimately show ?thesis by (rule calm_trans)
qed

text \<open>Every call and every resumption of a thread that owes nothing to a mutex is calm.\<close>

fun on_mutex :: "call \<Rightarrow> bool" where
  "on_mutex (CMutexNew l) = True"
| "on_mutex (CMutexDestroy l) = True"
| "on_mutex (CLock l) = True"
| "on_mutex (CUnlock l) = True"
| "on_mutex (CTrylock l) = True"
| "on_mutex _ = False"

fun calmly :: "vp \<Rightarrow> outcome \<Rightarrow> bool" where
  "calmly v (Return r v') = calm v v'"
| "calmly v (Block v') = calm v v'"
| "calmly v Abort = True"

lemma calmly_switch:
  assumes "\<And>v1. vo = Some v1 \<Longrightarrow> calm v v1"
  shows "calmly v (switch_context vo)"
  using assms by (cases "switch_context vo") (auto dest!: switch_Block intro: calm_trans)

lemma calmly_sleepq:
  assumes "calm v v1"
  shows "calmly v (switch_context (opt_sleepq t d v1))"
  by (rule calmly_switch) (use assms calm_sleepq in \<open>blast intro: calm_trans\<close>)

lemma calm_cond: "calm v (set_state t ST_COND_WAIT v\<lparr>cond_q := cq\<rparr>)"
  by (simp add: calm_def thread_ops)

lemma calm_call:
  assumes "sys_inv s" and "\<not> on_mutex c"
  shows "calmly (cpu s) (fst (exec c (evs s) (cpu s)))"
proof (cases c)
  case (CSleep d)
  have "calmly v (switch_context (if d \<noteq> ST_UTIME_NO_TIMEOUT then add_sleepq t d (set_state t ST_SLEEPING v)
      else Some (set_state t ST_SUSPENDED v)))" for t v
    using calmly_sleepq [of v "set_state t ST_SLEEPING v" t d]
      calmly_switch [of "Some (set_state t ST_SUSPENDED v)" v] by (auto simp: opt_sleepq_def)
  then show ?thesis using CSleep by (simp add: st_usleep_def Let_def)
next
  case (CCondWait k d)
  have "calmly v (switch_context (opt_sleepq t d (set_state t ST_COND_WAIT v\<lparr>cond_q := cq\<rparr>)))" for t v cq
    by (rule calmly_sleepq) (rule calm_cond)
  then show ?thesis using CCondWait by (simp add: st_cond_timedwait_def Let_def split: option.splits)
next
  case (CPoll ps d)
  have "calmly v (switch_context (map_option (set_state t ST_IO_WAIT) (opt_sleepq t d (v\<lparr>pollqs := pq, io_q := iq\<rparr>))))"
    for t v pq iq
  proof (rule calmly_switch)
    fix v1 assume "map_option (set_state t ST_IO_WAIT) (opt_sleepq t d (v\<lparr>pollqs := pq, io_q := iq\<rparr>)) = Some v1"
    then obtain v0 where v0: "opt_sleepq t d (v\<lparr>pollqs := pq, io_q := iq\<rparr>) = Some v0" "v1 = set_state t ST_IO_WAIT v0"
      by auto
    have "calm v v0" using calm_trans [OF _ calm_sleepq [OF v0(1)], of v] by simp
    then show "calm v v1" using calm_trans [of v v0 v1] v0(2) by simp
  qed
  then show ?thesis using CPoll by (auto simp: st_poll_def Let_def split: option.splits rv.splits)
next
  case (CExit k val)
  have t: "this_thread (cpu s) \<in> live (cpu s)" "state_of (this_thread (cpu s)) (cpu s) = ST_RUNNING"
    using assms(1) by (auto simp: sys_inv_def wf_vp_def)
  have "calmly (cpu s) r" if "st_thread_exit k val (cpu s) = Some (cs, r)" for cs r
    using that calm_exit [of k val "cpu s" cs] pcs_okD(9) [OF sys_invD(2) [OF assms(1)] t(1)] t(2)
    by (cases r) (auto simp: st_thread_exit_def Let_def split: prod.splits option.splits)
  then show ?thesis using CExit by (auto split: option.splits)
qed (use assms(2) in \<open>auto simp: ret_def ret_rv_def st_cond_new_def st_cond_destroy_def st_cond_signal_def
    st_cond_broadcast_def st_cond_signal'_def calm_create calm_signal calm_interrupt split: option.splits prod.splits\<close>)

lemma handed_set_mutex:
  assumes "handed v" and "owner m = None \<Longrightarrow> \<forall>t \<in> set (lock_q m). state_of t v \<noteq> ST_LOCK_WAIT"
  shows "handed (set_mutex l m v)"
  using assms by (auto simp: handed_def set_mutex_def)

lemma first_waiter_None: "first_waiter q v = None \<Longrightarrow> \<forall>t \<in> set q. state_of t v \<noteq> ST_LOCK_WAIT"
  by (induction q) (auto split: if_splits)

lemma handed_call:
  assumes "sys_inv s" and "user_turn s" and "pc s (current s) = User" and "handed (cpu s)" and "on_mutex c"
  shows "case fst (exec c (evs s) (cpu s)) of Return r v' \<Rightarrow> handed v' | Block v' \<Rightarrow> handed v' | Abort \<Rightarrow> True"
proof (cases c)
  case (CLock l)
  show ?thesis
  proof (cases "interrupted (cpu s) \<or> mutexes (cpu s) l = None")
    case True
    then show ?thesis using CLock assms(4) handed_calm [OF assms(4), of "ack_interrupt (cpu s)"]
      by (auto simp: st_mutex_lock_def Let_def)
  next
    case False
    then obtain m where m: "mutexes (cpu s) l = Some m" by auto
    let ?me = "current s"
    let ?w = "set_mutex l (m\<lparr>lock_q := lock_q m @ [?me]\<rparr>) (set_state ?me ST_LOCK_WAIT (cpu s))"
    have n: "?me \<notin> set (lock_q x)" if "mutexes (cpu s) k = Some x" for k x
      using pcs_okD(3) [OF sys_invD(2) [OF assms(1)], of k] that assms(3) by (auto simp: queue_ok_def)
    have w: "handed ?w" if "owner m \<noteq> None"
      using assms(4) that n by (auto simp: handed_def set_mutex_def thread_ops)
    have "handed v'" if "switch_context (Some ?w) = Block v'" "owner m \<noteq> None" for v'
      using handed_calm [OF w] calm_switch that by blast
    then show ?thesis using CLock False m assms(4)
      by (auto simp: st_mutex_lock_def Let_def current_def intro!: handed_set_mutex split: outcome.splits)
  qed
next
  case (CUnlock l)
  have "handed (wake t (set_mutex l (m\<lparr>owner := Some t\<rparr>) (cpu s)))" for t m
    by (rule handed_calm [OF handed_set_mutex [OF assms(4), of "m\<lparr>owner := Some t\<rparr>" l]]) simp_all
  then show ?thesis using CUnlock assms(4)
    by (auto simp: st_mutex_unlock_def ret_rv_def dest: first_waiter_None intro!: handed_set_mutex split: option.splits if_splits)
next
  case (CTrylock l)
  then show ?thesis using assms(4)
    by (auto simp: st_mutex_trylock_def ret_rv_def intro!: handed_set_mutex split: option.splits)
next
  case (CMutexNew l)
  then show ?thesis using assms(4) by (simp add: st_mutex_new_def handed_set_mutex)
next
  case (CMutexDestroy l)
  then show ?thesis using assms(4)
    by (auto simp: st_mutex_destroy_def ret_rv_def handed_def split: option.splits)
qed (use assms(5) in simp_all)

lemma handed_resume:
  assumes "handed v" and "resumed p e v = Some (r, e', v')"
  shows "handed v'"
proof (cases p)
  case (InCond c)
  then have "calm v v'" using assms(2)
    by (auto simp: st_cond_timedwait_end_def Let_def calm_def thread_ops ack_interrupt_def interrupted_def split: if_splits)
  then show ?thesis by (rule handed_calm [OF assms(1)])
next
  case (InLock l)
  then obtain m where m: "mutexes v l = Some m" using assms(2) by (auto simp: st_mutex_lock_end_def split: option.splits)
  let ?w = "set_mutex l (m\<lparr>lock_q := remove1 (this_thread v) (lock_q m)\<rparr>) v"
  have "handed ?w" using assms(1) m by (intro handed_set_mutex) (auto simp: handed_def dest: in_set_remove1 [THEN iffD1] notin_set_remove1)
  then show ?thesis using InLock m assms(2) handed_calm [of ?w "ack_interrupt ?w"]
    by (auto simp: st_mutex_lock_end_def Let_def split: if_splits)
next
  case InPoll
  then have "calm v v'" using assms(2)
    by (auto simp: st_poll_end_def Let_def calm_def thread_ops ack_interrupt_def interrupted_def split: if_splits option.splits)
  then show ?thesis by (rule handed_calm [OF assms(1)])
qed (use assms handed_calm [OF assms(1), of "ack_interrupt v"] in \<open>auto simp: st_usleep_end_def split: if_splits\<close>)

lemma handed_idle:
  assumes "sys_inv s" and "\<not> user_turn s" and "answer_ok a (evs s) (cpu s)" and "handed (cpu s)"
    and "st_idle_round a now wall (evs s) (cpu s) = Some (e', Block v')"
  shows "handed v'"
proof -
  note i = sys_invD [OF assms(1)]
  obtain e1 v1 w where d: "dispatch a (evs s) (cpu s) = Some (e1, v1)" "wf_vp v1" "walked (io_q (cpu s)) w (cpu s) v1"
    using es_dispatch_ok [OF i(1) idle_ioq [OF assms(1,2)] i(3) assms(3)] by blast
  have c1: "calm (cpu s) v1" using d(3) by (auto simp: walked_def calm_def split: if_splits)
  obtain v2 where c: "st_vp_check_clock now wall v1 = Some v2" "ticked now v1 v2"
    using check_clock_ok [of v1 now wall] d(2) by (auto simp: wf_vp_def)
  have "calm v1 v2" using c(2) by (auto simp: ticked_def calm_def awake_def split: if_splits)
  then have "calm (cpu s) (set_state (this_thread (cpu s)) ST_RUNNABLE v2)"
    using calm_trans [OF calm_trans [OF c1]] by simp
  moreover have "calm (set_state (this_thread (cpu s)) ST_RUNNABLE v2) v'"
    using assms(5) d(1) c(1) by (auto simp: st_idle_round_def dest: calm_switch split: if_splits)
  ultimately show ?thesis using handed_calm [OF assms(4)] calm_trans by blast
qed

lemma handed_step: "step s s' \<Longrightarrow> sys_inv s \<Longrightarrow> handed (cpu s) \<Longrightarrow> handed (cpu s')"
proof (induction rule: step.induct)
  case (step_return s c r v' e')
  then show ?case using calm_call [of s c] handed_call [of s c] handed_calm [of "cpu s" v']
    by (cases "on_mutex c") auto
next
  case (step_block s c v' e')
  then show ?case using calm_call [of s c] handed_call [of s c] handed_calm [of "cpu s" v']
    by (cases "on_mutex c") auto
next
  case (step_resume s r e' v')
  then show ?case using handed_resume by simp
next
  case (step_idle s a now wall e' v')
  then show ?case using handed_idle by simp
qed

lemma reachable_handed: "reachable s0 s \<Longrightarrow> sys_inv s0 \<Longrightarrow> handed (cpu s0) \<Longrightarrow> handed (cpu s)"
  by (induction rule: reachable.induct) (auto intro: handed_step reachable_inv)

lemma booted_handed: "i \<noteq> p \<Longrightarrow> handed (cpu (booted i p now e))"
  by (simp add: handed_def booted_def st_init_def vp_zero_def st_thread_create_def new_thread_def add_runq_def upd_def)

end
