(* ===== verification/Netfd.thy ===== *)
theory Netfd
  imports Eventsys St_Io
begin

text \<open>
  Descriptor objects and the remaining calls of \<^verbatim>\<open>3rdpart/st-1.9/io.c\<close>: start-up limits, the free
  list of \<open>_st_netfd_t\<close>, private data, \<open>st_accept\<close>, \<open>st_connect\<close>, \<open>st_open\<close> and the one-shot calls
  (\<open>st_readv\<close>, \<open>st_recvfrom\<close>, \<open>st_sendto\<close>, \<open>st_recvmsg\<close>, \<open>st_sendmsg\<close>), for the Linux configuration
  of \<^verbatim>\<open>md.h\<close>. A kernel call is an argument: a function on a kernel state that gives the result or
  the error number. A thread that waits for ever is \<open>None\<close>.
\<close>

section \<open>Start-up\<close>

text \<open>
  \<open>lim\<close> is the hard limit \<open>getrlimit\<close> reports, \<open>None\<close> when it fails; the result carries the new value of
  \<open>_st_osfd_limit\<close>, the limit cut to an \<open>int\<close>.
\<close>

definition st_io_init :: "bool \<Rightarrow> 64 word option \<Rightarrow> bool \<Rightarrow> evsys \<Rightarrow> int \<Rightarrow> int \<times> int" where
  "st_io_init sig_ok lim set_ok e osfd_limit =
     (if \<not> sig_ok then (-1, osfd_limit)
      else case lim of
        None \<Rightarrow> (-1, osfd_limit)
      | Some rlim_max \<Rightarrow>
          (let fdlim = fd_getlimit e;
               m = (if fdlim > 0 \<and> (of_int fdlim :: 64 word) < rlim_max then of_int fdlim else rlim_max)
           in if \<not> set_ok then (-1, osfd_limit) else (0, sint (ucast m :: 32 word))))"

section \<open>Descriptor objects\<close>

text \<open>
  An object by its address; pointers to user data and destructors are numbers, 0 is \<open>NULL\<close>. The table
  has every object ever allocated, the free list in order, the descriptors the process has open and
  the destructor calls made so far. \<open>aux_data\<close> is not used on Linux.
\<close>

record netfd =
  osfd :: int
  inuse :: bool
  nf_private :: nat
  nf_destructor :: nat

record nftab =
  objs :: "nat \<rightharpoonup> netfd"
  freelist :: "nat list"
  os_open :: "int set"
  dtor_calls :: "(nat \<times> nat) list"

definition st_netfd_free :: "nat \<Rightarrow> nftab \<Rightarrow> nftab option" where
  "st_netfd_free a t =
     (case objs t a of
        None \<Rightarrow> None
      | Some x \<Rightarrow>
          Some (if \<not> inuse x then t
                else t\<lparr>dtor_calls := dtor_calls t @
                         (if nf_private x \<noteq> 0 \<and> nf_destructor x \<noteq> 0 then [(nf_destructor x, nf_private x)] else []),
                       objs := (objs t)(a \<mapsto> x\<lparr>inuse := False, nf_private := 0, nf_destructor := 0\<rparr>),
                       freelist := a # freelist t\<rparr>))"

text \<open>
  \<open>mem\<close> is the address \<open>calloc\<close> returns; \<open>ioctl_ok\<close> and \<open>fcntl_ok\<close> are the results of the two ways
  to make the descriptor non-blocking. \<open>netfd_setup\<close> is the part after the object has been found.
\<close>

definition netfd_zero :: netfd where
  "netfd_zero = \<lparr>osfd = 0, inuse = False, nf_private = 0, nf_destructor = 0\<rparr>"

definition netfd_setup :: "int \<Rightarrow> bool \<Rightarrow> bool \<Rightarrow> bool \<Rightarrow> bool \<Rightarrow> nat \<Rightarrow> netfd \<Rightarrow> nftab \<Rightarrow> (nat option \<times> nftab) option" where
  "netfd_setup f nonblock is_socket ioctl_ok fcntl_ok a x t =
     (let t1 = t\<lparr>objs := (objs t)(a \<mapsto> x\<lparr>osfd := f, inuse := True\<rparr>)\<rparr>
      in if \<not> nonblock \<or> is_socket \<and> ioctl_ok \<or> fcntl_ok then Some (Some a, t1)
         else map_option (Pair None) (st_netfd_free a t1))"

definition st_netfd_new ::
  "int \<Rightarrow> bool \<Rightarrow> bool \<Rightarrow> nat option \<Rightarrow> bool \<Rightarrow> bool \<Rightarrow> evsys \<Rightarrow> nftab \<Rightarrow> (nat option \<times> evsys \<times> nftab) option"
where
  "st_netfd_new f nonblock is_socket mem ioctl_ok fcntl_ok e t =
     (case fd_new f e of
        (Fail er, e') \<Rightarrow> Some (None, e', t)
      | (Ret r, e') \<Rightarrow>
          map_option (\<lambda>(a, t'). (a, e', t'))
            (case freelist t of
               a # q \<Rightarrow>
                 (case objs t a of
                    None \<Rightarrow> None
                  | Some x \<Rightarrow> netfd_setup f nonblock is_socket ioctl_ok fcntl_ok a x (t\<lparr>freelist := q\<rparr>))
             | [] \<Rightarrow>
                 (case mem of
                    None \<Rightarrow> Some (None, t)
                  | Some a \<Rightarrow> netfd_setup f nonblock is_socket ioctl_ok fcntl_ok a netfd_zero t)))"

definition st_netfd_open :: "int \<Rightarrow> nat option \<Rightarrow> bool \<Rightarrow> bool \<Rightarrow> evsys \<Rightarrow> nftab \<Rightarrow> (nat option \<times> evsys \<times> nftab) option" where
  "st_netfd_open f = st_netfd_new f True False"

definition st_netfd_open_socket ::
  "int \<Rightarrow> nat option \<Rightarrow> bool \<Rightarrow> bool \<Rightarrow> evsys \<Rightarrow> nftab \<Rightarrow> (nat option \<times> evsys \<times> nftab) option"
where
  "st_netfd_open_socket f = st_netfd_new f True True"

text \<open>\<open>rc\<close> is what \<open>close\<close> returns.\<close>

definition st_netfd_close :: "nat \<Rightarrow> rv \<Rightarrow> evsys \<Rightarrow> nftab \<Rightarrow> (rv \<times> nftab) option" where
  "st_netfd_close a rc e t =
     (case objs t a of
        None \<Rightarrow> None
      | Some x \<Rightarrow>
          (case fd_close (osfd x) e of
             None \<Rightarrow> None
           | Some (Fail er) \<Rightarrow> Some (Fail er, t)
           | Some (Ret r) \<Rightarrow>
               map_option (\<lambda>t'. (rc, t'\<lparr>os_open := os_open t' - {osfd x}\<rparr>)) (st_netfd_free a t)))"

definition st_netfd_fileno :: "nat \<Rightarrow> nftab \<Rightarrow> int option" where
  "st_netfd_fileno a t = map_option osfd (objs t a)"

definition st_netfd_setspecific :: "nat \<Rightarrow> nat \<Rightarrow> nat \<Rightarrow> nftab \<Rightarrow> nftab option" where
  "st_netfd_setspecific a val dtor t =
     map_option (\<lambda>x. t\<lparr>dtor_calls := dtor_calls t @
            (if val \<noteq> nf_private x \<and> nf_private x \<noteq> 0 \<and> nf_destructor x \<noteq> 0
             then [(nf_destructor x, nf_private x)] else []),
          objs := (objs t)(a \<mapsto> x\<lparr>nf_private := val, nf_destructor := dtor\<rparr>)\<rparr>) (objs t a)"

definition st_netfd_getspecific :: "nat \<Rightarrow> nftab \<Rightarrow> nat option" where
  "st_netfd_getspecific a t = map_option nf_private (objs t a)"

section \<open>Calls that are retried\<close>

text \<open>\<open>st_netfd_poll\<close> with the answer of \<open>st_poll\<close>.\<close>

definition netfd_poll :: "poll_ans \<Rightarrow> errno + unit" where
  "netfd_poll ans =
     (case ans of
        PollErr e \<Rightarrow> Inl e
      | PollRev r \<Rightarrow> if r = 0 then Inl ETIME else if r AND POLLNVAL \<noteq> 0 then Inl EBADF else Inr ())"

text \<open>
  The loop all of these calls share: \<open>EINTR\<close> is retried at once, \<open>EAGAIN\<close> after the descriptor is
  ready (\<open>how\<close> is \<open>POLLIN\<close> or \<open>POLLOUT\<close>), any other error is returned.
\<close>

partial_function (option) io_retry ::
  "('k \<Rightarrow> (errno + 'a) \<times> 'k) \<Rightarrow> (16 word \<Rightarrow> 'k \<Rightarrow> poll_ans \<times> 'k) \<Rightarrow> 16 word \<Rightarrow> 'k
     \<Rightarrow> ((errno + 'a) \<times> 'k) option"
where
  "io_retry call poll how k =
     (case call k of
        (Inr x, k1) \<Rightarrow> Some (Inr x, k1)
      | (Inl er, k1) \<Rightarrow>
          (if er = EINTR then io_retry call poll how k1
           else if er \<noteq> EAGAIN then Some (Inl er, k1)
           else case poll how k1 of
                  (ans, k2) \<Rightarrow>
                    (case netfd_poll ans of
                       Inl er2 \<Rightarrow> Some (Inl er2, k2)
                     | Inr _ \<Rightarrow> io_retry call poll how k2)))"

type_synonym ('k, 'a) kcall = "'k \<Rightarrow> (errno + 'a) \<times> 'k"
type_synonym 'k kpoll = "16 word \<Rightarrow> 'k \<Rightarrow> poll_ans \<times> 'k"

definition st_readv :: "('k, 'a) kcall \<Rightarrow> 'k kpoll \<Rightarrow> 'k \<Rightarrow> ((errno + 'a) \<times> 'k) option" where
  "st_readv readv poll = io_retry readv poll POLLIN"

definition st_recvfrom :: "('k, 'a) kcall \<Rightarrow> 'k kpoll \<Rightarrow> 'k \<Rightarrow> ((errno + 'a) \<times> 'k) option" where
  "st_recvfrom recvfrom poll = io_retry recvfrom poll POLLIN"

definition st_sendto :: "('k, 'a) kcall \<Rightarrow> 'k kpoll \<Rightarrow> 'k \<Rightarrow> ((errno + 'a) \<times> 'k) option" where
  "st_sendto sendto poll = io_retry sendto poll POLLOUT"

definition st_recvmsg :: "('k, 'a) kcall \<Rightarrow> 'k kpoll \<Rightarrow> 'k \<Rightarrow> ((errno + 'a) \<times> 'k) option" where
  "st_recvmsg recvmsg poll = io_retry recvmsg poll POLLIN"

definition st_sendmsg :: "('k, 'a) kcall \<Rightarrow> 'k kpoll \<Rightarrow> 'k \<Rightarrow> ((errno + 'a) \<times> 'k) option" where
  "st_sendmsg sendmsg poll = io_retry sendmsg poll POLLOUT"

section \<open>New connections\<close>

text \<open>The new descriptor is closed again when no object can be made for it.\<close>

definition adopt ::
  "int \<Rightarrow> bool \<Rightarrow> bool \<Rightarrow> nat option \<Rightarrow> bool \<Rightarrow> bool \<Rightarrow> evsys \<Rightarrow> nftab \<Rightarrow> (nat option \<times> evsys \<times> nftab) option"
where
  "adopt f nonblock is_socket mem ioctl_ok fcntl_ok e t =
     map_option (\<lambda>(a, e', t'). (a, e', if a = None then t'\<lparr>os_open := os_open t' - {f}\<rparr> else t'))
       (st_netfd_new f nonblock is_socket mem ioctl_ok fcntl_ok e (t\<lparr>os_open := insert f (os_open t)\<rparr>))"

definition st_accept ::
  "('k, int) kcall \<Rightarrow> 'k kpoll \<Rightarrow> nat option \<Rightarrow> bool \<Rightarrow> bool \<Rightarrow> evsys \<Rightarrow> nftab \<Rightarrow> 'k
     \<Rightarrow> (nat option \<times> evsys \<times> nftab \<times> 'k) option"
where
  "st_accept acc poll mem ioctl_ok fcntl_ok e t k =
     (case io_retry acc poll POLLIN k of
        None \<Rightarrow> None
      | Some (Inl er, k') \<Rightarrow> Some (None, e, t, k')
      | Some (Inr f, k') \<Rightarrow>
          map_option (\<lambda>(a, e', t'). (a, e', t', k')) (adopt f True True mem ioctl_ok fcntl_ok e t))"

text \<open>\<open>st_open\<close> retries \<open>EINTR\<close> only; the object is made without touching the descriptor.\<close>

partial_function (option) open_retry :: "('k, int) kcall \<Rightarrow> 'k \<Rightarrow> ((errno + int) \<times> 'k) option" where
  "open_retry opn k =
     (case opn k of
        (Inr f, k1) \<Rightarrow> Some (Inr f, k1)
      | (Inl er, k1) \<Rightarrow> (if er \<noteq> EINTR then Some (Inl er, k1) else open_retry opn k1))"

definition st_open :: "('k, int) kcall \<Rightarrow> nat option \<Rightarrow> evsys \<Rightarrow> nftab \<Rightarrow> 'k \<Rightarrow> (nat option \<times> evsys \<times> nftab \<times> 'k) option" where
  "st_open opn mem e t k =
     (case open_retry opn k of
        None \<Rightarrow> None
      | Some (Inl er, k') \<Rightarrow> Some (None, e, t, k')
      | Some (Inr f, k') \<Rightarrow>
          map_option (\<lambda>(a, e', t'). (a, e', t', k')) (adopt f False False mem True True e t))"

text \<open>
  \<open>st_connect\<close>: \<open>interrupted\<close> is whether a \<open>connect\<close> has failed with \<open>EINTR\<close> before; \<open>so_error\<close> is
  \<open>getsockopt(SO_ERROR)\<close>, \<open>None\<close> for an established connection.
\<close>

partial_function (option) st_connect_loop ::
  "('k, unit) kcall \<Rightarrow> 'k kpoll \<Rightarrow> ('k, errno option) kcall \<Rightarrow> bool \<Rightarrow> 'k \<Rightarrow> ((errno + unit) \<times> 'k) option"
where
  "st_connect_loop conn poll so_error interrupted k =
     (case conn k of
        (Inr _, k1) \<Rightarrow> Some (Inr (), k1)
      | (Inl er, k1) \<Rightarrow>
          (if er = EINTR then st_connect_loop conn poll so_error True k1
           else if er \<noteq> EINPROGRESS \<and> (er \<noteq> EADDRINUSE \<or> \<not> interrupted) then Some (Inl er, k1)
           else case poll POLLOUT k1 of
                  (ans, k2) \<Rightarrow>
                    (case netfd_poll ans of
                       Inl er2 \<Rightarrow> Some (Inl er2, k2)
                     | Inr _ \<Rightarrow>
                         (case so_error k2 of
                            (Inl er3, k3) \<Rightarrow> Some (Inl er3, k3)
                          | (Inr (Some er3), k3) \<Rightarrow> Some (Inl er3, k3)
                          | (Inr None, k3) \<Rightarrow> Some (Inr (), k3)))))"

definition st_connect ::
  "('k, unit) kcall \<Rightarrow> 'k kpoll \<Rightarrow> ('k, errno option) kcall \<Rightarrow> 'k \<Rightarrow> ((errno + unit) \<times> 'k) option"
where
  "st_connect conn poll so_error = st_connect_loop conn poll so_error False"

section \<open>The table of descriptor objects\<close>

text \<open>The objects in use, as the map a client sees.\<close>

definition in_use :: "nftab \<Rightarrow> nat \<rightharpoonup> netfd" where
  "in_use t a = (case objs t a of None \<Rightarrow> None | Some x \<Rightarrow> if inuse x then Some x else None)"

definition nf_inv :: "nftab \<Rightarrow> bool" where
  "nf_inv t \<longleftrightarrow> distinct (freelist t)
     \<and> (\<forall>a. a \<in> set (freelist t) \<longleftrightarrow> (\<exists>x. objs t a = Some x \<and> \<not> inuse x))
     \<and> (\<forall>a x. objs t a = Some x \<longrightarrow> \<not> inuse x \<longrightarrow> nf_private x = 0 \<and> nf_destructor x = 0)"

definition fresh_object :: "int \<Rightarrow> netfd" where
  "fresh_object f = \<lparr>osfd = f, inuse = True, nf_private = 0, nf_destructor = 0\<rparr>"

lemma nf_invD:
  assumes "nf_inv t"
  shows "distinct (freelist t)" and "a \<in> set (freelist t) \<longleftrightarrow> (\<exists>x. objs t a = Some x \<and> \<not> inuse x)"
    and "objs t a = Some x \<Longrightarrow> \<not> inuse x \<Longrightarrow> nf_private x = 0 \<and> nf_destructor x = 0"
  using assms unfolding nf_inv_def by blast+

lemma free_ok:
  assumes "nf_inv t" and "in_use t a = Some x"
  shows "\<exists>t'. st_netfd_free a t = Some t' \<and> nf_inv t' \<and> in_use t' = (in_use t)(a := None)
    \<and> os_open t' = os_open t
    \<and> dtor_calls t' = dtor_calls t @ (if nf_private x \<noteq> 0 \<and> nf_destructor x \<noteq> 0 then [(nf_destructor x, nf_private x)] else [])"
  using assms by (auto simp: st_netfd_free_def nf_inv_def in_use_def fun_eq_iff split: option.splits if_splits)

lemma setup_ok:
  assumes "distinct (a # freelist t)" and "\<And>b. b \<noteq> a \<Longrightarrow> b \<in> set (freelist t) \<longleftrightarrow> (\<exists>y. objs t b = Some y \<and> \<not> inuse y)"
    and "\<And>b y. b \<noteq> a \<Longrightarrow> objs t b = Some y \<Longrightarrow> \<not> inuse y \<Longrightarrow> nf_private y = 0 \<and> nf_destructor y = 0"
    and "nf_private x = 0" and "nf_destructor x = 0" and "in_use t a = None"
  shows "\<exists>r t'. netfd_setup f nb so ic fc a x t = Some (r, t') \<and> nf_inv t' \<and> os_open t' = os_open t
    \<and> dtor_calls t' = dtor_calls t
    \<and> (case r of None \<Rightarrow> in_use t' = in_use t | Some b \<Rightarrow> b = a \<and> in_use t' = (in_use t)(a \<mapsto> fresh_object f))"
proof -
  let ?t = "t\<lparr>objs := (objs t)(a \<mapsto> x\<lparr>osfd := f, inuse := True\<rparr>)\<rparr>"
  have i: "nf_inv ?t" using assms(1-3) by (auto simp: nf_inv_def)
  have x: "x\<lparr>osfd := f, inuse := True\<rparr> = fresh_object f" using assms(4,5) by (cases x) (simp add: fresh_object_def)
  have u: "in_use ?t = (in_use t)(a \<mapsto> fresh_object f)"
    using x by (auto simp: in_use_def fun_eq_iff fresh_object_def)
  show ?thesis
  proof (cases "\<not> nb \<or> so \<and> ic \<or> fc")
    case True
    then show ?thesis using i u by (simp add: netfd_setup_def Let_def)
  next
    case False
    have a: "in_use ?t a = Some (fresh_object f)" using u by simp
    obtain t' where "st_netfd_free a ?t = Some t'" "nf_inv t'" "in_use t' = in_use t" "os_open t' = os_open t"
      "dtor_calls t' = dtor_calls t"
      using free_ok [OF i a] u assms(6) by (auto simp: fresh_object_def fun_upd_idem)
    then show ?thesis using False by (auto simp: netfd_setup_def Let_def)
  qed
qed

lemma new_ok:
  assumes "nf_inv t" and "\<And>a. mem = Some a \<Longrightarrow> objs t a = None"
  shows "\<exists>r e' t'. st_netfd_new f nb so mem ic fc e t = Some (r, e', t') \<and> nf_inv t' \<and> os_open t' = os_open t
    \<and> dtor_calls t' = dtor_calls t
    \<and> (case r of None \<Rightarrow> in_use t' = in_use t
        | Some a \<Rightarrow> in_use t a = None \<and> in_use t' = (in_use t)(a \<mapsto> fresh_object f))"
proof (cases "fd_new f e")
  case (Pair r0 e')
  show ?thesis
  proof (cases r0)
    case (Fail er)
    then show ?thesis using Pair assms(1) by (simp add: st_netfd_new_def)
  next
    case (Ret r)
    show ?thesis
    proof (cases "freelist t")
      case Nil
      show ?thesis
      proof (cases mem)
        case None
        then show ?thesis using Pair Ret Nil assms(1) by (simp add: st_netfd_new_def)
      next
        case (Some a)
        have n: "in_use t a = None" using assms(2) [OF Some] by (simp add: in_use_def)
        obtain r' t' where "netfd_setup f nb so ic fc a netfd_zero t = Some (r', t')" "nf_inv t'" "os_open t' = os_open t"
          "dtor_calls t' = dtor_calls t"
          "case r' of None \<Rightarrow> in_use t' = in_use t | Some b \<Rightarrow> b = a \<and> in_use t' = (in_use t)(a \<mapsto> fresh_object f)"
          using setup_ok [of a t netfd_zero f nb so ic fc] assms(1) n Nil unfolding nf_inv_def
          by (auto simp: netfd_zero_def)
        then show ?thesis using Pair Ret Nil Some n by (auto simp: st_netfd_new_def split: option.splits)
      qed
    next
      case (Cons a q)
      then have "a \<in> set (freelist t)" by simp
      then obtain x where x: "objs t a = Some x" "\<not> inuse x" "nf_private x = 0" "nf_destructor x = 0"
        using assms(1) unfolding nf_inv_def by blast
      let ?t = "t\<lparr>freelist := q\<rparr>"
      have n: "in_use t a = None" "in_use ?t = in_use t" using x by (simp_all add: in_use_def fun_eq_iff)
      have q: "b \<in> set q \<longleftrightarrow> (\<exists>y. objs t b = Some y \<and> \<not> inuse y)" if "b \<noteq> a" for b
        using nf_invD(2) [OF assms(1), of b] Cons that by simp
      obtain r' t' where "netfd_setup f nb so ic fc a x ?t = Some (r', t')" "nf_inv t'" "os_open t' = os_open t"
        "dtor_calls t' = dtor_calls t"
        "case r' of None \<Rightarrow> in_use t' = in_use t | Some b \<Rightarrow> b = a \<and> in_use t' = (in_use t)(a \<mapsto> fresh_object f)"
        using setup_ok [of a ?t x f nb so ic fc] nf_invD(1) [OF assms(1)] nf_invD(3) [OF assms(1)] q n(1) x Cons
        unfolding n(2) by auto
      then show ?thesis using Pair Ret Cons x n by (auto simp: st_netfd_new_def split: option.splits)
    qed
  qed
qed

text \<open>
  What the rest of the library relies on: an allocation gives an object nobody holds and leaves the
  others alone, or changes nothing; releasing it makes it available again.
\<close>

locale handle_pool =
  fixes new :: "'v \<Rightarrow> 'p \<Rightarrow> 't \<Rightarrow> ('h option \<times> 't) option"
    and free :: "'h \<Rightarrow> 't \<Rightarrow> 't option"
    and held :: "'t \<Rightarrow> 'h \<rightharpoonup> 'o"
    and fresh :: "'v \<Rightarrow> 'o"
    and inv :: "'t \<Rightarrow> bool"
    and allowed :: "'p \<Rightarrow> 't \<Rightarrow> bool"
  assumes new_law: "inv t \<Longrightarrow> allowed p t \<Longrightarrow> \<exists>r t'. new v p t = Some (r, t') \<and> inv t'
      \<and> (case r of None \<Rightarrow> held t' = held t | Some h \<Rightarrow> held t h = None \<and> held t' = (held t)(h \<mapsto> fresh v))"
    and free_law: "inv t \<Longrightarrow> held t h \<noteq> None \<Longrightarrow> \<exists>t'. free h t = Some t' \<and> inv t' \<and> held t' = (held t)(h := None)"
begin

lemma new_free:
  assumes "inv t" and "allowed p t" and "new v p t = Some (Some h, t1)"
  shows "\<exists>t2. free h t1 = Some t2 \<and> inv t2 \<and> held t2 = held t"
proof -
  have "inv t1" "held t h = None" "held t1 = (held t)(h \<mapsto> fresh v)"
    using new_law [OF assms(1,2), of v] assms(3) by auto
  then show ?thesis using free_law [of t1 h] by (auto simp: fun_upd_idem)
qed

lemma new_distinct:
  assumes "inv t" and "allowed p t" and "new v p t = Some (Some h, t1)" and "allowed p' t1"
    and "new v' p' t1 = Some (Some h', t2)"
  shows "h' \<noteq> h \<and> held t2 h = Some (fresh v)"
  using new_law [OF assms(1,2), of v] new_law [of t1 p' v'] assms(3-5) by auto

end

text \<open>The parameters of one allocation: the event system, the memory and the two kernel answers.\<close>

definition pool_new :: "int \<Rightarrow> evsys \<times> nat option \<times> bool \<times> bool \<Rightarrow> nftab \<Rightarrow> (nat option \<times> nftab) option" where
  "pool_new f = (\<lambda>(e, mem, ic, fc) t. map_option (\<lambda>(a, e', t'). (a, t')) (st_netfd_open_socket f mem ic fc e t))"

definition pool_allowed :: "evsys \<times> nat option \<times> bool \<times> bool \<Rightarrow> nftab \<Rightarrow> bool" where
  "pool_allowed = (\<lambda>(e, mem, ic, fc) t. \<forall>a. mem = Some a \<longrightarrow> objs t a = None)"

interpretation nf: handle_pool pool_new st_netfd_free in_use fresh_object nf_inv pool_allowed
proof unfold_locales
  fix t p f assume a: "nf_inv t" "pool_allowed p t"
  obtain e mem ic fc where p: "p = (e, mem, ic, fc)" by (cases p)
  show "\<exists>r t'. pool_new f p t = Some (r, t') \<and> nf_inv t'
      \<and> (case r of None \<Rightarrow> in_use t' = in_use t
          | Some h \<Rightarrow> in_use t h = None \<and> in_use t' = (in_use t)(h \<mapsto> fresh_object f))"
    using new_ok [OF a(1), of mem f True True ic fc e] a(2)
    by (auto simp: p pool_allowed_def pool_new_def st_netfd_open_socket_def)
next
  fix t h assume "nf_inv t" "in_use t h \<noteq> None"
  then show "\<exists>t'. st_netfd_free h t = Some t' \<and> nf_inv t' \<and> in_use t' = (in_use t)(h := None)"
    using free_ok by blast
qed

section \<open>Descriptors are not leaked\<close>

text \<open>Every open descriptor belongs to exactly one object in use.\<close>

definition fd_map :: "nftab \<Rightarrow> nat \<rightharpoonup> int" where
  "fd_map t a = map_option osfd (in_use t a)"

definition owns_all :: "nftab \<Rightarrow> bool" where
  "owns_all t \<longleftrightarrow> ran (fd_map t) = os_open t \<and> inj_on (fd_map t) (dom (fd_map t))"

lemma owns_cong: "in_use t' = in_use t \<Longrightarrow> os_open t' = os_open t \<Longrightarrow> owns_all t' = owns_all t"
  by (simp add: owns_all_def fd_map_def [abs_def])

lemma owns_insert:
  assumes "owns_all t" and "in_use t a = None" and "f \<notin> os_open t"
    and "in_use t' = (in_use t)(a \<mapsto> fresh_object f)" and "os_open t' = insert f (os_open t)"
  shows "owns_all t'"
proof -
  have m: "fd_map t' = (fd_map t)(a \<mapsto> f)" "fd_map t a = None"
    using assms(2,4) by (auto simp: fd_map_def fun_eq_iff fresh_object_def)
  have n: "fd_map t b \<noteq> Some f" for b using assms(1,3) by (auto simp: owns_all_def ran_def)
  have "inj_on (fd_map t) (dom (fd_map t))" using assms(1) by (simp add: owns_all_def)
  then have "inj_on (fd_map t') (dom (fd_map t'))" unfolding m(1)
    by (rule_tac inj_onI) (auto simp: inj_on_def dom_def n n [symmetric] split: if_splits)
  then show ?thesis using assms(1,5) m by (simp add: owns_all_def)
qed

lemma owns_remove:
  assumes "owns_all t" and "in_use t a = Some x"
    and "in_use t' = (in_use t)(a := None)" and "os_open t' = os_open t - {osfd x}"
  shows "owns_all t'"
proof -
  have m: "fd_map t' = (fd_map t)(a := None)" "fd_map t a = Some (osfd x)"
    using assms(2,3) by (auto simp: fd_map_def fun_eq_iff)
  have i: "inj_on (fd_map t) (dom (fd_map t))" and r: "ran (fd_map t) = os_open t"
    using assms(1) by (simp_all add: owns_all_def)
  have one: "b = a" if "fd_map t b = Some (osfd x)" for b
    using inj_onD [OF i, of b a] that m(2) by auto
  have "inj_on (fd_map t') (dom (fd_map t'))" using i unfolding m(1)
    by (auto simp: inj_on_def dom_def split: if_splits)
  moreover have "fd_map t' b = Some g \<longleftrightarrow> fd_map t b = Some g \<and> g \<noteq> osfd x" for b g
    using one [of b] m by (cases "b = a") auto
  then have "ran (fd_map t') = ran (fd_map t) - {osfd x}" by (auto simp: ran_def)
  ultimately show ?thesis using r assms(4) by (simp add: owns_all_def)
qed

lemma adopt_ok:
  assumes "nf_inv t" and "owns_all t" and "f \<notin> os_open t" and "\<And>a. mem = Some a \<Longrightarrow> objs t a = None"
  shows "\<exists>r e' t'. adopt f nb so mem ic fc e t = Some (r, e', t') \<and> nf_inv t' \<and> owns_all t'
    \<and> os_open t' = (if r = None then os_open t else insert f (os_open t))
    \<and> (case r of None \<Rightarrow> in_use t' = in_use t
        | Some a \<Rightarrow> in_use t a = None \<and> in_use t' = (in_use t)(a \<mapsto> fresh_object f))"
proof -
  let ?t = "t\<lparr>os_open := insert f (os_open t)\<rparr>"
  have u: "in_use ?t = in_use t" "nf_inv ?t" using assms(1) by (simp_all add: in_use_def fun_eq_iff nf_inv_def)
  obtain r e' t' where n: "st_netfd_new f nb so mem ic fc e ?t = Some (r, e', t')" "nf_inv t'"
    "os_open t' = insert f (os_open t)"
    "case r of None \<Rightarrow> in_use t' = in_use t
      | Some a \<Rightarrow> in_use t a = None \<and> in_use t' = (in_use t)(a \<mapsto> fresh_object f)"
    using new_ok [OF u(2), of mem f nb so ic fc e] assms(4) unfolding u(1) by auto
  show ?thesis
  proof (cases r)
    case None
    let ?s = "t'\<lparr>os_open := os_open t' - {f}\<rparr>"
    have "in_use ?s = in_use t" using n(4) None by (simp add: in_use_def fun_eq_iff)
    moreover have "os_open ?s = os_open t" using n(3) assms(3) by auto
    moreover have "nf_inv ?s" using n(2) by (simp add: nf_inv_def)
    ultimately show ?thesis using n(1) None owns_cong [of ?s t] assms(2) by (simp add: adopt_def)
  next
    case (Some a)
    then have "owns_all t'" using owns_insert [OF assms(2) _ assms(3) _ n(3)] n(4) by auto
    then show ?thesis using n Some by (simp add: adopt_def)
  qed
qed

lemma accept_ok:
  assumes "nf_inv t" and "owns_all t" and "\<And>a. mem = Some a \<Longrightarrow> objs t a = None"
    and "io_retry acc poll POLLIN k = Some (r, k')" and "\<And>f. r = Inr f \<Longrightarrow> f \<notin> os_open t"
  shows "\<exists>a e' t'. st_accept acc poll mem ic fc e t k = Some (a, e', t', k') \<and> nf_inv t' \<and> owns_all t'
    \<and> os_open t' = os_open t \<union> (if a = None then {} else {projr r}) \<and> (a \<noteq> None \<longrightarrow> \<not> isl r)
    \<and> (case a of None \<Rightarrow> in_use t' = in_use t
        | Some b \<Rightarrow> in_use t b = None \<and> in_use t' = (in_use t)(b \<mapsto> fresh_object (projr r)))"
proof (cases r)
  case (Inl er)
  then show ?thesis using assms by (simp add: st_accept_def)
next
  case (Inr f)
  then obtain a e' t' where "adopt f True True mem ic fc e t = Some (a, e', t')" "nf_inv t'" "owns_all t'"
    "os_open t' = (if a = None then os_open t else insert f (os_open t))"
    "case a of None \<Rightarrow> in_use t' = in_use t
        | Some b \<Rightarrow> in_use t b = None \<and> in_use t' = (in_use t)(b \<mapsto> fresh_object f)"
    using adopt_ok [OF assms(1,2) assms(5) [OF Inr], of mem True True ic fc e] assms(3) by blast
  then show ?thesis using Inr assms(4) by (cases a) (simp_all add: st_accept_def)
qed

lemma close_ok:
  assumes "nf_inv t" and "owns_all t" and "in_use t a = Some x" and "fd_close (osfd x) e = Some r0"
  shows "\<exists>r t'. st_netfd_close a rc e t = Some (r, t') \<and> nf_inv t' \<and> owns_all t'
    \<and> (case r0 of Fail er \<Rightarrow> r = Fail er \<and> t' = t
        | Ret n \<Rightarrow> r = rc \<and> in_use t' = (in_use t)(a := None) \<and> os_open t' = os_open t - {osfd x})"
proof (cases r0)
  case (Fail er)
  then show ?thesis using assms by (auto simp: st_netfd_close_def in_use_def split: option.splits if_splits)
next
  case (Ret n)
  obtain t' where t': "st_netfd_free a t = Some t'" "nf_inv t'" "in_use t' = (in_use t)(a := None)"
    "os_open t' = os_open t" using free_ok [OF assms(1,3)] by blast
  let ?t = "t'\<lparr>os_open := os_open t' - {osfd x}\<rparr>"
  have u: "in_use ?t = (in_use t)(a := None)" "nf_inv ?t" using t' by (simp_all add: in_use_def fun_eq_iff nf_inv_def)
  have "owns_all ?t" using owns_remove [OF assms(2,3) u(1)] t'(4) by simp
  moreover have "objs t a = Some x" using assms(3) by (simp add: in_use_def split: option.splits if_splits)
  ultimately show ?thesis using Ret t' u assms(4) by (simp add: st_netfd_close_def)
qed

lemma setspecific_ok:
  assumes "nf_inv t" and "in_use t a = Some x"
  shows "\<exists>t'. st_netfd_setspecific a val dtor t = Some t' \<and> nf_inv t' \<and> st_netfd_getspecific a t' = Some val
    \<and> (\<forall>b. b \<noteq> a \<longrightarrow> objs t' b = objs t b)
    \<and> dtor_calls t' = dtor_calls t @ (if val \<noteq> nf_private x \<and> nf_private x \<noteq> 0 \<and> nf_destructor x \<noteq> 0
         then [(nf_destructor x, nf_private x)] else [])"
proof -
  have x: "objs t a = Some x" "inuse x" using assms(2) by (auto simp: in_use_def split: option.splits if_splits)
  have "nf_inv (t\<lparr>dtor_calls := d, objs := (objs t)(a \<mapsto> x\<lparr>nf_private := val, nf_destructor := dtor\<rparr>)\<rparr>)" for d
    using nf_invD [OF assms(1)] x by (auto simp: nf_inv_def)
  then show ?thesis using x by (simp add: st_netfd_setspecific_def st_netfd_getspecific_def)
qed

section \<open>The retried calls\<close>

text \<open>\<open>st_read\<close> is this loop on \<open>read\<close>, and it always returns.\<close>

definition read_call :: "nat \<Rightarrow> (sock, bytes) kcall" where
  "read_call n s = (case sys_read n s of (Got bs, s') \<Rightarrow> (Inr bs, s') | (RFail er, s') \<Rightarrow> (Inl er, s'))"

definition sock_poll :: "sock kpoll" where
  "sock_poll how s = (if how = POLLIN then poll_in s else poll_out s)"

lemma netfd_poll_sock:
  "sock_poll how s = (ans, s') \<Longrightarrow> st_netfd_poll how s = (netfd_poll ans, s')"
  by (auto simp: sock_poll_def st_netfd_poll_def netfd_poll_def split: if_splits poll_ans.splits)

lemma st_read_is_retry: "io_retry (read_call n) sock_poll POLLIN s = Some (st_read n s)"
proof (induction n s rule: st_read.induct)
  case (1 n s)
  show ?case
  proof (cases "sys_read n s")
    case (Pair r s1)
    show ?thesis
    proof (cases r)
      case (Got bs)
      then show ?thesis using Pair by (simp add: io_retry.simps read_call_def st_read.simps)
    next
      case (RFail er)
      have rc: "read_call n s = (Inl er, s1)" using Pair RFail by (simp add: read_call_def)
      obtain ans s2 where p: "sock_poll POLLIN s1 = (ans, s2)" by fastforce
      note q = netfd_poll_sock [OF p]
      show ?thesis
      proof (cases "er = EINTR \<or> er \<noteq> EAGAIN")
        case True
        then show ?thesis using 1(1) [OF Pair [symmetric] RFail] Pair RFail
          by (subst io_retry.simps, subst st_read.simps) (auto simp: rc)
      next
        case False
        then show ?thesis using 1(2) [OF Pair [symmetric] RFail] Pair RFail p q
          by (subst io_retry.simps, subst st_read.simps) (auto simp: rc split: sum.splits)
      qed
    qed
  qed
qed

text \<open>A call that is interrupted or not ready any number of times and then answers.\<close>

lemma retry_answers:
  assumes "\<And>i. i < n \<Longrightarrow> call (k i) = (Inl EINTR, k (Suc i))
      \<or> (\<exists>k'. call (k i) = (Inl EAGAIN, k') \<and> (\<exists>ans. poll how k' = (ans, k (Suc i)) \<and> netfd_poll ans = Inr ()))"
    and "call (k n) = (r, k')" and "r \<noteq> Inl EINTR" and "r \<noteq> Inl EAGAIN"
  shows "io_retry call poll how (k 0) = Some (r, k')"
proof -
  have "io_retry call poll how (k i) = Some (r, k')" if "i \<le> n" for i
    using that
  proof (induction "n - i" arbitrary: i)
    case 0
    then have "i = n" by simp
    then show ?case using assms(2-4) by (subst io_retry.simps) (auto split: sum.splits)
  next
    case (Suc d)
    then have "io_retry call poll how (k (Suc i)) = Some (r, k')" using Suc.hyps(1) [of "Suc i"] by simp
    moreover have "i < n" using Suc.hyps(2) by simp
    ultimately show ?case using assms(1) [of i] by (subst io_retry.simps) auto
  qed
  then show ?thesis by simp
qed

lemma io_init_limit:
  assumes "0 \<le> lim" and "lim < 2 ^ 63"
  shows "st_io_init True (Some (of_int lim)) True (Select d) old = (0, min lim FD_SETSIZE)"
proof -
  have l: "uint (of_int lim :: 64 word) = lim" using assms by (simp add: uint_word_of_int)
  have f: "uint (of_int FD_SETSIZE :: 64 word) = FD_SETSIZE" by (simp add: FD_SETSIZE_def)
  have "sint (ucast (of_int m :: 64 word) :: 32 word) = m" if "0 \<le> m" "m \<le> FD_SETSIZE" for m
    using that by (simp add: FD_SETSIZE_def ucast_eq sint_sbintrunc' signed_take_bit_int_eq_self uint_word_of_int)
  then show ?thesis using l f assms(1) by (auto simp: st_io_init_def Let_def word_less_def min_def FD_SETSIZE_def)
qed

end
