(* ===== verification/Server.thy ===== *)
theory Server
  imports Netfd Sync Client
begin

text \<open>
  The server process: \<^verbatim>\<open>server.cpp\<close>, \<^verbatim>\<open>main_server.cpp\<close> and \<open>Client::cycle\<close>. The state is the State
  Threads processor, the event system and the descriptor table, with the \<open>Server\<close> object's two
  members: the listening descriptor and the map of clients (a client's context by the address of its
  descriptor object). \<open>roles\<close> says what each thread created here runs.
\<close>

datatype role = Listener | Handler nat

record server =
  vproc :: vp
  esys :: evsys
  fds :: nftab
  stfd :: "nat option"
  clients :: "nat \<rightharpoonup> ctx"
  roles :: "tid \<rightharpoonup> role"

section \<open>Start-up\<close>

text \<open>The arguments of \<open>st_init\<close> are those of its model.\<close>

definition Server_initialize :: "bool \<Rightarrow> bool \<Rightarrow> bool \<Rightarrow> bool \<Rightarrow> utime \<Rightarrow> tid \<Rightarrow> tid \<Rightarrow> server \<Rightarrow> int \<times> server" where
  "Server_initialize io_ok ev_ok mem_i mem_p now i p s =
     (case st_init io_ok ev_ok mem_i mem_p now i p (vproc s) of
        (r, v) \<Rightarrow> (if r = -1 then -1 else 0, s\<lparr>vproc := v\<rparr>))"

text \<open>What the kernel and the allocator answer while the listening socket is set up.\<close>

record listen_env =
  sock_fd :: "int option"
  reuse_ok :: bool
  bind_ok :: bool
  listen_ok :: bool
  l_mem :: "nat option"
  l_ioctl :: bool
  l_fcntl :: bool
  lsn_thread :: "tid option"

definition Server_listen :: "listen_env \<Rightarrow> server \<Rightarrow> (int \<times> server) option" where
  "Server_listen x s =
     (case sock_fd x of
        None \<Rightarrow> Some (-1, s)
      | Some f \<Rightarrow>
          (let s1 = s\<lparr>fds := (fds s)\<lparr>os_open := insert f (os_open (fds s))\<rparr>\<rparr>
           in if \<not> reuse_ok x then Some (-1, s1)
              else if \<not> bind_ok x then Some (-1, s1)
              else if \<not> listen_ok x then Some (-1, s1)
              else case st_netfd_open_socket f (l_mem x) (l_ioctl x) (l_fcntl x) (esys s1) (fds s1) of
                     None \<Rightarrow> None
                   | Some (a, e, t) \<Rightarrow>
                       (let s2 = s1\<lparr>esys := e, fds := t, stfd := a\<rparr>
                        in if a = None then Some (-1, s2)
                           else case lsn_thread x of
                                  None \<Rightarrow> Some (-1, s2)
                                | Some tid \<Rightarrow> Some (0, s2\<lparr>vproc := st_thread_create tid None (vproc s2),
                                                       roles := (roles s2)(tid \<mapsto> Listener)\<rparr>))))"

definition Server_cycle :: "keytab \<Rightarrow> server \<Rightarrow> (dcalls \<times> outcome) option" where
  "Server_cycle k s = st_thread_exit k 0 (vproc s)"

section \<open>Connections\<close>

definition Client_cycle :: "tid option \<Rightarrow> nat \<Rightarrow> server \<Rightarrow> server" where
  "Client_cycle thread a s =
     (case thread of
        None \<Rightarrow> s
      | Some tid \<Rightarrow> s\<lparr>vproc := st_thread_create tid None (vproc s), roles := (roles s)(tid \<mapsto> Handler a)\<rparr>)"

text \<open>\<open>unordered_map::insert\<close> keeps an entry that is there.\<close>

definition clients_insert :: "nat \<Rightarrow> ctx \<Rightarrow> (nat \<rightharpoonup> ctx) \<Rightarrow> (nat \<rightharpoonup> ctx)" where
  "clients_insert a c m = (if m a = None then m(a \<mapsto> c) else m)"

text \<open>
  One round of \<open>Server::accept\<close>. \<open>s\<close> is the state when the kernel answers; \<open>peer\<close> is the socket of the
  new connection. The flag says whether the round went on to \<open>st_usleep(0)\<close>.
\<close>

definition Server_accept_round ::
  "('k, int) kcall \<Rightarrow> 'k kpoll \<Rightarrow> nat option \<Rightarrow> bool \<Rightarrow> bool \<Rightarrow> sock \<Rightarrow> tid option \<Rightarrow> 'k \<Rightarrow> server
     \<Rightarrow> (server \<times> bool \<times> 'k) option"
where
  "Server_accept_round acc poll mem ic fc peer thread k s =
     (case st_accept acc poll mem ic fc (esys s) (fds s) k of
        None \<Rightarrow> None
      | Some (None, e, t, k') \<Rightarrow> Some (s\<lparr>esys := e, fds := t\<rparr>, False, k')
      | Some (Some a, e, t, k') \<Rightarrow>
          Some (Client_cycle thread a
                  (s\<lparr>esys := e, fds := t, clients := clients_insert a (Client_init peer) (clients s)\<rparr>), True, k'))"

definition Server_init :: "vp \<Rightarrow> evsys \<Rightarrow> server" where
  "Server_init v e = \<lparr>vproc = v, esys = e, fds = \<lparr>objs = Map.empty, freelist = [], os_open = {}, dtor_calls = []\<rparr>,
     stfd = None, clients = Map.empty, roles = Map.empty\<rparr>"

text \<open>\<open>main\<close> does not look at what \<open>initialize\<close> and \<open>listen\<close> return.\<close>

definition main_server :: "utime \<Rightarrow> tid \<Rightarrow> tid \<Rightarrow> listen_env \<Rightarrow> keytab \<Rightarrow> evsys \<Rightarrow> (server \<times> dcalls \<times> outcome) option" where
  "main_server now i p x k e =
     (case Server_initialize True True True True now i p (Server_init vp_zero e) of
        (r1, s1) \<Rightarrow>
          (case Server_listen x s1 of
             None \<Rightarrow> None
           | Some (r2, s2) \<Rightarrow> map_option (Pair s2) (Server_cycle k s2)))"

section \<open>Every connection has its own client\<close>

definition server_ok :: "server \<Rightarrow> bool" where
  "server_ok s \<longleftrightarrow> nf_inv (fds s) \<and> owns_all (fds s)
     \<and> (\<forall>a \<in> dom (clients s). in_use (fds s) a \<noteq> None \<and> stfd s \<noteq> Some a)
     \<and> (\<forall>a. stfd s = Some a \<longrightarrow> in_use (fds s) a \<noteq> None)
     \<and> (\<forall>t a. roles s t = Some (Handler a) \<longrightarrow> clients s a \<noteq> None)"

lemma accept_round_ok:
  assumes "server_ok s" and "\<And>a. mem = Some a \<Longrightarrow> objs (fds s) a = None"
    and "io_retry acc poll POLLIN k = Some (r, k')" and "\<And>f. r = Inr f \<Longrightarrow> f \<notin> os_open (fds s)"
  shows "\<exists>s' y. Server_accept_round acc poll mem ic fc peer thread k s = Some (s', y, k') \<and> server_ok s'
    \<and> (if y then \<exists>a f. r = Inr f \<and> clients s a = None \<and> clients s' = (clients s)(a \<mapsto> Client_init peer)
           \<and> in_use (fds s') = (in_use (fds s))(a \<mapsto> fresh_object f)
           \<and> os_open (fds s') = insert f (os_open (fds s))
           \<and> roles s' = (case thread of None \<Rightarrow> roles s | Some tid \<Rightarrow> (roles s)(tid \<mapsto> Handler a))
       else clients s' = clients s \<and> os_open (fds s') = os_open (fds s) \<and> roles s' = roles s)"
proof -
  have ok: "nf_inv (fds s)" "owns_all (fds s)" using assms(1) by (simp_all add: server_ok_def)
  obtain a e t where t: "st_accept acc poll mem ic fc (esys s) (fds s) k = Some (a, e, t, k')" "nf_inv t" "owns_all t"
    "os_open t = os_open (fds s) \<union> (if a = None then {} else {projr r})" "a \<noteq> None \<longrightarrow> \<not> isl r"
    "case a of None \<Rightarrow> in_use t = in_use (fds s)
      | Some b \<Rightarrow> in_use (fds s) b = None \<and> in_use t = (in_use (fds s))(b \<mapsto> fresh_object (projr r))"
    using accept_ok [OF ok _ assms(3,4), of mem ic fc "esys s"] assms(2) by blast
  show ?thesis
  proof (cases a)
    case None
    then show ?thesis using t assms(1) by (auto simp: Server_accept_round_def server_ok_def)
  next
    case (Some b)
    then obtain f where f: "r = Inr f" using t(5) by (cases r) auto
    have b: "in_use (fds s) b = None" using t(6) Some by simp
    then have n: "clients s b = None" "stfd s \<noteq> Some b" using assms(1) unfolding server_ok_def by blast+
    let ?s = "s\<lparr>esys := e, fds := t, clients := (clients s)(b \<mapsto> Client_init peer)\<rparr>"
    have "server_ok ?s" using assms(1) t Some n by (auto simp: server_ok_def)
    then have "server_ok (Client_cycle thread b ?s)" by (auto simp: Client_cycle_def server_ok_def split: option.splits)
    then show ?thesis using t Some f n
      by (auto simp: Server_accept_round_def clients_insert_def Client_cycle_def split: option.splits)
  qed
qed

lemma server_listen_ok:
  assumes "server_ok s" and "clients s = Map.empty" and "sock_fd x = Some f" and "f \<notin> os_open (fds s)"
    and "\<And>a. l_mem x = Some a \<Longrightarrow> objs (fds s) a = None" and "Server_listen x s = Some (0, s')"
  shows "server_ok s' \<and> (\<exists>a tid. stfd s' = Some a \<and> map_option osfd (in_use (fds s') a) = Some f
    \<and> lsn_thread x = Some tid \<and> roles s' tid = Some Listener \<and> vproc s' = st_thread_create tid None (vproc s))"
proof -
  let ?t = "(fds s)\<lparr>os_open := insert f (os_open (fds s))\<rparr>"
  have ok: "nf_inv (fds s)" "owns_all (fds s)" using assms(1) by (simp_all add: server_ok_def)
  obtain r e t where n: "st_netfd_open_socket f (l_mem x) (l_ioctl x) (l_fcntl x) (esys s) ?t = Some (r, e, t)" "nf_inv t"
    "os_open t = os_open ?t" "case r of None \<Rightarrow> in_use t = in_use ?t
      | Some a \<Rightarrow> in_use ?t a = None \<and> in_use t = (in_use ?t)(a \<mapsto> fresh_object f)"
    using new_ok [of ?t "l_mem x" f True True "l_ioctl x" "l_fcntl x" "esys s"] ok(1) assms(5)
    by (auto simp: nf_inv_def st_netfd_open_socket_def)
  obtain a tid where a: "r = Some a" "lsn_thread x = Some tid"
    "s' = s\<lparr>fds := t, esys := e, stfd := Some a, vproc := st_thread_create tid None (vproc s),
       roles := (roles s)(tid \<mapsto> Listener)\<rparr>"
    using assms(3,6) n(1) by (auto simp: Server_listen_def Let_def split: if_splits option.splits)
  have u: "in_use ?t = in_use (fds s)" by (simp add: in_use_def fun_eq_iff)
  have t: "in_use (fds s) a = None" "in_use t = (in_use (fds s))(a \<mapsto> fresh_object f)"
    using n(4) a(1) unfolding u by auto
  have "owns_all t" using owns_insert [OF ok(2) t(1) assms(4) t(2)] n(3) by simp
  then show ?thesis using a t n(2) assms(1,2) by (auto simp: server_ok_def fresh_object_def split: if_splits)
qed

lemma init_server_ok: "server_ok (Server_init v e)"
  by (auto simp: server_ok_def Server_init_def nf_inv_def owns_all_def fd_map_def in_use_def ran_def inj_on_def dom_def)

end
