(* ===== verification/Spec2Isabelle.thy ===== *)
theory Spec2Isabelle
  imports Slow_Player Fileio Hall Dnsres Session Clist Locks Server
begin

text \<open>
  \<^bold>\<open>A verification library for the RTMP server.\<close>

  \<^bold>\<open>The program.\<close> A process listens on a TCP port (\<^verbatim>\<open>src/main_server.cpp\<close>,
  \<^verbatim>\<open>src/server.cpp\<close>) and gives every connection a user-level thread (\<^verbatim>\<open>src/client.cpp\<close>). The thread
  does the RTMP handshake (\<^verbatim>\<open>src/rtmp_protocol.cpp\<close>), answers the \<open>connect\<close> command, finds out whether
  the peer publishes or plays, and then either receives audio and video messages into a buffer shared
  by the process or sends what is in that buffer to its player. Messages are chunk streams
  (\<^verbatim>\<open>src/io_message.cpp\<close>) with AMF commands (\<^verbatim>\<open>src/all_kinds_of_messages.cpp\<close>, \<^verbatim>\<open>src/value_object.h\<close>),
  read and written through \<^verbatim>\<open>src/io_socket.cpp\<close>. The threads are those of the State Threads library
  in \<^verbatim>\<open>src/3rdpart/st-1.9\<close>: a scheduler with a timeout heap (\<^verbatim>\<open>sched.c\<close>), condition variables and
  mutexes (\<^verbatim>\<open>sync.c\<close>), event systems (\<^verbatim>\<open>event.c\<close>), blocking socket calls (\<^verbatim>\<open>io.c\<close>), stacks and
  thread-specific data (\<^verbatim>\<open>stk.c\<close>, \<^verbatim>\<open>key.c\<close>) and the list macros of \<^verbatim>\<open>common.h\<close>.

  \<^bold>\<open>How the code is modelled.\<close> The state of a connection is the record \<open>ctx\<close> (the fields of \<open>Client\<close>,
  the message object in hand, the globals of \<^verbatim>\<open>io_message.cpp\<close> and the socket); an operation of the
  server is an action \<open>ctx \<Rightarrow> ('a res \<times> ctx) option\<close>. \<open>Some (Ok x, c)\<close> is a normal return,
  \<open>Some (Fail, c)\<close> the return of -1, \<open>Some (Fault e, c)\<close> undefined behaviour or an uncaught exception
  (a read outside a buffer, \<open>std::length_error\<close>), and \<open>None\<close> a loop that never ends. Loops with no
  bound are \<open>partial_function (option)\<close>; a theorem that such a loop returns says so, with the value
  \<open>Some\<close>. No fuel is used anywhere. Machine integers are words of their width, \<open>double\<close> is its bit
  pattern, memory images are byte lists, least significant byte first. The kernel is not part of the repository: a
  socket is the list of everything that will happen on it, an allocation or a system call of the
  library an argument with its answer, and the theorems hold for all of them.

  The state of the State Threads library is the record \<open>vp\<close> (with queues as lists of thread numbers,
  the timeout heap as a tree with the indices of the code) and the value \<open>evsys\<close> of the event system
  in use. A blocking call is cut at its context switch: \<open>st_mutex_lock\<close> up to the switch,
  \<open>st_mutex_lock_end\<close> after it; \<open>None\<close> or \<open>Abort\<close> is a failed assertion or an access to a freed
  object.

  \<^bold>\<open>The theories.\<close>
  \<^item> \<open>Prelude\<close>: results, actions, memory images of words, generic lemmas. \<open>Posix\<close>: sockets and system
    calls.
  \<^item> \<open>Stream_Interface\<close>: the interfaces as locales: \<open>byte_reader\<close> and \<open>byte_writer\<close> (what the server
    expects of State Threads), \<open>buffered_source\<close> (what the message layer expects of \<open>IO_Socket\<close>).
  \<^item> \<open>St_Io\<close>: reads and writes of \<^verbatim>\<open>io.c\<close>, with run relations for their loops; interprets
    \<open>byte_reader\<close> and \<open>byte_writer\<close>. \<open>Netfd\<close>: descriptor objects and the other calls of \<^verbatim>\<open>io.c\<close>,
    with the locale \<open>handle_pool\<close>.
  \<^item> \<open>Util\<close>: \<^verbatim>\<open>util.cpp\<close>, with the locale \<open>byte_swap\<close>. \<open>Conn\<close>: the data of a connection, \<^verbatim>\<open>io_buffer.cpp\<close>.
    \<open>Io_Socket\<close>: \<^verbatim>\<open>io_socket.cpp\<close>; interprets \<open>buffered_source\<close> for both buffers.
  \<^item> \<open>Chunk\<close>, \<open>Amf\<close>: \<^verbatim>\<open>io_message.cpp\<close>. \<open>Messages\<close>: \<^verbatim>\<open>all_kinds_of_messages.cpp\<close>; every class that
    sends is an interpretation of the locale \<open>payload_writer\<close>.
  \<^item> \<open>Client\<close>: \<^verbatim>\<open>rtmp_protocol.cpp\<close> and the phases of \<open>Client::process_thread\<close>. \<open>Publish\<close>: the publishing
    and the playing loop together, as the step relation \<open>room_step\<close>. \<open>Hall\<close>: the same loops with up to 13
    players that come and go; all of them together are one player of a room (\<open>room_view\<close>). \<open>Slow_Player\<close>: the playing loop when it is
    interrupted in the middle of a message. \<open>Session\<close>: whole
    conversations as triples over the bytes still to come, with the locale \<open>payload_reader\<close> (interpreted
    for every message the server receives), a publisher and a player on one server (\<open>share\<close> hands the
    globals of \<^verbatim>\<open>io_message.cpp\<close> from one connection to the next). \<open>Server\<close>: \<^verbatim>\<open>server.cpp\<close>,
    \<^verbatim>\<open>main_server.cpp\<close>.
  \<^item> \<open>Clist\<close>: the pointer lists of \<^verbatim>\<open>common.h\<close> on a store of addresses, with the locale \<open>link_queue\<close>; it
    justifies lists for queues. \<open>Timeout_Heap\<close>: the heap of \<^verbatim>\<open>sched.c\<close>, with the locale
    \<open>timeout_queue\<close>. \<open>Sched\<close>: \<^verbatim>\<open>sched.c\<close>. \<open>Sync\<close>: \<^verbatim>\<open>sync.c\<close> and the blocking calls.
  \<^item> \<open>Event\<close>, \<open>Epoll\<close>, \<open>Kqueue\<close>, \<open>Eventsys\<close>: \<^verbatim>\<open>event.c\<close>, with the locales \<open>event_system\<close> and
    \<open>event_walk\<close>, each interpreted for select, poll, epoll, kqueue and the table that chooses between
    them. What the kernel has registered is part of the state of the last two.
  \<^item> \<open>Key_Stk\<close>: \<^verbatim>\<open>key.c\<close>, \<^verbatim>\<open>stk.c\<close> and the layout of a thread on its stack.
  \<^item> \<open>Threads\<close>: the library as a state machine, its invariant and its progress. \<open>Locks\<close>: the hand-over of
    mutexes in it.
  \<^item> \<open>Lrucache\<close>: \<^verbatim>\<open>extensions/lrucache.c\<close>, a hash table of entries with use counts that evicts the least
    recently used, with the pointers of its buckets; its invariant, and the list of rows it is to a client that keeps
    no entry. \<open>Dnscache\<close>: \<^verbatim>\<open>extensions/dnscache.c\<close>, a cache of host addresses on top of it. The resolver is an
    argument, and so is what other threads do while it waits; what is expected of it is the locale
    \<open>host_resolver\<close>. \<open>Dnsres\<close>: \<^verbatim>\<open>extensions/dnsres.c\<close>, the resolver, on
    arbitrary packets from the network; it interprets \<open>host_resolver\<close>. \<open>Fileio\<close>: \<^verbatim>\<open>extensions/stx_fileio.c\<close>,
    reading a file through a child process and two pipes.

  \<^bold>\<open>What is shown.\<close> For the server: the conversations of a publisher and of a player run to their end
  for every well-formed peer, however its bytes are segmented and chunked and whatever header formats it
  uses, and a player that joins a publisher gets its metadata and messages; message headers, chunked payloads and AMF objects survive the trip through
  writer and reader; declared lengths are the lengths written; a relayed message reaches the player
  unchanged, and in every interleaving of the publisher's and the players' rounds the players share a
  subsequence of the published messages among them, in any way the schedule chooses. For State Threads: the timeout heap implements a map with
  minimum, the list macros implement queues, each event system wakes exactly the threads whose
  descriptors are ready and kqueue never loses a registration, the queues and states of the threads agree in every reachable state, no
  assertion fails, a step is always possible while a thread is left, a waiting thread gets the mutex
  exactly when it is its owner, descriptor objects and stacks are never shared; the cache keeps its bounds and
  what somebody uses, and the DNS cache gives out the last answer for a name, before it expires; a request with any reply of the name servers stays
  inside its buffers, and file input returns the bytes of the file. Where the code does
  not do what it means to (relayed timestamps above 24 bits, values of a connect command that are not numbers or
  strings, chunk stream ids above 191, the doubled
  format-0 timestamp, loops at the end of a stream, names longer than their message, the buffer shared
  between publisher and player, the table of chunk streams shared by all connections) the theorem states what it does.

  \<^bold>\<open>Bounds.\<close> \<open>FD_SETSIZE\<close> is 1024, \<open>ST_KEYS_MAX\<close> 16, \<open>_LOCAL_MAXIOV\<close> 16, as in the sources and the
  Linux headers. The table of consumers has at most 13 entries: the fourteenth makes \<open>std::unordered_map\<close> rehash it, and
  with the order of iteration an old pointer may come to the front again. Lengths in theorems about messages are below \<open>2 ^ 24\<close>, what a chunk header can declare,
  and names below \<open>2 ^ 15\<close>, what their signed length field can hold.

  \<^bold>\<open>Not modelled.\<close> Logging (\<^verbatim>\<open>log.cpp\<close>) and the destructors, which only free memory; the context switch
  itself (\<^verbatim>\<open>md.h\<close>, \<^verbatim>\<open>md.S\<close>): a switch is the choice of the next thread; the serialised
  accept, which is not compiled on Linux; the debugger's thread list and switch callbacks; the example
  and test programs of State Threads, which the server does not link. In the
  state machine of \<open>Threads\<close> no thread is joinable (those of the server are not); \<open>st_thread_join\<close> is a
  definition of \<open>Sync\<close>. In the room of \<open>Publish\<close> the publisher's and player's rounds are atomic; what
  happens when a player runs while a message is still arriving (\<open>relay_overrun\<close>), or is interrupted while it sends one
  (\<open>slow_player_mixes\<close>), are theorems of their own.
\<close>

section \<open>Properties\<close>

text \<open>
  Sample peers: messages of one chunk on chunk stream 3, a video message in one chunk of at most 4096 bytes.
\<close>

definition sample_peer :: "nat \<Rightarrow> bytes \<Rightarrow> pmsg" where
  "sample_peer k d = \<lparr>p_fmt = 0, p_csid = 3, p_ts = 0, p_type = 20, p_sid = 0, p_f3 = 0xC3, p_chunk = k, p_data = d\<rparr>"

definition sample_connect :: pmsg where
  "sample_connect = sample_peer 128 (connect_bytes (str ''connect'') 0 [(str ''app'', Value_String (str ''live''))])"

definition sample_command :: "string \<Rightarrow> pmsg" where
  "sample_command name = sample_peer 4096 (amf_command (str name) 0 @ [0x05])"



definition sample_playing :: "pmsg list" where
  "sample_playing = [sample_command ''createStream'', sample_command ''_checkbw'', sample_command ''getStreamLength'',
     sample_command ''play'', sample_peer 4096 [1, 2, 3]]"


lemma sample_fits: "length d < 2 ^ 24 \<Longrightarrow> fits (sample_peer k d) H"
  by (simp add: fits_def p_sane_def sample_peer_def)

lemma sample_lengths [simp]:
  "length (connect_bytes (str name) tid [(str k, Value_String (str v))]) = 21 + length name + length k + length v"
  by (simp add: connect_bytes_def amf_one_def amf_members_def amf_end_def)

lemma sample_data [simp]: "p_data (sample_peer k d) = d" "p_chunk (sample_peer k d) = k"
  by (simp_all add: sample_peer_def)

lemma sample_connect_ok: "connect_message 128 sample_connect" "fits sample_connect H"
proof -
  show "connect_message 128 sample_connect" unfolding connect_message_def sample_connect_def sample_data
    by (intro conjI exI [of _ "str ''connect''"] exI [of _ 0] exI [of _ "[(str ''app'', Value_String (str ''live''))]"])
      (simp_all add: readable_def printable_object_def str_def)
  show "fits sample_connect H" unfolding sample_connect_def by (rule sample_fits) simp
qed

lemma sample_command_ok: "name \<noteq> [] \<Longrightarrow> length name < 2 ^ 15 \<Longrightarrow> null_command (p_data (sample_command name))"
  unfolding null_command_def sample_command_def sample_data
  by (intro exI [of _ "str name"] exI [of _ 0] exI [of _ "[]"]) (simp add: str_def)

lemma sample_command_fits: "length name < 2 ^ 15 \<Longrightarrow> fits (sample_command name) H"
  unfolding sample_command_def by (rule sample_fits) simp


lemma sample_playing_ok: "player_script sample_playing" "announced H sample_playing"
proof -
  show "player_script sample_playing" unfolding player_script_def sample_playing_def
    by (simp add: sample_command_ok) (simp add: sample_command_def)
  show "announced H sample_playing" unfolding sample_playing_def by (simp add: sample_command_fits sample_fits)
qed






text \<open>C3 (player): a player that shakes hands, connects, sends its window size (the message of four bytes by
  which the server tells players from publishers) and the five messages of the playing conversation gets
  the answers of the server and nothing else, and is ready to be sent metadata and stream.\<close>

theorem player_session_correct:
  assumes "idle c" and "chunk_size c < 2 ^ 31" and "connect_message (chunk_size c) m" and "player_script ms"
    and "length (p_data a) = 4" and "4 \<le> p_chunk a" and "announced (csid_header c) (m # a # ms)"
    and "pending (net c) = 0x03 # c1 @ c2 @ concat (map p_wire (m # a # ms)) @ rest"
    and "length c1 = 1536" and "length c2 = 1536"
  shows "\<exists>d. process_setup c = Some (Ok (), d) \<and> idle d \<and> pending (net d) = rest \<and> chunk_size d = 4096
    \<and> sent (net d) = sent (net c) @ handshake_reply @ connect_reply (nat (chunk_size c)) @ pull_reply (nat (chunk_size c))
    \<and> csid_header d = fold noted (m # a # ms) (csid_header c) \<and> set_data_frame d = set_data_frame c"
  using player_session [OF assms] by blast

theorem player_session_correct_witness:
  "\<exists>d. process_setup (conn_of (0x03 # replicate 1536 7 @ replicate 1536 9
        @ concat (map p_wire (sample_connect # sample_peer 4 [0, 0, 1, 0] # sample_playing)) @ [])) = Some (Ok (), d)
    \<and> pending (net d) = [] \<and> sent (net d) = handshake_reply @ connect_reply 128 @ pull_reply 128"
proof -
  let ?c = "conn_of (0x03 # replicate 1536 7 @ replicate 1536 9
        @ concat (map p_wire (sample_connect # sample_peer 4 [0, 0, 1, 0] # sample_playing)) @ [])"
  have c: "idle ?c" "chunk_size ?c < 2 ^ 31" "connect_message (chunk_size ?c) sample_connect"
    using sample_connect_ok(1) by simp_all
  have "announced (csid_header ?c) (sample_connect # sample_peer 4 [0, 0, 1, 0] # sample_playing)"
    using sample_connect_ok(2) sample_playing_ok(2) sample_fits by simp
  from player_session_correct [OF c sample_playing_ok(1) _ _ this conn_of_simps(1)] show ?thesis by auto
qed

text \<open>C4 (transport): whatever payload is sent in chunks of any positive size, the reading loop of
  \<open>ConnectMessage\<close> puts the same payload together behind what was in the buffer and consumes
  exactly the message; the bytes in front of the later chunks are not looked at.\<close>

theorem chunk_roundtrip:
  assumes "rx_fine (net c)" and "0 < cs" and "pending (net c) = chunked h cs p @ rest"
    and "length (io_buffer c) + length p + 1 < 2 ^ 64"
  shows "\<exists>c'. payload_loop read_nbytes_cycle io_buffer set_io_buffer (int (length p)) (int cs) 0 c
      = Some (Ok (), c')
    \<and> io_buffer c' = io_buffer c @ p \<and> pending (net c') = rest \<and> rx_fine (net c')
    \<and> frame_io c' = frame_io c"
  using io.loop_unchunks assms by simp

theorem chunk_roundtrip_witness:
  "\<exists>c'. payload_loop read_nbytes_cycle io_buffer set_io_buffer 5 2 0
        (conn_of [10, 11, 0xC3, 12, 13, 0xC3, 14, 99]) = Some (Ok (), c')
    \<and> io_buffer c' = [10, 11, 12, 13, 14] \<and> pending (net c') = [99]"
  using chunk_roundtrip [of "conn_of [10, 11, 0xC3, 12, 13, 0xC3, 14, 99]" 2 "0xC3"
      "[10, 11, 12, 13, 14]" "[99]"]
  by (auto simp: chunked_def fmt3_tail.simps)

text \<open>C5 (relay): a message whose timestamp is below 0xFFFFFF reaches the player as a format-0
  header with the publisher's timestamp, length, type and stream id, and the whole payload in chunks
  of the player's size.\<close>

theorem relay_correct:
  assumes "tx_fine (net c)" and "holds_message h av p" and "chunk_size c = int cs" and "0 < cs"
    and "p \<noteq> []" and "sint (timestamp h) < 0xFFFFFF"
  shows "\<exists>c'. relay h av c = Some (Ok (), c')
    \<and> sends ((send_csid (message_type h) # be24 (timestamp h) @ be24 (message_length h)
        @ message_type h # mem_of (stream_id h)) @ chunked (relay_fmt3 h) cs p) c c'"
  using relay_sends [OF assms(1-5)] assms(6) length_relay_header [of h] relay_header_12 [OF assms(6)]
  by (simp add: chunked_def)

theorem relay_correct_witness:
  "\<exists>c'. relay \<lparr>header_length = 1, timestamp = 5, timestamp_delta = 0, message_length = 3,
         message_type = 9, stream_id = 1\<rparr> [0xC6, 1, 2, 3] ((conn_of [])\<lparr>chunk_size := 2\<rparr>)
      = Some (Ok (), c')
    \<and> sent (net c') = [6, 0, 0, 5, 0, 0, 3, 9, 1, 0, 0, 0, 1, 2, 0xC6, 3]"
proof -
  let ?h = "\<lparr>header_length = 1, timestamp = 5, timestamp_delta = 0, message_length = 3,
         message_type = 9, stream_id = 1\<rparr>"
  have "holds_message ?h [0xC6, 1, 2, 3] [1, 2, 3]" by (simp add: holds_message_def)
  then show ?thesis
    using relay_correct [of "(conn_of [])\<lparr>chunk_size := 2\<rparr>" ?h "[0xC6, 1, 2, 3]" "[1, 2, 3]" 2]
    by (auto simp: sends_def send_csid_def be24_def mem_of_int32 chunked_def fmt3_tail.simps
        relay_fmt3_def)
qed

text \<open>C6 (players and long streams): with a timestamp of 0xFFFFFF or more the header is 16 bytes but
  the loop counts 12 of them, so the four payload bytes behind the first chunk are never sent: the
  player gets a message that is four bytes short of its declared length.\<close>

theorem relay_extended_timestamp_drops:
  assumes "tx_fine (net c)" and "holds_message h av p" and "chunk_size c = int cs" and "0 < cs"
    and "p \<noteq> []" and "0xFFFFFF \<le> sint (timestamp h)"
  shows "\<exists>c'. relay h av c = Some (Ok (), c')
    \<and> sends (relay_header h @ take cs p @ fmt3_tail (relay_fmt3 h) cs (drop (cs + 4) p)) c c'
    \<and> length (relay_header h) = 16"
  using relay_sends [OF assms(1-5)] assms(6) length_relay_header [of h] by simp

theorem relay_extended_timestamp_drops_witness:
  "\<exists>c'. relay \<lparr>header_length = 1, timestamp = 0x1000000, timestamp_delta = 0, message_length = 7,
         message_type = 9, stream_id = 1\<rparr> [0xC6, 1, 2, 3, 4, 5, 6, 7] ((conn_of [])\<lparr>chunk_size := 2\<rparr>)
      = Some (Ok (), c')
    \<and> sent (net c') = [6, 0xFF, 0xFF, 0xFF, 0, 0, 7, 9, 1, 0, 0, 0, 1, 0, 0, 0, 1, 2, 0xC6, 7]"
proof -
  let ?h = "\<lparr>header_length = 1, timestamp = 0x1000000, timestamp_delta = 0, message_length = 7,
         message_type = 9, stream_id = 1\<rparr>"
  have "holds_message ?h [0xC6, 1, 2, 3, 4, 5, 6, 7] [1, 2, 3, 4, 5, 6, 7]" by (simp add: holds_message_def)
  then show ?thesis
    using relay_extended_timestamp_drops [of "(conn_of [])\<lparr>chunk_size := 2\<rparr>" ?h "[0xC6, 1, 2, 3, 4, 5, 6, 7]"
        "[1, 2, 3, 4, 5, 6, 7]" 2]
    by (auto simp: sends_def send_csid_def mem_of_int32 be24_def fmt3_tail.simps relay_fmt3_def relay_header_def)
qed

text \<open>C7 (sending): a message of any class goes out as what was left in the buffer, the header, the
  payload cut into chunks of the connection's size, and a one-byte format-3 header in front of every
  chunk but the first; nothing else changes. The sending classes are instances of the contract; here
  it is stated for the connect response.\<close>

theorem write_message_wire:
  assumes "tx_fine (net c)" and "0 < chunk_size c" and "chunk_size c < 2 ^ 31"
    and "0 \<le> fmt" and "fmt \<le> 3" and "length command < 2 ^ 15"
    and "length (io_buffer c @ header_bytes fmt csid ts mlen mtype sid
           @ Send_Object_bytes command tid type) < 2 ^ 64"
  shows "\<exists>c'. write_message (Send_Object_Message_write_payload command tid type) fmt csid ts mlen mtype sid c
      = Some (Ok (), c')
    \<and> sends (io_buffer c @ header_bytes fmt csid ts mlen mtype sid
         @ chunked (fmt3_header csid) (nat (chunk_size c)) (Send_Object_bytes command tid type))
       (put (header_bytes fmt csid ts mlen mtype sid @ Send_Object_bytes command tid type) c) c'"
proof -
  have "payload_writer (Send_Object_Message_write_payload command tid type) (Send_Object_bytes command tid type)"
    by unfold_locales (rule Send_Object_put [OF assms(6)])
  from payload_writer.write_message_sends [OF this assms(1-5) Send_Object_sizes(3) assms(7)]
  show ?thesis .
qed

theorem write_message_wire_witness:
  "\<exists>c'. write_message (Send_Object_Message_write_payload [0x61] 0 ON_BW_DONE) 0 3 0 14 20 0
        ((conn_of [])\<lparr>chunk_size := 8\<rparr>) = Some (Ok (), c')
    \<and> sent (net c') = [3, 0, 0, 0, 0, 0, 14, 20, 0, 0, 0, 0,
        2, 0, 1, 0x61, 0, 0, 0, 0, 0xC3, 0, 0, 0, 0, 0, 5]"
proof -
  have b: "Send_Object_bytes [0x61] 0 ON_BW_DONE = [2, 0, 1, 0x61, 0, 0, 0, 0, 0, 0, 0, 0, 0, 5]"
    by (simp add: Send_Object_bytes_def amf_command_def amf_string_def amf_objects_def
        Send_Object_Message_init_def mem_of_def nat_le_numeral)
  show ?thesis
    using write_message_wire [of "(conn_of [])\<lparr>chunk_size := 8\<rparr>" 0 "[0x61]" 3 0 14 20 0 0 ON_BW_DONE]
    unfolding b
    by (auto simp: sends_def header_bytes_def basic_header_bytes_def be24_def mem_of_int32 chunked_def
        fmt3_tail.simps fmt3_header_def)
qed



text \<open>C9 (AMF round trip): an object that \<open>write_object\<close> appends to the buffer is put together again
  by \<open>read_object\<close>, entry by entry and in order.\<close>

theorem amf_roundtrip:
  assumes "readable kvs" and "writable kvs" and "distinct (map fst kvs)" and "object (cur c) = []"
  shows "\<exists>c1. write_object [kvs] c = Some (Ok (), c1)
    \<and> read_object (length (io_buffer c) + 1) c1
        = Some (Ok (), c1\<lparr>cur := (cur c1)\<lparr>object := kvs\<rparr>\<rparr>)"
proof -
  let ?c = "put (amf_objects [kvs]) c"
  have "write_object [kvs] c = Some (Ok (), ?c)"
    using write_object_put [of "[kvs]"] assms(2) by (simp add: modify_act_def)
  moreover have "io_buffer ?c = (io_buffer c @ [0x03]) @ amf_members kvs @ amf_end" "object (cur ?c) = []"
    using assms(4) by (simp_all add: put_def push_back_def amf_objects_def amf_one_def)
  from read_object_amf [OF assms(1,3) this] have
    "read_object (length (io_buffer c) + 1) ?c = Some (Ok (), ?c\<lparr>cur := (cur ?c)\<lparr>object := kvs\<rparr>\<rparr>)" by simp
  ultimately show ?thesis by blast
qed

theorem amf_roundtrip_witness:
  "\<exists>c1. write_object [[([0x61], Value_String [0x62]), ([0x63], Value_Num 7)]] (conn_of []) = Some (Ok (), c1)
    \<and> read_object 1 c1 = Some (Ok (),
        c1\<lparr>cur := (cur c1)\<lparr>object := [([0x61], Value_String [0x62]), ([0x63], Value_Num 7)]\<rparr>\<rparr>)"
  using amf_roundtrip [of "[([0x61], Value_String [0x62]), ([0x63], Value_Num 7)]" "conn_of []"]
  by (simp add: readable_def writable_def conn_of_def Client_init_def IO_Message_init_def)


text \<open>A video message of two chunks, published by a connection whose chunk size is 2.\<close>

definition sample_message :: avmsg where
  "sample_message = \<lparr>m_fmt = 0, m_csid = 6, m_ts = 5, m_len = 3, m_type = 9, m_sid = 1, m_f3 = 0xC6,
     m_payload = [1, 2, 3]\<rparr>"

definition sample_publisher :: ctx where
  "sample_publisher = (conn_of [6, 0, 0, 5, 0, 0, 3, 9, 1, 0, 0, 0, 1, 2, 0xC6, 3])\<lparr>chunk_size := 2\<rparr>"

lemma sample_stream:
  "rx_fine (net sample_publisher)" "chunk_size sample_publisher = int 2" "audio_video_buffer sample_publisher = []"
  "pending (net sample_publisher) = concat (map (av_wire 2) [sample_message])"
  "stream_ok sample_publisher [sample_message]"
proof -
  show "rx_fine (net sample_publisher)" "chunk_size sample_publisher = int 2"
    by (simp_all add: sample_publisher_def)
  show "audio_video_buffer sample_publisher = []"
    by (simp add: sample_publisher_def conn_of_def Client_init_def)
  show "pending (net sample_publisher) = concat (map (av_wire 2) [sample_message])"
    by (simp add: sample_publisher_def sample_message_def av_wire_def av_head_def header_bytes_def
        basic_header_bytes_def be24_def mem_of_int32 chunked_def fmt3_tail.simps)
  show "stream_ok sample_publisher [sample_message]"
    by (simp add: av_ok_def av_sane_def av_fields_def sample_message_def)
qed




text \<open>C12 (a slow player): when a player's connection is full after the first chunk of a message and the publisher goes on
  meanwhile, the player gets the first chunk of that message, and behind it what the buffer holds by then: nothing when it has
  been cleared, the end of the next message when that has arrived. The header has declared the length of the first message.\<close>

theorem slow_player_gets_mixture:
  assumes "tx_fine (net c)" and "w 0 = (h, av)" and "holds_message h av p" and "chunk_size c = int cs" and "0 < cs" and "cs < length p"
    and "sint (timestamp h) < 0xFFFFFF" and "\<forall>i \<ge> 1. w i = (h', av')"
    and "av' = [] \<and> h' = h \<and> p' = [] \<or> holds_message h' av' p' \<and> header_length h' = header_length h"
  shows "\<exists>c'. relay_slow w c = Some (Ok (), c')
    \<and> sent (net c') = sent (net c) @ relay_header h @ take cs p @ fmt3_tail (relay_fmt3 h') cs (drop cs p')"
proof (cases "av' = [] \<and> h' = h \<and> p' = []")
  case True
  then have "w 1 = (h, [])" using assms(8) by simp
  from slow_player_cut [OF assms(1-7) this] show ?thesis using True by (auto simp: sends_def fmt3_tail.simps)
next
  case False
  then have "holds_message h' av' p'" "header_length h' = header_length h" using assms(9) by blast+
  from slow_player_mixes [OF assms(1-8) this] show ?thesis by (auto simp: sends_def)
qed

theorem slow_player_gets_mixture_witness:
  "\<exists>c'. relay_slow (\<lambda>i. if i = 0 then (\<lparr>header_length = 1, timestamp = 5, timestamp_delta = 0, message_length = 3, message_type = 9,
        stream_id = 1\<rparr>, [0xC6, 1, 2, 3]) else (\<lparr>header_length = 1, timestamp = 9, timestamp_delta = 0, message_length = 4, message_type = 8,
        stream_id = 1\<rparr>, [0xC6, 4, 5, 6, 7])) ((conn_of [])\<lparr>chunk_size := 2\<rparr>) = Some (Ok (), c')
    \<and> sent (net c') = [6, 0, 0, 5, 0, 0, 3, 9, 1, 0, 0, 0, 1, 2, 0xC7, 6, 7]"
proof -
  let ?h = "\<lparr>header_length = 1, timestamp = 5, timestamp_delta = 0, message_length = 3, message_type = 9, stream_id = 1\<rparr> :: Message_Header"
  let ?g = "\<lparr>header_length = 1, timestamp = 9, timestamp_delta = 0, message_length = 4, message_type = 8, stream_id = 1\<rparr> :: Message_Header"
  have "holds_message ?h [0xC6, 1, 2, 3] [1, 2, 3]" "holds_message ?g [0xC6, 4, 5, 6, 7] [4, 5, 6, 7]"
    by (simp_all add: holds_message_def)
  moreover have "relay_header ?h = [6, 0, 0, 5, 0, 0, 3, 9, 1, 0, 0, 0]" by (simp add: relay_header_def Let_def send_csid_def mem_of_int32)
  moreover have "fmt3_tail (relay_fmt3 ?g) 2 (drop 2 [4, 5, 6, 7]) = [0xC7, 6, 7]" by (simp add: relay_fmt3_def send_csid_def fmt3_tail.simps)
  ultimately show ?thesis
    using slow_player_gets_mixture [of "(conn_of [])\<lparr>chunk_size := 2\<rparr>" "\<lambda>i. if i = 0 then (?h, [0xC6, 1, 2, 3]) else (?g, [0xC6, 4, 5, 6, 7])"
        ?h "[0xC6, 1, 2, 3]" "[1, 2, 3]" 2 ?g "[0xC6, 4, 5, 6, 7]" "[4, 5, 6, 7]"] by simp
qed

text \<open>C13 (shared chunk streams): the table of chunk streams belongs to the process. When another connection
  receives a message on the chunk stream a publisher uses, the publisher's next message that leaves its
  length out is cut to the length of that other message, and its rest is taken for the next header.\<close>

theorem shared_chunk_stream_cuts:
  assumes "rx_fine (net c)" and "audio_video_buffer c = []" and "chunk_size c = int cs" and "0 < cs"
    and "idle e" and "fits m (csid_header c)" and "pending (net e) = p_wire m" and "length (p_data m) \<le> p_chunk m"
    and "pending (net c) = basic_header_bytes 3 (p_csid m) @ p"
    and "message_length (csid_at (p_csid m) c) = of_nat (length p)"
    and "length (p_data m) < length p" and "length (p_data m) \<le> cs"
  shows "\<exists>d c'. recv_drop UnknownMessage_read_payload (share c e) = Some (Ok (), d)
    \<and> recv_audio_video (share d c) = Some (Ok (), c')
    \<and> audio_video_buffer c' = basic_header_bytes 3 (p_csid m) @ take (length (p_data m)) p
    \<and> pending (net c') = drop (length (p_data m)) p"
proof -
  have r: "poised [] (share c e)" "chunk_size (share c e) = chunk_size e"
    "[] @ pending (net (share c e)) = concat (map p_wire [m]) @ []" "announced (csid_header (share c e)) [m]"
    using assms(5-7) by (simp_all add: poised_Nil)
  obtain d where d: "recv_drop UnknownMessage_read_payload (share c e) = Some (Ok (), d)"
    "csid_header d = noted m (csid_header c)" "audio_video_buffer d = audio_video_buffer c"
    using doesD [OF unknown.recv_does(2) [OF _ assms(8)] r] by (auto simp: turn_def)
  let ?n = "length (p_data m)" and ?c = "share d c"
  have s: "2 \<le> p_csid m" "p_csid m \<le> 63" "?n < 2 ^ 24" using assms(6) by (simp_all add: fits_def p_sane_def)
  have h: "header_bytes 3 (p_csid m) 0 0 0 0 = basic_header_bytes 3 (p_csid m)" by (simp add: header_bytes_def)
  have "av_sane 3 (p_csid m) 0 0 0 0 (take ?n p) ?c"
    using s assms(11) by (simp add: av_sane_def av_fields_def csid_at_entry d(2) noted_def)
  moreover have "pending (net ?c) = header_bytes 3 (p_csid m) 0 0 0 0 @ chunked 0 cs (take ?n p) @ drop ?n p"
    using assms(9,12) chunked_short [of "take ?n p" cs 0] by (simp add: h)
  ultimately show ?thesis
    using recv_audio_video_ok [of ?c cs 3 "p_csid m" 0 0 0 0 "take ?n p" 0 "drop ?n p"] assms(1-4) d h by auto
qed

theorem shared_chunk_stream_cuts_witness:
  "\<exists>d c'. recv_drop UnknownMessage_read_payload
        (share ((conn_of [0xC3, 1, 2, 3, 4])\<lparr>csid_header := [3 \<mapsto> Message_Header_init\<lparr>message_length := 4\<rparr>]\<rparr>)
          (conn_of (p_wire (sample_peer 4096 [9])))) = Some (Ok (), d)
    \<and> recv_audio_video (share d ((conn_of [0xC3, 1, 2, 3, 4])\<lparr>csid_header := [3 \<mapsto> Message_Header_init\<lparr>message_length := 4\<rparr>]\<rparr>))
        = Some (Ok (), c')
    \<and> audio_video_buffer c' = [0xC3, 1] \<and> pending (net c') = [2, 3, 4]"
proof -
  let ?c = "(conn_of [0xC3, 1, 2, 3, 4])\<lparr>csid_header := [3 \<mapsto> Message_Header_init\<lparr>message_length := 4\<rparr>]\<rparr>"
  have b: "basic_header_bytes 3 3 = [0xC3]" by (simp add: basic_header_bytes_def)
  have k: "p_csid (sample_peer 4096 [9]) = 3" by (simp add: sample_peer_def)
  have "audio_video_buffer ?c = []" by (simp add: conn_of_def Client_init_def)
  moreover have "message_length (csid_at 3 ?c) = of_nat (length [1 :: byte, 2, 3, 4])" by (simp add: csid_at_def)
  ultimately show ?thesis
    using shared_chunk_stream_cuts [of ?c 128 "conn_of (p_wire (sample_peer 4096 [9]))" "sample_peer 4096 [9]" "[1, 2, 3, 4]"]
      sample_fits [of "[9]" 4096] by (simp add: k b)
qed

text \<open>C14 (values of the wrong type): the log line of a command takes every value that is not a number for a
  string. A connect command with a boolean in it, otherwise well formed, makes the server read a
  \<open>Value_0x01\<close> as a \<open>Value_String\<close>, before it has answered anything but the handshake.\<close>

theorem connect_value_bad_cast:
  assumes "idle c" and "0 < chunk_size c" and "fits m (csid_header c)"
    and "p_data m = connect_bytes name tid kvs" and "p_chunk m = nat (chunk_size c)"
    and "name \<noteq> []" and "length name < 2 ^ 15" and "readable kvs" and "distinct (map fst kvs)"
    and "(k, Value_0x01 b) \<in> set kvs"
    and "pending (net c) = 0x03 # c1 @ c2 @ p_wire m @ rest" and "length c1 = 1536" and "length c2 = 1536"
  shows "\<exists>d. process_setup c = Some (Fault BadCast, d) \<and> sent (net d) = sent (net c) @ handshake_reply"
proof -
  have "\<not> printable_object kvs" using assms(10) by (force simp: printable_object_def list_all_iff)
  from connect_phase_bad_cast [OF assms(1-9) this assms(11-13)] show ?thesis
    by (auto simp: process_setup_def bind_act_def)
qed

theorem connect_value_bad_cast_witness:
  "\<exists>d. process_setup (conn_of (0x03 # replicate 1536 7 @ replicate 1536 9
        @ p_wire (sample_peer 128 (connect_bytes (str ''connect'') 0 [(str ''fpad'', Value_0x01 0)])) @ []))
      = Some (Fault BadCast, d)"
proof -
  let ?kvs = "[(str ''fpad'', Value_0x01 0)]"
  let ?m = "sample_peer 128 (connect_bytes (str ''connect'') 0 ?kvs)"
  let ?c = "conn_of (0x03 # replicate 1536 7 @ replicate 1536 9 @ p_wire ?m @ [])"
  have "length (connect_bytes (str ''connect'') 0 ?kvs) < 2 ^ 24"
    by (simp add: connect_bytes_def amf_one_def amf_members_def amf_end_def)
  then have f: "fits ?m (csid_header ?c)" by (rule sample_fits)
  have r: "readable ?kvs" by (simp add: readable_def str_def)
  show ?thesis
    using connect_value_bad_cast [OF conn_of_simps(3) _ f sample_data(1) _ _ _ r, of "str ''fpad''" 0 "replicate 1536 7" "replicate 1536 9" "[]"]
    by (auto simp: str_def)
qed

text \<open>C15 (threads): in every state of the State Threads library that is reached from \<open>st_init\<close> by calls,
  resumptions and rounds of the idle thread, the queues, the thread states and the event system's
  reference counts agree, and exactly one thread runs.\<close>

theorem threads_invariant:
  assumes "i \<noteq> p" and "es_tracks e {#}" and "reachable (booted i p now e) s"
  shows "sys_inv s \<and> {t \<in> live (cpu s). state_of t (cpu s) = ST_RUNNING} = {current s}"
  using reachable_inv [OF assms(3) booted_inv [OF assms(1,2)]]
  by (auto simp: sys_inv_def wf_vp_def current_def)

text \<open>Two threads, the primordial one about to make its first call, with \<open>select\<close>.\<close>

lemma select_start_tracks: "es_tracks (Select st_select_init) {#}"
  by (simp add: select_tracks_def select_counts_def st_select_init_def cnt_def)

theorem threads_invariant_witness:
  "sys_inv (booted 0 1 7 (Select st_select_init))
    \<and> {t \<in> live (cpu (booted 0 1 7 (Select st_select_init))).
        state_of t (cpu (booted 0 1 7 (Select st_select_init))) = ST_RUNNING}
      = {current (booted 0 1 7 (Select st_select_init))}"
  using threads_invariant [OF _ select_start_tracks reach_start, of 0 1 7] by simp

text \<open>C16 (threads, no failed assertion): a call made in a reachable state with objects that exist never
  runs into an assertion or a freed object, and a blocked call that is resumed always returns.\<close>

theorem threads_never_abort:
  assumes "i \<noteq> p" and "es_tracks e {#}" and "reachable (booted i p now e) s" and "user_turn s"
    and "permitted c (cpu s)"
  shows "if pc s (current s) = User then fst (exec c (evs s) (cpu s)) \<noteq> Abort
    else resumed (pc s (current s)) (evs s) (cpu s) \<noteq> None"
proof -
  have i: "sys_inv s" by (rule reachable_inv [OF assms(3) booted_inv [OF assms(1,2)]])
  have "pc s (current s) = User \<Longrightarrow> fst (exec c (evs s) (cpu s)) \<noteq> Abort"
    using call_ok [OF i assms(4) _ assms(5)] by (auto simp: after_call_def split: prod.splits)
  moreover have "pc s (current s) \<noteq> User \<Longrightarrow> resumed (pc s (current s)) (evs s) (cpu s) \<noteq> None"
    using resume_ok [OF i assms(4)] by (auto simp: after_resume_def split: option.splits)
  ultimately show ?thesis by simp
qed

lemma booted_simps:
  assumes "i \<noteq> p"
  shows "evs (booted i p now e) = e" "pc (booted i p now e) = (\<lambda>_. User)" "current (booted i p now e) = p"
    "user_turn (booted i p now e)" "active_count (cpu (booted i p now e)) = 1" "live (cpu (booted i p now e)) = {i, p}"
proof -
  obtain v where "st_init True True True True now i p vp_zero = (0, v)" "active_count v = 1"
    "this_thread v = p" "idle_thread v = i" "live v = {i, p}"
    using init_ok [of vp_zero i p now] assms by (auto simp: vp_zero_def)
  then show "evs (booted i p now e) = e" "pc (booted i p now e) = (\<lambda>_. User)" "current (booted i p now e) = p"
    "user_turn (booted i p now e)" "active_count (cpu (booted i p now e)) = 1" "live (cpu (booted i p now e)) = {i, p}"
    using assms by (simp_all add: booted_def current_def user_turn_def)
qed

theorem threads_never_abort_witness:
  "fst (exec (CSleep 5) (Select st_select_init) (cpu (booted 2 3 7 (Select st_select_init)))) \<noteq> Abort"
  using threads_never_abort [OF _ select_start_tracks reach_start, of 2 3 7 "CSleep 5"]
  by (simp add: booted_simps)



text \<open>C18 (mutexes, ownership): in a state with the invariant, a \<open>st_mutex_lock\<close> that had to wait returns 0
  only to the thread that owns the mutex then, and \<open>EINTR\<close> only to one that does not.\<close>

theorem mutex_lock_owner:
  assumes "sys_inv s" and "user_turn s" and "pc s (current s) = InLock l"
  shows "\<exists>r v'. st_mutex_lock_end l (cpu s) = Some (r, v')
    \<and> (r = Ret 0 \<and> map_option owner (mutexes v' l) = Some (Some (current s))
       \<or> r = Fail EINTR \<and> map_option owner (mutexes v' l) \<noteq> Some (Some (current s)))"
proof -
  obtain r v' where "st_mutex_lock_end l (cpu s) = Some (r, v')"
    using resume_ok [OF assms(1,2)] assms(3) by (auto simp: after_resume_def split: option.splits)
  then show ?thesis using lock_owner [OF assms, of r "evs s" v'] by simp
qed

text \<open>The primordial thread has waited for mutex 0 and has been handed it.\<close>

definition handed_state :: sys where
  "handed_state = (let s = booted 2 3 7 (Select st_select_init)
     in s\<lparr>cpu := (cpu s)\<lparr>mutexes := [0 \<mapsto> \<lparr>owner = Some 3, lock_q = [3]\<rparr>]\<rparr>, pc := (\<lambda>_. User)(3 := InLock 0)\<rparr>)"

lemma handed_state_inv: "sys_inv handed_state" "user_turn handed_state" "current handed_state = 3"
  "pc handed_state 3 = InLock 0"
proof -
  let ?s = "booted 2 3 7 (Select st_select_init)"
  have i: "sys_inv ?s" by (rule booted_inv [OF _ select_start_tracks]) simp
  note b = booted_simps [of 2 3 7 "Select st_select_init", simplified]
  show c: "current handed_state = 3" "pc handed_state 3 = InLock 0" "user_turn handed_state"
    using b(3,4) by (simp_all add: handed_state_def Let_def current_def user_turn_def)
  have t: "cond_q (cpu ?s) = Map.empty" "io_q (cpu ?s) = []"
    by (simp_all add: booted_def st_init_def vp_zero_def st_thread_create_def add_runq_def upd_def)
  have "runs 3 (cpu ?s)" using pcs_okD(1) [OF sys_invD(2) [OF i], of 3] b(2,6) by simp
  moreover have "runs 2 (cpu ?s)" using pcs_okD(1) [OF sys_invD(2) [OF i], of 2] b(2,6) by simp
  moreover have "idle_thread (cpu ?s) = 2"
    using sys_invD(1) [OF i] by (simp add: booted_def st_init_def vp_zero_def st_thread_create_def add_runq_def upd_def)
  ultimately have "pcs_ok (cpu handed_state) (pc handed_state)"
    using pcs_okD(5-9) [OF sys_invD(2) [OF i]] b(6) t
    by (auto simp: pcs_ok_def handed_state_def Let_def queue_ok_def)
  then show "sys_inv handed_state" using sys_invD [OF i] by (simp add: sys_inv_def handed_state_def Let_def gathered_def)
qed

theorem mutex_lock_owner_witness:
  "\<exists>r v'. st_mutex_lock_end 0 (cpu handed_state) = Some (r, v')
    \<and> (r = Ret 0 \<and> map_option owner (mutexes v' 0) = Some (Some 3)
       \<or> r = Fail EINTR \<and> map_option owner (mutexes v' 0) \<noteq> Some (Some 3))"
  using mutex_lock_owner [of handed_state 0] handed_state_inv by simp

text \<open>C19 (mutexes, no lost hand-over): in every reachable state a mutex that nobody owns has no thread
  blocked on it.\<close>

theorem mutex_never_left:
  assumes "i \<noteq> p" and "es_tracks e {#}" and "reachable (booted i p now e) s"
  shows "mutexes (cpu s) l = Some m \<longrightarrow> owner m = None \<longrightarrow> t \<in> set (lock_q m) \<longrightarrow>
    state_of t (cpu s) \<noteq> ST_LOCK_WAIT"
  using reachable_handed [OF assms(3) booted_inv [OF assms(1,2)] booted_handed [OF assms(1)]]
  by (auto simp: handed_def)

lemma reach_mutex:
  "\<exists>s. reachable (booted 2 3 7 (Select st_select_init)) s \<and> mutexes (cpu s) 0 = Some \<lparr>owner = None, lock_q = []\<rparr>"
proof -
  let ?s = "booted 2 3 7 (Select st_select_init)"
  have "mutexes (cpu ?s) 0 = None"
    by (simp add: booted_def st_init_def vp_zero_def st_thread_create_def add_runq_def upd_def)
  then have "step ?s (?s\<lparr>cpu := st_mutex_new 0 (cpu ?s), evs := Select st_select_init,
      pc := (case CMutexNew 0 of CCreate t \<Rightarrow> (pc ?s)(t := User) | _ \<Rightarrow> pc ?s)\<rparr>)"
    by (intro step_return [where r = "Ret 0"]) (simp_all add: booted_simps)
  note r = reach_step [OF reach_start this]
  show ?thesis by (rule exI, rule conjI, rule r) (simp add: st_mutex_new_def set_mutex_def)
qed

theorem mutex_never_left_witness:
  "\<exists>s. reachable (booted 2 3 7 (Select st_select_init)) s \<and> mutexes (cpu s) 0 \<noteq> None
    \<and> (\<forall>m t. mutexes (cpu s) 0 = Some m \<longrightarrow> owner m = None \<longrightarrow> t \<in> set (lock_q m) \<longrightarrow>
        state_of t (cpu s) \<noteq> ST_LOCK_WAIT)"
proof -
  obtain s where s: "reachable (booted 2 3 7 (Select st_select_init)) s" "mutexes (cpu s) 0 \<noteq> None"
    using reach_mutex by fastforce
  have "\<forall>m t. mutexes (cpu s) 0 = Some m \<longrightarrow> owner m = None \<longrightarrow> t \<in> set (lock_q m) \<longrightarrow>
      state_of t (cpu s) \<noteq> ST_LOCK_WAIT"
    using mutex_never_left [OF _ select_start_tracks s(1), of 0] by simp
  with s show ?thesis by blast
qed







text \<open>C22 (end of stream): at the end of the stream \<open>st_read_fully\<close> returns the bytes that were left, and the
  loop of \<open>read_nbytes_cycle\<close>, which takes that for progress, never ends.\<close>

theorem read_cycle_hangs_at_eof:
  assumes "rx_fine s" and "rx_closed s" and "length (pending s) < n"
  shows "read_cycle_loop st_read_fully n 0 [] s = None"
  by (rule st.cycle_hangs [OF assms])

theorem read_cycle_hangs_at_eof_witness:
  "read_cycle_loop st_read_fully 4 0 [] \<lparr>rx = [Seg 1 [2]], rx_closed = True, tx = [], sent = []\<rparr> = None"
  by (rule read_cycle_hangs_at_eof) (simp_all add: rx_fine_def pending_def)

text \<open>C23 (writing): what \<open>st_writev\<close> puts on the wire is a prefix of the vectors, and all of them when it
  reports success, which it does on a connection without errors.\<close>

theorem st_writev_complete:
  assumes "st_writev True iov s = (r, s')"
  shows "(\<exists>k. sent s' = sent s @ take k (concat iov)
      \<and> (\<forall>m. r = Some m \<longrightarrow> m = length (concat iov) \<and> m \<le> k)) \<and> (tx_fine s \<longrightarrow> r = Some (length (concat iov)))"
proof
  show "\<exists>k. sent s' = sent s @ take k (concat iov) \<and> (\<forall>m. r = Some m \<longrightarrow> m = length (concat iov) \<and> m \<le> k)"
    by (rule st_writev_sent [OF assms])
  show "tx_fine s \<longrightarrow> r = Some (length (concat iov))"
    using st_out.wv_complete [of s iov] assms by auto
qed

theorem st_writev_complete_witness:
  "\<exists>s'. st_writev True [[1, 2], [3]] \<lparr>rx = [], rx_closed = False, tx = [Room 1, WErr EINTR], sent = []\<rparr>
      = (Some 3, s')"
proof -
  obtain r s' where r: "st_writev True [[1, 2], [3]] \<lparr>rx = [], rx_closed = False, tx = [Room 1, WErr EINTR],
      sent = []\<rparr> = (r, s')" by fastforce
  show ?thesis using st_writev_complete [OF r] r by (auto simp: tx_fine_def)
qed

text \<open>C24 (waiting for I/O): after \<open>select\<close> reports, exactly the threads with a ready descriptor become
  runnable, in the order they wait; the event system goes on tracking what the others wait for.\<close>

theorem select_wakes_exactly_ready:
  assumes "wf_vp v" and "ioq_idle v" and "select_tracks d (mset (keys (gathered v)))"
  shows "\<exists>d' v'. st_select_dispatch (Selected r w e) bad d v = Some (d', v') \<and> wf_vp v'
    \<and> run_q v' = run_q v @ filter (\<lambda>t. list_ex (ready r w e) (pds (pollqs v t))) (io_q v)
    \<and> select_tracks d' (mset (keys (gathered v')))"
proof -
  obtain d' v' where d: "st_select_dispatch (Selected r w e) bad d v = Some (d', v')" "wf_vp v'"
    "select_tracks d' (mset (keys (gathered v')))"
    using select_dispatch_ok [OF assms] by blast
  have "\<exists>eo. select_look r w e x ps = (list_ex fired (map (select_revents r w e) ps), map (select_revents r w e) ps, eo)"
    for x ps by (auto simp: select_look_def select_release_def Let_def)
  from walk_woken [of "select_look r w e" "select_revents r w e" "io_q v" "d\<lparr>maxfd := -1\<rparr>" v d' v', OF this]
  have "run_q v' = run_q v @ filter (\<lambda>t. list_ex fired (map (select_revents r w e) (pds (pollqs v t)))) (io_q v)"
    using d(1) assms(2) by (simp add: st_select_dispatch_def ioq_idle_def)
  then show ?thesis using d by (auto simp: list_ex_iff fired_select)
qed

text \<open>The idle thread runs, thread 3 waits for input on descriptor 5.\<close>

definition sample_pd :: pollfd where "sample_pd = \<lparr>fd = 5, events = POLLIN, revents = 0\<rparr>"

definition sample_vp :: vp where
  "sample_vp = vp_zero\<lparr>live := {2, 3}, thr := (\<lambda>t. if t = 3 then (new_thread None)\<lparr>state := ST_IO_WAIT\<rparr>
       else (new_thread None)\<lparr>state := ST_RUNNING, flags := {FL_IDLE_THREAD}\<rparr>),
     this_thread := 2, idle_thread := 2, io_q := [3],
     pollqs := (\<lambda>_. \<lparr>pds = [sample_pd], on_ioq = True\<rparr>)\<rparr>"

lemma sample_vp_ok: "wf_vp sample_vp" "ioq_idle sample_vp" "gathered sample_vp = [sample_pd]"
  "select_tracks (snd (st_select_pollset_add [sample_pd] st_select_init)) {#(5, POLLIN)#}"
proof -
  show "wf_vp sample_vp" using sq.empty_inv sq.empty_due
    by (auto simp: wf_vp_def wf_queues_def sample_vp_def vp_zero_def new_thread_def has_flag_def)
  show "ioq_idle sample_vp" by (simp add: ioq_idle_def sample_vp_def)
  show "gathered sample_vp = [sample_pd]" by (simp add: gathered_def sample_vp_def)
  have "st_select_pollset_add [sample_pd] st_select_init = (Ret 0, snd (st_select_pollset_add [sample_pd] st_select_init))"
    by (simp add: st_select_pollset_add_def select_valid_def sample_pd_def POLLIN_def POLLOUT_def POLLPRI_def POLL_EVENTS_def FD_SETSIZE_def)
  then show "select_tracks (snd (st_select_pollset_add [sample_pd] st_select_init)) {#(5, POLLIN)#}"
    using se.add_ok [of st_select_init "{#}" "[sample_pd]"] select_start_tracks
    by (auto simp: keys_def sample_pd_def)
qed

theorem select_wakes_exactly_ready_witness:
  "\<exists>d' v'. st_select_dispatch (Selected {5} {} {}) (\<lambda>_. False)
      (snd (st_select_pollset_add [sample_pd] st_select_init)) sample_vp = Some (d', v') \<and> run_q v' = [3]"
proof -
  have "select_tracks (snd (st_select_pollset_add [sample_pd] st_select_init)) (mset (keys (gathered sample_vp)))"
    using sample_vp_ok(3,4) by (simp add: keys_def sample_pd_def)
  from select_wakes_exactly_ready [OF sample_vp_ok(1,2) this, of "{5}" "{}" "{}" "\<lambda>_. False"] show ?thesis
    by (auto simp: sample_vp_def vp_zero_def ready_def sample_pd_def wants_def)
qed

text \<open>C25 (sleeping): checking the clock makes exactly the threads runnable whose time has come (marked as
  timed out if they wait on a condition variable), and takes exactly them off the sleep queue.\<close>

theorem check_clock_wakes_exactly_due:
  assumes "wf_queues v"
  shows "\<exists>v'. st_vp_check_clock now wall v = Some v' \<and> wf_queues v' \<and> ticked now v v'"
  by (rule check_clock_ok [OF assms])

theorem check_clock_wakes_exactly_due_witness:
  "\<exists>v v'. add_sleepq 3 10 sample_vp = Some v \<and> st_vp_check_clock 20 0 v = Some v' \<and> wf_queues v' \<and> ticked 20 v v'"
proof -
  have w: "wf_queues sample_vp" using sample_vp_ok(1) by (simp add: wf_vp_def)
  obtain q where "add_sleepq 3 10 sample_vp = Some (set_flag 3 FL_ON_SLEEPQ (sample_vp\<lparr>sleepq := q\<rparr>))"
    "wf_queues (set_flag 3 FL_ON_SLEEPQ (sample_vp\<lparr>sleepq := q\<rparr>))"
    using add_sleepq_ok [OF w, of 3 10] by (auto simp: sample_vp_def vp_zero_def new_thread_def has_flag_def waiting_def)
  then show ?thesis using check_clock_wakes_exactly_due [of _ 20 0] by blast
qed

text \<open>C26 (sleep queue): the timeout heap is a map from threads to due times: adding and deleting change one
  entry, and the first node is the one that is due first.\<close>

theorem sleep_queue_refines_map:
  assumes "sleepq_inv q"
  shows "if sleepq_due q t = None
      then \<exists>q'. st_add_sleep_q t d q = Some q' \<and> sleepq_inv q' \<and> sleepq_due q' = (sleepq_due q)(t \<mapsto> d)
        \<and> (\<exists>u x. heap_first q' = Some (u, x) \<and> (\<forall>y \<in> ran (sleepq_due q'). x \<le> y))
      else \<exists>q'. st_del_sleep_q t q = Some q' \<and> sleepq_inv q' \<and> sleepq_due q' = (sleepq_due q)(t := None)"
proof (cases "sleepq_due q t = None")
  case True
  obtain q' where q: "st_add_sleep_q t d q = Some q'" "sleepq_inv q'" "sleepq_due q' = (sleepq_due q)(t \<mapsto> d)"
    using sq.add_ok [OF assms True, of d] by blast
  obtain u x where u: "heap_first q' = Some (u, x)"
    using sq.first_None [OF q(2)] q(3) by (cases "heap_first q'") auto
  have "\<forall>y \<in> ran (sleepq_due q'). x \<le> y" using sq.first_Some [OF q(2) u] by (auto simp: ran_def)
  then show ?thesis using True q u by auto
next
  case False
  then show ?thesis using sq.del_ok [OF assms, of t] by auto
qed

theorem sleep_queue_refines_map_witness:
  "\<exists>q'. st_add_sleep_q 3 10 sleepq_empty = Some q' \<and> sleepq_due q' = [3 \<mapsto> 10]"
  using sleep_queue_refines_map [OF sq.empty_inv, of 3 10] sq.empty_due by auto

text \<open>C27 (registering): whichever event system is in use, registering a set of descriptors is all or
  nothing: when it fails, also half way, what was tracked stays tracked and nothing else is.\<close>

theorem pollset_add_atomic:
  assumes "es_tracks e M"
  shows "\<exists>r e'. pollset_add ps e = Some (r, e')
    \<and> es_tracks e' (case r of Ret x \<Rightarrow> M + mset (keys ps) | Fail er \<Rightarrow> M)"
  by (rule es.add_ok [OF assms])

theorem pollset_add_atomic_witness:
  "\<exists>d r e'. st_epoll_init 4 3 True True 77 = Some d \<and> pollset_add [sample_pd] (Epoll d) = Some (r, e')
    \<and> es_tracks e' (case r of Ret x \<Rightarrow> {#(5, POLLIN)#} | Fail er \<Rightarrow> {#})"
proof -
  obtain d where d: "st_epoll_init 4 3 True True 77 = Some d" "es_tracks (Epoll d) {#}"
    by (auto simp: st_epoll_init_def epoll_tracks_def fd_counts_def Let_def ST_EPOLL_EVTLIST_SIZE_def fd_zero_def)
  have k: "mset (keys [sample_pd]) = {#(5, POLLIN)#}" by (simp add: keys_def sample_pd_def)
  show ?thesis using pollset_add_atomic [OF d(2), of "[sample_pd]", unfolded k add_0_left] d(1) by blast
qed

text \<open>C28 (kqueue): after \<open>kevent\<close> reports events it was asked for, exactly the threads that wait for one of
  them (or on a descriptor with an error) become runnable, in the order they wait; what the others wait
  for stays counted and registered.\<close>

theorem kqueue_wakes_exactly_ready:
  assumes "wf_vp v" and "ioq_idle v" and "kq_tracks d (mset (keys (gathered v)))" and "kev_key ` set es \<subseteq> kq_asked d"
  shows "\<exists>d' v'. st_kq_dispatch pid newkq (Kevents es) again d v = Some (d', v') \<and> wf_vp v'
    \<and> run_q v' = run_q v @ filter (\<lambda>t. list_ex (kq_ready es) (pds (pollqs v t))) (io_q v)
    \<and> kq_tracks d' (mset (keys (gathered v')))"
proof -
  have r: "kq_reply_ok (Kevents es) d" using assms(4) by (simp add: kq_reply_ok_def)
  note f = kq_submit_events [OF assms(3) r]
  obtain d' v' where d: "kq_events es (kq_submit (Kevents es) d) v = Some (d', v')" "wf_vp v'"
    "kq_tracks d' (mset (keys (gathered v')))"
    using kq_events_ok [OF assms(1,2) f] by blast
  then show ?thesis using kq_events_wakes [OF assms(2) f d(1)] by (simp add: st_kq_dispatch_def)
qed

text \<open>A fresh kqueue, and the same with a request for input on descriptor 5.\<close>

definition sample_kq :: kqdata where
  "sample_kq = \<lparr>kq_fd_data = replicate 1024 kq_zero, kq_evtlist_size = 64, addlist = [], addlist_size = 64,
     dellist = [], dellist_size = 64, kq = 3, kq_pid = 77, registered = {}, kq_mem = [], kq_intr = []\<rparr>"

lemma sample_kq_init: "st_kq_init True (Inr 3) True True 77 = (Ret 0, [], Some sample_kq)"
  by (simp add: st_kq_init_def sample_kq_def FD_SETSIZE_def ST_KQ_MIN_EVTLIST_SIZE_def)

lemma sample_kq_tracks: "kq_tracks sample_kq {#}"
  by (auto simp: kq_tracks_def kq_counts_def kq_covers_def kq_fits_def kq_asked_def kq_quiet_def sample_kq_def kq_zero_def
      kcnt_def split: kq_filter.splits)

theorem kqueue_wakes_exactly_ready_witness:
  "\<exists>d d' v'. st_kq_pollset_add [sample_pd] sample_kq = Some (Ret 0, d)
    \<and> st_kq_dispatch 77 0 (Kevents [kq_change 5 EVFILT_READ 0]) (Kevents []) d sample_vp = Some (d', v') \<and> run_q v' = [3]"
proof -
  have "list_all (\<lambda>pd. kq_request (length (kq_fd_data sample_kq)) (fd pd, events pd)) [sample_pd]"
    by (simp add: kq_request_def sample_kq_def sample_pd_def POLLIN_def POLLOUT_def)
  from kq_add_good [OF sample_kq_tracks _ this] obtain d where d: "st_kq_pollset_add [sample_pd] sample_kq = Some (Ret 0, d)"
    "kq_tracks d (mset (keys (gathered sample_vp)))"
    using sample_vp_ok(3) by (auto simp: sample_kq_def keys_def)
  have "0 \<le> kq d" "0 < cnt (kbit EVFILT_READ) 5 (mset (keys (gathered sample_vp)))"
    using d(1) sample_vp_ok(3)
    by (auto simp: st_kq_pollset_add_def kq_add1_def kq_get_def kq_put_def sample_kq_def sample_pd_def keys_def Let_def
        st_kq_addlist_add_def wants_def POLLIN_def POLLOUT_def kq_zero_def split: if_splits)
  then have "(5, EVFILT_READ) \<in> kq_asked d" using d(2) by (simp add: kq_tracks_def kq_covers_def)
  then have "kev_key ` set [kq_change 5 EVFILT_READ 0] \<subseteq> kq_asked d" by simp
  from kqueue_wakes_exactly_ready [OF sample_vp_ok(1,2) d(2) this, of 77 0 "Kevents []"] d(1) show ?thesis
    by (auto simp: sample_vp_def vp_zero_def kq_ready_def kq_change_def sample_pd_def wants_def)
qed

text \<open>C29 (kqueue, no lost registration): in every reachable state of the library on kqueue, each filter a
  thread on the I/O queue waits for is registered with the kernel or about to be with the next call.\<close>

theorem kqueue_registrations_kept:
  assumes "i \<noteq> p" and "kq_tracks d0 {#}" and "reachable (booted i p now (Kqueue d0)) s" and "evs s = Kqueue d" and "0 \<le> kq d"
    and "t \<in> set (io_q (cpu s))" and "pd \<in> set (pds (pollqs (cpu s) t))" and "wants (kbit flt) pd"
  shows "(fd pd, flt) \<in> registered d \<union> kev_key ` set (addlist d)"
proof -
  have "es_tracks (Kqueue d0) {#}" using assms(2) by simp
  then have "kq_tracks d (mset (keys (gathered (cpu s))))"
    using reachable_inv [OF assms(3) booted_inv [OF assms(1)]] assms(4) by (simp add: sys_inv_def)
  moreover have "(fd pd, events pd) \<in># mset (keys (gathered (cpu s)))"
    using assms(6,7) by (force simp: gathered_def keys_def)
  then have "0 < cnt (kbit flt) (fd pd) (mset (keys (gathered (cpu s))))"
    using assms(8) by (auto simp: cnt_pos wants_def intro!: bexI [of _ "(fd pd, events pd)"])
  ultimately show ?thesis using assms(5) by (simp add: kq_tracks_def kq_covers_def kq_asked_def)
qed

text \<open>The primordial thread polls descriptor 5 on a kqueue.\<close>

lemma sample_kq_add: "\<exists>d. st_kq_pollset_add [sample_pd] sample_kq = Some (Ret 0, d) \<and> kq d = 3"
  by (simp add: st_kq_pollset_add_def kq_add1_def kq_get_def kq_put_def sample_kq_def sample_pd_def Let_def
        st_kq_addlist_add_def wants_def POLLIN_def POLLOUT_def kq_zero_def)

lemma reach_poll:
  "\<exists>s d. reachable (booted 2 3 7 (Kqueue sample_kq)) s \<and> evs s = Kqueue d \<and> kq d = 3
    \<and> io_q (cpu s) = [3] \<and> pds (pollqs (cpu s) 3) = [sample_pd]"
proof -
  let ?s = "booted 2 3 7 (Kqueue sample_kq)"
  obtain d where d: "st_kq_pollset_add [sample_pd] sample_kq = Some (Ret 0, d)" "kq d = 3" using sample_kq_add by blast
  obtain v' where v: "exec (CPoll [sample_pd] (-1)) (Kqueue sample_kq) (cpu ?s) = (Block v', Kqueue d)"
    "io_q v' = [3]" "pds (pollqs v' 3) = [sample_pd]"
    using d by (simp add: st_poll_def booted_def st_init_def vp_zero_def st_thread_create_def add_runq_def upd_def
        interrupted_def has_flag_def new_thread_def Let_def opt_sleepq_def ST_UTIME_NO_TIMEOUT_def thread_ops
        switch_context_def st_vp_schedule_def resume_def)
  have "step ?s (?s\<lparr>cpu := v', evs := Kqueue d, pc := (pc ?s)(current ?s := pend_of (CPoll [sample_pd] (-1)))\<rparr>)"
    by (rule step_block) (use v(1) in \<open>simp_all add: booted_simps\<close>)
  note r = reach_step [OF reach_start this]
  show ?thesis by (intro exI [of _ d] exI conjI, rule r) (simp_all add: v d)
qed

theorem kqueue_registrations_kept_witness:
  "\<exists>s d. reachable (booted 2 3 7 (Kqueue sample_kq)) s \<and> evs s = Kqueue d \<and> io_q (cpu s) = [3]
    \<and> (5, EVFILT_READ) \<in> registered d \<union> kev_key ` set (addlist d)"
proof -
  obtain s d where s: "reachable (booted 2 3 7 (Kqueue sample_kq)) s" "evs s = Kqueue d" "kq d = 3"
    "io_q (cpu s) = [3]" "pds (pollqs (cpu s) 3) = [sample_pd]" using reach_poll by blast
  then show ?thesis
    using kqueue_registrations_kept [OF _ sample_kq_tracks s(1,2), of 3 sample_pd EVFILT_READ]
    by (auto simp: sample_pd_def wants_def POLLIN_def)
qed



text \<open>C32 (timestamps): receiving a format-0 message stores twice its timestamp, because the timestamp is
  also stored as the delta and then added; the other fields, the payload and the rest of the stream
  are right.\<close>

theorem format0_timestamp_doubled:
  assumes "rx_fine (net c)" and "audio_video_buffer c = []" and "chunk_size c = int cs" and "0 < cs"
    and "av_sane 0 csid ts mlen mtype sid p c"
    and "pending (net c) = header_bytes 0 csid ts mlen mtype sid @ chunked f3 cs p @ rest"
  shows "\<exists>c'. recv_audio_video c = Some (Ok (), c') \<and> pending (net c') = rest
    \<and> audio_video_buffer c' = header_bytes 0 csid ts mlen mtype sid @ p
    \<and> timestamp (csid_at csid c') = 2 * ts \<and> message_length (csid_at csid c') = mlen
    \<and> message_type (csid_at csid c') = mtype \<and> stream_id (csid_at csid c') = sid"
proof -
  obtain c' where "recv_audio_video c = Some (Ok (), c')" "pending (net c') = rest"
    "audio_video_buffer c' = header_bytes 0 csid ts mlen mtype sid @ p"
    "csid_header c' = (csid_header c)(csid \<mapsto> av_fields 0 ts mlen mtype sid (csid_at csid c))"
    using recv_audio_video_ok [OF assms] by blast
  then show ?thesis by (intro exI [of _ c']) (simp add: csid_at_def av_fields_def)
qed

theorem format0_timestamp_doubled_witness:
  "\<exists>c'. recv_audio_video sample_publisher = Some (Ok (), c') \<and> timestamp (csid_at 6 c') = 10"
proof -
  have w: "pending (net sample_publisher) = header_bytes 0 6 5 3 9 1 @ chunked 0xC6 2 [1, 2, 3] @ []"
    using sample_stream(4) by (simp add: av_wire_def av_head_def sample_message_def)
  have "av_sane 0 6 5 3 9 1 [1, 2, 3] sample_publisher"
    by (simp add: av_sane_def av_fields_def)
  from format0_timestamp_doubled [OF sample_stream(1,3,2) _ this w] show ?thesis by auto
qed

text \<open>C33 (linked lists): the link macros implement a queue: after any sequence of appends the list holds the
  elements in order, its head is the first of them, and any element can be unlinked from the middle.\<close>

theorem clist_is_queue:
  assumes "distinct (xs @ e # ys)" and "h \<notin> set (xs @ e # ys)"
  shows "clist (fold (\<lambda>x. ST_APPEND_LINK x h) (xs @ e # ys) (ST_INIT_CLIST h s)) h (xs @ e # ys)
    \<and> clist (ST_REMOVE_LINK e (fold (\<lambda>x. ST_APPEND_LINK x h) (xs @ e # ys) (ST_INIT_CLIST h s))) h (xs @ ys)
    \<and> ST_LIST_HEAD h (fold (\<lambda>x. ST_APPEND_LINK x h) (xs @ e # ys) (ST_INIT_CLIST h s)) = hd (xs @ [e])"
proof -
  let ?s = "fold (\<lambda>x. ST_APPEND_LINK x h) (xs @ e # ys) (ST_INIT_CLIST h s)"
  have a: "clist ?s h (xs @ e # ys)"
    using cl.append_many [OF cl.init_holds, of "xs @ e # ys" h s] assms by auto
  then have "clist (ST_REMOVE_LINK e ?s) h (xs @ ys)" by (rule cl.remove_holds)
  moreover have "ST_LIST_HEAD h ?s = hd (xs @ [e])" using cl.head_holds [of ?s h] a by (cases xs) auto
  ultimately show ?thesis using a by blast
qed

theorem clist_is_queue_witness:
  "ST_LIST_HEAD 0 (fold (\<lambda>x. ST_APPEND_LINK x 0) [4, 5, 6] (ST_INIT_CLIST 0 \<lparr>next_of = (\<lambda>_. 0), prev_of = (\<lambda>_. 0)\<rparr>)) = 4"
  using clist_is_queue [of "[4]" 5 "[6]" 0 "\<lparr>next_of = (\<lambda>_. 0), prev_of = (\<lambda>_. 0)\<rparr>"] by simp

section \<open>The caches\<close>

text \<open>A cache for two entries in three buckets, and a client that makes it evict.\<close>

definition sample_cache :: "(64 word, nat) cache" where
  "sample_cache = the (stx_cache_create True True 2 100 3 (\<lambda>k. k) (\<lambda>x y. if x = y then 0 else 1) True)"

definition sample_cache_ops :: "(64 word, nat) cache_op list" where
  "sample_cache_ops = [Op_insert 1 7 70 10, Op_release 1, Op_insert 2 8 80 10, Op_insert 3 10 90 10, Op_lookup 8, Op_release 2]"

lemma sample_cache_create:
  "stx_cache_create True True 2 100 3 (\<lambda>k. k) (\<lambda>x y. if x = y then 0 else 1) True = Some sample_cache"
  by (simp add: sample_cache_def stx_cache_create_def)

lemma sample_cache_legal: "legal_ops (sample_cache_ops @ [Op_insert 4 7 71 10]) sample_cache"
  by (simp add: sample_cache_def sample_cache_ops_def lru_eval word_le_nat_alt)

lemma sample_cache_cmp: "(if x = y then 0 else (1 :: int)) = 0 \<longleftrightarrow> x = y"
  by simp

lemma sample_cache_held: "\<exists>c e. run_ops sample_cache_ops sample_cache = Some c \<and> heap c 3 = Some e \<and> ref_count e = 1 \<and> ce_data e = 90"
  by (simp add: sample_cache_def sample_cache_ops_def lru_eval word_le_nat_alt)

text \<open>C34 (LRU cache): whatever the clients of a cache do, every operation comes to an end and touches only entries
  that exist, the size and the weight are those of the entries and within their bounds, an entry is on the list of
  the unused ones exactly when its count is zero, and no two live entries have the same key.\<close>

theorem lru_cache_invariant:
  assumes "stx_cache_create True True sz wt n h cmp cl = Some c0" and "0 < n" and "\<And>x y. cmp x y = 0 \<longleftrightarrow> x = y"
    and "legal_ops ops c0"
  shows "\<exists>c. run_ops ops c0 = Some c \<and> cur_size c \<le> sz \<and> unat (cur_size c) = card (dom (heap c))
    \<and> cur_weight c \<le> wt \<and> unat (cur_weight c) = (\<Sum>a \<in> dom (heap c). unat (ce_weight (the (heap c a))))
    \<and> (\<forall>a e. heap c a = Some e \<longrightarrow> 0 \<le> ref_count e \<and> (ref_count e = 0 \<longleftrightarrow> a \<in> set (lru_list c)))
    \<and> (\<forall>a e b e'. heap c a = Some e \<and> heap c b = Some e' \<and> ce_key e = ce_key e' \<and> \<not> delete_pending e \<and> \<not> delete_pending e' \<longrightarrow> a = b)"
proof -
  obtain c cs where c: "run_ops ops c0 = Some c" "client_inv c cs" "config c = config c0"
    using client_run [OF created_ok [OF assms(1-3)] assms(4)] by blast
  have "max_size c = sz" "max_weight c = wt" using c(3) assms(1) by (auto simp: config_def stx_cache_create_def)
  then show ?thesis using c(1) client_counts [OF c(2)] by (intro exI [of _ c]) auto
qed

theorem lru_cache_invariant_witness:
  "\<exists>c. run_ops (sample_cache_ops @ [Op_insert 4 7 71 10]) sample_cache = Some c \<and> cur_size c \<le> 2 \<and> unat (cur_size c) = card (dom (heap c))"
  using lru_cache_invariant [OF sample_cache_create _ sample_cache_cmp sample_cache_legal] by auto

text \<open>C35 (use counts): an entry somebody holds stays in memory with its key and its data until it is released,
  whatever the other clients insert, look up, delete or empty.\<close>

theorem held_entry_survives:
  assumes "stx_cache_create True True sz wt n h cmp cl = Some c0" and "0 < n" and "\<And>x y. cmp x y = 0 \<longleftrightarrow> x = y"
    and "legal_ops (ops @ ops2) c0" and "run_ops ops c0 = Some c" and "heap c a = Some e" and "0 < ref_count e" and "Op_release a \<notin> set ops2"
  shows "\<exists>c' e'. run_ops ops2 c = Some c' \<and> heap c' a = Some e' \<and> ce_key e' = ce_key e \<and> ce_data e' = ce_data e \<and> ref_count e \<le> ref_count e'"
proof -
  have l: "legal_ops ops c0" "legal_ops ops2 c" using legal_append [OF assms(4,5)] by simp_all
  obtain cs where "client_inv c cs" using client_run [OF created_ok [OF assms(1-3)] l(1)] assms(5) by auto
  then obtain c' where "run_ops ops2 c = Some c'" "survives a c c'" using client_run [OF _ l(2)] assms(8) by blast
  then show ?thesis using assms(6,7) by (auto simp: survives_def)
qed

theorem held_entry_survives_witness:
  "\<exists>c c' e'. run_ops sample_cache_ops sample_cache = Some c \<and> run_ops [Op_insert 4 7 71 10] c = Some c' \<and> heap c' 3 = Some e' \<and> ce_data e' = 90"
proof -
  obtain c e where c: "run_ops sample_cache_ops sample_cache = Some c" "heap c 3 = Some e" "ref_count e = 1" "ce_data e = 90"
    using sample_cache_held by blast
  have "\<exists>c' e'. run_ops [Op_insert 4 7 71 10] c = Some c' \<and> heap c' 3 = Some e' \<and> ce_key e' = ce_key e \<and> ce_data e' = ce_data e \<and> ref_count e \<le> ref_count e'"
    by (rule held_entry_survives [OF sample_cache_create _ sample_cache_cmp sample_cache_legal c(1,2)]) (simp_all add: c(3))
  then show ?thesis using c(1,4) by metis
qed

text \<open>A cache of host names, asked twice for the same name, in different case.\<close>

definition sample_dns :: dns where
  "sample_dns = snd (stx_dns_cache_init True True 2 10000 3 \<lparr>stx_dns_cache = None, stx_dns_ttl = -1, dns_now = 0\<rparr>)"

definition sample_dns_events :: "dns_event list" where
  "sample_dns_events = [Ask [0x41, 0x62] 1 True, Answer True 1 [0x41, 0x62] [1, 2] 60, Tick 30]"

lemma sample_dns_init: "stx_dns_cache_init True True 2 10000 3 \<lparr>stx_dns_cache = None, stx_dns_ttl = -1, dns_now = 0\<rparr> = (0, sample_dns)"
  by (simp add: sample_dns_def stx_dns_cache_init_def stx_cache_create_def)

lemma sample_dns_legal: "legal_events (sample_dns_events @ [Ask [0x61, 0x42] 1 True]) sample_dns"
  by code_simp

lemma sample_dns_answer: "map_option fst (dns_run (sample_dns_events @ [Ask [0x61, 0x42] 1 True]) sample_dns) = Some ([None] @ [Some [1]])"
  by code_simp

text \<open>C36 (DNS cache): in every interleaving of requests, of what the resolver answers and of the clock, the hash table with its
  use counts behaves like a list of answers in the order of their last use: what is found moves to the end, what
  has expired goes, and a new answer evicts from the front until it fits.\<close>

theorem dns_cache_refines:
  assumes "stx_dns_cache_init True True sz bytes n s0 = (r, s)" and "0 < n" and "unat bytes + weight_bound < 2 ^ 64" and "legal_events qs s"
  shows "r = 0 \<and> (\<exists>out s' c. dns_run qs s = Some (out, s') \<and> stx_dns_cache s' = Some c
    \<and> spec_events (unat sz) (unat bytes) qs ([], dns_now s0) = (out, rows c, dns_now s'))"
proof -
  obtain c where c: "r = 0" "dns_now s = dns_now s0" "dns_inv sz bytes s c" "rows c = []" using dns_init_ok [OF assms(2,1)] by blast
  then show ?thesis using dns_run_ok [OF c(3) assms(4,3)] by (auto simp: dns_inv_def)
qed

theorem dns_cache_refines_witness:
  "\<exists>out s' c. dns_run (sample_dns_events @ [Ask [0x61, 0x42] 1 True]) sample_dns = Some (out, s') \<and> stx_dns_cache s' = Some c
    \<and> spec_events 2 10000 (sample_dns_events @ [Ask [0x61, 0x42] 1 True]) ([], 0) = (out, rows c, dns_now s')"
  using dns_cache_refines [OF sample_dns_init _ _ sample_dns_legal] by (simp add: weight_defs)

text \<open>C37 (cached answers): an answer the DNS cache gives is the answer stored last for that name, in lower case and cut
  after 127 bytes, it has not expired, and as many addresses are written as there are or as there is room for.\<close>

theorem dns_answer_source:
  assumes "stx_dns_cache_init True True sz bytes n s0 = (r, s)" and "0 < n" and "unat bytes + weight_bound < 2 ^ 64"
    and "legal_events (qs @ [Ask hostname room rot]) s" and "dns_run (qs @ [Ask hostname room rot]) s = Some (outs @ [Some out], s')"
  shows "\<exists>xs expires. last_stored (dns_now s0) qs (lower_host hostname) xs expires \<and> dns_now s0 + elapsed qs \<le> expires
    \<and> set out \<subseteq> set xs \<and> length out = min (nat room) (length xs)"
proof -
  obtain c where c: "dns_now s = dns_now s0" "dns_inv sz bytes s c" "rows c = []" using dns_init_ok [OF assms(2,1)] by blast
  show ?thesis using answer_source [OF c(2,3) assms(4,3,5)] unfolding c(1) .
qed

theorem dns_answer_source_witness:
  "\<exists>xs expires. last_stored 0 sample_dns_events [0x61, 0x62] xs expires \<and> 30 \<le> expires \<and> set [1 :: 32 word] \<subseteq> set xs"
proof -
  obtain s' where s: "dns_run (sample_dns_events @ [Ask [0x61, 0x42] 1 True]) sample_dns = Some ([None] @ [Some [1]], s')"
    using sample_dns_answer by auto
  have "lower_host [0x61, 0x42] = [0x61, 0x62]" by (simp add: lower_host_def HOST_SIZE_def tolower_def)
  moreover have "elapsed sample_dns_events = 30" by (simp add: sample_dns_events_def)
  ultimately show ?thesis using dns_answer_source [OF sample_dns_init _ _ sample_dns_legal s] by (auto simp: weight_defs)
qed

section \<open>The resolver and file input\<close>










text \<open>C40 (file input): as long as each answer of the child comes in time and no read is longer than the child's buffer, any
  sequence of \<open>stx_file_read\<close> calls returns exactly the bytes of the file at each offset, up to its end. A
  read that times out leaves its answer to the next one, whatever that asks for.\<close>

theorem file_input_exact:
  assumes "file_reader True True f 0 = Some s" and "f \<noteq> -1"
    and "\<forall>(off, n) \<in> set qs. 0 \<le> off \<and> off < 2 ^ 63 \<and> 0 < n \<and> n \<le> int FILEREADER_MAX_READ"
  shows "file_reads (regular content) qs s = Some (map (\<lambda>(off, n). (int (length (wanted content off n)), wanted content off n)) qs)
    \<and> (\<forall>off n off1 n1. 0 \<le> off \<and> off < 2 ^ 63 \<and> 0 < n \<and> n \<le> n1 \<and> n1 \<le> int FILEREADER_MAX_READ
          \<and> 0 \<le> off1 \<and> off1 < 2 ^ 63 \<longrightarrow>
        (\<exists>s1 s2. file_read (regular content) 0 off n s = Some ((-1, []), s1)
          \<and> file_read (regular content) 2 off1 n1 s1 = Some ((int (length (wanted content off n)), wanted content off n), s2)))"
proof -
  have i: "in_step s" by (rule fresh_in_step [OF assms(1,2)])
  have "length (wanted content o1 n1) \<le> FILEREADER_MAX_READ" if "0 < n1" "n1 \<le> int FILEREADER_MAX_READ" for o1 n1
    using length_wanted [of n1 content o1] that by simp
  moreover have "int (length (wanted content o1 n)) \<le> n1" if "0 < n" "n \<le> n1" for o1 n n1
    using length_wanted [of n content o1] that by simp
  ultimately show ?thesis using file_reads_ok [OF i assms(3)] late_answer [OF i]
    by (auto simp: FILEREADER_MAX_READ_def)
qed

theorem file_input_exact_witness:
  "\<exists>s. file_reader True True 5 0 = Some s
    \<and> file_reads (regular [1, 2, 3, 4]) [(2, 1024), (0, 2), (9, 1)] s = Some [(2, [3, 4]), (2, [1, 2]), (0, [])]"
proof -
  obtain s where s: "file_reader True True 5 0 = Some s" by (simp add: file_reader_def)
  from file_input_exact [OF this, of "[(2, 1024), (0, 2), (9, 1)]" "[1, 2, 3, 4]"]
  have "file_reads (regular [1, 2, 3, 4]) [(2, 1024), (0, 2), (9, 1)] s = Some [(2, [3, 4]), (2, [1, 2]), (0, [])]"
    by (simp add: FILEREADER_MAX_READ_def wanted_def)
  with s show ?thesis by blast
qed

end
